(* ===== verification/Prelude.thy ===== *)
theory Prelude
  imports Main "HOL-Library.Word"
begin

text \<open>
  Shared vocabulary of the development: the machine integer types of the C source, the
  kernel monad in which the operations of every kernel component are written, the
  weakest-precondition calculus for it, and generic lemmas on lists and words.

  A kernel operation is a function from the state to an \<open>outcome\<close>: it returns a value
  and a new state (\<open>Ok\<close>), it calls \<open>panic\<close> with a message (\<open>Panic\<close>), it gives up
  the CPU by switching to the scheduler context and leaves the state as it is at the
  moment of the switch (\<open>Swtch\<close>), or it busy-waits for something only another CPU can
  change (\<open>Spin\<close>).
\<close>

section \<open>Machine integers\<close>

type_synonym u8 = "8 word"
type_synonym u16 = "16 word"
type_synonym u32 = "32 word"
type_synonym bytes = "u8 list"

section \<open>The kernel monad\<close>

datatype ('a, 's) outcome = Ok 'a 's | Panic string | Swtch 's | Spin

type_synonym ('s, 'a) kernel = "'s \<Rightarrow> ('a, 's) outcome"

definition ret :: "'a \<Rightarrow> ('s, 'a) kernel" where
  "ret a = (\<lambda>s. Ok a s)"

definition bindK :: "('s, 'a) kernel \<Rightarrow> ('a \<Rightarrow> ('s, 'b) kernel) \<Rightarrow> ('s, 'b) kernel" where
  "bindK m f = (\<lambda>s. case m s of Ok a s' \<Rightarrow> f a s' | Panic e \<Rightarrow> Panic e | Swtch s' \<Rightarrow> Swtch s' | Spin \<Rightarrow> Spin)"

definition seqK :: "('s, 'a) kernel \<Rightarrow> ('s, 'b) kernel \<Rightarrow> ('s, 'b) kernel" where
  "seqK m n = bindK m (\<lambda>_. n)"

definition panic :: "string \<Rightarrow> ('s, 'a) kernel" where
  "panic e = (\<lambda>s. Panic e)"

definition spin :: "('s, 'a) kernel" where
  "spin = (\<lambda>s. Spin)"

definition getsK :: "('s \<Rightarrow> 'a) \<Rightarrow> ('s, 'a) kernel" where
  "getsK f = (\<lambda>s. Ok (f s) s)"

definition modifyK :: "('s \<Rightarrow> 's) \<Rightarrow> ('s, unit) kernel" where
  "modifyK f = (\<lambda>s. Ok () (f s))"

definition whenK :: "bool \<Rightarrow> ('s, unit) kernel \<Rightarrow> ('s, unit) kernel" where
  "whenK b m = (if b then m else ret ())"

text \<open>A loop that runs its body for every element of a list, in order.\<close>

fun forK :: "'x list \<Rightarrow> ('x \<Rightarrow> ('s, unit) kernel) \<Rightarrow> ('s, unit) kernel" where
  "forK [] f = ret ()"
| "forK (x # xs) f = seqK (f x) (forK xs f)"

text \<open>A sequence of statements, so that a run can also be stopped between two of them.\<close>

definition seqsK :: "('s, unit) kernel list \<Rightarrow> ('s, unit) kernel" where
  "seqsK ms = forK ms (\<lambda>m. m)"

text \<open>What an \<open>int\<close> variable of 32 bits holds after the assignment of \<open>x\<close>.\<close>

definition wrap32 :: "int \<Rightarrow> int" where
  "wrap32 x = (x + 2 ^ 31) mod 2 ^ 32 - 2 ^ 31"

text \<open>
  Two readings of an operation. \<open>wp m Q s\<close>: the operation returns and its result
  satisfies \<open>Q\<close> (total: no panic, no switch, no spinning). \<open>wlp m Q R s\<close>: if it
  returns, the result satisfies \<open>Q\<close>, and if it switches to the scheduler, the state at
  the switch satisfies \<open>R\<close>.
\<close>

definition wp :: "('s, 'a) kernel \<Rightarrow> ('a \<Rightarrow> 's \<Rightarrow> bool) \<Rightarrow> 's \<Rightarrow> bool" where
  "wp m Q s = (case m s of Ok a s' \<Rightarrow> Q a s' | Panic e \<Rightarrow> False | Swtch s' \<Rightarrow> False | Spin \<Rightarrow> False)"

definition wlp :: "('s, 'a) kernel \<Rightarrow> ('a \<Rightarrow> 's \<Rightarrow> bool) \<Rightarrow> ('s \<Rightarrow> bool) \<Rightarrow> 's \<Rightarrow> bool" where
  "wlp m Q R s = (case m s of Ok a s' \<Rightarrow> Q a s' | Panic e \<Rightarrow> True | Swtch s' \<Rightarrow> R s' | Spin \<Rightarrow> True)"

section \<open>Searching a table\<close>

text \<open>
  The loop \<open>for(p = tab; p < &tab[N]; p++) if(test(p)) goto found;\<close> over a table of the
  kernel: the index of the first entry that passes the test.
\<close>

fun find_index :: "('a \<Rightarrow> bool) \<Rightarrow> 'a list \<Rightarrow> nat option" where
  "find_index P [] = None"
| "find_index P (x # xs) = (if P x then Some 0 else map_option Suc (find_index P xs))"

named_theorems kernel_simps \<open>equations that run a kernel operation on a state\<close>

section \<open>Lemmas on the monad\<close>

lemma ret_run [simp]: "ret a s = Ok a s"
  by (simp add: ret_def)

lemma panic_run [simp]: "panic e s = Panic e"
  by (simp add: panic_def)

lemma spin_run [simp]: "spin s = Spin"
  by (simp add: spin_def)

lemma getsK_run [simp]: "getsK f s = Ok (f s) s"
  by (simp add: getsK_def)

lemma modifyK_run [simp]: "modifyK f s = Ok () (f s)"
  by (simp add: modifyK_def)

lemma whenK_simps [simp]: "whenK True m = m" "whenK False m = ret ()"
  by (simp_all add: whenK_def)

lemma bindK_Ok: "m s = Ok a s' \<Longrightarrow> bindK m f s = f a s'"
  by (simp add: bindK_def)

lemma seqK_Ok: "m s = Ok a s' \<Longrightarrow> seqK m n s = n s'"
  by (simp add: seqK_def bindK_def)

lemma bindK_ret [simp]: "bindK (ret a) f = f a"
  by (simp add: bindK_def fun_eq_iff)

lemma bindK_ret_right [simp]: "bindK m ret = m"
  by (simp add: bindK_def fun_eq_iff split: outcome.split)

lemma bindK_assoc: "bindK (bindK m f) g = bindK m (\<lambda>a. bindK (f a) g)"
  by (simp add: bindK_def fun_eq_iff split: outcome.split)

lemma bindK_eq_Ok:
  "bindK m f s = Ok b t \<longleftrightarrow> (\<exists>a s'. m s = Ok a s' \<and> f a s' = Ok b t)"
  by (simp add: bindK_def split: outcome.split)

lemma seqK_eq_Ok: "seqK m n s = Ok b t \<longleftrightarrow> (\<exists>a s'. m s = Ok a s' \<and> n s' = Ok b t)"
  by (simp add: seqK_def bindK_eq_Ok)

lemma bindK_run: "bindK m f s = (case m s of Ok a s' \<Rightarrow> f a s' | Panic e \<Rightarrow> Panic e | Swtch s' \<Rightarrow> Swtch s' | Spin \<Rightarrow> Spin)"
  by (simp add: bindK_def)

lemma seqK_run: "seqK m n s = (case m s of Ok a s' \<Rightarrow> n s' | Panic e \<Rightarrow> Panic e | Swtch s' \<Rightarrow> Swtch s' | Spin \<Rightarrow> Spin)"
  by (simp add: seqK_def bindK_def)

lemma run_Panic: "m s = Panic e \<Longrightarrow> bindK m f s = Panic e" "m s = Panic e \<Longrightarrow> seqK m n s = Panic e"
  by (simp_all add: bindK_run seqK_run)

lemma run_Swtch: "m s = Swtch t \<Longrightarrow> bindK m f s = Swtch t" "m s = Swtch t \<Longrightarrow> seqK m n s = Swtch t"
  by (simp_all add: bindK_run seqK_run)

lemma run_Spin: "m s = Spin \<Longrightarrow> bindK m f s = Spin" "m s = Spin \<Longrightarrow> seqK m n s = Spin"
  by (simp_all add: bindK_run seqK_run)

lemmas run_simps = bindK_run seqK_run

lemma wp_ret [simp]: "wp (ret a) Q s = Q a s"
  by (simp add: wp_def)

lemma wp_bindK [simp]: "wp (bindK m f) Q s = wp m (\<lambda>a. wp (f a) Q) s"
  by (simp add: wp_def bindK_def split: outcome.split)

lemma wp_seqK [simp]: "wp (seqK m n) Q s = wp m (\<lambda>_. wp n Q) s"
  by (simp add: seqK_def)

lemma wp_getsK [simp]: "wp (getsK f) Q s = Q (f s) s"
  by (simp add: wp_def)

lemma wp_modifyK [simp]: "wp (modifyK f) Q s = Q () (f s)"
  by (simp add: wp_def)

lemma wp_panic [simp]: "\<not> wp (panic e) Q s"
  by (simp add: wp_def)

lemma wp_if: "wp (if b then m else n) Q s = (if b then wp m Q s else wp n Q s)"
  by simp

lemma wp_Ok: "m s = Ok a s' \<Longrightarrow> wp m Q s = Q a s'"
  by (simp add: wp_def)

lemma wp_mono: "wp m Q s \<Longrightarrow> (\<And>a t. Q a t \<Longrightarrow> Q' a t) \<Longrightarrow> wp m Q' s"
  by (simp add: wp_def split: outcome.splits)

lemma wpD: "wp m Q s \<Longrightarrow> \<exists>a t. m s = Ok a t \<and> Q a t"
  by (simp add: wp_def split: outcome.splits)

lemma wpI: "m s = Ok a t \<Longrightarrow> Q a t \<Longrightarrow> wp m Q s"
  by (simp add: wp_def)

lemma wlp_ret [simp]: "wlp (ret a) Q R s = Q a s"
  by (simp add: wlp_def)

lemma wlp_bindK [simp]: "wlp (bindK m f) Q R s = wlp m (\<lambda>a. wlp (f a) Q R) R s"
  by (simp add: wlp_def bindK_def split: outcome.split)

lemma wlp_seqK [simp]: "wlp (seqK m n) Q R s = wlp m (\<lambda>_. wlp n Q R) R s"
  by (simp add: seqK_def)

lemma wlp_getsK [simp]: "wlp (getsK f) Q R s = Q (f s) s"
  by (simp add: wlp_def)

lemma wlp_modifyK [simp]: "wlp (modifyK f) Q R s = Q () (f s)"
  by (simp add: wlp_def)

lemma wlp_panic [simp]: "wlp (panic e) Q R s"
  by (simp add: wlp_def)

lemma wlp_spin [simp]: "wlp spin Q R s"
  by (simp add: wlp_def)

lemma wlp_mono:
  "wlp m Q R s \<Longrightarrow> (\<And>a t. Q a t \<Longrightarrow> Q' a t) \<Longrightarrow> (\<And>t. R t \<Longrightarrow> R' t) \<Longrightarrow> wlp m Q' R' s"
  by (simp add: wlp_def split: outcome.splits)

lemma wlp_Ok: "wlp m Q R s \<Longrightarrow> m s = Ok a t \<Longrightarrow> Q a t"
  by (simp add: wlp_def)

lemma wlp_Swtch: "wlp m Q R s \<Longrightarrow> m s = Swtch t \<Longrightarrow> R t"
  by (simp add: wlp_def)

lemma forK_append: "forK (xs @ ys) f s = seqK (forK xs f) (forK ys f) s"
  by (induction xs arbitrary: s) (simp_all add: seqK_run split: outcome.split)

lemma seqsK_simps [simp]:
  "seqsK [] = ret ()" "seqsK (m # ms) = seqK m (seqsK ms)"
  by (simp_all add: seqsK_def)

lemma wrap32_id [simp]: "- (2 ^ 31) \<le> x \<Longrightarrow> x < 2 ^ 31 \<Longrightarrow> wrap32 x = x"
  by (simp add: wrap32_def)

section \<open>Ring buffers\<close>

text \<open>
  \<open>k\<close> elements of a ring buffer from the slot of the free-running index \<open>r\<close> on, and the
  indices themselves: 32-bit counters taken modulo a buffer size that divides \<open>2 ^ 32\<close>.
\<close>

definition ring :: "'a list \<Rightarrow> nat \<Rightarrow> nat \<Rightarrow> 'a list" where
  "ring b r k = map (\<lambda>j. b ! ((r + j) mod length b)) [0..<k]"

lemma mod_add_inj: "i < (m :: nat) \<Longrightarrow> j < m \<Longrightarrow> (a + i) mod m = (a + j) mod m \<Longrightarrow> i = j"
proof (induction i j rule: linorder_wlog)
  case (le i j)
  then have "m dvd (a + j) - (a + i)" using mod_eq_dvd_iff_nat [of "a + i" "a + j" m] by simp
  with le show ?case using dvd_imp_le [of m "j - i"] by (cases "i = j") auto
qed simp

lemma length_ring [simp]: "length (ring b r k) = k"
  by (simp add: ring_def)

lemma ring_keep: "k \<le> n \<Longrightarrow> n < length b \<Longrightarrow> ring (b[(r + n) mod length b := c]) r k = ring b r k"
proof -
  assume k: "k \<le> n" "n < length b"
  have "b[(r + n) mod length b := c] ! ((r + j) mod length b) = b ! ((r + j) mod length b)" if "j < k" for j
  proof -
    have "(r + n) mod length b \<noteq> (r + j) mod length b"
      using mod_add_inj [of n "length b" j r] that k by auto
    then show ?thesis by simp
  qed
  then show ?thesis by (simp add: ring_def)
qed

lemma ring_put: "k < length b \<Longrightarrow> ring (b[(r + k) mod length b := c]) r (Suc k) = ring b r k @ [c]"
proof -
  assume k: "k < length b"
  then have "(r + k) mod length b < length b" by (intro mod_less_divisor) linarith
  then have "ring (b[(r + k) mod length b := c]) r (Suc k) = ring (b[(r + k) mod length b := c]) r k @ [c]"
    by (simp add: ring_def)
  with ring_keep [of k k b r c] k show ?thesis by simp
qed

lemma ring_get: "ring b r (Suc k) = b ! (r mod length b) # ring b (Suc r) k"
proof -
  have "[0..<Suc k] = 0 # map Suc [0..<k]" by (simp add: map_Suc_upt upt_conv_Cons del: upt_Suc)
  then show ?thesis by (simp add: ring_def del: upt_Suc)
qed

lemma ring_split: "ring b r (j + k) = ring b r j @ ring b (r + j) k"
  by (rule nth_equalityI) (auto simp: ring_def nth_append)

lemma ring_mod: "ring b (r mod length b) k = ring b r k"
  by (simp add: ring_def mod_add_left_eq)

lemma unat_plus_mod:
  fixes x :: u32
  assumes "n dvd 2 ^ 32"
  shows "unat (x + of_nat j) mod n = (unat x + j) mod n"
proof -
  have "unat (x + of_nat j) = (unat x + j mod 2 ^ 32) mod 2 ^ 32"
    by (simp add: unat_word_ariths unat_of_nat)
  also have "\<dots> mod n = (unat x + j mod 2 ^ 32) mod n" by (rule mod_mod_cancel [OF assms])
  also have "\<dots> = (unat x + j mod 2 ^ 32 mod n) mod n" by (rule mod_add_right_eq [symmetric])
  also have "j mod 2 ^ 32 mod n = j mod n" by (rule mod_mod_cancel [OF assms])
  also have "(unat x + j mod n) mod n = (unat x + j) mod n" by (rule mod_add_right_eq)
  finally show ?thesis .
qed

section \<open>Lemmas on table search\<close>

lemma find_index_None: "find_index P xs = None \<longleftrightarrow> (\<forall>x \<in> set xs. \<not> P x)"
  by (induction xs) auto

lemma find_index_Some:
  "find_index P xs = Some i \<longleftrightarrow> i < length xs \<and> P (xs ! i) \<and> (\<forall>j < i. \<not> P (xs ! j))"
proof (induction xs arbitrary: i)
  case Nil
  then show ?case by simp
next
  case (Cons x xs)
  show ?case
    by (cases i) (auto simp: Cons.IH All_less_Suc2 nth_Cons split: nat.splits)
qed

lemma find_index_less: "find_index P xs = Some i \<Longrightarrow> i < length xs"
  by (simp add: find_index_Some)

lemma find_index_sat: "find_index P xs = Some i \<Longrightarrow> P (xs ! i)"
  by (simp add: find_index_Some)

lemma find_index_ex: "i < length xs \<Longrightarrow> P (xs ! i) \<Longrightarrow> \<exists>j. find_index P xs = Some j"
  by (metis find_index_None not_None_eq nth_mem)

end
