(* ===== verification/Spinlock.thy ===== *)
theory Spinlock
  imports Prelude
begin

text \<open>
  Spin locks and interrupt nesting (\<open>src/spinlock.c\<close>, \<open>src/spinlock.h\<close>, the lock and
  interrupt fields of \<open>struct cpu\<close> in \<open>src/proc.h\<close>). The record \<open>base\<close> is the root
  of the kernel state: the other components extend it, so that \<open>acquire\<close> and
  \<open>release\<close> run on the state of each of them. The debugging fields of a lock
  (\<open>pcs\<close>, the call stack of the holder) are not part of the state.
\<close>

section \<open>State\<close>

datatype lockid =
    Ptable_lock | Bcache_lock | Log_lock | Icache_lock | Ftable_lock | Kmem_lock
  | Ticks_lock | Ide_lock | Cons_lock | Input_lock | Pipe_lock u32

record spinlock =
  locked :: u32
  lk_name :: string
  lk_cpu :: "nat option"

text \<open>
  The part of \<open>struct cpu\<close> that C code reads and writes. \<open>iflag\<close> is the \<open>FL_IF\<close>
  bit of the flags register, \<open>cproc\<close> the field \<open>proc\<close> (an index into the process
  table), \<open>cr3\<close> the page table register and \<open>esp0\<close> the kernel stack pointer of the
  task state segment.
\<close>

record cpu =
  ncli :: int
  intena :: bool
  iflag :: bool
  cproc :: "nat option"
  cr3 :: u32
  esp0 :: u32

record base =
  locks :: "lockid \<Rightarrow> spinlock"
  cpus :: "nat \<Rightarrow> cpu"
  mycpu :: nat

section \<open>Operations\<close>

definition cur_cpu :: "'a base_scheme \<Rightarrow> cpu" where
  "cur_cpu s = cpus s (mycpu s)"

definition upd_cpu :: "(cpu \<Rightarrow> cpu) \<Rightarrow> 'a base_scheme \<Rightarrow> 'a base_scheme" where
  "upd_cpu f s = s\<lparr>cpus := (cpus s)(mycpu s := f (cpus s (mycpu s)))\<rparr>"

definition upd_lock :: "lockid \<Rightarrow> (spinlock \<Rightarrow> spinlock) \<Rightarrow> 'a base_scheme \<Rightarrow> 'a base_scheme" where
  "upd_lock l f s = s\<lparr>locks := (locks s)(l := f (locks s l))\<rparr>"

definition initlock :: "lockid \<Rightarrow> string \<Rightarrow> ('a base_scheme, unit) kernel" where
  "initlock l name = modifyK (upd_lock l (\<lambda>lk. lk\<lparr>lk_name := name, locked := 0, lk_cpu := None\<rparr>))"

definition cli :: "('a base_scheme, unit) kernel" where
  "cli = modifyK (upd_cpu (\<lambda>c. c\<lparr>iflag := False\<rparr>))"

definition sti :: "('a base_scheme, unit) kernel" where
  "sti = modifyK (upd_cpu (\<lambda>c. c\<lparr>iflag := True\<rparr>))"

definition xchg :: "lockid \<Rightarrow> u32 \<Rightarrow> ('a base_scheme, u32) kernel" where
  "xchg l new =
     bindK (getsK (\<lambda>s. locked (locks s l))) (\<lambda>old.
     seqK (modifyK (upd_lock l (\<lambda>lk. lk\<lparr>locked := new\<rparr>)))
     (ret old))"

definition pushcli :: "('a base_scheme, unit) kernel" where
  "pushcli =
     bindK (getsK (\<lambda>s. iflag (cur_cpu s))) (\<lambda>eflags.
     seqK cli
     (bindK (getsK (\<lambda>s. ncli (cur_cpu s))) (\<lambda>n.
      seqK (modifyK (upd_cpu (\<lambda>c. c\<lparr>ncli := n + 1\<rparr>)))
      (whenK (n = 0) (modifyK (upd_cpu (\<lambda>c. c\<lparr>intena := eflags\<rparr>)))))))"

definition popcli :: "('a base_scheme, unit) kernel" where
  "popcli =
     bindK (getsK (\<lambda>s. iflag (cur_cpu s))) (\<lambda>eflags.
     if eflags then panic ''popcli - interruptible''
     else
       seqK (modifyK (upd_cpu (\<lambda>c. c\<lparr>ncli := ncli c - 1\<rparr>)))
       (bindK (getsK cur_cpu) (\<lambda>c.
        if ncli c < 0 then panic ''popcli''
        else whenK (ncli c = 0 \<and> intena c) sti)))"

definition holding :: "lockid \<Rightarrow> ('a base_scheme, bool) kernel" where
  "holding l = getsK (\<lambda>s. locked (locks s l) \<noteq> 0 \<and> lk_cpu (locks s l) = Some (mycpu s))"

definition acquire :: "lockid \<Rightarrow> ('a base_scheme, unit) kernel" where
  "acquire l =
     seqK pushcli
     (bindK (holding l) (\<lambda>h.
      if h then panic ''acquire''
      else bindK (xchg l 1) (\<lambda>old.
        if old \<noteq> 0 then spin
        else bindK (getsK mycpu) (\<lambda>c. modifyK (upd_lock l (\<lambda>lk. lk\<lparr>lk_cpu := Some c\<rparr>))))))"

definition release :: "lockid \<Rightarrow> ('a base_scheme, unit) kernel" where
  "release l =
     bindK (holding l) (\<lambda>h.
     if \<not> h then panic ''release''
     else
       seqK (modifyK (upd_lock l (\<lambda>lk. lk\<lparr>lk_cpu := None\<rparr>)))
       (seqK (xchg l 0)
        popcli))"

section \<open>Running a critical section\<close>

text \<open>
  \<open>acq_st l s\<close> is the state inside a critical section of the lock \<open>l\<close> entered from
  \<open>s\<close>; \<open>lock_ok l s\<close> says that the running CPU can enter it: the lock is free and
  \<open>intena\<close> agrees with the interrupt flag at nesting depth 0, as it does after every
  \<open>release\<close>.
\<close>

definition settled :: "'a base_scheme \<Rightarrow> bool" where
  "settled s = (0 \<le> ncli (cur_cpu s) \<and>
     (if ncli (cur_cpu s) = 0 then intena (cur_cpu s) = iflag (cur_cpu s)
      else \<not> iflag (cur_cpu s)))"

definition lock_free :: "lockid \<Rightarrow> 'a base_scheme \<Rightarrow> bool" where
  "lock_free l s = (locked (locks s l) = 0 \<and> lk_cpu (locks s l) = None)"

definition lock_ok :: "lockid \<Rightarrow> 'a base_scheme \<Rightarrow> bool" where
  "lock_ok l s = (lock_free l s \<and> settled s)"

definition acq_st :: "lockid \<Rightarrow> 'a base_scheme \<Rightarrow> 'a base_scheme" where
  "acq_st l s =
     upd_lock l (\<lambda>lk. lk\<lparr>locked := 1, lk_cpu := Some (mycpu s)\<rparr>)
       (upd_cpu (\<lambda>c. c\<lparr>ncli := ncli c + 1, iflag := False\<rparr>) s)"

section \<open>CPUs competing for a lock\<close>

text \<open>
  The interleaved execution of \<open>acquire\<close> and \<open>release\<close> on one lock by any number of
  CPUs. Each CPU is at a point of the two functions: outside, spinning on
  \<open>xchg(&lk->locked, 1)\<close>, between the successful exchange and \<open>lk->cpu = cpu\<close>, in its
  critical section, or between \<open>lk->cpu = 0\<close> and \<open>xchg(&lk->locked, 0)\<close>. A step is one
  atomic action of one CPU, run with the operations above; a CPU outside with interrupt
  nesting 0 may also change its interrupt flag.
\<close>

datatype lockpc = Outside | Spinning | Acquired | Critical | Releasing

record lockmach =
  lk_state :: base
  lk_pc :: "nat \<Rightarrow> lockpc"

definition on_cpu :: "nat \<Rightarrow> lockmach \<Rightarrow> base" where
  "on_cpu c m = (lk_state m)\<lparr>mycpu := c\<rparr>"

inductive lock_step :: "lockid \<Rightarrow> lockmach \<Rightarrow> lockmach \<Rightarrow> bool" for l where
  enter: "lk_pc m c = Outside \<Longrightarrow> bindK pushcli (\<lambda>_. holding l) (on_cpu c m) = Ok False t \<Longrightarrow>
     lock_step l m \<lparr>lk_state = t, lk_pc = (lk_pc m)(c := Spinning)\<rparr>"
| miss: "lk_pc m c = Spinning \<Longrightarrow> xchg l 1 (on_cpu c m) = Ok old t \<Longrightarrow> old \<noteq> 0 \<Longrightarrow>
     lock_step l m \<lparr>lk_state = t, lk_pc = lk_pc m\<rparr>"
| hit: "lk_pc m c = Spinning \<Longrightarrow> xchg l 1 (on_cpu c m) = Ok 0 t \<Longrightarrow>
     lock_step l m \<lparr>lk_state = t, lk_pc = (lk_pc m)(c := Acquired)\<rparr>"
| record_cpu: "lk_pc m c = Acquired \<Longrightarrow>
     lock_step l m \<lparr>lk_state = upd_lock l (\<lambda>lk. lk\<lparr>lk_cpu := Some c\<rparr>) (on_cpu c m),
                    lk_pc = (lk_pc m)(c := Critical)\<rparr>"
| clear_cpu: "lk_pc m c = Critical \<Longrightarrow> holding l (on_cpu c m) = Ok True t \<Longrightarrow>
     lock_step l m \<lparr>lk_state = upd_lock l (\<lambda>lk. lk\<lparr>lk_cpu := None\<rparr>) t,
                    lk_pc = (lk_pc m)(c := Releasing)\<rparr>"
| leave: "lk_pc m c = Releasing \<Longrightarrow> bindK (xchg l 0) (\<lambda>_. popcli) (on_cpu c m) = Ok () t \<Longrightarrow>
     lock_step l m \<lparr>lk_state = t, lk_pc = (lk_pc m)(c := Outside)\<rparr>"
| interrupts: "lk_pc m c = Outside \<Longrightarrow>
     lock_step l m (m\<lparr>lk_state := upd_cpu (\<lambda>k. k\<lparr>iflag := b\<rparr>) (on_cpu c m)\<rparr>)"

definition lock_init :: "lockid \<Rightarrow> lockmach \<Rightarrow> bool" where
  "lock_init l m = (lock_free l (lk_state m) \<and>
     (\<forall>c. lk_pc m c = Outside \<and> ncli (cpus (lk_state m) c) = 0))"

inductive lock_reach :: "lockid \<Rightarrow> lockmach \<Rightarrow> bool" for l where
  start: "lock_init l m \<Longrightarrow> lock_reach l m"
| step: "lock_reach l m \<Longrightarrow> lock_step l m n \<Longrightarrow> lock_reach l n"

text \<open>What the protocol keeps: the lock word is 1 exactly while some CPU is past the
  exchange, that CPU is unique, and interrupts are off on every CPU inside.\<close>

definition past_xchg :: "lockpc \<Rightarrow> bool" where
  "past_xchg pc = (pc = Acquired \<or> pc = Critical \<or> pc = Releasing)"

definition linv :: "u32 \<Rightarrow> nat option \<Rightarrow> (nat \<Rightarrow> lockpc) \<Rightarrow> (nat \<Rightarrow> int) \<Rightarrow> (nat \<Rightarrow> bool) \<Rightarrow> bool" where
  "linv w k pc n i =
     ((\<forall>c d. past_xchg (pc c) \<longrightarrow> past_xchg (pc d) \<longrightarrow> c = d) \<and>
      (\<forall>c. past_xchg (pc c) \<longrightarrow> w = 1) \<and>
      ((\<forall>c. \<not> past_xchg (pc c)) \<longrightarrow> w = 0) \<and>
      (\<forall>c. (k = Some c) = (pc c = Critical)) \<and>
      (\<forall>c. n c = (if pc c = Outside then 0 else 1)) \<and>
      (\<forall>c. pc c \<noteq> Outside \<longrightarrow> \<not> i c))"

definition lock_inv :: "lockid \<Rightarrow> lockmach \<Rightarrow> bool" where
  "lock_inv l m = linv (locked (locks (lk_state m) l)) (lk_cpu (locks (lk_state m) l)) (lk_pc m)
     (ncli \<circ> cpus (lk_state m)) (iflag \<circ> cpus (lk_state m))"

section \<open>Lemmas: one CPU\<close>

lemma acquire_ok [kernel_simps]: "lock_ok l s \<Longrightarrow> acquire l s = Ok () (acq_st l s)"
  by (auto simp: acquire_def pushcli_def cli_def holding_def xchg_def acq_st_def lock_ok_def
      lock_free_def settled_def upd_cpu_def upd_lock_def cur_cpu_def run_simps whenK_def
      fun_upd_def intro!: base.equality)

lemma release_acq [kernel_simps]: "lock_ok l s \<Longrightarrow> release l (acq_st l s) = Ok () s"
  by (auto simp: release_def popcli_def sti_def holding_def xchg_def acq_st_def lock_ok_def
      lock_free_def settled_def upd_cpu_def upd_lock_def cur_cpu_def run_simps whenK_def
      fun_upd_def fun_eq_iff intro!: base.equality spinlock.equality cpu.equality split: if_splits)


lemma acq_st_simps [simp]:
  "mycpu (acq_st l s) = mycpu s"
  "cproc (cur_cpu (acq_st l s)) = cproc (cur_cpu s)"
  "ncli (cur_cpu (acq_st l s)) = ncli (cur_cpu s) + 1"
  "\<not> iflag (cur_cpu (acq_st l s))"
  "intena (cur_cpu (acq_st l s)) = intena (cur_cpu s)"
  by (simp_all add: acq_st_def upd_lock_def upd_cpu_def cur_cpu_def)

lemma lock_free_acq_st [simp]: "l \<noteq> k \<Longrightarrow> lock_free k (acq_st l s) = lock_free k s"
  by (simp add: lock_free_def acq_st_def upd_lock_def upd_cpu_def)

lemma settled_acq_st [simp]: "settled s \<Longrightarrow> settled (acq_st l s)"
  by (simp add: settled_def)

lemma lock_ok_acq_st [simp]: "lock_ok k s \<Longrightarrow> l \<noteq> k \<Longrightarrow> lock_ok k (acq_st l s)"
  by (simp add: lock_ok_def)

lemma holding_acq_st [kernel_simps]: "holding l (acq_st l s) = Ok True (acq_st l s)"
  by (simp add: holding_def acq_st_def upd_lock_def upd_cpu_def)

lemma acquire_twice: "settled s \<Longrightarrow> acquire l (acq_st l s) = Panic ''acquire''"
  by (simp add: acquire_def pushcli_def cli_def holding_def acq_st_def upd_lock_def upd_cpu_def
      cur_cpu_def run_simps whenK_def settled_def)

lemma release_free: "lock_free l s \<Longrightarrow> release l s = Panic ''release''"
  by (simp add: release_def holding_def lock_free_def run_simps)

text \<open>
  What a component relies on when it brackets its work with a lock: entering leads to a
  state \<open>inside s\<close>, and leaving undoes exactly the entry, whatever the section did to the
  rest of the state.
\<close>

locale critical_section =
  fixes enter leave :: "'s \<Rightarrow> (unit, 's) outcome"
    and ok :: "'s \<Rightarrow> bool"
    and inside :: "'s \<Rightarrow> 's"
  assumes enter_ok: "ok s \<Longrightarrow> enter s = Ok () (inside s)"
    and leave_ok: "ok s \<Longrightarrow> leave (inside s) = Ok () s"
begin

lemma section_run:
  assumes "ok s" "m (inside s) = Ok a (inside t)" "ok t"
  shows "seqK enter (bindK m (\<lambda>x. seqK leave (ret x))) s = Ok a t"
  using assms by (simp add: run_simps enter_ok leave_ok)

lemma section_modify:
  assumes "ok s" "f (inside s) = inside (g s)" "ok (g s)"
  shows "seqK enter (seqK (modifyK f) leave) s = Ok () (g s)"
  using assms by (simp add: run_simps enter_ok leave_ok)

lemma section_panic:
  assumes "ok s" "m (inside s) = Panic e"
  shows "seqK enter (bindK m f) s = Panic e"
  using assms by (simp add: run_simps enter_ok)

end

interpretation cs: critical_section "acquire l" "release l" "lock_ok l" "acq_st l" for l
  by unfold_locales (simp_all add: kernel_simps)

section \<open>Lemmas: CPUs competing for a lock\<close>

lemmas lock_ops = pushcli_def popcli_def cli_def sti_def holding_def xchg_def on_cpu_def
  upd_lock_def upd_cpu_def cur_cpu_def run_simps whenK_def

lemma past_xchg_simps [simp]:
  "past_xchg Acquired" "past_xchg Critical" "past_xchg Releasing"
  "\<not> past_xchg Outside" "\<not> past_xchg Spinning"
  by (simp_all add: past_xchg_def)

lemma linv_enter:
  "linv w k pc n i \<Longrightarrow> pc c = Outside \<Longrightarrow> linv w k (pc(c := Spinning)) (n(c := 1)) (i(c := False))"
  unfolding linv_def by (intro conjI; auto; metis past_xchg_simps)

lemma linv_hit: "linv 0 k pc n i \<Longrightarrow> pc c = Spinning \<Longrightarrow> linv 1 k (pc(c := Acquired)) n i"
  unfolding linv_def by (intro conjI; auto)

lemma linv_miss: "linv w k pc n i \<Longrightarrow> w \<noteq> 0 \<Longrightarrow> linv 1 k pc n i"
  unfolding linv_def by auto

lemma linv_record: "linv w k pc n i \<Longrightarrow> pc c = Acquired \<Longrightarrow> linv w (Some c) (pc(c := Critical)) n i"
  unfolding linv_def by (intro conjI; auto; metis past_xchg_simps)

lemma linv_clear: "linv w k pc n i \<Longrightarrow> pc c = Critical \<Longrightarrow> linv w None (pc(c := Releasing)) n i"
  unfolding linv_def by (intro conjI; auto; metis past_xchg_simps)

lemma linv_leave:
  "linv w k pc n i \<Longrightarrow> pc c = Releasing \<Longrightarrow> linv 0 k (pc(c := Outside)) (n(c := 0)) (i(c := b))"
  unfolding linv_def by (intro conjI; auto; metis past_xchg_simps)

lemma linv_interrupts: "linv w k pc n i \<Longrightarrow> pc c = Outside \<Longrightarrow> linv w k pc n (i(c := b))"
  unfolding linv_def by auto

lemma linv_ncli: "linv w k pc n i \<Longrightarrow> n c = (if pc c = Outside then 0 else 1)"
  unfolding linv_def by blast

lemma linv_iflag: "linv w k pc n i \<Longrightarrow> pc c \<noteq> Outside \<Longrightarrow> \<not> i c"
  unfolding linv_def by blast

lemma linv_holder: "linv w k pc n i \<Longrightarrow> (w \<noteq> 0 \<and> k = Some c) = (pc c = Critical)"
  unfolding linv_def by (metis past_xchg_simps(2) zero_neq_one)

lemma linv_unique: "linv w k pc n i \<Longrightarrow> past_xchg (pc c) \<Longrightarrow> past_xchg (pc d) \<Longrightarrow> c = d"
  unfolding linv_def by blast

lemma linv_zero: "linv w k pc n i \<Longrightarrow> (\<And>c. \<not> past_xchg (pc c)) \<Longrightarrow> w = 0"
  unfolding linv_def by blast

lemma lock_inv_init: "lock_init l m \<Longrightarrow> lock_inv l m"
  by (simp add: lock_init_def lock_inv_def lock_free_def linv_def)

lemma lock_inv_step: "lock_step l m n \<Longrightarrow> lock_inv l m \<Longrightarrow> lock_inv l n"
proof (induction rule: lock_step.induct)
  case (enter m c t)
  note I = enter.prems [unfolded lock_inv_def]
  from enter linv_ncli [OF I, of c] linv_enter [OF I, of c] show ?case
    by (auto simp: lock_inv_def lock_ops fun_upd_comp split: if_splits)
next
  case (miss m c old t)
  with linv_miss show ?case
    by (auto simp: lock_inv_def lock_ops)
next
  case (hit m c t)
  with linv_hit [of _ "lk_pc m" _ _ c] show ?case
    by (auto simp: lock_inv_def lock_ops)
next
  case (record_cpu m c)
  with linv_record [of _ _ "lk_pc m" _ _ c] show ?case
    by (auto simp: lock_inv_def lock_ops)
next
  case (clear_cpu m c t)
  with linv_clear [of _ _ "lk_pc m" _ _ c] show ?case
    by (auto simp: lock_inv_def lock_ops)
next
  case (leave m c t)
  note I = leave.prems [unfolded lock_inv_def]
  from leave linv_ncli [OF I, of c] linv_leave [OF I, of c] linv_iflag [OF I, of c] show ?case
    by (auto simp: lock_inv_def lock_ops fun_upd_comp split: if_splits)
next
  case (interrupts m c b)
  with linv_interrupts [of _ _ "lk_pc m" _ _ c] show ?case
    by (auto simp: lock_inv_def lock_ops fun_upd_comp fun_upd_idem)
qed

lemma lock_reach_inv: "lock_reach l m \<Longrightarrow> lock_inv l m"
  by (induction rule: lock_reach.induct) (auto intro: lock_inv_init lock_inv_step)


lemma holding_on_cpu:
  "lock_inv l m \<Longrightarrow> holding l (on_cpu c m) = Ok (lk_pc m c = Critical) (on_cpu c m)"
  using linv_holder [of _ _ "lk_pc m" _ _ c] by (auto simp: lock_inv_def holding_def on_cpu_def)

lemma leave_on_cpu:
  assumes "lock_inv l m" "lk_pc m c = Releasing"
  shows "\<exists>t. bindK (xchg l 0) (\<lambda>_. popcli) (on_cpu c m) = Ok () t"
proof -
  note I = assms(1) [unfolded lock_inv_def]
  from linv_ncli [OF I, of c] linv_iflag [OF I, of c] assms(2) show ?thesis
    by (simp add: lock_ops)
qed

lemma enter_on_cpu:
  assumes "lock_inv l m" "lk_pc m c = Outside"
  shows "\<exists>t. bindK pushcli (\<lambda>_. holding l) (on_cpu c m) = Ok False t"
proof -
  note I = assms(1) [unfolded lock_inv_def]
  from linv_holder [OF I, of c] linv_ncli [OF I, of c] assms(2) show ?thesis
    by (auto simp: lock_ops)
qed

text \<open>
  The steps above are those of \<open>acquire\<close> and \<open>release\<close>: a call of either that
  succeeds is a sequence of steps of its CPU with no other CPU in between, and the call of
  \<open>acquire\<close> that finds the lock taken gets stuck at its exchange.
\<close>

lemma on_cpu_same: "mycpu t = c \<Longrightarrow> on_cpu c \<lparr>lk_state = t, lk_pc = p\<rparr> = t"
  by (simp add: on_cpu_def)

lemma lock_ops_mycpu:
  "bindK pushcli (\<lambda>_. holding l) s = Ok b t \<Longrightarrow> mycpu t = mycpu s"
  "xchg l v s = Ok w t \<Longrightarrow> mycpu t = mycpu s"
  by (auto simp: lock_ops split: if_splits)

lemma acquire_steps:
  assumes "lk_pc m c = Outside" "acquire l (on_cpu c m) = Ok () t"
  shows "(lock_step l)\<^sup>*\<^sup>* m \<lparr>lk_state = t, lk_pc = (lk_pc m)(c := Critical)\<rparr>"
proof -
  obtain t1 t2 where r: "bindK pushcli (\<lambda>_. holding l) (on_cpu c m) = Ok False t1" "xchg l 1 t1 = Ok 0 t2"
    "t = upd_lock l (\<lambda>lk. lk\<lparr>lk_cpu := Some (mycpu t2)\<rparr>) t2"
    using assms(2) by (auto simp: acquire_def bindK_eq_Ok seqK_eq_Ok panic_def spin_def getsK_def modifyK_def split: if_splits)
  have c: "mycpu t1 = c" "mycpu t2 = c"
    using lock_ops_mycpu(1) [OF r(1)] lock_ops_mycpu(2) [OF r(2)] by (simp_all add: on_cpu_def)
  let ?m1 = "\<lparr>lk_state = t1, lk_pc = (lk_pc m)(c := Spinning)\<rparr>"
  let ?m2 = "\<lparr>lk_state = t2, lk_pc = (lk_pc m)(c := Acquired)\<rparr>"
  have "lock_step l m ?m1" by (rule lock_step.enter [OF assms(1) r(1)])
  moreover have "lock_step l ?m1 ?m2"
    using lock_step.hit [of ?m1 c l t2] r(2) c by (simp add: on_cpu_same)
  moreover have "lock_step l ?m2 \<lparr>lk_state = t, lk_pc = (lk_pc m)(c := Critical)\<rparr>"
    using lock_step.record_cpu [of ?m2 c l] r(3) c by (simp add: on_cpu_same)
  ultimately show ?thesis by (meson converse_rtranclp_into_rtranclp rtranclp.rtrancl_refl)
qed

lemma release_steps:
  assumes "lk_pc m c = Critical" "release l (on_cpu c m) = Ok () t"
  shows "(lock_step l)\<^sup>*\<^sup>* m \<lparr>lk_state = t, lk_pc = (lk_pc m)(c := Outside)\<rparr>"
proof -
  let ?t1 = "upd_lock l (\<lambda>lk. lk\<lparr>lk_cpu := None\<rparr>) (on_cpu c m)"
  have r: "holding l (on_cpu c m) = Ok True (on_cpu c m)" "bindK (xchg l 0) (\<lambda>_. popcli) ?t1 = Ok () t"
    using assms(2)
    by (auto simp: release_def holding_def bindK_eq_Ok seqK_eq_Ok panic_def getsK_def modifyK_def split: if_splits)
  let ?m1 = "\<lparr>lk_state = ?t1, lk_pc = (lk_pc m)(c := Releasing)\<rparr>"
  have "lock_step l m ?m1" by (rule lock_step.clear_cpu [OF assms(1) r(1)])
  moreover have "lock_step l ?m1 \<lparr>lk_state = t, lk_pc = (lk_pc m)(c := Outside)\<rparr>"
  proof -
    have "mycpu ?t1 = c" by (simp add: upd_lock_def on_cpu_def)
    then show ?thesis using lock_step.leave [of ?m1 c l t] r(2) by (simp add: on_cpu_same)
  qed
  ultimately show ?thesis by (meson converse_rtranclp_into_rtranclp rtranclp.rtrancl_refl)
qed

lemma acquire_spin_steps:
  assumes "lk_pc m c = Outside" "acquire l (on_cpu c m) = Spin"
  shows "\<exists>t. lock_step l m \<lparr>lk_state = t, lk_pc = (lk_pc m)(c := Spinning)\<rparr> \<and> locked (locks t l) \<noteq> 0"
proof -
  obtain t where "bindK pushcli (\<lambda>_. holding l) (on_cpu c m) = Ok False t" "locked (locks t l) \<noteq> 0"
    using assms(2) by (auto simp: acquire_def lock_ops panic_def spin_def split: if_splits)
  with lock_step.enter [OF assms(1)] show ?thesis by blast
qed

section \<open>Lemmas: nesting of interrupt disabling\<close>

text \<open>\<open>pushed n s\<close> is the state after \<open>n\<close> calls of \<open>pushcli\<close> from \<open>s\<close>.\<close>

definition pushed :: "nat \<Rightarrow> 'a base_scheme \<Rightarrow> 'a base_scheme" where
  "pushed n s = (if n = 0 then s else upd_cpu (\<lambda>c. c\<lparr>ncli := ncli c + int n, iflag := False\<rparr>) s)"

fun repeatK :: "nat \<Rightarrow> ('s, unit) kernel \<Rightarrow> ('s, unit) kernel" where
  "repeatK 0 m = ret ()"
| "repeatK (Suc n) m = seqK m (repeatK n m)"

lemma settled_pushed: "settled s \<Longrightarrow> settled (pushed n s)"
  by (auto simp: settled_def pushed_def upd_cpu_def cur_cpu_def split: if_splits)

lemma pushed_pushed: "pushed n (pushed m s) = pushed (m + n) s"
  by (auto simp: pushed_def upd_cpu_def add.assoc intro!: base.equality)

lemma pushcli_pushed: "settled s \<Longrightarrow> pushcli s = Ok () (pushed 1 s)"
  by (auto simp: lock_ops settled_def pushed_def fun_upd_def intro!: base.equality split: if_splits)

lemma popcli_pushed: "settled s \<Longrightarrow> popcli (pushed 1 s) = Ok () s"
  by (auto simp: lock_ops settled_def pushed_def fun_upd_def fun_eq_iff split: if_splits
      intro!: base.equality cpu.equality)

lemma repeat_pushcli: "settled s \<Longrightarrow> repeatK n pushcli s = Ok () (pushed n s)"
proof (induction n arbitrary: s)
  case 0
  then show ?case by (simp add: pushed_def)
next
  case (Suc n)
  from Suc.IH [OF settled_pushed [OF Suc.prems], of 1] Suc.prems show ?case
    by (simp add: run_simps pushcli_pushed pushed_pushed)
qed

lemma repeat_popcli: "settled s \<Longrightarrow> repeatK k popcli (pushed (n + k) s) = Ok () (pushed n s)"
proof (induction k)
  case 0
  then show ?case by simp
next
  case (Suc k)
  have "pushed (n + Suc k) s = pushed 1 (pushed (n + k) s)"
    by (simp add: pushed_pushed)
  with Suc popcli_pushed [OF settled_pushed [OF Suc.prems, of "n + k"]] show ?case
    by (simp add: run_simps)
qed

section \<open>Properties\<close>

text \<open>(C4) mutual exclusion. In every state that any number of CPUs reach by interleaving
  the atomic steps of \<open>acquire\<close> and \<open>release\<close> on a lock, at most one CPU is in its
  critical section, \<open>holding\<close> answers true exactly on that CPU, and interrupts are off
  on it.\<close>

theorem spinlock_mutual_exclusion:
  assumes "lock_reach l m"
  shows "(\<forall>c d. lk_pc m c = Critical \<longrightarrow> lk_pc m d = Critical \<longrightarrow> c = d) \<and>
    (\<forall>c. holding l (on_cpu c m) = Ok (lk_pc m c = Critical) (on_cpu c m)) \<and>
    (\<forall>c. lk_pc m c = Critical \<longrightarrow> \<not> iflag (cpus (lk_state m) c))"
proof (intro conjI)
  note I = lock_reach_inv [OF assms]
  show "\<forall>c d. lk_pc m c = Critical \<longrightarrow> lk_pc m d = Critical \<longrightarrow> c = d"
    using linv_unique [OF I [unfolded lock_inv_def]] by (metis past_xchg_simps(2))
  show "\<forall>c. holding l (on_cpu c m) = Ok (lk_pc m c = Critical) (on_cpu c m)"
    using holding_on_cpu [OF I] by blast
  show "\<forall>c. lk_pc m c = Critical \<longrightarrow> \<not> iflag (cpus (lk_state m) c)"
    using linv_iflag [OF I [unfolded lock_inv_def]] by auto
qed

definition base0 :: base where
  "base0 = \<lparr>locks = (\<lambda>_. \<lparr>locked = 0, lk_name = [], lk_cpu = None\<rparr>),
            cpus = (\<lambda>_. \<lparr>ncli = 0, intena = True, iflag = True, cproc = None, cr3 = 0, esp0 = 0\<rparr>),
            mycpu = 0\<rparr>"

lemma critical_reachable: "\<exists>m. lock_reach Ptable_lock m \<and> lk_pc m 0 = Critical"
proof -
  define m0 where "m0 = \<lparr>lk_state = base0, lk_pc = (\<lambda>_. Outside)\<rparr>"
  have 0: "lock_reach Ptable_lock m0"
    by (rule lock_reach.start) (simp add: lock_init_def lock_free_def base0_def m0_def)
  have o: "lk_pc m0 0 = Outside" by (simp add: m0_def)
  obtain t1 where t1: "bindK pushcli (\<lambda>_. holding Ptable_lock) (on_cpu 0 m0) = Ok False t1"
    using enter_on_cpu [OF lock_reach_inv [OF 0] o] by blast
  define m1 where "m1 = \<lparr>lk_state = t1, lk_pc = (lk_pc m0)(0 := Spinning)\<rparr>"
  have 1: "lock_reach Ptable_lock m1"
    unfolding m1_def by (rule lock_reach.step [OF 0 lock_step.enter [OF o t1]])
  have p: "lk_pc m1 = (\<lambda>_. Outside)(0 := Spinning)" by (simp add: m1_def m0_def)
  have "locked (locks (lk_state m1) Ptable_lock) = 0"
    using linv_zero [OF lock_reach_inv [OF 1, unfolded lock_inv_def]] p by simp
  then have t2: "xchg Ptable_lock 1 (on_cpu 0 m1) =
      Ok 0 (upd_lock Ptable_lock (\<lambda>lk. lk\<lparr>locked := 1\<rparr>) (on_cpu 0 m1))"
    by (simp add: lock_ops)
  define m2 where "m2 = \<lparr>lk_state = upd_lock Ptable_lock (\<lambda>lk. lk\<lparr>locked := 1\<rparr>) (on_cpu 0 m1),
    lk_pc = (lk_pc m1)(0 := Acquired)\<rparr>"
  have 2: "lock_reach Ptable_lock m2"
    unfolding m2_def by (rule lock_reach.step [OF 1 lock_step.hit [OF _ t2]]) (simp add: p)
  have q: "lk_pc m2 0 = Acquired" by (simp add: m2_def)
  show ?thesis
    by (rule exI, rule conjI, rule lock_reach.step [OF 2 lock_step.record_cpu [OF q]]) simp
qed

theorem spinlock_mutual_exclusion_witness:
  "\<exists>m. lock_reach Ptable_lock m \<and> lk_pc m 0 = Critical \<and>
     holding Ptable_lock (on_cpu 0 m) = Ok True (on_cpu 0 m) \<and>
     holding Ptable_lock (on_cpu 1 m) = Ok False (on_cpu 1 m)"
proof -
  obtain m where m: "lock_reach Ptable_lock m" "lk_pc m 0 = Critical"
    using critical_reachable by blast
  note E = spinlock_mutual_exclusion [OF m(1)]
  have u: "lk_pc m d = Critical \<Longrightarrow> d = 0" for d
    using conjunct1 [OF E] m(2) by blast
  have h: "holding Ptable_lock (on_cpu c m) = Ok (lk_pc m c = Critical) (on_cpu c m)" for c
    using conjunct1 [OF conjunct2 [OF E]] by blast
  show ?thesis using m u [of 1] h [of 0] h [of 1] by (intro exI [of _ m]) auto
qed

text \<open>(C31) the lock code never panics when it is used as the protocol says. In every
  reachable state a CPU outside passes the check \<open>panic("acquire")\<close>, a CPU in its critical
  section passes \<open>panic("release")\<close>, and a CPU that gives the lock back passes both panics
  of \<open>popcli\<close>; so every CPU that is not spinning can take its next step.\<close>

theorem spinlock_no_panic:
  assumes "lock_reach l m"
  shows "(lk_pc m c = Outside \<longrightarrow> (\<exists>t. bindK pushcli (\<lambda>_. holding l) (on_cpu c m) = Ok False t)) \<and>
    (lk_pc m c = Critical \<longrightarrow> holding l (on_cpu c m) = Ok True (on_cpu c m)) \<and>
    (lk_pc m c = Releasing \<longrightarrow> (\<exists>t. bindK (xchg l 0) (\<lambda>_. popcli) (on_cpu c m) = Ok () t))"
  using enter_on_cpu [OF lock_reach_inv [OF assms], of c]
    holding_on_cpu [OF lock_reach_inv [OF assms], of c]
    leave_on_cpu [OF lock_reach_inv [OF assms], of c] by simp

theorem spinlock_no_panic_witness:
  "\<exists>m. lock_reach Ptable_lock m \<and> lk_pc m 0 = Critical \<and>
     holding Ptable_lock (on_cpu 0 m) = Ok True (on_cpu 0 m)"
proof -
  obtain m where m: "lock_reach Ptable_lock m" "lk_pc m 0 = Critical"
    using critical_reachable by blast
  with spinlock_no_panic [OF m(1), of 0] show ?thesis by (intro exI [of _ m]) simp
qed

text \<open>nesting. \<open>n\<close> calls of \<open>pushcli\<close> followed by \<open>k\<close> calls of \<open>popcli\<close>,
  \<open>k \<le> n\<close>, never panic; while \<open>k < n\<close> interrupts stay off, and after \<open>k = n\<close> the
  state is the one before, so interrupts that were off stay off and interrupts that were
  on come back on.\<close>

theorem pushcli_popcli_nested:
  assumes "settled s" and "k \<le> n"
  shows "\<exists>t. seqK (repeatK n pushcli) (repeatK k popcli) s = Ok () t \<and>
    (k < n \<longrightarrow> \<not> iflag (cur_cpu t)) \<and> (k = n \<longrightarrow> t = s)"
proof -
  have "repeatK k popcli (pushed n s) = Ok () (pushed (n - k) s)"
    using repeat_popcli [OF assms(1), of k "n - k"] assms(2) by simp
  then have "seqK (repeatK n pushcli) (repeatK k popcli) s = Ok () (pushed (n - k) s)"
    by (simp add: run_simps repeat_pushcli [OF assms(1)])
  moreover have "0 < j \<Longrightarrow> \<not> iflag (cur_cpu (pushed j s))" "pushed 0 s = s" for j
    by (simp_all add: pushed_def upd_cpu_def cur_cpu_def)
  ultimately show ?thesis using assms(2) by auto
qed

text \<open>a critical section leaves no trace. From a state where the lock is free,
  \<open>acquire\<close> succeeds without spinning and the \<open>release\<close> that follows restores the state
  exactly; a second \<open>acquire\<close> by the same CPU and a \<open>release\<close> of a free lock panic.\<close>

theorem acquire_release_inverse:
  assumes "lock_ok l s"
  shows "seqK (acquire l) (release l) s = Ok () s \<and>
    seqK (acquire l) (acquire l) s = Panic ''acquire'' \<and>
    release l s = Panic ''release''"
  using assms
  by (simp add: run_simps kernel_simps acquire_twice release_free lock_ok_def)

end
