(* ===== verification/StringC.thy ===== *)
theory StringC
  imports Prelude
begin

text \<open>
  The string routines of the kernel (\<open>src/string.c\<close>) over a byte-addressed memory with
  32-bit addresses, together with the two x86 string instructions they use
  (\<open>stosb\<close>, \<open>stosl\<close> of \<open>src/x86.h\<close>). Every routine is written with the pointer
  increments of the C code, so that overlapping areas behave as they do there; the
  lemmas give each of them its closed form.
\<close>

unbundle bit_operations_syntax

section \<open>Memory\<close>

type_synonym mem = "u32 \<Rightarrow> u8"

definition store32 :: "mem \<Rightarrow> u32 \<Rightarrow> u32 \<Rightarrow> mem" where
  "store32 m a w =
     m(a := ucast w, a + 1 := ucast (drop_bit 8 w),
       a + 2 := ucast (drop_bit 16 w), a + 3 := ucast (drop_bit 24 w))"

definition load32 :: "mem \<Rightarrow> u32 \<Rightarrow> u32" where
  "load32 m a = ucast (m a) OR push_bit 8 (ucast (m (a + 1)))
     OR push_bit 16 (ucast (m (a + 2))) OR push_bit 24 (ucast (m (a + 3)))"

section \<open>The routines of string.c\<close>

fun stosb :: "mem \<Rightarrow> u32 \<Rightarrow> u8 \<Rightarrow> nat \<Rightarrow> mem" where
  "stosb m a b 0 = m"
| "stosb m a b (Suc k) = stosb (m(a := b)) (a + 1) b k"

fun stosl :: "mem \<Rightarrow> u32 \<Rightarrow> u32 \<Rightarrow> nat \<Rightarrow> mem" where
  "stosl m a w 0 = m"
| "stosl m a w (Suc k) = stosl (store32 m a w) (a + 4) w k"

definition memset :: "mem \<Rightarrow> u32 \<Rightarrow> u32 \<Rightarrow> u32 \<Rightarrow> mem" where
  "memset m dst c n =
     (if dst mod 4 = 0 \<and> n mod 4 = 0 then
        let c = c AND 0xFF
        in stosl m dst (push_bit 24 c OR push_bit 16 c OR push_bit 8 c OR c) (unat (n div 4))
      else stosb m dst (ucast c) (unat n))"

fun memcmp_loop :: "mem \<Rightarrow> u32 \<Rightarrow> u32 \<Rightarrow> nat \<Rightarrow> int" where
  "memcmp_loop m s1 s2 0 = 0"
| "memcmp_loop m s1 s2 (Suc k) =
     (if m s1 \<noteq> m s2 then uint (m s1) - uint (m s2) else memcmp_loop m (s1 + 1) (s2 + 1) k)"

definition memcmp :: "mem \<Rightarrow> u32 \<Rightarrow> u32 \<Rightarrow> u32 \<Rightarrow> int" where
  "memcmp m v1 v2 n = memcmp_loop m v1 v2 (unat n)"

fun copy_up :: "mem \<Rightarrow> u32 \<Rightarrow> u32 \<Rightarrow> nat \<Rightarrow> mem" where
  "copy_up m d s 0 = m"
| "copy_up m d s (Suc k) = copy_up (m(d := m s)) (d + 1) (s + 1) k"

fun copy_down :: "mem \<Rightarrow> u32 \<Rightarrow> u32 \<Rightarrow> nat \<Rightarrow> mem" where
  "copy_down m d s 0 = m"
| "copy_down m d s (Suc k) = copy_down (m(d - 1 := m (s - 1))) (d - 1) (s - 1) k"

definition memmove :: "mem \<Rightarrow> u32 \<Rightarrow> u32 \<Rightarrow> u32 \<Rightarrow> mem" where
  "memmove m dst src n =
     (if src < dst \<and> src + n > dst
      then copy_down m (dst + n) (src + n) (unat n)
      else copy_up m dst src (unat n))"

definition memcpy :: "mem \<Rightarrow> u32 \<Rightarrow> u32 \<Rightarrow> u32 \<Rightarrow> mem" where
  "memcpy m dst src n = memmove m dst src n"

fun strncmp_loop :: "mem \<Rightarrow> u32 \<Rightarrow> u32 \<Rightarrow> nat \<Rightarrow> int" where
  "strncmp_loop m p q 0 = 0"
| "strncmp_loop m p q (Suc k) =
     (if m p \<noteq> 0 \<and> m p = m q then strncmp_loop m (p + 1) (q + 1) k
      else uint (m p) - uint (m q))"

definition strncmp :: "mem \<Rightarrow> u32 \<Rightarrow> u32 \<Rightarrow> u32 \<Rightarrow> int" where
  "strncmp m p q n = strncmp_loop m p q (unat n)"

text \<open>The count of \<open>strncpy\<close> and \<open>safestrcpy\<close> is a C \<open>int\<close>; the loops run while it is
  positive.\<close>

fun strncpy_loop :: "mem \<Rightarrow> u32 \<Rightarrow> u32 \<Rightarrow> nat \<Rightarrow> mem" where
  "strncpy_loop m s t 0 = m"
| "strncpy_loop m s t (Suc k) =
     (let c = m t; m = m(s := c)
      in if c \<noteq> 0 then strncpy_loop m (s + 1) (t + 1) k else stosb m (s + 1) 0 k)"

definition strncpy :: "mem \<Rightarrow> u32 \<Rightarrow> u32 \<Rightarrow> int \<Rightarrow> mem" where
  "strncpy m s t n = strncpy_loop m s t (nat n)"

fun safestrcpy_loop :: "mem \<Rightarrow> u32 \<Rightarrow> u32 \<Rightarrow> nat \<Rightarrow> mem" where
  "safestrcpy_loop m s t 0 = m(s := 0)"
| "safestrcpy_loop m s t (Suc k) =
     (let c = m t; m = m(s := c)
      in if c \<noteq> 0 then safestrcpy_loop m (s + 1) (t + 1) k else m(s + 1 := 0))"

definition safestrcpy :: "mem \<Rightarrow> u32 \<Rightarrow> u32 \<Rightarrow> int \<Rightarrow> mem" where
  "safestrcpy m s t n = (if n \<le> 0 then m else safestrcpy_loop m s t (nat (n - 1)))"

text \<open>The counter \<open>n\<close> is a C \<open>int\<close>: a 32-bit word that wraps around and is read as signed.\<close>

partial_function (option) strlen_loop :: "mem \<Rightarrow> u32 \<Rightarrow> u32 \<Rightarrow> u32 option" where
  "strlen_loop m s n = (if m (s + n) \<noteq> 0 then strlen_loop m s (n + 1) else Some n)"

definition strlen :: "mem \<Rightarrow> u32 \<Rightarrow> int option" where
  "strlen m s = map_option sint (strlen_loop m s 0)"


section \<open>Abstract views\<close>

text \<open>The bytes of an area, the copy of one area over another at once, and what a
  fixed-size name field holds after a bounded copy of a string.\<close>

definition bytes_at :: "mem \<Rightarrow> u32 \<Rightarrow> nat \<Rightarrow> bytes" where
  "bytes_at m a k = map (\<lambda>i. m (a + of_nat i)) [0..<k]"

definition fill_area :: "mem \<Rightarrow> u32 \<Rightarrow> nat \<Rightarrow> u8 \<Rightarrow> mem" where
  "fill_area m a k b = (\<lambda>x. if unat (x - a) < k then b else m x)"

definition move_area :: "mem \<Rightarrow> u32 \<Rightarrow> u32 \<Rightarrow> nat \<Rightarrow> mem" where
  "move_area m d s k = (\<lambda>x. if unat (x - d) < k then m (s + (x - d)) else m x)"

definition put_bytes :: "mem \<Rightarrow> u32 \<Rightarrow> bytes \<Rightarrow> mem" where
  "put_bytes m a bs = (\<lambda>x. if unat (x - a) < length bs then bs ! unat (x - a) else m x)"

fun strncpy_bytes :: "bytes \<Rightarrow> nat \<Rightarrow> bytes" where
  "strncpy_bytes t 0 = []"
| "strncpy_bytes [] (Suc k) = 0 # replicate k 0"
| "strncpy_bytes (c # t) (Suc k) = (if c \<noteq> 0 then c # strncpy_bytes t k else replicate (Suc k) 0)"

fun strncmp_bytes :: "bytes \<Rightarrow> bytes \<Rightarrow> nat \<Rightarrow> int" where
  "strncmp_bytes p q 0 = 0"
| "strncmp_bytes p q (Suc k) =
     (let a = (case p of [] \<Rightarrow> 0 | x # _ \<Rightarrow> x); b = (case q of [] \<Rightarrow> 0 | y # _ \<Rightarrow> y)
      in if a \<noteq> 0 \<and> a = b then strncmp_bytes (tl p) (tl q) k else uint a - uint b)"

section \<open>Lemmas: addresses\<close>

lemma unat_sub_Suc: "x \<noteq> a \<Longrightarrow> unat (x - (a + 1)) = unat (x - a) - 1" for x a :: u32
proof -
  assume "x \<noteq> a"
  then have "x - a \<noteq> 0" by simp
  then have "unat ((x - a) - 1) = unat (x - a) - 1" by (rule unat_minus_one)
  then show ?thesis by (simp add: diff_diff_eq add.commute)
qed

lemma unat_sub_self: "unat (a - (a + 1)) = 2 ^ 32 - 1" for a :: u32
proof -
  have "a - (a + 1) = - 1" by simp
  then show ?thesis by (simp add: unsigned_minus_1_eq_mask mask_eq_exp_minus_1)
qed

lemma unat_sub_pos: "x \<noteq> a \<Longrightarrow> 0 < unat (x - a)" for x a :: u32
  by (simp add: unat_gt_0)

lemma unat32_lt: "unat x < 2 ^ 32" for x :: u32
  by (rule order_less_le_trans [OF unsigned_less]) simp

lemma unat_of_nat32: "i < 2 ^ 32 \<Longrightarrow> unat (of_nat i :: u32) = i"
  by (simp add: unat_of_nat)

lemma offset_inj:
  "i < 2 ^ 32 \<Longrightarrow> j < 2 ^ 32 \<Longrightarrow> (a :: u32) + of_nat i = a + of_nat j \<longleftrightarrow> i = j"
  by (metis add_left_cancel unat_of_nat32)

section \<open>Lemmas: filling\<close>

lemma stosb_fill: "k \<le> 2 ^ 32 \<Longrightarrow> stosb m a b k = fill_area m a k b"
proof (induction k arbitrary: m a)
  case 0
  then show ?case by (simp add: fill_area_def)
next
  case (Suc k)
  then have "stosb m a b (Suc k) = fill_area (m(a := b)) (a + 1) k b" by simp
  also have "\<dots> = fill_area m a (Suc k) b"
  proof (rule ext)
    fix x
    show "fill_area (m(a := b)) (a + 1) k b x = fill_area m a (Suc k) b x"
      using Suc.prems unat_sub_Suc [of x a] unat_sub_pos [of x a]
      by (cases "x = a") (auto simp: fill_area_def unat_sub_self)
  qed
  finally show ?case .
qed


lemma splat_bytes:
  fixes c :: u32
  defines "w \<equiv> push_bit 24 (c AND 0xFF) OR push_bit 16 (c AND 0xFF) OR push_bit 8 (c AND 0xFF) OR (c AND 0xFF)"
  shows "(ucast w :: u8) = ucast c" "(ucast (drop_bit 8 w) :: u8) = ucast c"
    "(ucast (drop_bit 16 w) :: u8) = ucast c" "(ucast (drop_bit 24 w) :: u8) = ucast c"
proof -
  have tb: "c AND 0xFF = take_bit 8 c"
    by (simp add: take_bit_eq_mask mask_eq_exp_minus_1)
  show "(ucast w :: u8) = ucast c" "(ucast (drop_bit 8 w) :: u8) = ucast c"
    "(ucast (drop_bit 16 w) :: u8) = ucast c" "(ucast (drop_bit 24 w) :: u8) = ucast c"
    unfolding w_def tb
    by (rule bit_word_eqI; auto simp: bit_simps)+
qed

lemma stosl_stosb:
  assumes "(ucast w :: u8) = b" "(ucast (drop_bit 8 w) :: u8) = b"
    "(ucast (drop_bit 16 w) :: u8) = b" "(ucast (drop_bit 24 w) :: u8) = b"
  shows "stosl m a w k = stosb m a b (4 * k)"
proof (induction k arbitrary: m a)
  case 0
  then show ?case by simp
next
  case (Suc k)
  have "4 * Suc k = Suc (Suc (Suc (Suc (4 * k))))" by simp
  then have "stosb m a b (4 * Suc k) =
      stosb (m(a := b, a + 1 := b, a + 2 := b, a + 3 := b)) (a + 4) b (4 * k)"
    by (simp only: stosb.simps add.assoc) simp
  then show ?case by (simp only: stosl.simps Suc.IH store32_def assms)
qed

lemma memset_fill: "memset m dst c n = fill_area m dst (unat n) (ucast c)"
proof (cases "dst mod 4 = 0 \<and> n mod 4 = 0")
  case True
  have "unat n mod 4 = 0"
    using True unat_mod [of n 4] by simp
  then have "4 * unat (n div 4) = unat n"
    by (auto simp: unat_div)
  with True show ?thesis
    using stosl_stosb [OF splat_bytes [of c], of m dst "unat (n div 4)"] unat32_lt [of n]
    by (simp add: memset_def Let_def stosb_fill)
next
  case False
  then show ?thesis
    using unat32_lt [of n] by (auto simp: memset_def Let_def stosb_fill)
qed


section \<open>Lemmas: copying\<close>

lemma copy_up_move:
  "k \<le> 2 ^ 32 \<Longrightarrow> unat (d - s) = 0 \<or> k \<le> unat (d - s) \<Longrightarrow> copy_up m d s k = move_area m d s k"
proof (induction k arbitrary: m d s)
  case 0
  then show ?case by (simp add: move_area_def)
next
  case (Suc k)
  have IH: "copy_up m d s (Suc k) = move_area (m(d := m s)) (d + 1) (s + 1) k"
    unfolding copy_up.simps by (rule Suc.IH) (use Suc.prems in auto)
  show ?case
  proof (rule ext)
    fix x
    show "copy_up m d s (Suc k) x = move_area m d s (Suc k) x"
    proof (cases "x = d")
      case True
      with Suc.prems(1) show ?thesis unfolding IH
        by (auto simp: move_area_def unat_sub_self)
    next
      case False
      have "s + (x - d) \<noteq> d" if "unat (x - d) < Suc k"
      proof
        assume "s + (x - d) = d"
        then have "x - d = d - s" by (metis add_diff_cancel_left')
        with that Suc.prems(2) False show False by (auto simp: unat_eq_zero)
      qed
      with False unat_sub_Suc [of x d] unat_sub_pos [of x d] show ?thesis unfolding IH
        by (auto simp: move_area_def)
    qed
  qed
qed


lemma copy_down_move:
  "k \<le> 2 ^ 32 \<Longrightarrow> unat (s - d) = 0 \<or> k \<le> unat (s - d) \<Longrightarrow>
   copy_down m (d + of_nat k) (s + of_nat k) k = move_area m d s k"
proof (induction k arbitrary: m)
  case 0
  then show ?case by (simp add: move_area_def)
next
  case (Suc k)
  let ?e = "d + of_nat k" and ?f = "s + of_nat k"
  have IH: "copy_down m (d + of_nat (Suc k)) (s + of_nat (Suc k)) (Suc k) =
      move_area (m(?e := m ?f)) d s k"
  proof -
    have "copy_down (m(?e := m ?f)) ?e ?f k = move_area (m(?e := m ?f)) d s k"
      by (rule Suc.IH) (use Suc.prems in auto)
    then show ?thesis by (simp add: algebra_simps)
  qed
  have uk: "unat (of_nat k :: u32) = k" using Suc.prems(1) by (simp add: unat_of_nat32)
  show ?case unfolding IH
  proof (rule ext)
    fix x
    show "move_area (m(?e := m ?f)) d s k x = move_area m d s (Suc k) x"
    proof (cases "unat (x - d) < k")
      case True
      have "s + (x - d) \<noteq> ?e"
      proof
        assume "s + (x - d) = ?e"
        then have "s - d = of_nat k - (x - d)" by (simp add: algebra_simps)
        then have "unat (s - d) = unat (of_nat k - (x - d))" by (rule arg_cong)
        also have "\<dots> = k - unat (x - d)"
          using True uk unat_sub_if' [of "of_nat k" "x - d"] by (simp add: word_le_nat_alt)
        finally have "unat (s - d) = k - unat (x - d)" .
        with Suc.prems(2) True show False by auto
      qed
      with True show ?thesis by (simp add: move_area_def)
    next
      case False
      have "x = ?e \<longleftrightarrow> unat (x - d) = k"
        by (metis uk add_diff_cancel_left' diff_add_cancel add.commute unsigned_word_eqI)
      with False show ?thesis by (auto simp: move_area_def add.commute)
    qed
  qed
qed

lemma memmove_move:
  assumes "unat src + unat n < 2 ^ 32" "unat dst + unat n \<le> 2 ^ 32"
  shows "memmove m dst src n = move_area m dst src (unat n)"
proof (cases "src < dst \<and> src + n > dst")
  case True
  have "unat (src - dst) \<ge> unat n"
    using True assms unat32_lt [of dst]
    by (auto simp: word_less_nat_alt unat_sub_if' unat_plus_if' word_le_nat_alt split: if_splits)
  with True copy_down_move [of "unat n" src dst m] unat32_lt [of n] show ?thesis
    by (simp add: memmove_def)
next
  case False
  have "unat (dst - src) = 0 \<or> unat n \<le> unat (dst - src)"
    using False assms
    by (auto simp: word_less_nat_alt unat_sub_if' unat_plus_if' word_le_nat_alt split: if_splits)
  with False copy_up_move [of "unat n" dst src m] unat32_lt [of n] show ?thesis
    by (auto simp: memmove_def)
qed


section \<open>Lemmas: comparing and copying strings\<close>

lemma bytes_at_Suc: "bytes_at m a (Suc k) = m a # bytes_at m (a + 1) k"
proof -
  have "[0..<Suc k] = 0 # map Suc [0..<k]" by (simp add: map_Suc_upt upt_conv_Cons del: upt_Suc)
  then show ?thesis by (simp add: bytes_at_def algebra_simps del: upt_Suc)
qed

lemma bytes_at_numeral [simp]:
  "bytes_at m a (numeral k) = m a # bytes_at m (a + 1) (pred_numeral k)"
  by (simp add: numeral_eq_Suc bytes_at_Suc)

lemma bytes_at_0 [simp]: "bytes_at m a 0 = []"
  by (simp add: bytes_at_def)

lemma length_bytes_at [simp]: "length (bytes_at m a k) = k"
  by (simp add: bytes_at_def)

lemma nth_bytes_at [simp]: "i < k \<Longrightarrow> bytes_at m a k ! i = m (a + of_nat i)"
  by (simp add: bytes_at_def)

lemma strncmp_loop_bytes: "strncmp_loop m p q k = strncmp_bytes (bytes_at m p k) (bytes_at m q k) k"
  by (induction k arbitrary: p q) (auto simp: bytes_at_Suc)

lemma memcmp_loop_zero: "memcmp_loop m p q k = 0 \<longleftrightarrow> bytes_at m p k = bytes_at m q k"
  by (induction k arbitrary: p q) (auto simp: bytes_at_Suc word_uint_eq_iff)

lemma memcmp_loop_sign:
  "memcmp_loop m p q k < 0 \<longleftrightarrow> 
     (\<exists>i < k. m (p + of_nat i) < m (q + of_nat i) \<and> (\<forall>j < i. m (p + of_nat j) = m (q + of_nat j)))"
proof (induction k arbitrary: p q)
  case (Suc k)
  show ?case
    by (auto simp: Suc.IH Ex_less_Suc2 All_less_Suc2 algebra_simps word_less_def)
qed simp

lemma put_bytes_Nil [simp]: "put_bytes m a [] = m"
  by (simp add: put_bytes_def)

lemma put_bytes_Cons:
  "length bs < 2 ^ 32 \<Longrightarrow> put_bytes m a (b # bs) = put_bytes (m(a := b)) (a + 1) bs"
proof (rule ext)
  fix x assume len: "length bs < 2 ^ 32"
  show "put_bytes m a (b # bs) x = put_bytes (m(a := b)) (a + 1) bs x"
  proof (cases "x = a")
    case True
    have "unat (a - (a + 1)) = 2 ^ 32 - 1" by (rule unat_sub_self)
    with True len show ?thesis by (simp add: put_bytes_def)
  next
    case False
    with unat_sub_Suc [OF this] unat_sub_pos [OF this] show ?thesis
      by (auto simp: put_bytes_def nth_Cons split: nat.splits)
  qed
qed

lemma put_bytes_two: "put_bytes m a [b, c] = m(a := b, a + 1 := c)"
  using put_bytes_Cons [of "[c]" m a b] put_bytes_Cons [of "[]" "m(a := b)" "a + 1" c] by (simp del: fun_upd_apply)

lemma stosb_put: "k \<le> 2 ^ 32 \<Longrightarrow> stosb m a b k = put_bytes m a (replicate k b)"
  by (induction k arbitrary: m a) (simp_all add: put_bytes_Cons)


lemma put_bytes_apply:
  "i < 2 ^ 32 \<Longrightarrow> put_bytes m a bs (a + of_nat i) = (if i < length bs then bs ! i else m (a + of_nat i))"
  by (simp add: put_bytes_def unat_of_nat32 del: of_nat_numeral)

lemma put_bytes_outside: "length bs \<le> unat (x - a) \<Longrightarrow> put_bytes m a bs x = m x"
  by (simp add: put_bytes_def)

text \<open>Two areas of \<open>k\<close> bytes that share no address.\<close>

definition disjoint_areas :: "u32 \<Rightarrow> u32 \<Rightarrow> nat \<Rightarrow> bool" where
  "disjoint_areas s t k = (\<forall>i < k. \<forall>j < k. s + of_nat i \<noteq> t + of_nat j)"

lemma disjoint_areas_Suc:
  assumes "disjoint_areas s t (Suc k)"
  shows "disjoint_areas (s + 1) (t + 1) k" "bytes_at (m(s := c)) (t + 1) k = bytes_at m (t + 1) k"
proof -
  have "s + of_nat (Suc i) \<noteq> t + of_nat (Suc j)" if "i < k" "j < k" for i j
    using assms that unfolding disjoint_areas_def by blast
  then show "disjoint_areas (s + 1) (t + 1) k" by (simp add: disjoint_areas_def algebra_simps)
  have "t + of_nat (Suc j) \<noteq> s" if "j < k" for j
  proof -
    have "s + of_nat 0 \<noteq> t + of_nat (Suc j)"
      using assms that unfolding disjoint_areas_def by blast
    then show ?thesis by auto
  qed
  then have ne: "t + 1 + of_nat j \<noteq> s" if "j < k" for j using that by (simp add: algebra_simps)
  then show "bytes_at (m(s := c)) (t + 1) k = bytes_at m (t + 1) k"
    by (intro nth_equalityI) (simp_all add: ne)
qed

lemma length_strncpy_bytes [simp]: "length (strncpy_bytes t k) = k"
  by (induction t k rule: strncpy_bytes.induct) auto

lemma strncpy_loop_put:
  "k \<le> 2 ^ 32 \<Longrightarrow> disjoint_areas s t k \<Longrightarrow>
   strncpy_loop m s t k = put_bytes m s (strncpy_bytes (bytes_at m t k) k)"
proof (induction k arbitrary: m s t)
  case (Suc k)
  from disjoint_areas_Suc [OF Suc.prems(2)] Suc.prems(1) Suc.IH show ?case
    by (simp add: bytes_at_Suc Let_def put_bytes_Cons stosb_put)
qed simp

text \<open>What \<open>safestrcpy\<close> leaves in the destination: the string cut to \<open>k\<close> characters,
  and its terminating zero.\<close>

fun safestrcpy_bytes :: "bytes \<Rightarrow> nat \<Rightarrow> bytes" where
  "safestrcpy_bytes t 0 = [0]"
| "safestrcpy_bytes [] (Suc k) = [0, 0]"
| "safestrcpy_bytes (c # t) (Suc k) = (if c \<noteq> 0 then c # safestrcpy_bytes t k else [0, 0])"

lemma length_safestrcpy_bytes: "length (safestrcpy_bytes t k) \<le> Suc k"
  by (induction t k rule: safestrcpy_bytes.induct) auto

lemma safestrcpy_loop_put:
  "Suc k \<le> 2 ^ 32 \<Longrightarrow> disjoint_areas s t k \<Longrightarrow>
   safestrcpy_loop m s t k = put_bytes m s (safestrcpy_bytes (bytes_at m t k) k)"
proof (induction k arbitrary: m s t)
  case 0
  then show ?case by (simp add: put_bytes_Cons)
next
  case (Suc k)
  have "length (safestrcpy_bytes (bytes_at m (t + 1) k) k) < 2 ^ 32"
    using length_safestrcpy_bytes [of "bytes_at m (t + 1) k" k] Suc.prems(1) by linarith
  with disjoint_areas_Suc [OF Suc.prems(2)] Suc.prems(1) Suc.IH show ?case
    by (cases "m t = 0") (simp_all add: bytes_at_Suc Let_def put_bytes_Cons put_bytes_two)
qed

lemma safestrcpy_bytes_string:
  "takeWhile (\<lambda>c. c \<noteq> 0) (safestrcpy_bytes t k) = take k (takeWhile (\<lambda>c. c \<noteq> 0) t)"
  by (induction t k rule: safestrcpy_bytes.induct) auto

lemma safestrcpy_bytes_zero: "0 \<in> set (safestrcpy_bytes t k)"
  by (induction t k rule: safestrcpy_bytes.induct) auto

lemma strlen_loop_Some:
  "m (s + of_nat (n + d)) = 0 \<Longrightarrow> \<forall>i < d. m (s + of_nat (n + i)) \<noteq> 0 \<Longrightarrow> strlen_loop m s (of_nat n) = Some (of_nat (n + d))"
proof (induction d arbitrary: n)
  case 0
  then show ?case by (simp add: strlen_loop.simps)
next
  case (Suc d)
  from Suc.prems(2) have "m (s + of_nat n) \<noteq> 0" by (metis add_0_right zero_less_Suc)
  moreover have "strlen_loop m s (of_nat (Suc n)) = Some (of_nat (Suc n + d))"
    by (rule Suc.IH) (use Suc.prems in \<open>auto simp del: of_nat_Suc of_nat_add simp flip: add_Suc_right\<close>)
  ultimately show ?case by (subst strlen_loop.simps) (simp add: add.commute)
qed

lemma strlen_loop_ret: "strlen_loop m s n = Some r \<Longrightarrow> m (s + r) = 0"
  by (induction rule: strlen_loop.raw_induct [rotated 1, consumes 1]) (simp split: if_splits)

lemma less_3_cases: "(i :: nat) < 3 \<longleftrightarrow> i = 0 \<or> i = 1 \<or> i = 2"
  by arith

section \<open>Properties\<close>

text \<open>
  \<open>memset\<close> (\<open>src/string.c\<close>) sets exactly the \<open>n\<close> bytes at \<open>dst\<close> to the low byte of
  \<open>c\<close>, whichever of its two paths it takes: the word path for aligned areas writes the
  same memory as the byte path.
\<close>

theorem memset_fills: "memset m dst c n = fill_area m dst (unat n) (ucast c)"
  by (rule memset_fill)

text \<open>
  (C26) \<open>memmove\<close> copies the area as it was before the call, also when source and
  destination overlap in either direction, and writes nothing else, for every area that
  does not wrap around the top of the address space.
\<close>

theorem memmove_correct:
  assumes "unat src + unat n < 2 ^ 32" "unat dst + unat n \<le> 2 ^ 32"
  shows "bytes_at (memmove m dst src n) dst (unat n) = bytes_at m src (unat n) \<and>
         (\<forall>x. unat n \<le> unat (x - dst) \<longrightarrow> memmove m dst src n x = m x)"
proof -
  have "i < unat n \<Longrightarrow> i < 2 ^ 32" for i using unat32_lt [of n] by linarith
  then show ?thesis
    by (auto simp: memmove_move [OF assms] move_area_def unat_of_nat32 intro!: nth_equalityI)
qed

theorem memmove_correct_witness:
  "bytes_at (memmove (\<lambda>x. ucast x) 102 100 4) 102 4 = [100, 101, 102, 103]"
proof -
  have "bytes_at (memmove (\<lambda>x. ucast x) 102 100 4) 102 (unat (4 :: u32)) =
      bytes_at (\<lambda>x. ucast x) 100 (unat (4 :: u32))"
    using memmove_correct [of 100 4 102 "\<lambda>x. ucast x"] by simp
  then show ?thesis by (simp add: bytes_at_Suc)
qed

text \<open>
  (C32) \<open>strncpy\<close> writes exactly \<open>n\<close> bytes: the source string up to its zero, padded
  with zeros, cut (and then unterminated) when it is \<open>n\<close> or longer; and
  \<open>safestrcpy\<close> leaves a terminated string that is the source cut to \<open>n - 1\<close> characters,
  without writing past \<open>n\<close> bytes.
\<close>

theorem strncpy_safestrcpy_correct:
  assumes "0 < n" "n < 2 ^ 31" "disjoint_areas s t (nat n)"
  shows "strncpy m s t n = put_bytes m s (strncpy_bytes (bytes_at m t (nat n)) (nat n)) \<and>
         (\<exists>bs. safestrcpy m s t n = put_bytes m s bs \<and> length bs \<le> nat n \<and> 0 \<in> set bs \<and>
               takeWhile (\<lambda>c. c \<noteq> 0) bs = 
                 take (nat n - 1) (takeWhile (\<lambda>c. c \<noteq> 0) (bytes_at m t (nat n - 1))))"
proof -
  have bound: "nat n \<le> 2 ^ 32" using assms(2) by simp
  define k where "k = nat (n - 1)"
  have k: "nat n = Suc k" "nat (n - 1) = k" using assms(1) by (simp_all add: k_def)
  have "disjoint_areas s t k" using assms(3) k(1) by (simp add: disjoint_areas_def)
  then have "safestrcpy m s t n = put_bytes m s (safestrcpy_bytes (bytes_at m t k) k)"
    using assms(1) bound k by (simp add: safestrcpy_def safestrcpy_loop_put)
  then have "\<exists>bs. safestrcpy m s t n = put_bytes m s bs \<and> length bs \<le> nat n \<and> 0 \<in> set bs \<and>
      takeWhile (\<lambda>c. c \<noteq> 0) bs = take (nat n - 1) (takeWhile (\<lambda>c. c \<noteq> 0) (bytes_at m t (nat n - 1)))"
    by (intro exI conjI, assumption)
      (simp_all add: k length_safestrcpy_bytes safestrcpy_bytes_zero safestrcpy_bytes_string)
  moreover have "strncpy m s t n = put_bytes m s (strncpy_bytes (bytes_at m t (nat n)) (nat n))"
    unfolding strncpy_def by (rule strncpy_loop_put [OF bound assms(3)])
  ultimately show ?thesis by (rule conjI [rotated])
qed

theorem strncpy_safestrcpy_correct_witness:
  "disjoint_areas 0 100 (nat 3) \<and>
   strncpy (\<lambda>x. if x = 100 then 65 else 0) 0 100 3 =
     put_bytes (\<lambda>x. if x = 100 then 65 else 0) 0 [65, 0, 0]"
proof -
  have d: "disjoint_areas 0 100 (nat 3)"
    by (auto simp: disjoint_areas_def less_3_cases)
  have "bytes_at (\<lambda>x. if x = 100 then 65 else 0) 100 (nat 3) = [65, 0, 0]" by (simp add: bytes_at_Suc)
  moreover have "strncpy_bytes [65, 0, 0] (nat 3) = [65, 0, 0]" by code_simp
  moreover have "strncpy (\<lambda>x. if x = 100 then 65 else 0) 0 100 3 =
      put_bytes (\<lambda>x. if x = 100 then 65 else 0) 0
        (strncpy_bytes (bytes_at (\<lambda>x. if x = 100 then 65 else 0) 100 (nat 3)) (nat 3))"
    by (rule strncpy_safestrcpy_correct [THEN conjunct1]) (use d in simp_all)
  ultimately show ?thesis using d by (simp only: simp_thms)
qed

text \<open>
  (C33) \<open>strlen\<close> of a string whose first zero byte from \<open>s\<close> on is at offset \<open>k\<close> returns \<open>k\<close> as a C
  \<open>int\<close>, that is \<open>k\<close> itself for strings shorter than \<open>2 ^ 31\<close> and a negative number for longer
  ones. It returns whenever there is a zero byte, and is the loop without end (\<open>None\<close>)
  precisely when the whole address space holds none.
\<close>

theorem strlen_correct:
  "(\<forall>k < 2 ^ 32. m (s + of_nat k) = 0 \<longrightarrow> (\<forall>i < k. m (s + of_nat i) \<noteq> 0) \<longrightarrow>
      strlen m s = Some (if k < 2 ^ 31 then int k else int k - 2 ^ 32)) \<and>
   (strlen m s = None \<longleftrightarrow> (\<forall>x. m x \<noteq> 0))"
proof -
  have A: "strlen_loop m s 0 = Some (of_nat k)" if "m (s + of_nat k) = 0" "\<forall>i < k. m (s + of_nat i) \<noteq> 0" for k
    using strlen_loop_Some [of m s 0 k] that by simp
  have S: "sint (of_nat k :: u32) = (if k < 2 ^ 31 then int k else int k - 2 ^ 32)" if "k < 2 ^ 32" for k
  proof -
    have "sint (of_nat k :: u32) = (int k + 2 ^ 31) mod 2 ^ 32 - 2 ^ 31"
      by (simp add: signed_of_nat signed_take_bit_eq_take_bit_shift take_bit_eq_mod)
    moreover have "(int k + 2 ^ 31) mod 2 ^ 32 = (if k < 2 ^ 31 then int k + 2 ^ 31 else int k - 2 ^ 31)"
      using that mod_pos_pos_trivial [of "int k - 2 ^ 31" "2 ^ 32"] mod_add_self2 [of "int k - 2 ^ 31" "2 ^ 32"] by (auto simp: add.commute)
    ultimately show ?thesis by auto
  qed
  have C: "strlen m s \<noteq> None" if "m x = 0" for x
  proof -
    have "m (s + of_nat (unat (x - s))) = 0" using that by simp
    then obtain n where "m (s + of_nat n) = 0 \<and> (\<forall>i < n. m (s + of_nat i) \<noteq> 0)"
      using exists_least_iff [of "\<lambda>n. m (s + of_nat n) = 0"] by blast
    with A [of n] show ?thesis by (simp add: strlen_def)
  qed
  have D: "strlen m s = None" if "\<forall>x. m x \<noteq> 0"
    using strlen_loop_ret [of m s 0] that by (cases "strlen_loop m s 0") (simp_all add: strlen_def)
  have "strlen m s = Some (if k < 2 ^ 31 then int k else int k - 2 ^ 32)"
    if "k < 2 ^ 32" "m (s + of_nat k) = 0" "\<forall>i < k. m (s + of_nat i) \<noteq> 0" for k
    using A [OF that(2,3)] S [OF that(1)] by (simp add: strlen_def)
  with C D show ?thesis by blast
qed

theorem strlen_correct_witness: "strlen (\<lambda>x. if x < 102 then 65 else 0) 100 = Some 2"
proof -
  have "(\<forall>i < 2. (if (100 :: u32) + of_nat i < 102 then (65 :: u8) else 0) \<noteq> 0)"
    by (auto simp: less_2_cases_iff)
  with strlen_correct [of "\<lambda>x. if x < 102 then 65 else 0" 100, THEN conjunct1, rule_format, of 2] show ?thesis by simp
qed

end
