(* ===== verification/Kalloc.thy ===== *)
theory Kalloc
  imports Spinlock StringC
begin

text \<open>
  The physical page allocator (\<open>src/kalloc.c\<close>) and the address arithmetic it shares with
  the virtual memory code (\<open>src/memlayout.h\<close>, \<open>src/mmu.h\<close>). The free list is threaded
  through the free pages themselves: the first word of a free page holds the address of
  the next one. The state adds the kernel's memory, read at kernel virtual addresses, and
  the fields of \<open>struct kmem\<close>; the linker symbol \<open>end\<close> is the constant field \<open>kend\<close>.
\<close>

unbundle bit_operations_syntax

section \<open>Address arithmetic\<close>

abbreviation (input) PGSIZE :: u32 where "PGSIZE \<equiv> 4096"
abbreviation (input) KERNBASE :: u32 where "KERNBASE \<equiv> 0x80000000"
abbreviation (input) PHYSTOP :: u32 where "PHYSTOP \<equiv> 0xE000000"

definition v2p :: "u32 \<Rightarrow> u32" where
  "v2p a = a - KERNBASE"

definition p2v :: "u32 \<Rightarrow> u32" where
  "p2v a = a + KERNBASE"

definition PGROUNDUP :: "u32 \<Rightarrow> u32" where
  "PGROUNDUP sz = (sz + PGSIZE - 1) AND NOT (PGSIZE - 1)"

definition PGROUNDDOWN :: "u32 \<Rightarrow> u32" where
  "PGROUNDDOWN a = a AND NOT (PGSIZE - 1)"

section \<open>State and operations\<close>

record kmem = base +
  ram :: mem
  use_lock :: bool
  freelist :: u32
  kend :: u32

definition kfree :: "u32 \<Rightarrow> ('a kmem_scheme, unit) kernel" where
  "kfree v =
     bindK (getsK kend) (\<lambda>e.
     if v mod PGSIZE \<noteq> 0 \<or> v < e \<or> v2p v \<ge> PHYSTOP then panic ''kfree''
     else
       seqK (modifyK (\<lambda>s. s\<lparr>ram := memset (ram s) v 1 PGSIZE\<rparr>))
       (bindK (getsK use_lock) (\<lambda>ul.
        seqK (whenK ul (acquire Kmem_lock))
        (seqK (modifyK (\<lambda>s. s\<lparr>ram := store32 (ram s) v (freelist s), freelist := v\<rparr>))
        (bindK (getsK use_lock) (\<lambda>ul.
         whenK ul (release Kmem_lock)))))))"

definition kalloc :: "('a kmem_scheme, u32) kernel" where
  "kalloc =
     bindK (getsK use_lock) (\<lambda>ul.
     seqK (whenK ul (acquire Kmem_lock))
     (bindK (getsK freelist) (\<lambda>r.
      seqK (whenK (r \<noteq> 0) (modifyK (\<lambda>s. s\<lparr>freelist := load32 (ram s) r\<rparr>)))
      (bindK (getsK use_lock) (\<lambda>ul.
       seqK (whenK ul (release Kmem_lock))
       (ret r))))))"

text \<open>The loop of \<open>freerange\<close> advances by one page; \<open>2 ^ 20\<close> iterations visit every page
  of the address space, and \<open>kfree\<close> panics before the pointer can wrap around.\<close>

fun freerange_loop :: "nat \<Rightarrow> u32 \<Rightarrow> u32 \<Rightarrow> ('a kmem_scheme, unit) kernel" where
  "freerange_loop 0 p vend = spin"
| "freerange_loop (Suc n) p vend =
     (if p + PGSIZE \<le> vend then seqK (kfree p) (freerange_loop n (p + PGSIZE) vend) else ret ())"

definition freerange :: "u32 \<Rightarrow> u32 \<Rightarrow> ('a kmem_scheme, unit) kernel" where
  "freerange vstart vend = freerange_loop (2 ^ 20) (PGROUNDUP vstart) vend"

definition kinit1 :: "u32 \<Rightarrow> u32 \<Rightarrow> ('a kmem_scheme, unit) kernel" where
  "kinit1 vstart vend =
     seqK (initlock Kmem_lock ''kmem'')
     (seqK (modifyK (\<lambda>s. s\<lparr>use_lock := False\<rparr>))
     (freerange vstart vend))"

definition kinit2 :: "u32 \<Rightarrow> u32 \<Rightarrow> ('a kmem_scheme, unit) kernel" where
  "kinit2 vstart vend =
     seqK (freerange vstart vend)
     (modifyK (\<lambda>s. s\<lparr>use_lock := True\<rparr>))"

section \<open>The free list\<close>

text \<open>
  \<open>page_ok e v\<close>: the page passes the checks of \<open>kfree\<close> for the end \<open>e\<close> of the kernel.
  \<open>free_pages s xs\<close>: the free list of \<open>s\<close> visits the pages \<open>xs\<close>, in this order, each
  once, and each allowed to be there. \<open>kmem_ready s\<close>: the running CPU can enter the
  allocator.
\<close>

definition page_ok :: "u32 \<Rightarrow> u32 \<Rightarrow> bool" where
  "page_ok e v = (v mod PGSIZE = 0 \<and> e \<le> v \<and> v2p v < PHYSTOP)"

fun fl_path :: "mem \<Rightarrow> u32 \<Rightarrow> u32 list \<Rightarrow> bool" where
  "fl_path m r [] = (r = 0)"
| "fl_path m r (x # xs) = (r = x \<and> fl_path m (load32 m x) xs)"

definition free_pages :: "'a kmem_scheme \<Rightarrow> u32 list \<Rightarrow> bool" where
  "free_pages s xs = (fl_path (ram s) (freelist s) xs \<and> distinct xs \<and>
     (\<forall>x \<in> set xs. page_ok (kend s) x) \<and> KERNBASE < kend s)"

definition kmem_ready :: "'a kmem_scheme \<Rightarrow> bool" where
  "kmem_ready s = (use_lock s \<longrightarrow> lock_ok Kmem_lock s)"

text \<open>The addresses of a page, and two memories that agree outside one.\<close>

definition in_page :: "u32 \<Rightarrow> u32 \<Rightarrow> bool" where
  "in_page v x = (unat (x - v) < 4096)"

definition same_except :: "(u32 \<Rightarrow> bool) \<Rightarrow> mem \<Rightarrow> mem \<Rightarrow> bool" where
  "same_except P m m' = (\<forall>x. \<not> P x \<longrightarrow> m' x = m x)"

text \<open>
  The rest of the kernel as a client of the allocator: it owns the pages it got from
  \<open>kalloc\<close> and has not given back, may write to those and to nothing the allocator
  owns, and frees only what it owns.
\<close>

inductive client_step :: "'a kmem_scheme \<times> u32 set \<Rightarrow> 'a kmem_scheme \<times> u32 set \<Rightarrow> bool" where
  alloc: "kalloc s = Ok p t \<Longrightarrow> client_step (s, H) (t, if p = 0 then H else insert p H)"
| free: "v \<in> H \<Longrightarrow> kfree v s = Ok () t \<Longrightarrow> client_step (s, H) (t, H - {v})"
| store: "same_except (\<lambda>x. \<exists>v \<in> H. in_page v x) (ram s) m \<Longrightarrow> client_step (s, H) (s\<lparr>ram := m\<rparr>, H)"

definition page_run :: "u32 \<Rightarrow> nat \<Rightarrow> u32 list" where
  "page_run p k = map (\<lambda>i. p + of_nat (4096 * i)) [0..<k]"

section \<open>Lemmas: words in memory\<close>

lemma word_offsets [simp]:
  "(a :: u32) + 1 \<noteq> a" "a \<noteq> a + 1" "a + 2 \<noteq> a" "a \<noteq> a + 2" "a + 3 \<noteq> a" "a \<noteq> a + 3"
  by simp_all

lemma load32_store32 [simp]: "load32 (store32 m a w) a = w"
proof -
  have "load32 (store32 m a w) a =
      ucast (ucast w :: u8) OR push_bit 8 (ucast (ucast (drop_bit 8 w) :: u8))
      OR push_bit 16 (ucast (ucast (drop_bit 16 w) :: u8)) OR push_bit 24 (ucast (ucast (drop_bit 24 w) :: u8))"
    by (simp add: load32_def store32_def)
  also have "\<dots> = w"
  proof (rule bit_word_eqI)
    fix n assume "n < LENGTH(32)"
    then consider "n < 8" | "8 \<le> n" "n < 16" | "16 \<le> n" "n < 24" | "24 \<le> n" "n < 32" by force
    then show "bit (ucast (ucast w :: u8) OR push_bit 8 (ucast (ucast (drop_bit 8 w) :: u8))
      OR push_bit 16 (ucast (ucast (drop_bit 16 w) :: u8)) OR push_bit 24 (ucast (ucast (drop_bit 24 w) :: u8)) :: u32) n
      = bit w n"
      by cases (auto simp: bit_simps)
  qed
  finally show ?thesis .
qed

lemma unat_of_offset: "unat ((a + of_nat i) - a) = i" if "i < 2 ^ 32" for a :: u32
  using that by (simp add: unat_of_nat32)

lemma store32_other: "4 \<le> unat (x - a) \<Longrightarrow> store32 m a w x = m x"
  by (auto simp: store32_def)

lemma load32_cong:
  "(\<And>x. unat (x - a) < 4 \<Longrightarrow> m x = m' x) \<Longrightarrow> load32 m a = load32 m' a"
  by (simp add: load32_def)

lemma load32_put0:
  assumes "\<And>x. unat (x - a) < 4 \<Longrightarrow> m x = 0"
  shows "load32 m a = 0"
  using assms by (simp add: load32_def)

section \<open>Lemmas: pages\<close>

lemma unat_numeral_4096: "unat (4096 :: u32) = 4096" and unat_numeral_4: "unat (4 :: u32) = 4"
  by simp_all

lemma in_page_self [simp]: "in_page v v"
  by (simp add: in_page_def)

lemma aligned_step: "c dvd a \<Longrightarrow> c dvd b \<Longrightarrow> a < b \<Longrightarrow> a + c \<le> b" for a b c :: nat
  using dvd_imp_le [of c "b - a"] dvd_diff_nat [of c b a] by linarith

lemma page_aligned_unat: "v mod PGSIZE = 0 \<longleftrightarrow> 4096 dvd unat v"
  by (simp add: unat_mod mod_eq_0_iff_dvd flip: unat_eq_0)

lemma word_aligned_unat: "a mod 4 = 0 \<longleftrightarrow> 4 dvd unat a" for a :: u32
  by (simp add: unat_mod mod_eq_0_iff_dvd flip: unat_eq_0)

lemma page_word_aligned: "v mod PGSIZE = 0 \<Longrightarrow> v mod 4 = 0"
  unfolding page_aligned_unat word_aligned_unat by (rule dvd_trans [of 4 4096]) simp_all

lemma page_end: "v mod PGSIZE = 0 \<Longrightarrow> unat v + 4096 \<le> 2 ^ 32"
  by (rule aligned_step) (use unat32_lt [of v] in \<open>simp_all add: page_aligned_unat\<close>)

lemma word_end: "a mod 4 = 0 \<Longrightarrow> unat a + 4 \<le> 2 ^ 32" for a :: u32
  by (rule aligned_step) (use unat32_lt [of a] in \<open>simp_all add: word_aligned_unat\<close>)

lemma page_no_wrap: "v mod PGSIZE = 0 \<Longrightarrow> i < 4096 \<Longrightarrow> unat (v + of_nat i) = unat v + i"
  using page_end [of v] by (simp add: unat_plus_if' unat_of_nat)

lemma in_page_unat:
  "v mod PGSIZE = 0 \<Longrightarrow> in_page v x \<longleftrightarrow> unat v \<le> unat x \<and> unat x < unat v + 4096"
  using page_end [of v] unat32_lt [of x]
  by (auto simp: in_page_def unat_sub_if' word_le_nat_alt)

lemma in_page_unique:
  assumes "v mod PGSIZE = 0" "w mod PGSIZE = 0" "in_page v x" "in_page w x"
  shows "v = w"
proof -
  have "unat v \<le> unat x" "unat x < unat v + 4096" "unat w \<le> unat x" "unat x < unat w + 4096"
    using assms by (simp_all add: in_page_unat)
  moreover have "unat v < unat w \<Longrightarrow> unat v + 4096 \<le> unat w" "unat w < unat v \<Longrightarrow> unat w + 4096 \<le> unat v"
    using assms by (auto simp: page_aligned_unat intro!: aligned_step)
  ultimately have "unat v = unat w" by linarith
  then show ?thesis by (rule unsigned_word_eqI)
qed

lemma in_page_word:
  assumes v: "v mod PGSIZE = 0" and a: "a mod 4 = 0" "in_page v a" and x: "unat (x - a) < 4"
  shows "in_page v x"
proof -
  have "unat a \<le> unat x \<and> unat x < unat a + 4"
    using x word_end [OF a(1)] by (auto simp: unat_sub_if' word_le_nat_alt split: if_splits)
  moreover have "unat v \<le> unat a" "unat a < unat v + 4096"
    using a v by (simp_all add: in_page_unat)
  moreover have "4 dvd unat v" using page_word_aligned [OF v] by (simp add: word_aligned_unat)
  then have "4 dvd unat v + 4096" by simp
  then have "unat a + 4 \<le> unat v + 4096"
    by (rule aligned_step [rotated]) (use a calculation in \<open>simp_all add: word_aligned_unat\<close>)
  ultimately show ?thesis using v by (simp add: in_page_unat)
qed

section \<open>Lemmas: the free list\<close>

lemma kend_page: "page_ok e v \<Longrightarrow> KERNBASE < e \<Longrightarrow> v \<noteq> 0 \<and> v mod PGSIZE = 0 \<and> v mod 4 = 0"
  using page_word_aligned [of v] by (auto simp: page_ok_def)

lemma fl_path_cong:
  "fl_path m r xs \<Longrightarrow> (\<And>x. x \<in> set xs \<Longrightarrow> load32 m' x = load32 m x) \<Longrightarrow> fl_path m' r xs"
  by (induction xs arbitrary: r) auto

lemma load32_same:
  assumes "same_except P m m'" "v mod PGSIZE = 0" "\<And>x. in_page v x \<Longrightarrow> \<not> P x"
    "a mod 4 = 0" "in_page v a"
  shows "load32 m' a = load32 m a"
  using assms in_page_word [of v a] by (intro load32_cong) (auto simp: same_except_def)

lemma free_pages_frame:
  assumes "free_pages s xs" "same_except P (ram s) m'" "\<And>x y. x \<in> set xs \<Longrightarrow> in_page x y \<Longrightarrow> \<not> P y"
  shows "free_pages (s\<lparr>ram := m'\<rparr>) xs"
proof -
  have "load32 m' x = load32 (ram s) x" if "x \<in> set xs" for x
    using assms that kend_page [of "kend s" x]
    by (intro load32_same [of P _ _ x]) (auto simp: free_pages_def)
  with assms(1) show ?thesis by (auto simp: free_pages_def intro: fl_path_cong)
qed

lemma fl_path_unique: "fl_path m r xs \<Longrightarrow> fl_path m r ys \<Longrightarrow> 0 \<notin> set xs \<Longrightarrow> 0 \<notin> set ys \<Longrightarrow> xs = ys"
proof (induction xs arbitrary: r ys)
  case Nil
  then show ?case by (cases ys) auto
next
  case (Cons x xs)
  from Cons.prems obtain zs where "ys = x # zs" "fl_path m (load32 m x) zs" by (cases ys) auto
  with Cons.IH [of "load32 m x" zs] Cons.prems show ?case by simp
qed

lemma free_pages_unique: "free_pages s xs \<Longrightarrow> free_pages s ys \<Longrightarrow> xs = ys"
  by (rule fl_path_unique [of "ram s" "freelist s"])
    (auto simp: free_pages_def dest: kend_page)


section \<open>Lemmas: allocation\<close>

lemma acq_st_kmem [simp]:
  "ram (acq_st l s) = ram s" "freelist (acq_st l s) = freelist s"
  "use_lock (acq_st l s) = use_lock s" "kend (acq_st l s) = kend s"
  "(acq_st l s)\<lparr>ram := m\<rparr> = acq_st l (s\<lparr>ram := m\<rparr>)"
  "(acq_st l s)\<lparr>freelist := r\<rparr> = acq_st l (s\<lparr>freelist := r\<rparr>)"
  "(acq_st l s)\<lparr>use_lock := b\<rparr> = acq_st l (s\<lparr>use_lock := b\<rparr>)"
  by (simp_all add: acq_st_def upd_lock_def upd_cpu_def)

lemma lock_ok_kmem [simp]:
  "lock_ok l (s\<lparr>ram := m\<rparr>) = lock_ok l s" "lock_ok l (s\<lparr>freelist := r\<rparr>) = lock_ok l s"
  "lock_ok l (s\<lparr>use_lock := b\<rparr>) = lock_ok l s"
  by (simp_all add: lock_ok_def lock_free_def settled_def cur_cpu_def)

lemma kmem_ready_upd [simp]:
  "kmem_ready (s\<lparr>ram := m\<rparr>) = kmem_ready s" "kmem_ready (s\<lparr>freelist := r\<rparr>) = kmem_ready s"
  by (simp_all add: kmem_ready_def)

lemma kmem_ready_acq_st [simp]: "kmem_ready s \<Longrightarrow> l \<noteq> Kmem_lock \<Longrightarrow> kmem_ready (acq_st l s)"
  by (simp add: kmem_ready_def)

lemma kalloc_run [kernel_simps]:
  "kmem_ready s \<Longrightarrow> kalloc s =
     Ok (freelist s) (if freelist s = 0 then s else s\<lparr>freelist := load32 (ram s) (freelist s)\<rparr>)"
  by (cases "use_lock s")
    (simp_all add: kalloc_def run_simps kmem_ready_def whenK_def acquire_ok release_acq)

lemma kfree_run [kernel_simps]:
  "kmem_ready s \<Longrightarrow> page_ok (kend s) v \<Longrightarrow> kfree v s =
     Ok () (s\<lparr>ram := store32 (memset (ram s) v 1 PGSIZE) v (freelist s), freelist := v\<rparr>)"
  by (cases "use_lock s")
    (simp_all add: kfree_def run_simps kmem_ready_def whenK_def acquire_ok release_acq page_ok_def not_less not_le)

lemma kfree_panic [kernel_simps]: "\<not> page_ok (kend s) v \<Longrightarrow> kfree v s = Panic ''kfree''"
  by (auto simp: kfree_def page_ok_def run_simps not_less not_le)

lemma kfree_ram:
  assumes "v mod PGSIZE = 0"
  shows "same_except (in_page v) m (store32 (memset m v 1 PGSIZE) v w)"
proof -
  have "store32 (memset m v 1 PGSIZE) v w x = m x" if "\<not> in_page v x" for x
  proof -
    have "4096 \<le> unat (x - v)" using that by (simp add: in_page_def)
    then have "store32 (memset m v 1 PGSIZE) v w x = memset m v 1 PGSIZE x"
      by (intro store32_other) simp
    with \<open>4096 \<le> unat (x - v)\<close> show ?thesis by (simp add: memset_fill fill_area_def)
  qed
  then show ?thesis by (simp add: same_except_def)
qed

lemma free_pages_simps:
  "free_pages s [] \<longleftrightarrow> freelist s = 0 \<and> KERNBASE < kend s"
  "free_pages s (x # xs) \<longleftrightarrow> freelist s = x \<and> page_ok (kend s) x \<and> x \<notin> set xs \<and>
     free_pages (s\<lparr>freelist := load32 (ram s) x\<rparr>) xs"
  by (auto simp: free_pages_def)

lemma free_pages_page:
  "free_pages s xs \<Longrightarrow> x \<in> set xs \<Longrightarrow> page_ok (kend s) x \<and> x \<noteq> 0 \<and> x mod PGSIZE = 0"
  using kend_page [of "kend s" x] by (auto simp: free_pages_def)

lemma kalloc_spec:
  assumes "kmem_ready s" "free_pages s xs"
  shows "\<exists>t. kalloc s = Ok (case xs of [] \<Rightarrow> 0 | x # _ \<Rightarrow> x) t \<and> free_pages t (tl xs) \<and>
           ram t = ram s \<and> kmem_ready t \<and> kend t = kend s"
proof (cases xs)
  case Nil
  with assms show ?thesis by (simp add: kalloc_run free_pages_simps)
next
  case (Cons x ys)
  then have "x \<noteq> 0" using free_pages_page [OF assms(2)] by simp
  with Cons assms show ?thesis by (simp add: kalloc_run free_pages_simps)
qed

lemma kfree_spec:
  assumes "kmem_ready s" "free_pages s xs" "page_ok (kend s) v" "v \<notin> set xs"
  shows "\<exists>t. kfree v s = Ok () t \<and> free_pages t (v # xs) \<and>
           same_except (in_page v) (ram s) (ram t) \<and> kmem_ready t \<and> kend t = kend s"
proof -
  let ?m = "store32 (memset (ram s) v 1 PGSIZE) v (freelist s)"
  have v: "v mod PGSIZE = 0" using assms(3) by (simp add: page_ok_def)
  have same: "same_except (in_page v) (ram s) ?m" by (rule kfree_ram [OF v])
  have "free_pages (s\<lparr>ram := ?m\<rparr>) xs"
  proof (rule free_pages_frame [OF assms(2) same])
    fix x y assume "x \<in> set xs" "in_page x y"
    then show "\<not> in_page v y"
      using in_page_unique [OF v, of x y] free_pages_page [OF assms(2), of x] assms(4) by auto
  qed
  then have "free_pages (s\<lparr>ram := ?m, freelist := v\<rparr>) (v # xs)"
    using assms(3,4) by (simp add: free_pages_def)
  with assms same show ?thesis by (simp add: kfree_run)
qed


section \<open>The interface of the allocator\<close>

text \<open>
  What a client relies on: the pages in the allocator's hands are a list without
  repetition; \<open>alloc\<close> takes the first of them and leaves memory alone, \<open>free\<close> adds a page
  it did not have and writes to no other, and writes outside the free pages do not
  concern it.
\<close>

locale page_allocator =
  fixes alloc :: "'s \<Rightarrow> (u32, 's) outcome"
    and free :: "u32 \<Rightarrow> 's \<Rightarrow> (unit, 's) outcome"
    and setmem :: "mem \<Rightarrow> 's \<Rightarrow> 's"
    and getmem :: "'s \<Rightarrow> mem"
    and pages :: "'s \<Rightarrow> u32 list \<Rightarrow> bool"
    and valid :: "'s \<Rightarrow> u32 \<Rightarrow> bool"
  assumes alloc_law: "pages s xs \<Longrightarrow> \<exists>t. alloc s = Ok (case xs of [] \<Rightarrow> 0 | x # _ \<Rightarrow> x) t \<and>
      pages t (tl xs) \<and> getmem t = getmem s \<and> valid t = valid s"
    and free_law: "pages s xs \<Longrightarrow> valid s v \<Longrightarrow> v \<notin> set xs \<Longrightarrow> \<exists>t. free v s = Ok () t \<and>
      pages t (v # xs) \<and> same_except (in_page v) (getmem s) (getmem t) \<and> valid t = valid s"
    and store_law: "pages s xs \<Longrightarrow> same_except P (getmem s) m \<Longrightarrow>
      (\<And>x y. x \<in> set xs \<Longrightarrow> in_page x y \<Longrightarrow> \<not> P y) \<Longrightarrow> pages (setmem m s) xs \<and> valid (setmem m s) = valid s"
    and pages_distinct: "pages s xs \<Longrightarrow> distinct xs"
    and pages_valid: "pages s xs \<Longrightarrow> x \<in> set xs \<Longrightarrow> valid s x"
    and valid_page: "pages s xs \<Longrightarrow> valid s x \<Longrightarrow> x \<noteq> 0 \<and> x mod PGSIZE = 0"
begin

lemma alloc_owned:
  assumes "pages s xs" "set xs \<inter> H = {}" "\<forall>v \<in> H. valid s v" "alloc s = Ok p t"
  shows "\<exists>ys. pages t ys \<and> set ys \<inter> (if p = 0 then H else insert p H) = {} \<and>
    set ys \<union> (if p = 0 then H else insert p H) = set xs \<union> H \<and>
    (\<forall>v \<in> (if p = 0 then H else insert p H). valid t v)"
proof (cases xs)
  case Nil
  with assms alloc_law [OF assms(1)] show ?thesis by auto
next
  case (Cons x ys)
  with alloc_law [OF assms(1)] assms(4) have *: "p = x" "pages t ys" "valid t = valid s" by auto
  have "x \<noteq> 0" using valid_page [OF assms(1)] pages_valid [OF assms(1)] Cons by simp
  with * Cons assms pages_distinct [OF assms(1)] pages_valid [OF assms(1), of x] show ?thesis
    by (intro exI [of _ ys]) auto
qed

lemma free_owned:
  assumes "pages s xs" "set xs \<inter> H = {}" "\<forall>v \<in> H. valid s v" "v \<in> H" "free v s = Ok () t"
  shows "\<exists>ys. pages t ys \<and> set ys \<inter> (H - {v}) = {} \<and> set ys \<union> (H - {v}) = set xs \<union> H \<and>
    (\<forall>u \<in> H - {v}. valid t u)"
proof -
  have "v \<notin> set xs" using assms(2,4) by blast
  from free_law [OF assms(1) _ this] assms have "pages t (v # xs)" "valid t = valid s" by auto
  with assms show ?thesis by (intro exI [of _ "v # xs"]) auto
qed

lemma store_owned:
  assumes "pages s xs" "set xs \<inter> H = {}" "\<forall>v \<in> H. valid s v"
    "same_except (\<lambda>x. \<exists>v \<in> H. in_page v x) (getmem s) m"
  shows "pages (setmem m s) xs \<and> (\<forall>v \<in> H. valid (setmem m s) v)"
proof -
  have "\<not> (\<exists>v \<in> H. in_page v y)" if "x \<in> set xs" "in_page x y" for x y
  proof
    assume "\<exists>v \<in> H. in_page v y"
    then obtain v where "v \<in> H" "in_page v y" by blast
    moreover have "v mod PGSIZE = 0" "x mod PGSIZE = 0"
      using valid_page [OF assms(1)] pages_valid [OF assms(1)] assms(3) that(1) calculation(1) by auto
    ultimately have "v = x" using in_page_unique [of v x y] that(2) by simp
    with \<open>v \<in> H\<close> that(1) assms(2) show False by blast
  qed
  from store_law [OF assms(1,4) this] assms(3) show ?thesis by simp
qed

end

interpretation ka: page_allocator kalloc kfree "\<lambda>m s. s\<lparr>ram := m\<rparr>" ram
    "\<lambda>s xs. kmem_ready s \<and> free_pages s xs" "\<lambda>s. page_ok (kend s)"
proof (unfold_locales, goal_cases)
  case (1 s xs)
  then show ?case using kalloc_spec [of s xs] by auto
next
  case (2 s xs v)
  then show ?case using kfree_spec [of s xs v] by auto
next
  case (3 s xs P m)
  then show ?case using free_pages_frame [of s xs P m] by simp
next
  case (4 s xs)
  then show ?case by (simp add: free_pages_def)
next
  case (5 s xs x)
  then show ?case by (simp add: free_pages_def)
next
  case (6 s xs x)
  then show ?case using kend_page [of "kend s" x] by (auto simp: free_pages_def)
qed


section \<open>Lemmas: clients and initialisation\<close>

definition client_inv :: "u32 set \<Rightarrow> 'a kmem_scheme \<times> u32 set \<Rightarrow> bool" where
  "client_inv A = (\<lambda>(s, H). \<exists>xs. (kmem_ready s \<and> free_pages s xs) \<and> set xs \<inter> H = {} \<and> set xs \<union> H = A \<and>
     (\<forall>v \<in> H. page_ok (kend s) v))"

lemma client_inv_step: "client_step c d \<Longrightarrow> client_inv A c \<Longrightarrow> client_inv A d"
proof (induction rule: client_step.induct)
  case (alloc s p t H)
  then obtain xs where xs: "kmem_ready s \<and> free_pages s xs" "set xs \<inter> H = {}" "\<forall>v \<in> H. page_ok (kend s) v"
    "set xs \<union> H = A" by (auto simp: client_inv_def)
  from ka.alloc_owned [OF xs(1-3) alloc.hyps] xs(4) show ?case unfolding client_inv_def by fast
next
  case (free v H s t)
  then obtain xs where xs: "kmem_ready s \<and> free_pages s xs" "set xs \<inter> H = {}" "\<forall>v \<in> H. page_ok (kend s) v"
    "set xs \<union> H = A" by (auto simp: client_inv_def)
  from ka.free_owned [OF xs(1-3) free.hyps] xs(4) show ?case unfolding client_inv_def by fast
next
  case (store H s m)
  then obtain xs where xs: "kmem_ready s \<and> free_pages s xs" "set xs \<inter> H = {}" "\<forall>v \<in> H. page_ok (kend s) v"
    "set xs \<union> H = A" by (auto simp: client_inv_def)
  from ka.store_owned [OF xs(1-3) store.hyps] xs show ?case unfolding client_inv_def by fast
qed

lemma client_inv_run: "client_step\<^sup>*\<^sup>* c d \<Longrightarrow> client_inv A c \<Longrightarrow> client_inv A d"
  by (induction rule: rtranclp_induct) (auto intro: client_inv_step)

lemma client_inv_start: "kmem_ready s \<Longrightarrow> free_pages s xs \<Longrightarrow> client_inv (set xs) (s, {})"
  by (auto simp: client_inv_def)

lemma page_run_Suc: "page_run p (Suc k) = p # page_run (p + PGSIZE) k"
proof -
  have "[0..<Suc k] = 0 # map Suc [0..<k]" by (simp add: map_Suc_upt upt_conv_Cons del: upt_Suc)
  then show ?thesis by (simp add: page_run_def algebra_simps del: upt_Suc)
qed

lemma freerange_loop_spec:
  "kmem_ready s \<Longrightarrow> free_pages s xs \<Longrightarrow> k < n \<Longrightarrow>
   unat p + 4096 * k \<le> unat vend \<Longrightarrow> unat vend < unat p + 4096 * k + 4096 \<Longrightarrow>
   unat vend + 4096 < 2 ^ 32 \<Longrightarrow>
   \<forall>v \<in> set (page_run p k). page_ok (kend s) v \<Longrightarrow> distinct (page_run p k @ xs) \<Longrightarrow>
   \<exists>t. freerange_loop n p vend s = Ok () t \<and> free_pages t (rev (page_run p k) @ xs) \<and>
       kmem_ready t \<and> kend t = kend s"
proof (induction k arbitrary: n p s xs)
  case 0
  then obtain n' where "n = Suc n'" by (cases n) auto
  moreover have "\<not> p + PGSIZE \<le> vend"
    using "0.prems" by (simp add: word_le_nat_alt unat_plus_if')
  ultimately show ?case using "0.prems" by (simp add: page_run_def)
next
  case (Suc k)
  then obtain n' where n: "n = Suc n'" "k < n'" by (cases n) auto
  have up: "unat (p + PGSIZE) = unat p + 4096" using Suc.prems by (simp add: unat_plus_if')
  have le: "p + PGSIZE \<le> vend" using Suc.prems by (simp add: word_le_nat_alt up)
  from Suc.prems(7,8) have p: "page_ok (kend s) p" "p \<notin> set xs" "p \<notin> set (page_run (p + PGSIZE) k)"
    "distinct (page_run (p + PGSIZE) k @ xs)" by (auto simp: page_run_Suc)
  from kfree_spec [OF Suc.prems(1,2) p(1,2)] obtain t where
    t: "kfree p s = Ok () t" "free_pages t (p # xs)" "kmem_ready t" "kend t = kend s" by blast
  have "\<exists>u. freerange_loop n' (p + PGSIZE) vend t = Ok () u \<and>
      free_pages u (rev (page_run (p + PGSIZE) k) @ p # xs) \<and> kmem_ready u \<and> kend u = kend t"
    by (rule Suc.IH [OF t(3,2) n(2)]) (use Suc.prems up p t(4) in \<open>auto simp: page_run_Suc\<close>)
  with t n le show ?case by (simp add: run_simps page_run_Suc)
qed

lemma and_not_add: "(a AND NOT m) + (a AND m) = a" for a m :: u32
proof -
  have "(a AND NOT m) AND (a AND m) = 0" by (rule bit_word_eqI) (auto simp: bit_simps)
  then have "(a AND NOT m) + (a AND m) = (a AND NOT m) OR (a AND m)" by (rule disjunctive_add_eq_or)
  also have "\<dots> = a" by (rule bit_word_eqI) (auto simp: bit_simps)
  finally show ?thesis .
qed

lemma PGROUNDDOWN_minus: "PGROUNDDOWN a = a - a mod PGSIZE"
proof -
  have "a mod PGSIZE = a AND 4095"
    using take_bit_eq_mod [of 12 a] take_bit_eq_mask [of 12 a] by (simp add: mask_eq_exp_minus_1)
  moreover have "(a AND NOT 4095) + (a AND 4095) = a"
    by (rule and_not_add)
  ultimately show ?thesis by (simp add: PGROUNDDOWN_def eq_diff_eq)
qed

lemma unat_PGROUNDDOWN: "unat (PGROUNDDOWN a) = unat a div 4096 * 4096"
proof -
  have "unat (a mod PGSIZE) = unat a mod 4096" by (simp add: unat_mod)
  moreover have "a mod PGSIZE \<le> a" by (simp add: word_le_nat_alt unat_mod)
  ultimately have "unat (a - a mod PGSIZE) = unat a - unat a mod 4096" by (simp only: unat_sub)
  then show ?thesis by (simp only: PGROUNDDOWN_minus minus_mod_eq_div_mult)
qed

lemma PGROUNDUP_down: "PGROUNDUP a = PGROUNDDOWN (a + 4095)"
  by (simp add: PGROUNDUP_def PGROUNDDOWN_def add.commute)

lemma unat_PGROUNDUP:
  "unat a + 4095 < 2 ^ 32 \<Longrightarrow> unat (PGROUNDUP a) = (unat a + 4095) div 4096 * 4096"
  by (simp add: PGROUNDUP_down unat_PGROUNDDOWN unat_plus_if')

lemma PGROUND_aligned [simp]: "PGROUNDDOWN a mod PGSIZE = 0" "PGROUNDUP a mod PGSIZE = 0"
  by (simp_all only: page_aligned_unat PGROUNDUP_down unat_PGROUNDDOWN dvd_triv_right)

lemma unat_page_run:
  fixes p :: u32
  shows "i < k \<Longrightarrow> unat p + 4096 * k \<le> 2 ^ 32 \<Longrightarrow> unat (p + of_nat (4096 * i)) = unat p + 4096 * i"
proof -
  assume "i < k" "unat p + 4096 * k \<le> 2 ^ 32"
  moreover from this have "4096 * i < 2 ^ 32" by linarith
  ultimately show ?thesis by (simp add: unat_plus_if' unat_of_nat32 del: of_nat_mult)
qed

lemma distinct_page_run: "unat p + 4096 * k \<le> 2 ^ 32 \<Longrightarrow> distinct (page_run p k)"
proof -
  assume k: "unat p + 4096 * k \<le> 2 ^ 32"
  have "i = j" if "i < k" "j < k" "p + of_nat (4096 * i) = p + of_nat (4096 * j)" for i j
    using arg_cong [OF that(3), of unat] unat_page_run [OF that(1) k] unat_page_run [OF that(2) k] by linarith
  then show ?thesis by (simp add: page_run_def distinct_map inj_on_def del: of_nat_mult)
qed

lemma page_run_ok:
  assumes "KERNBASE < e" "e \<le> p" "p mod PGSIZE = 0" "unat p + 4096 * k \<le> unat (KERNBASE + PHYSTOP)"
    "v \<in> set (page_run p k)"
  shows "page_ok e v"
proof -
  from assms(5) obtain i where i: "i < k" "v = p + of_nat (4096 * i)" by (auto simp: page_run_def)
  have "unat p + 4096 * k \<le> 2 ^ 32" using assms(4) by simp
  from unat_page_run [OF i(1) this] i have v: "unat v = unat p + 4096 * i" by simp
  have "4096 dvd unat v" using assms(3) by (simp add: v page_aligned_unat)
  moreover have "unat (v2p v) = unat v - unat KERNBASE" 
    using assms(1,2) v by (simp add: v2p_def unat_sub_if' word_le_nat_alt word_less_nat_alt)
  then have "v2p v < PHYSTOP" using assms(4) v i(1) by (simp add: word_less_nat_alt)
  ultimately show ?thesis using assms(2) v by (simp add: page_ok_def page_aligned_unat word_le_nat_alt)
qed

section \<open>Properties\<close>

text \<open>
  (C5) However the kernel calls \<open>kalloc\<close> and \<open>kfree\<close> (\<open>src/kalloc.c\<close>) and writes to the
  pages it owns, starting from a well-formed free list: no page is ever lost or
  duplicated, and \<open>kalloc\<close> returns a page that belongs to the allocator and that nobody
  owns, or 0 exactly when every page is owned.
\<close>

theorem kalloc_exclusive:
  assumes "kmem_ready s" "free_pages s xs" "client_step\<^sup>*\<^sup>* (s, {}) (t, H)"
  shows "\<exists>p u. kalloc t = Ok p u \<and> p \<notin> H \<and> (p \<noteq> 0 \<longrightarrow> p \<in> set xs) \<and> (p = 0 \<longleftrightarrow> H = set xs) \<and> ram u = ram t"
proof -
  from client_inv_run [OF assms(3) client_inv_start [OF assms(1,2)]]
  obtain ys where ys: "kmem_ready t" "free_pages t ys" "set ys \<inter> H = {}" "set ys \<union> H = set xs"
    "\<forall>v \<in> H. page_ok (kend t) v" by (auto simp: client_inv_def)
  have nz: "0 \<notin> H" using ys(2,5) kend_page [of "kend t" 0] by (auto simp: free_pages_def)
  from kalloc_spec [OF ys(1,2)] obtain u where
    u: "kalloc t = Ok (case ys of [] \<Rightarrow> 0 | x # _ \<Rightarrow> x) u" "ram u = ram t" by blast
  show ?thesis
  proof (cases ys)
    case Nil
    with u ys nz show ?thesis by auto
  next
    case (Cons y zs)
    then have "y \<noteq> 0" "y \<notin> H" "y \<in> set xs" using free_pages_page [OF ys(2), of y] ys by auto
    with Cons u ys nz show ?thesis by (intro exI [of _ y] exI [of _ u]) auto
  qed
qed

definition kmem0 :: kmem where
  "kmem0 = \<lparr>locks = \<lambda>_. \<lparr>locked = 0, lk_name = [], lk_cpu = None\<rparr>,
     cpus = \<lambda>_. \<lparr>ncli = 0, intena = False, iflag = False, cproc = None, cr3 = 0, esp0 = 0\<rparr>, mycpu = 0,
     ram = \<lambda>_. 0, use_lock = False, freelist = 0, kend = 0x80100001\<rparr>"

theorem kalloc_exclusive_witness:
  "\<exists>p u. kalloc (kmem0\<lparr>freelist := 0x80101000\<rparr>) = Ok p u \<and> p \<notin> {} \<and> (p \<noteq> 0 \<longrightarrow> p \<in> {0x80101000}) \<and>
     (p = 0 \<longleftrightarrow> {} = {0x80101000 :: u32}) \<and> ram u = ram (kmem0\<lparr>freelist := 0x80101000\<rparr>)"
proof -
  have "kmem_ready (kmem0\<lparr>freelist := 0x80101000\<rparr>)" by (simp add: kmem_ready_def kmem0_def)
  moreover have "free_pages (kmem0\<lparr>freelist := 0x80101000\<rparr>) [0x80101000]"
    by (simp add: free_pages_def kmem0_def page_ok_def v2p_def load32_def)
  ultimately show ?thesis
    using kalloc_exclusive [of "kmem0\<lparr>freelist := 0x80101000\<rparr>" "[0x80101000]" "kmem0\<lparr>freelist := 0x80101000\<rparr>" "{}"]
    by simp
qed

text \<open>
  (C25) \<open>kinit1\<close> frees exactly the whole pages between its arguments, in address order,
  into an empty free list, for every range inside physical memory above the kernel: its
  loop ends, and the free list it builds is well formed.
\<close>

theorem kinit1_builds_free_list:
  assumes "KERNBASE < kend s" "freelist s = 0" "kend s \<le> vstart" "vstart \<le> vend" "v2p vend \<le> PHYSTOP"
    "PGROUNDUP vstart \<le> vend"
  shows "\<exists>t. kinit1 vstart vend s = Ok () t \<and>
    free_pages t (rev (page_run (PGROUNDUP vstart) ((unat vend - unat (PGROUNDUP vstart)) div 4096)))"
proof -
  let ?p = "PGROUNDUP vstart" 
  let ?k = "(unat vend - unat ?p) div 4096"
  define s' where "s' = upd_lock Kmem_lock (\<lambda>lk. lk\<lparr>lk_name := ''kmem'', locked := 0, lk_cpu := None\<rparr>) s\<lparr>use_lock := False\<rparr>"
  have s': "kmem_ready s'" "free_pages s' []" "kend s' = kend s"
    using assms by (simp_all add: s'_def kmem_ready_def free_pages_def upd_lock_def)
  have vend: "unat vend \<le> unat (KERNBASE + PHYSTOP)"
    using assms(1,3,4,5) by (auto simp: v2p_def word_le_nat_alt word_less_nat_alt unat_sub_if')
  have vs: "unat vstart \<le> unat vend" using assms(4) by (simp add: word_le_nat_alt)
  have pk: "unat ?p + 4096 * ?k \<le> unat vend" "unat vend < unat ?p + 4096 * ?k + 4096"
    using assms(6) mod_less_divisor [of 4096 "unat vend - unat ?p"] div_mult_mod_eq [of "unat vend - unat ?p" 4096]
    by (simp_all add: word_le_nat_alt)
  have "unat vstart \<le> unat ?p" using vs vend by (simp add: unat_PGROUNDUP) 
  then have p: "kend s \<le> ?p" using assms(3) by (simp add: word_le_nat_alt)
  have "\<exists>t. freerange_loop (2 ^ 20) ?p vend s' = Ok () t \<and> free_pages t (rev (page_run ?p ?k) @ []) \<and>
      kmem_ready t \<and> kend t = kend s'"
  proof (rule freerange_loop_spec [OF s'(1,2) _ pk])
    show "?k < 2 ^ 20" using vend by simp
    show "unat vend + 4096 < 2 ^ 32" using vend by simp
    show "\<forall>v \<in> set (page_run ?p ?k). page_ok (kend s') v"
      using page_run_ok [OF assms(1) p, of ?k] pk vend s'(3) by simp
    show "distinct (page_run ?p ?k @ [])"
      using distinct_page_run [of ?p ?k] pk vend by simp
  qed
  then show ?thesis
    by (auto simp: kinit1_def freerange_def initlock_def run_simps s'_def)
qed

theorem kinit1_builds_free_list_witness:
  "\<exists>t. kinit1 0x80100001 0x80103000 kmem0 = Ok () t \<and> free_pages t [0x80102000, 0x80101000]"
proof -
  have "PGROUNDUP 0x80100001 = 0x80101000" by code_simp
  moreover have "page_run 0x80101000 2 = [0x80101000, 0x80102000]" by code_simp
  ultimately show ?thesis
    using kinit1_builds_free_list [of kmem0 "0x80100001" "0x80103000"]
    by (simp add: kmem0_def v2p_def)
qed

end
