(* ===== verification/Vm.thy ===== *)
theory Vm
  imports Kalloc
begin

text \<open>
  Page tables (\<open>src/vm.c\<close>). A page directory and its page tables are pages of the
  kernel's memory, read and written word by word as the code does; \<open>pt_lookup\<close> is what
  the hardware finds for a virtual address. The linker symbol \<open>data\<close> is the constant
  field \<open>kdata\<close>; \<open>kpgdir\<close> is the global of that name. Diagnostics printed with
  \<open>cprintf\<close> are not part of the state.
\<close>

unbundle bit_operations_syntax

section \<open>State and constants\<close>

record vm = kmem +
  kdata :: u32
  kpgdir :: u32

abbreviation (input) EXTMEM :: u32 where "EXTMEM \<equiv> 0x100000"
abbreviation (input) DEVSPACE :: u32 where "DEVSPACE \<equiv> 0xFE000000"
abbreviation (input) PTE_P :: u32 where "PTE_P \<equiv> 1"
abbreviation (input) PTE_W :: u32 where "PTE_W \<equiv> 2"
abbreviation (input) PTE_U :: u32 where "PTE_U \<equiv> 4"
abbreviation (input) PGADDR_STEPS :: nat where "PGADDR_STEPS \<equiv> 2 ^ 20"

definition PDX :: "u32 \<Rightarrow> u32" where
  "PDX va = drop_bit 22 va AND 0x3FF"

definition PTX :: "u32 \<Rightarrow> u32" where
  "PTX va = drop_bit 12 va AND 0x3FF"

definition PTE_ADDR :: "u32 \<Rightarrow> u32" where
  "PTE_ADDR pte = pte AND NOT 0xFFF"

definition PTE_FLAGS :: "u32 \<Rightarrow> u32" where
  "PTE_FLAGS pte = pte AND 0xFFF"

definition load :: "u32 \<Rightarrow> ('a kmem_scheme, u32) kernel" where
  "load a = getsK (\<lambda>s. load32 (ram s) a)"

definition store :: "u32 \<Rightarrow> u32 \<Rightarrow> ('a kmem_scheme, unit) kernel" where
  "store a w = modifyK (\<lambda>s. s\<lparr>ram := store32 (ram s) a w\<rparr>)"

definition memsetK :: "u32 \<Rightarrow> u32 \<Rightarrow> u32 \<Rightarrow> ('a kmem_scheme, unit) kernel" where
  "memsetK v c n = modifyK (\<lambda>s. s\<lparr>ram := memset (ram s) v c n\<rparr>)"

definition memmoveK :: "u32 \<Rightarrow> u32 \<Rightarrow> u32 \<Rightarrow> ('a kmem_scheme, unit) kernel" where
  "memmoveK d v n = modifyK (\<lambda>s. s\<lparr>ram := memmove (ram s) d v n\<rparr>)"

section \<open>Operations\<close>

definition walkpgdir :: "u32 \<Rightarrow> u32 \<Rightarrow> bool \<Rightarrow> ('a kmem_scheme, u32) kernel" where
  "walkpgdir pgdir va alloc =
     (let pde = pgdir + 4 * PDX va in
      bindK (load pde) (\<lambda>e.
      if e AND PTE_P \<noteq> 0 then ret (p2v (PTE_ADDR e) + 4 * PTX va)
      else if \<not> alloc then ret 0
      else
        bindK kalloc (\<lambda>pgtab.
        if pgtab = 0 then ret 0
        else
          seqK (memsetK pgtab 0 PGSIZE)
          (seqK (store pde (v2p pgtab OR PTE_P OR PTE_W OR PTE_U))
          (ret (pgtab + 4 * PTX va))))))"

text \<open>The loop of \<open>mappages\<close> ends when \<open>a\<close> reaches \<open>last\<close>, both page aligned: at most
  \<open>2 ^ 20\<close> pages, wrapping around the address space if need be (the device mapping
  ends at 0).\<close>

fun mappages_loop :: "nat \<Rightarrow> u32 \<Rightarrow> u32 \<Rightarrow> u32 \<Rightarrow> u32 \<Rightarrow> u32 \<Rightarrow> ('a kmem_scheme, int) kernel" where
  "mappages_loop 0 pgdir a last_a pa perm = spin"
| "mappages_loop (Suc n) pgdir a last_a pa perm =
     bindK (walkpgdir pgdir a True) (\<lambda>pte.
     if pte = 0 then ret (- 1)
     else bindK (load pte) (\<lambda>e.
       if e AND PTE_P \<noteq> 0 then panic ''remap''
       else
         seqK (store pte (pa OR perm OR PTE_P))
         (if a = last_a then ret 0
          else mappages_loop n pgdir (a + PGSIZE) last_a (pa + PGSIZE) perm)))"

definition mappages :: "u32 \<Rightarrow> u32 \<Rightarrow> u32 \<Rightarrow> u32 \<Rightarrow> u32 \<Rightarrow> ('a kmem_scheme, int) kernel" where
  "mappages pgdir va sz pa perm =
     mappages_loop PGADDR_STEPS pgdir (PGROUNDDOWN va) (PGROUNDDOWN (va + sz - 1)) pa perm"

definition kmap :: "u32 \<Rightarrow> (u32 \<times> u32 \<times> u32 \<times> u32) list" where
  "kmap data =
     [(KERNBASE, 0, EXTMEM, PTE_W),
      (KERNBASE + EXTMEM, v2p (KERNBASE + EXTMEM), v2p data, 0),
      (data, v2p data, PHYSTOP, PTE_W),
      (DEVSPACE, DEVSPACE, 0, PTE_W)]"

fun setupkvm_loop :: "u32 \<Rightarrow> (u32 \<times> u32 \<times> u32 \<times> u32) list \<Rightarrow> ('a kmem_scheme, u32) kernel" where
  "setupkvm_loop pgdir [] = ret pgdir"
| "setupkvm_loop pgdir ((virt, phys_start, phys_end, perm) # ks) =
     bindK (mappages pgdir virt (phys_end - phys_start) phys_start perm) (\<lambda>r.
     if r < 0 then ret 0 else setupkvm_loop pgdir ks)"

definition setupkvm :: "('a vm_scheme, u32) kernel" where
  "setupkvm =
     bindK kalloc (\<lambda>pgdir.
     if pgdir = 0 then ret 0
     else
       seqK (memsetK pgdir 0 PGSIZE)
       (if p2v PHYSTOP > DEVSPACE then panic ''PHYSTOP too high''
        else bindK (getsK kdata) (\<lambda>data. setupkvm_loop pgdir (kmap data))))"

definition switchkvm :: "('a vm_scheme, unit) kernel" where
  "switchkvm = modifyK (\<lambda>s. upd_cpu (\<lambda>c. c\<lparr>cr3 := v2p (kpgdir s)\<rparr>) s)"

definition kvmalloc :: "('a vm_scheme, unit) kernel" where
  "kvmalloc =
     bindK setupkvm (\<lambda>d.
     seqK (modifyK (\<lambda>s. s\<lparr>kpgdir := d\<rparr>))
     switchkvm)"

definition inituvm :: "u32 \<Rightarrow> u32 \<Rightarrow> u32 \<Rightarrow> ('a kmem_scheme, unit) kernel" where
  "inituvm pgdir init sz =
     (if sz \<ge> PGSIZE then panic ''inituvm: more than a page''
      else
        bindK kalloc (\<lambda>mem.
        seqK (memsetK mem 0 PGSIZE)
        (seqK (mappages pgdir 0 PGSIZE (v2p mem) (PTE_W OR PTE_U))
        (memmoveK mem init sz))))"

text \<open>The user part of an address space ends at \<open>KERNBASE\<close>, so the loops over user pages
  run at most \<open>2 ^ 19\<close> times; \<open>PGADDR_STEPS\<close> is twice that.\<close>

fun deallocuvm_loop :: "nat \<Rightarrow> u32 \<Rightarrow> u32 \<Rightarrow> u32 \<Rightarrow> ('a kmem_scheme, unit) kernel" where
  "deallocuvm_loop 0 pgdir a oldsz = spin"
| "deallocuvm_loop (Suc n) pgdir a oldsz =
     (if a < oldsz then
        bindK (walkpgdir pgdir a False) (\<lambda>pte.
        if pte = 0 then deallocuvm_loop n pgdir (a + 1023 * PGSIZE + PGSIZE) oldsz
        else bindK (load pte) (\<lambda>e.
          if e AND PTE_P \<noteq> 0 then
            (let pa = PTE_ADDR e in
             if pa = 0 then panic ''kfree''
             else
               seqK (kfree (p2v pa))
               (seqK (store pte 0)
               (deallocuvm_loop n pgdir (a + PGSIZE) oldsz)))
          else deallocuvm_loop n pgdir (a + PGSIZE) oldsz))
      else ret ())"

definition deallocuvm :: "u32 \<Rightarrow> u32 \<Rightarrow> u32 \<Rightarrow> ('a kmem_scheme, u32) kernel" where
  "deallocuvm pgdir oldsz newsz =
     (if newsz \<ge> oldsz then ret oldsz
      else seqK (deallocuvm_loop PGADDR_STEPS pgdir (PGROUNDUP newsz) oldsz) (ret newsz))"

fun allocuvm_loop :: "nat \<Rightarrow> u32 \<Rightarrow> u32 \<Rightarrow> u32 \<Rightarrow> u32 \<Rightarrow> ('a kmem_scheme, u32) kernel" where
  "allocuvm_loop 0 pgdir a oldsz newsz = spin"
| "allocuvm_loop (Suc n) pgdir a oldsz newsz =
     (if a < newsz then
        bindK kalloc (\<lambda>mem.
        if mem = 0 then seqK (deallocuvm pgdir newsz oldsz) (ret 0)
        else
          seqK (memsetK mem 0 PGSIZE)
          (seqK (mappages pgdir a PGSIZE (v2p mem) (PTE_W OR PTE_U))
          (allocuvm_loop n pgdir (a + PGSIZE) oldsz newsz)))
      else ret newsz)"

definition allocuvm :: "u32 \<Rightarrow> u32 \<Rightarrow> u32 \<Rightarrow> ('a kmem_scheme, u32) kernel" where
  "allocuvm pgdir oldsz newsz =
     (if newsz \<ge> KERNBASE then ret 0
      else if newsz < oldsz then ret oldsz
      else allocuvm_loop PGADDR_STEPS pgdir (PGROUNDUP oldsz) oldsz newsz)"

fun freevm_loop :: "nat \<Rightarrow> u32 \<Rightarrow> u32 \<Rightarrow> ('a kmem_scheme, unit) kernel" where
  "freevm_loop 0 pgdir i = ret ()"
| "freevm_loop (Suc n) pgdir i =
     bindK (load (pgdir + 4 * i)) (\<lambda>e.
     seqK (whenK (e AND PTE_P \<noteq> 0) (kfree (p2v (PTE_ADDR e))))
     (freevm_loop n pgdir (i + 1)))"

definition freevm :: "u32 \<Rightarrow> ('a kmem_scheme, unit) kernel" where
  "freevm pgdir =
     (if pgdir = 0 then panic ''freevm: no pgdir''
      else
        seqK (deallocuvm pgdir KERNBASE 0)
        (seqK (freevm_loop 1024 pgdir 0)
        (kfree pgdir)))"

definition clearpteu :: "u32 \<Rightarrow> u32 \<Rightarrow> ('a kmem_scheme, unit) kernel" where
  "clearpteu pgdir uva =
     bindK (walkpgdir pgdir uva False) (\<lambda>pte.
     if pte = 0 then panic ''clearpteu''
     else bindK (load pte) (\<lambda>e. store pte (e AND NOT PTE_U)))"

fun copyuvm_loop :: "nat \<Rightarrow> u32 \<Rightarrow> u32 \<Rightarrow> u32 \<Rightarrow> u32 \<Rightarrow> ('a kmem_scheme, u32) kernel" where
  "copyuvm_loop 0 pgdir d i sz = spin"
| "copyuvm_loop (Suc n) pgdir d i sz =
     (if i < sz then
        bindK (walkpgdir pgdir i False) (\<lambda>pte.
        if pte = 0 then panic ''copyuvm: pte should exist''
        else bindK (load pte) (\<lambda>e.
          if e AND PTE_P = 0 then panic ''copyuvm: page not present''
          else bindK kalloc (\<lambda>mem.
            if mem = 0 then seqK (freevm d) (ret 0)
            else
              seqK (memmoveK mem (p2v (PTE_ADDR e)) PGSIZE)
              (bindK (mappages d i PGSIZE (v2p mem) (PTE_FLAGS e)) (\<lambda>r.
               if r < 0 then seqK (freevm d) (ret 0)
               else copyuvm_loop n pgdir d (i + PGSIZE) sz)))))
      else ret d)"

definition copyuvm :: "u32 \<Rightarrow> u32 \<Rightarrow> ('a vm_scheme, u32) kernel" where
  "copyuvm pgdir sz =
     bindK setupkvm (\<lambda>d.
     if d = 0 then ret 0 else copyuvm_loop PGADDR_STEPS pgdir d 0 sz)"

definition uva2ka :: "u32 \<Rightarrow> u32 \<Rightarrow> ('a kmem_scheme, u32) kernel" where
  "uva2ka pgdir uva =
     bindK (walkpgdir pgdir uva False) (\<lambda>pte.
     bindK (load pte) (\<lambda>e.
     if e AND PTE_P = 0 then ret 0
     else if e AND PTE_U = 0 then ret 0
     else ret (p2v (PTE_ADDR e))))"

text \<open>Every round of \<open>copyout\<close> ends at a page boundary, so \<open>2 ^ 20 + 1\<close> rounds
  exhaust any length.\<close>

fun copyout_loop :: "nat \<Rightarrow> u32 \<Rightarrow> u32 \<Rightarrow> u32 \<Rightarrow> u32 \<Rightarrow> ('a kmem_scheme, int) kernel" where
  "copyout_loop 0 pgdir va buf len = spin"
| "copyout_loop (Suc k) pgdir va buf len =
     (if len > 0 then
        (let va0 = PGROUNDDOWN va in
         bindK (uva2ka pgdir va0) (\<lambda>pa0.
         if pa0 = 0 then ret (- 1)
         else
           (let n = PGSIZE - (va - va0); n = (if n > len then len else n) in
            seqK (memmoveK (pa0 + (va - va0)) buf n)
            (copyout_loop k pgdir (va0 + PGSIZE) (buf + n) (len - n)))))
      else ret 0)"

definition copyout :: "u32 \<Rightarrow> u32 \<Rightarrow> u32 \<Rightarrow> u32 \<Rightarrow> ('a kmem_scheme, int) kernel" where
  "copyout pgdir va p len = copyout_loop (PGADDR_STEPS + 1) pgdir va p len"

text \<open>
  Accesses of the kernel to user memory go through the page table of the running CPU. A
  byte whose page is not present, or not writable when written to, is a page fault in
  kernel mode, at which \<open>trap\<close> panics.
\<close>

definition uload8 :: "u32 \<Rightarrow> ('a kmem_scheme, u8) kernel" where
  "uload8 va =
     bindK (getsK (\<lambda>s. p2v (cr3 (cur_cpu s)))) (\<lambda>pgdir.
     bindK (walkpgdir pgdir va False) (\<lambda>pte.
     bindK (load pte) (\<lambda>e.
     if pte = 0 \<or> e AND PTE_P = 0 then panic ''trap''
     else getsK (\<lambda>s. ram s (p2v (PTE_ADDR e) + (va AND 0xFFF))))))"

definition ustore8 :: "u32 \<Rightarrow> u8 \<Rightarrow> ('a kmem_scheme, unit) kernel" where
  "ustore8 va b =
     bindK (getsK (\<lambda>s. p2v (cr3 (cur_cpu s)))) (\<lambda>pgdir.
     bindK (walkpgdir pgdir va False) (\<lambda>pte.
     bindK (load pte) (\<lambda>e.
     if pte = 0 \<or> e AND PTE_P = 0 \<or> e AND PTE_W = 0 then panic ''trap''
     else modifyK (\<lambda>s. s\<lparr>ram := (ram s)(p2v (PTE_ADDR e) + (va AND 0xFFF) := b)\<rparr>))))"

fun uload_bytes :: "u32 \<Rightarrow> nat \<Rightarrow> ('a kmem_scheme, bytes) kernel" where
  "uload_bytes va 0 = ret []"
| "uload_bytes va (Suc n) =
     bindK (uload8 va) (\<lambda>b. bindK (uload_bytes (va + 1) n) (\<lambda>bs. ret (b # bs)))"

fun ustore_bytes :: "u32 \<Rightarrow> bytes \<Rightarrow> ('a kmem_scheme, unit) kernel" where
  "ustore_bytes va [] = ret ()"
| "ustore_bytes va (b # bs) = seqK (ustore8 va b) (ustore_bytes (va + 1) bs)"

definition le_bytes :: "u32 \<Rightarrow> bytes" where
  "le_bytes w = [ucast w, ucast (drop_bit 8 w), ucast (drop_bit 16 w), ucast (drop_bit 24 w)]"

fun of_le :: "bytes \<Rightarrow> u32" where
  "of_le [] = 0"
| "of_le (b # bs) = ucast b OR push_bit 8 (of_le bs)"

definition uload32 :: "u32 \<Rightarrow> ('a kmem_scheme, u32) kernel" where
  "uload32 va = bindK (uload_bytes va 4) (\<lambda>bs. ret (of_le bs))"

definition ustore32 :: "u32 \<Rightarrow> u32 \<Rightarrow> ('a kmem_scheme, unit) kernel" where
  "ustore32 va w = ustore_bytes va (le_bytes w)"

section \<open>What the hardware sees\<close>

text \<open>
  The entry \<open>i\<close> of a page directory, the page table it points to, and the entry found
  for a virtual address (0, which is not present, when there is no page table). The
  footprint of a page directory is the set of pages it is made of.
\<close>

definition present :: "u32 \<Rightarrow> bool" where
  "present e = (e AND PTE_P \<noteq> 0)"

definition pde_of :: "mem \<Rightarrow> u32 \<Rightarrow> u32 \<Rightarrow> u32" where
  "pde_of m d i = load32 m (d + 4 * i)"

definition table_of :: "mem \<Rightarrow> u32 \<Rightarrow> u32 \<Rightarrow> u32" where
  "table_of m d i = p2v (PTE_ADDR (pde_of m d i))"

definition pt_lookup :: "mem \<Rightarrow> u32 \<Rightarrow> u32 \<Rightarrow> u32" where
  "pt_lookup m d va =
     (if present (pde_of m d (PDX va)) then load32 m (table_of m d (PDX va) + 4 * PTX va) else 0)"

definition footprint :: "mem \<Rightarrow> u32 \<Rightarrow> u32 set" where
  "footprint m d = insert d {table_of m d i |i. i < 1024 \<and> present (pde_of m d i)}"

definition pt_wf :: "u32 \<Rightarrow> mem \<Rightarrow> u32 \<Rightarrow> bool" where
  "pt_wf e m d = (KERNBASE < e \<and> page_ok e d \<and>
     (\<forall>i < 1024. present (pde_of m d i) \<longrightarrow> page_ok e (table_of m d i) \<and> table_of m d i \<noteq> d) \<and>
     (\<forall>i < 1024. \<forall>j < 1024. present (pde_of m d i) \<longrightarrow> present (pde_of m d j) \<longrightarrow>
        table_of m d i = table_of m d j \<longrightarrow> i = j))"

definition pt_inv :: "'a kmem_scheme \<Rightarrow> u32 \<Rightarrow> u32 list \<Rightarrow> bool" where
  "pt_inv s d xs = (kmem_ready s \<and> free_pages s xs \<and> pt_wf (kend s) (ram s) d \<and>
     footprint (ram s) d \<inter> set xs = {})"

text \<open>The kernel address of the user byte at \<open>va\<close> with the page table register \<open>c\<close>, for
  reading and for writing, and the bytes from \<open>va\<close> on.\<close>

definition uaddr :: "mem \<Rightarrow> u32 \<Rightarrow> u32 \<Rightarrow> u32 option" where
  "uaddr m c va =
     (let pde = pde_of m (p2v c) (PDX va);
          pte = (if present pde then table_of m (p2v c) (PDX va) + 4 * PTX va else 0);
          e = load32 m pte
      in if pte = 0 \<or> \<not> present e then None else Some (p2v (PTE_ADDR e) + (va AND 0xFFF)))"

definition uwaddr :: "mem \<Rightarrow> u32 \<Rightarrow> u32 \<Rightarrow> u32 option" where
  "uwaddr m c va =
     (let pde = pde_of m (p2v c) (PDX va);
          pte = (if present pde then table_of m (p2v c) (PDX va) + 4 * PTX va else 0);
          e = load32 m pte
      in if pte = 0 \<or> \<not> present e \<or> e AND PTE_W = 0 then None else Some (p2v (PTE_ADDR e) + (va AND 0xFFF)))"

fun ubytes :: "mem \<Rightarrow> u32 \<Rightarrow> u32 \<Rightarrow> nat \<Rightarrow> bytes option" where
  "ubytes m c va 0 = Some []"
| "ubytes m c va (Suc n) =
     (case uaddr m c va of
        None \<Rightarrow> None
      | Some a \<Rightarrow> map_option (\<lambda>bs. m a # bs) (ubytes m c (va + 1) n))"

fun uput :: "mem \<Rightarrow> u32 \<Rightarrow> u32 \<Rightarrow> bytes \<Rightarrow> mem option" where
  "uput m c va [] = Some m"
| "uput m c va (b # bs) =
     (case uwaddr m c va of None \<Rightarrow> None | Some a \<Rightarrow> uput (m(a := b)) c (va + 1) bs)"

section \<open>Lemmas: words and slots\<close>

lemma in_word_unat:
  "a mod 4 = 0 \<Longrightarrow> unat (x - a) < 4 \<longleftrightarrow> unat a \<le> unat x \<and> unat x < unat a + 4" for a x :: u32
  using word_end [of a] unat32_lt [of x] by (auto simp: unat_sub_if' word_le_nat_alt)

lemma load32_store32_other:
  assumes "a mod 4 = 0" "b mod 4 = 0" "a \<noteq> b"
  shows "load32 (store32 m a w) b = load32 m b"
proof (rule load32_cong)
  fix x assume x: "unat (x - b) < 4"
  have "\<not> unat (x - a) < 4"
  proof
    assume "unat (x - a) < 4"
    with x assms(1,2) have "unat a \<le> unat x" "unat x < unat a + 4" "unat b \<le> unat x" "unat x < unat b + 4"
      by (simp_all add: in_word_unat)
    moreover have "unat a < unat b \<Longrightarrow> unat a + 4 \<le> unat b" "unat b < unat a \<Longrightarrow> unat b + 4 \<le> unat a"
      using assms by (auto simp: word_aligned_unat intro!: aligned_step)
    ultimately have "unat a = unat b" by linarith
    with assms(3) show False using unsigned_word_eqI by blast
  qed
  then show "store32 m a w x = m x" by (simp add: store32_other)
qed

lemma unat_mult4: "i < 1024 \<Longrightarrow> unat (4 * i) = 4 * unat i" for i :: u32
  by (simp add: unat_mult_lem [THEN iffD1] word_less_nat_alt)

lemma slot_in_page: "i < 1024 \<Longrightarrow> in_page d (d + 4 * i)"
  by (simp add: in_page_def unat_mult4 word_less_nat_alt)

lemma mod4_add: "a mod 4 = 0 \<Longrightarrow> (a + 4 * i) mod 4 = 0" for a i :: u32
  by (simp only: word_aligned_unat unat_word_ariths) (simp add: dvd_mod_iff)

lemma slot_aligned: "d mod PGSIZE = 0 \<Longrightarrow> (d + 4 * i) mod 4 = 0"
  by (rule mod4_add [OF page_word_aligned])

lemma slot_inj:
  assumes "d mod PGSIZE = 0" "d' mod PGSIZE = 0" "i < 1024" "j < 1024"
  shows "d + 4 * i = d' + 4 * j \<longleftrightarrow> d = d' \<and> i = j"
proof
  assume eq: "d + 4 * i = d' + 4 * j"
  then have "in_page d' (d + 4 * i)" using slot_in_page [OF assms(4), of d'] by simp
  from in_page_unique [OF assms(1,2) slot_in_page [OF assms(3)] this] have d: "d = d'" .
  with eq have "4 * i = 4 * j" by simp
  then have "unat (4 * i) = unat (4 * j)" by simp
  then have "unat i = unat j" using assms(3,4) by (simp add: unat_mult4)
  with d show "d = d' \<and> i = j" using unsigned_word_eqI by blast
qed simp

lemma load_store_slot:
  assumes "d mod PGSIZE = 0" "d' mod PGSIZE = 0" "i < 1024" "j < 1024"
  shows "load32 (store32 m (d + 4 * i) w) (d' + 4 * j) =
    (if d = d' \<and> i = j then w else load32 m (d' + 4 * j))"
  using assms load32_store32_other [of "d + 4 * i" "d' + 4 * j" m w] slot_inj [OF assms]
  by (auto simp: slot_aligned)

lemma store_slot_same:
  assumes "d mod PGSIZE = 0" "i < 1024"
  shows "same_except (in_page d) m (store32 m (d + 4 * i) w)"
proof -
  have "store32 m (d + 4 * i) w x = m x" if "\<not> in_page d x" for x
    using that in_page_word [OF assms(1) slot_aligned [OF assms(1)] slot_in_page [OF assms(2)], of x]
    by (intro store32_other) force
  then show ?thesis by (simp add: same_except_def)
qed

lemma AND_mask10: "x AND 0x3FF = x mod 1024" for x :: u32
  using take_bit_eq_mod [of 10 x] take_bit_eq_mask [of 10 x] by (simp add: mask_eq_exp_minus_1)

lemma unat_PTX: "unat (PTX va) = unat va div 4096 mod 1024"
  by (simp add: PTX_def AND_mask10 unat_mod drop_bit_eq_div unat_div)

lemma unat_PDX: "unat (PDX va) = unat va div 4194304"
proof -
  have "unat va div 4194304 < 1024" using unat32_lt [of va] by simp
  then show ?thesis by (simp add: PDX_def AND_mask10 unat_mod drop_bit_eq_div unat_div)
qed

lemma PDX_PTX_less [simp]: "PDX va < 1024" "PTX va < 1024"
  using unat32_lt [of va] by (simp_all add: word_less_nat_alt unat_PDX unat_PTX)

lemma PTE_ADDR_down: "PTE_ADDR e = PGROUNDDOWN e"
  by (simp add: PTE_ADDR_def PGROUNDDOWN_def)

lemma same_page_iff: "PDX va = PDX va' \<and> PTX va = PTX va' \<longleftrightarrow> PGROUNDDOWN va = PGROUNDDOWN va'"
proof -
  have *: "n div 4194304 = n div 4096 div 1024" for n :: nat
    using div_mult2_eq [of n 4096 1024] by simp
  have "PDX va = PDX va' \<and> PTX va = PTX va' \<longleftrightarrow> unat va div 4096 = unat va' div 4096"
    unfolding word_unat_eq_iff unat_PDX unat_PTX * by (metis div_mult_mod_eq)
  also have "\<dots> \<longleftrightarrow> PGROUNDDOWN va = PGROUNDDOWN va'"
    by (simp add: word_unat_eq_iff unat_PGROUNDDOWN)
  finally show ?thesis .
qed

lemma aligned_add: "a mod PGSIZE = 0 \<Longrightarrow> b mod PGSIZE = 0 \<Longrightarrow> (a + b) mod PGSIZE = 0"
  by (simp only: page_aligned_unat unat_word_ariths) (simp add: dvd_mod_iff)

lemma p2v_PTE_ADDR [simp]: "p2v (PTE_ADDR e) mod PGSIZE = 0"
  unfolding p2v_def PTE_ADDR_down by (rule aligned_add) simp_all

lemma table_of_aligned [simp]: "table_of m d i mod PGSIZE = 0"
  by (simp only: table_of_def p2v_PTE_ADDR)

lemma p2v_v2p [simp]: "p2v (v2p a) = a" "v2p (p2v a) = a"
  by (simp_all add: p2v_def v2p_def)


section \<open>Lemmas: page tables\<close>

lemma present_0 [simp]: "\<not> present 0"
  by (simp add: present_def)

lemma pt_wfD:
  assumes "pt_wf e m d"
  shows "KERNBASE < e" "page_ok e d" "d mod PGSIZE = 0"
    "i < 1024 \<Longrightarrow> present (pde_of m d i) \<Longrightarrow> page_ok e (table_of m d i) \<and> table_of m d i \<noteq> d"
    "i < 1024 \<Longrightarrow> j < 1024 \<Longrightarrow> present (pde_of m d i) \<Longrightarrow> present (pde_of m d j) \<Longrightarrow>
       table_of m d i = table_of m d j \<Longrightarrow> i = j"
  using assms by (auto simp: pt_wf_def page_ok_def)

lemma footprint_table: "i < 1024 \<Longrightarrow> present (pde_of m d i) \<Longrightarrow> table_of m d i \<in> footprint m d"
  by (auto simp: footprint_def)

lemma footprint_dir: "d \<in> footprint m d"
  by (simp add: footprint_def)

lemma footprint_page: "pt_wf e m d \<Longrightarrow> p \<in> footprint m d \<Longrightarrow> page_ok e p"
  by (auto simp: footprint_def pt_wf_def)

lemma pt_frame:
  assumes wf: "pt_wf e m d" and same: "same_except P m m'"
    and off: "\<And>p x. p \<in> footprint m d \<Longrightarrow> in_page p x \<Longrightarrow> \<not> P x"
  shows "pt_wf e m' d" "footprint m' d = footprint m d" "pt_lookup m' d va = pt_lookup m d va"
    "i < 1024 \<Longrightarrow> pde_of m' d i = pde_of m d i"
proof -
  show pde: "pde_of m' d i = pde_of m d i" if "i < 1024" for i
    unfolding pde_of_def using pt_wfD(3) [OF wf]
    by (rule load32_same [OF same, of d])
      (use off footprint_dir that pt_wfD(3) [OF wf] in \<open>auto simp: slot_in_page slot_aligned\<close>)
  then have tab: "table_of m' d i = table_of m d i" if "i < 1024" for i
    using that by (simp add: table_of_def)
  show "pt_wf e m' d" using wf by (simp add: pt_wf_def pde tab)
  show "footprint m' d = footprint m d" unfolding footprint_def using pde tab by metis
  have "load32 m' (table_of m d (PDX va) + 4 * PTX va) = load32 m (table_of m d (PDX va) + 4 * PTX va)"
    if "present (pde_of m d (PDX va))"
    by (rule load32_same [OF same table_of_aligned])
      (use off [OF footprint_table [OF _ that]] in \<open>auto simp: slot_in_page slot_aligned\<close>)
  then show "pt_lookup m' d va = pt_lookup m d va" by (simp add: pt_lookup_def pde tab)
qed

lemma walkpgdir_read [kernel_simps]:
  "walkpgdir d va False s =
     Ok (if present (pde_of (ram s) d (PDX va)) then table_of (ram s) d (PDX va) + 4 * PTX va else 0) s"
  by (simp add: walkpgdir_def run_simps load_def present_def pde_of_def table_of_def Let_def)

lemma walkpgdir_present [kernel_simps]:
  "present (pde_of (ram s) d (PDX va)) \<Longrightarrow>
   walkpgdir d va alloc s = Ok (table_of (ram s) d (PDX va) + 4 * PTX va) s"
  by (simp add: walkpgdir_def run_simps load_def present_def pde_of_def table_of_def Let_def)

lemma uload8_run [kernel_simps]:
  "uload8 va s = (case uaddr (ram s) (cr3 (cur_cpu s)) va of None \<Rightarrow> Panic ''trap'' | Some a \<Rightarrow> Ok (ram s a) s)"
  by (simp add: uload8_def uaddr_def run_simps walkpgdir_read load_def Let_def present_def)

lemma ustore8_run [kernel_simps]:
  "ustore8 va b s = (case uwaddr (ram s) (cr3 (cur_cpu s)) va of
     None \<Rightarrow> Panic ''trap'' | Some a \<Rightarrow> Ok () (s\<lparr>ram := (ram s)(a := b)\<rparr>))"
  by (simp add: ustore8_def uwaddr_def run_simps walkpgdir_read load_def Let_def present_def)

lemma walkpgdir_create [kernel_simps]:
  "\<not> present (pde_of (ram s) d (PDX va)) \<Longrightarrow> kalloc s = Ok p t \<Longrightarrow>
   walkpgdir d va True s = (if p = 0 then Ok 0 t
     else Ok (p + 4 * PTX va) (t\<lparr>ram := store32 (memset (ram t) p 0 PGSIZE) (d + 4 * PDX va) (v2p p OR 7)\<rparr>))"
  by (simp add: walkpgdir_def run_simps load_def present_def pde_of_def memsetK_def store_def Let_def
      or.assoc)

lemma pte_slot_nonzero:
  assumes "pt_wf e m d" "i < 1024" "present (pde_of m d i)" "j < 1024"
  shows "table_of m d i + 4 * j \<noteq> 0"
proof
  assume "table_of m d i + 4 * j = 0"
  then have "in_page (table_of m d i) 0" using slot_in_page [OF assms(4), of "table_of m d i"] by simp
  moreover have "in_page 0 0" by simp
  ultimately have "table_of m d i = 0" using in_page_unique [of "table_of m d i" 0 0] by simp
  with pt_wfD(1) [OF assms(1)] pt_wfD(4) [OF assms(1-3)] kend_page [of e "table_of m d i"] show False by auto
qed

lemma pt_set:
  fixes w :: u32
  assumes wf: "pt_wf e m d" and pr: "present (pde_of m d (PDX va))"
  defines "m' \<equiv> store32 m (table_of m d (PDX va) + 4 * PTX va) w"
  shows "pt_wf e m' d" "footprint m' d = footprint m d"
    "pt_lookup m' d va' = (if PGROUNDDOWN va' = PGROUNDDOWN va then w else pt_lookup m d va')"
    "same_except (in_page (table_of m d (PDX va))) m m'"
proof -
  have ne: "table_of m d (PDX va) \<noteq> d" using pt_wfD(4) [OF wf _ pr] by simp
  have pde: "pde_of m' d i = pde_of m d i" if "i < 1024" for i
    using that ne pt_wfD(3) [OF wf] unfolding pde_of_def m'_def by (simp add: load_store_slot del: dvd_imp_mod_0)
  then have tab: "table_of m' d i = table_of m d i" if "i < 1024" for i
    using that by (simp add: table_of_def)
  show "pt_wf e m' d" using wf by (simp add: pt_wf_def pde tab)
  show "footprint m' d = footprint m d" unfolding footprint_def using pde tab by metis
  show "same_except (in_page (table_of m d (PDX va))) m m'"
    unfolding m'_def by (rule store_slot_same) simp_all
  have "load32 m' (table_of m d (PDX va') + 4 * PTX va') =
      (if PGROUNDDOWN va' = PGROUNDDOWN va then w else load32 m (table_of m d (PDX va') + 4 * PTX va'))"
    if "present (pde_of m d (PDX va'))"
    using pt_wfD(5) [OF wf, of "PDX va" "PDX va'"] that pr
    unfolding m'_def by (auto simp: load_store_slot simp flip: same_page_iff)
  moreover have "PGROUNDDOWN va' = PGROUNDDOWN va \<Longrightarrow> present (pde_of m d (PDX va'))"
    using pr same_page_iff [of va' va] by simp
  ultimately show "pt_lookup m' d va' = (if PGROUNDDOWN va' = PGROUNDDOWN va then w else pt_lookup m d va')"
    by (simp add: pt_lookup_def pde tab)
qed


lemma or_flags:
  assumes "p mod PGSIZE = 0"
  shows "PTE_ADDR (p OR f AND 0xFFF) = p"
proof -
  have "p AND 0xFFF = 0" using PGROUNDDOWN_minus [of p] and_not_add [of p "0xFFF"] assms
    by (simp add: PGROUNDDOWN_def)
  then have "\<not> bit p n" if "bit (0xFFF :: u32) n" for n using that by (metis bit_0_eq bit_and_iff bot_apply bot_bool_def)
  then show ?thesis unfolding PTE_ADDR_def
    by (intro bit_word_eqI) (auto simp: bit_simps)
qed

lemma v2p_aligned: "p mod PGSIZE = 0 \<Longrightarrow> v2p p mod PGSIZE = 0"
proof -
  assume "p mod PGSIZE = 0"
  moreover have "v2p p = p + KERNBASE" by (simp add: v2p_def diff_eq_eq)
  ultimately show ?thesis by (simp only:) (rule aligned_add, simp_all)
qed

lemma new_pde:
  assumes "p mod PGSIZE = 0"
  shows "p2v (PTE_ADDR (v2p p OR 7)) = p" "present (v2p p OR 7)"
proof -
  have "(7 :: u32) AND 0xFFF = 7" by simp
  with or_flags [OF v2p_aligned [OF assms], of 7] show "p2v (PTE_ADDR (v2p p OR 7)) = p" by simp
  have "bit ((v2p p OR 7) AND 1) 0" by (simp add: bit_simps)
  then show "present (v2p p OR 7)" by (auto simp: present_def)
qed

lemma memset_page: "\<not> in_page p x \<Longrightarrow> memset m p c 4096 x = m x" "in_page p x \<Longrightarrow> memset m p c 4096 x = ucast c"
  by (simp_all add: memset_fill fill_area_def in_page_def)

lemma memset_zero_word:
  assumes "p mod PGSIZE = 0" "i < 1024"
  shows "load32 (memset m p 0 4096) (p + 4 * i) = 0"
  by (rule load32_put0)
    (use in_page_word [OF assms(1) slot_aligned [OF assms(1)] slot_in_page [OF assms(2)]] in \<open>auto simp: memset_page\<close>)

lemma pt_create:
  assumes wf: "pt_wf e m d" and np: "\<not> present (pde_of m d (PDX va))"
    and p: "page_ok e p" "p \<notin> footprint m d"
  defines "m' \<equiv> store32 (memset m p 0 PGSIZE) (d + 4 * PDX va) (v2p p OR 7)"
  shows "pt_wf e m' d" "footprint m' d = insert p (footprint m d)" "pt_lookup m' d va' = pt_lookup m d va'"
    "present (pde_of m' d (PDX va))" "table_of m' d (PDX va) = p"
    "same_except (\<lambda>x. in_page d x \<or> in_page p x) m m'"
proof -
  let ?n = "memset m p 0 PGSIZE"
  have al: "p mod PGSIZE = 0" "d mod PGSIZE = 0" using p pt_wfD(3) [OF wf] by (simp_all add: page_ok_def)
  have same: "same_except (in_page p) m ?n" by (auto simp: same_except_def memset_page)
  have off: "\<not> in_page p x" if "q \<in> footprint m d" "in_page q x" for q x
    using in_page_unique [of p q x] al footprint_page [OF wf that(1)] that p(2) by (auto simp: page_ok_def)
  note fr = pt_frame [OF wf same off]
  have "p \<noteq> d" using p(2) footprint_dir by metis
  have n: "pde_of ?n d i = pde_of m d i" if "i < 1024" for i
    unfolding pde_of_def by (rule load32_same [OF same al(2)])
      (use off [OF footprint_dir] that al in \<open>auto simp: slot_in_page slot_aligned\<close>)
  have pde: "pde_of m' d i = (if i = PDX va then v2p p OR 7 else pde_of m d i)" if "i < 1024" for i
    using that al n [OF that] unfolding pde_of_def m'_def by (subst load_store_slot) auto
  then have tab: "table_of m' d i = (if i = PDX va then p else table_of m d i)" if "i < 1024" for i
    using that new_pde [OF al(1)] by (simp add: table_of_def)
  show tab': "table_of m' d (PDX va) = p" using tab by simp
  show pr': "present (pde_of m' d (PDX va))" using pde new_pde [OF al(1)] by simp
  have old: "table_of m d i \<noteq> p" if "i < 1024" "present (pde_of m d i)" for i
    using footprint_table [OF that] p(2) by metis
  show "pt_wf e m' d"
    using wf np p(1) \<open>p \<noteq> d\<close> old by (auto simp: pt_wf_def pde tab split: if_splits)
  show "footprint m' d = insert p (footprint m d)"
  proof (intro equalityI subsetI)
    fix q assume "q \<in> footprint m' d"
    then show "q \<in> insert p (footprint m d)" by (auto simp: footprint_def pde tab split: if_splits)
  next
    fix q assume "q \<in> insert p (footprint m d)"
    then consider "q = p" | "q = d" | i where "i < 1024" "present (pde_of m d i)" "q = table_of m d i"
      by (auto simp: footprint_def)
    then show "q \<in> footprint m' d"
    proof cases
      case 1
      then show ?thesis using footprint_table [OF PDX_PTX_less(1) pr'] tab' by simp
    next
      case 2
      then show ?thesis by (simp add: footprint_dir)
    next
      case 3
      with np have "table_of m' d i = q" "present (pde_of m' d i)" using pde tab by auto
      with 3 footprint_table [of i m' d] show ?thesis by simp
    qed
  qed
  show "same_except (\<lambda>x. in_page d x \<or> in_page p x) m m'"
    using store_slot_same [OF al(2) PDX_PTX_less(1), of ?n va "v2p p OR 7"] same
    unfolding m'_def same_except_def by simp
  show "pt_lookup m' d va' = pt_lookup m d va'"
  proof (cases "PDX va' = PDX va")
    case True
    have "load32 m' (p + 4 * PTX va') = 0"
      using al \<open>p \<noteq> d\<close> unfolding m'_def by (subst load_store_slot) (auto simp: memset_zero_word)
    with True np pr' tab' show ?thesis by (simp add: pt_lookup_def)
  next
    case False
    have "load32 m' (table_of m d (PDX va') + 4 * PTX va') = load32 ?n (table_of m d (PDX va') + 4 * PTX va')"
      if "present (pde_of m d (PDX va'))"
      using al pt_wfD(4) [OF wf _ that] unfolding m'_def by (subst load_store_slot) auto
    moreover have "table_of ?n d (PDX va') = table_of m d (PDX va')" using n by (simp add: table_of_def)
    ultimately have "pt_lookup m' d va' = pt_lookup ?n d va'" 
      using False by (simp add: pt_lookup_def pde tab n)
    with fr(3) show ?thesis by simp
  qed
qed


section \<open>Lemmas: walking and mapping\<close>

lemma pt_invD:
  assumes "pt_inv s d xs"
  shows "kmem_ready s" "free_pages s xs" "pt_wf (kend s) (ram s) d" "footprint (ram s) d \<inter> set xs = {}"
  using assms by (simp_all add: pt_inv_def)

text \<open>A state reached by page table code: the free pages \<open>ys\<close> left of \<open>xs\<close>, the pages
  taken from the free list now part of the footprint, and no write outside it.\<close>

definition pt_grown :: "'a kmem_scheme \<Rightarrow> u32 \<Rightarrow> u32 list \<Rightarrow> 'a kmem_scheme \<Rightarrow> u32 list \<Rightarrow> bool" where
  "pt_grown s d xs t ys = (pt_inv t d ys \<and> kend t = kend s \<and> set ys \<subseteq> set xs \<and>
     footprint (ram t) d = footprint (ram s) d \<union> (set xs - set ys) \<and>
     same_except (\<lambda>x. \<exists>p \<in> footprint (ram t) d. in_page p x) (ram s) (ram t))"

lemma pt_grown_refl: "pt_inv s d xs \<Longrightarrow> pt_grown s d xs s xs"
  by (simp add: pt_grown_def same_except_def)

lemma pt_grown_trans:
  "pt_grown s d xs t ys \<Longrightarrow> pt_grown t d ys u zs \<Longrightarrow> pt_grown s d xs u zs"
  unfolding pt_grown_def same_except_def by (auto; metis)

lemma pt_grown_set:
  assumes "pt_inv s d xs" "present (pde_of (ram s) d (PDX va))"
  shows "pt_grown s d xs (s\<lparr>ram := store32 (ram s) (table_of (ram s) d (PDX va) + 4 * PTX va) w\<rparr>) xs"
    (is "pt_grown s d xs ?t xs")
proof -
  note inv = pt_invD [OF assms(1)]
  note set = pt_set [OF inv(3) assms(2), of w]
  have tf: "table_of (ram s) d (PDX va) \<in> footprint (ram s) d"
    by (rule footprint_table [OF _ assms(2)]) simp
  have "free_pages ?t xs"
  proof (rule free_pages_frame [OF inv(2) set(4)])
    fix x y assume "x \<in> set xs" "in_page x y"
    with tf inv(4) in_page_unique [of "table_of (ram s) d (PDX va)" x y] free_pages_page [OF inv(2), of x]
    show "\<not> in_page (table_of (ram s) d (PDX va)) y" by auto
  qed
  with inv set tf show ?thesis
    by (auto simp: pt_grown_def pt_inv_def same_except_def)
qed

lemma walkpgdir_alloc_spec:
  assumes "pt_inv s d xs"
  shows "\<exists>r t ys. walkpgdir d va True s = Ok r t \<and> pt_grown s d xs t ys \<and>
    (\<forall>va'. pt_lookup (ram t) d va' = pt_lookup (ram s) d va') \<and>
    (if r = 0 then \<not> present (pde_of (ram s) d (PDX va)) \<and> xs = []
     else present (pde_of (ram t) d (PDX va)) \<and> r = table_of (ram t) d (PDX va) + 4 * PTX va) \<and>
    length xs \<le> length ys + 1"
proof (cases "present (pde_of (ram s) d (PDX va))")
  case True
  with assms pt_grown_refl [OF assms] pte_slot_nonzero [OF pt_invD(3) [OF assms] _ True, of "PTX va"] show ?thesis
    by (intro exI [of _ xs] exI [of _ s] exI) (auto simp: walkpgdir_present)
next
  case False
  note inv = pt_invD [OF assms]
  from kalloc_spec [OF inv(1,2)] obtain t where t: "kalloc s = Ok (case xs of [] \<Rightarrow> 0 | x # _ \<Rightarrow> x) t"
    "free_pages t (tl xs)" "ram t = ram s" "kmem_ready t" "kend t = kend s" by blast
  show ?thesis
  proof (cases xs)
    case Nil
    with t inv False show ?thesis
      by (auto simp: walkpgdir_create [OF False t(1)] pt_grown_def pt_inv_def same_except_def)
  next
    case (Cons p ys)
    have p: "page_ok (kend s) p" "p \<noteq> 0" "p mod PGSIZE = 0" using free_pages_page [OF inv(2), of p] Cons by auto
    have nf: "p \<notin> footprint (ram s) d" using inv(4) Cons by auto
    note cr = pt_create [OF inv(3) False p(1) nf]
    let ?m = "store32 (memset (ram s) p 0 PGSIZE) (d + 4 * PDX va) (v2p p OR 7)"
    have dist: "p \<notin> set ys" using inv(2) Cons by (simp add: free_pages_def)
    have "free_pages (t\<lparr>ram := ?m\<rparr>) ys"
    proof (rule free_pages_frame [of t ys "\<lambda>x. in_page d x \<or> in_page p x"])
      fix x y assume "x \<in> set ys" "in_page x y"
      with dist inv(4) Cons footprint_dir [of d "ram s"] in_page_unique [of d x y] in_page_unique [of p x y]
        pt_wfD(3) [OF inv(3)] free_pages_page [OF inv(2), of x] p(3)
      show "\<not> (in_page d y \<or> in_page p y)" by auto
    qed (use t Cons cr(6) in simp_all)
    moreover have "walkpgdir d va True s = Ok (p + 4 * PTX va) (t\<lparr>ram := ?m\<rparr>)"
      using walkpgdir_create [OF False t(1)] Cons p t(3) by simp
    moreover have "p + 4 * PTX va \<noteq> 0" 
      using pte_slot_nonzero [OF cr(1) PDX_PTX_less(1) cr(4), of "PTX va"] cr(5) by simp
    ultimately show ?thesis using Cons cr inv t dist nf
      by (intro exI [of _ ys] exI [of _ "t\<lparr>ram := ?m\<rparr>"] exI [of _ "p + 4 * PTX va"])
        (auto simp: pt_grown_def pt_inv_def same_except_def footprint_dir)
  qed
qed


text \<open>The lookups after mapping the pages from \<open>a\<close> to \<open>a + l\<close> to physical memory
  from \<open>pa\<close> on.\<close>

definition map_view :: "(u32 \<Rightarrow> u32) \<Rightarrow> u32 \<Rightarrow> nat \<Rightarrow> u32 \<Rightarrow> u32 \<Rightarrow> u32 \<Rightarrow> u32" where
  "map_view old a l pa perm va =
     (if unat (PGROUNDDOWN va - a) \<le> l then (pa + (PGROUNDDOWN va - a)) OR perm OR PTE_P else old va)"

lemma PGROUNDDOWN_id: "a mod PGSIZE = 0 \<Longrightarrow> PGROUNDDOWN a = a"
  by (simp add: PGROUNDDOWN_minus)

lemma aligned_minus: "a mod PGSIZE = 0 \<Longrightarrow> b mod PGSIZE = 0 \<Longrightarrow> (a - b) mod PGSIZE = 0"
proof -
  assume "a mod PGSIZE = 0" "b mod PGSIZE = 0"
  moreover have "unat (a - b) = unat a - unat b \<or> unat (a - b) = unat a + 2 ^ 32 - unat b"
    by (simp add: unat_sub_if')
  ultimately show ?thesis
    unfolding page_aligned_unat by (elim disjE) (simp_all add: dvd_diff_nat)
qed

lemma unat_sub_page:
  assumes "x mod PGSIZE = 0" "x \<noteq> 0"
  shows "unat (x - 4096) + 4096 = unat x"
proof -
  have "0 < unat x" "4096 dvd unat x" using assms by (simp_all only: unat_gt_0 page_aligned_unat) simp
  then have "4096 \<le> unat x" by (simp add: dvd_imp_le)
  then show ?thesis by (simp add: unat_sub_if' word_le_nat_alt)
qed

lemma page_range_Suc:
  assumes "a mod PGSIZE = 0" "k + 1 < 2 ^ 20"
  shows "unat (PGROUNDDOWN v - (a + PGSIZE)) \<le> 4096 * k \<longleftrightarrow>
    PGROUNDDOWN v \<noteq> a \<and> unat (PGROUNDDOWN v - a) \<le> 4096 * Suc k"
proof (cases "PGROUNDDOWN v = a")
  case True
  have "unat (- 4096 :: u32) = 4294963200" by simp
  with True assms show ?thesis by simp
next
  case False
  have eq: "PGROUNDDOWN v - (a + PGSIZE) = (PGROUNDDOWN v - a) - 4096" by (simp add: algebra_simps)
  from False have "unat ((PGROUNDDOWN v - a) - 4096) + 4096 = unat (PGROUNDDOWN v - a)"
    by (intro unat_sub_page aligned_minus) (use assms in simp_all)
  with False show ?thesis unfolding eq by auto
qed

lemma map_view_Suc:
  assumes "a mod PGSIZE = 0" "k + 1 < 2 ^ 20"
  shows "map_view (\<lambda>v. if PGROUNDDOWN v = PGROUNDDOWN a then pa OR perm OR PTE_P else old v)
      (a + PGSIZE) (4096 * k) (pa + PGSIZE) perm = map_view old a (4096 * Suc k) pa perm"
proof (rule ext)
  fix v
  have eq: "(pa + PGSIZE) + (PGROUNDDOWN v - (a + PGSIZE)) = pa + (PGROUNDDOWN v - a)"
    by (simp add: algebra_simps)
  show "map_view (\<lambda>v. if PGROUNDDOWN v = PGROUNDDOWN a then pa OR perm OR PTE_P else old v)
      (a + PGSIZE) (4096 * k) (pa + PGSIZE) perm v = map_view old a (4096 * Suc k) pa perm v"
    unfolding map_view_def page_range_Suc [OF assms] eq PGROUNDDOWN_id [OF assms(1)] by auto
qed

text \<open>The first \<open>j\<close> pages of a range are mapped.\<close>

definition map_pages :: "(u32 \<Rightarrow> u32) \<Rightarrow> u32 \<Rightarrow> nat \<Rightarrow> u32 \<Rightarrow> u32 \<Rightarrow> u32 \<Rightarrow> u32" where
  "map_pages old a j pa perm va =
     (if unat (PGROUNDDOWN va - a) < 4096 * j then (pa + (PGROUNDDOWN va - a)) OR perm OR PTE_P else old va)"

lemma map_pages_0: "map_pages old a 0 pa perm = old"
  by (simp add: map_pages_def fun_eq_iff)

lemma map_pages_Suc:
  assumes "a mod PGSIZE = 0"
  shows "map_pages old a (Suc j) pa perm = map_view old a (4096 * j) pa perm"
proof -
  have "unat (PGROUNDDOWN v - a) < 4096 * Suc j \<longleftrightarrow> unat (PGROUNDDOWN v - a) \<le> 4096 * j" for v
  proof -
    have "4096 dvd unat (PGROUNDDOWN v - a)"
      using aligned_minus [of "PGROUNDDOWN v" a] assms by (simp only: PGROUND_aligned page_aligned_unat)
    then obtain i where i: "unat (PGROUNDDOWN v - a) = 4096 * i" by (elim dvdE)
    show ?thesis unfolding i mult_less_cancel1 mult_le_cancel1 by auto
  qed
  then show ?thesis by (simp add: map_pages_def map_view_def fun_eq_iff)
qed

lemma map_pages_step:
  assumes "a mod PGSIZE = 0" "j < 2 ^ 20"
  shows "map_pages (\<lambda>v. if PGROUNDDOWN v = PGROUNDDOWN a then pa OR perm OR PTE_P else old v)
      (a + PGSIZE) j (pa + PGSIZE) perm = map_pages old a (Suc j) pa perm"
proof (cases j)
  case 0
  then show ?thesis using assms(1)
    by (auto simp: map_pages_0 map_pages_Suc map_view_def fun_eq_iff PGROUNDDOWN_id unat_eq_0)
next
  case (Suc i)
  have "(a + PGSIZE) mod PGSIZE = 0" using assms(1) by (intro aligned_add) simp_all
  then show ?thesis using map_view_Suc [OF assms(1), of i pa perm old] assms Suc by (simp add: map_pages_Suc)
qed

lemma aligned_multiple [simp]: "of_nat (4096 * k) mod PGSIZE = (0 :: u32)"
  by (simp only: page_aligned_unat unat_of_nat) (simp add: dvd_mod_iff)

lemma page_offset: 
  "a mod PGSIZE = 0 \<Longrightarrow> i < 2 ^ 20 \<Longrightarrow> unat (PGROUNDDOWN (a + of_nat (4096 * i)) - a) = 4096 * i"
proof -
  assume "a mod PGSIZE = 0" "i < 2 ^ 20"
  then show ?thesis
    using PGROUNDDOWN_id [OF aligned_add [OF _ aligned_multiple], of a i] unat_of_nat32 [of "4096 * i"]
    by (simp del: of_nat_mult)
qed

lemma mappages_step:
  assumes inv: "pt_inv s d xs" and np: "\<not> present (pt_lookup (ram s) d a)"
  shows "(\<exists>t. xs = [] \<and> mappages_loop (Suc n) d a l pa perm s = Ok (- 1) t \<and> pt_grown s d xs t [] \<and>
      pt_lookup (ram t) d = pt_lookup (ram s) d) \<or>
    (\<exists>t ys. mappages_loop (Suc n) d a l pa perm s =
        (if a = l then Ok 0 t else mappages_loop n d (a + PGSIZE) l (pa + PGSIZE) perm t) \<and>
      pt_grown s d xs t ys \<and> length xs \<le> length ys + 1 \<and>
      pt_lookup (ram t) d =
        (\<lambda>v. if PGROUNDDOWN v = PGROUNDDOWN a then pa OR perm OR PTE_P else pt_lookup (ram s) d v))"
proof -
  from walkpgdir_alloc_spec [OF inv, of a] obtain r t ys where
    w: "walkpgdir d a True s = Ok r t" "pt_grown s d xs t ys" "length xs \<le> length ys + 1" and
    same: "pt_lookup (ram t) d = pt_lookup (ram s) d" and
    z: "if r = 0 then \<not> present (pde_of (ram s) d (PDX a)) \<and> xs = []
     else present (pde_of (ram t) d (PDX a)) \<and> r = table_of (ram t) d (PDX a) + 4 * PTX a"
    by (metis (no_types, lifting) ext)
  show ?thesis
  proof (cases "r = 0")
    case True
    with z have "xs = []" by simp
    moreover from this w(2) have "ys = []" by (auto simp: pt_grown_def)
    ultimately show ?thesis using w same True by (simp add: run_simps)
  next
    case False
    with z have pr: "present (pde_of (ram t) d (PDX a))" and r: "r = table_of (ram t) d (PDX a) + 4 * PTX a"
      by auto
    have inv': "pt_inv t d ys" using w(2) by (simp add: pt_grown_def)
    let ?u = "t\<lparr>ram := store32 (ram t) r (pa OR perm OR PTE_P)\<rparr>"
    have "load32 (ram t) r = pt_lookup (ram t) d a" using pr r by (simp add: pt_lookup_def)
    with np same have "\<not> present (load32 (ram t) r)" by simp
    then have "mappages_loop (Suc n) d a l pa perm s =
        (if a = l then Ok 0 ?u else mappages_loop n d (a + PGSIZE) l (pa + PGSIZE) perm ?u)"
      using False w(1) by (simp add: run_simps load_def store_def present_def)
    moreover have "pt_grown s d xs ?u ys"
      using pt_grown_trans [OF w(2) pt_grown_set [OF inv' pr, of "pa OR perm OR PTE_P"]] r by simp
    moreover have "pt_lookup (ram ?u) d =
        (\<lambda>v. if PGROUNDDOWN v = PGROUNDDOWN a then pa OR perm OR PTE_P else pt_lookup (ram s) d v)"
      using pt_set(3) [OF pt_invD(3) [OF inv'] pr] r same by (simp add: fun_eq_iff)
    ultimately show ?thesis using w(3) by blast
  qed
qed

lemma mappages_loop_spec:
  "pt_inv s d xs \<Longrightarrow> a mod PGSIZE = 0 \<Longrightarrow> k < n \<Longrightarrow> k < 2 ^ 20 \<Longrightarrow> l = a + of_nat (4096 * k) \<Longrightarrow>
   \<forall>va. unat (PGROUNDDOWN va - a) \<le> 4096 * k \<longrightarrow> \<not> present (pt_lookup (ram s) d va) \<Longrightarrow>
   \<exists>r t ys. mappages_loop n d a l pa perm s = Ok r t \<and> pt_grown s d xs t ys \<and>
     (r = 0 \<and> pt_lookup (ram t) d = map_view (pt_lookup (ram s) d) a (4096 * k) pa perm \<and>
        length xs \<le> length ys + Suc k \<or>
      r = - 1 \<and> ys = [] \<and> (\<exists>j \<le> k. pt_lookup (ram t) d = map_pages (pt_lookup (ram s) d) a j pa perm))"
proof (induction k arbitrary: n s xs a pa)
  case 0
  then obtain n' where n: "n = Suc n'" by (cases n) auto
  have "a = l" using "0.prems" by simp
  have "\<not> present (pt_lookup (ram s) d a)" using "0.prems" PGROUNDDOWN_id [of a] by simp
  from mappages_step [OF "0.prems"(1) this, of n' l pa perm] show ?case
  proof (elim disjE exE conjE)
    fix t assume "xs = []" "mappages_loop (Suc n') d a l pa perm s = Ok (- 1) t" "pt_grown s d xs t []"
      "pt_lookup (ram t) d = pt_lookup (ram s) d"
    then show ?thesis using n by (auto simp: map_pages_0)
  next
    fix t ys
    assume *: "mappages_loop (Suc n') d a l pa perm s =
        (if a = l then Ok 0 t else mappages_loop n' d (a + PGSIZE) l (pa + PGSIZE) perm t)"
      "pt_grown s d xs t ys" "length xs \<le> length ys + 1" "pt_lookup (ram t) d =
        (\<lambda>v. if PGROUNDDOWN v = PGROUNDDOWN a then pa OR perm OR PTE_P else pt_lookup (ram s) d v)"
    have "pt_lookup (ram t) d = map_view (pt_lookup (ram s) d) a (4096 * 0) pa perm"
      using *(4) "0.prems"(2) by (auto simp: map_view_def fun_eq_iff PGROUNDDOWN_id unat_eq_0)
    with * \<open>a = l\<close> n show ?thesis by auto
  qed
next
  case (Suc k)
  then obtain n' where n: "n = Suc n'" "k < n'" by (cases n) auto
  have uk: "unat (of_nat (4096 * Suc k) :: u32) = 4096 * Suc k"
    using Suc.prems(4) by (intro unat_of_nat32) simp
  have "a \<noteq> l" using Suc.prems(5) uk by auto
  have l: "l = a + PGSIZE + of_nat (4096 * k)" using Suc.prems(5) by simp
  have "\<not> present (pt_lookup (ram s) d a)" using Suc.prems PGROUNDDOWN_id [of a] by simp
  from mappages_step [OF Suc.prems(1) this, of n' l pa perm] show ?case
  proof (elim disjE exE conjE)
    fix t assume "xs = []" "mappages_loop (Suc n') d a l pa perm s = Ok (- 1) t" "pt_grown s d xs t []"
      "pt_lookup (ram t) d = pt_lookup (ram s) d"
    then show ?thesis using n by (auto simp: map_pages_0 intro!: exI [of _ 0])
  next
    fix t ys
    let ?new = "\<lambda>v. if PGROUNDDOWN v = PGROUNDDOWN a then pa OR perm OR PTE_P else pt_lookup (ram s) d v"
    assume *: "mappages_loop (Suc n') d a l pa perm s =
        (if a = l then Ok 0 t else mappages_loop n' d (a + PGSIZE) l (pa + PGSIZE) perm t)"
      "pt_grown s d xs t ys" "length xs \<le> length ys + 1" "pt_lookup (ram t) d = ?new"
    have inv: "pt_inv t d ys" using *(2) by (simp add: pt_grown_def)
    have al: "(a + PGSIZE) mod PGSIZE = 0" using Suc.prems(2) by (intro aligned_add) simp_all
    have range: "unat (PGROUNDDOWN va - (a + PGSIZE)) \<le> 4096 * k \<longleftrightarrow>
        PGROUNDDOWN va \<noteq> a \<and> unat (PGROUNDDOWN va - a) \<le> 4096 * Suc k" for va
      by (rule page_range_Suc) (use Suc.prems in simp_all)
    have "\<forall>va. unat (PGROUNDDOWN va - (a + PGSIZE)) \<le> 4096 * k \<longrightarrow> \<not> present (pt_lookup (ram t) d va)"
      using Suc.prems(2,6) *(4) PGROUNDDOWN_id [of a] range by simp
    from Suc.IH [OF inv al n(2) _ l this, of "pa + PGSIZE"] Suc.prems(4) obtain r u zs where
      u: "mappages_loop n' d (a + PGSIZE) l (pa + PGSIZE) perm t = Ok r u" "pt_grown t d ys u zs"
      "r = 0 \<and> pt_lookup (ram u) d = map_view ?new (a + PGSIZE) (4096 * k) (pa + PGSIZE) perm \<and>
         length ys \<le> length zs + Suc k \<or>
       r = - 1 \<and> zs = [] \<and> (\<exists>j \<le> k. pt_lookup (ram u) d = map_pages ?new (a + PGSIZE) j (pa + PGSIZE) perm)"
      unfolding *(4) by auto
    have part: "map_pages ?new (a + PGSIZE) j (pa + PGSIZE) perm = map_pages (pt_lookup (ram s) d) a (Suc j) pa perm" if "j \<le> k" for j
      by (rule map_pages_step) (use that Suc.prems(2,4) in simp_all)
    have full: "map_view ?new (a + PGSIZE) (4096 * k) (pa + PGSIZE) perm = map_view (pt_lookup (ram s) d) a (4096 * Suc k) pa perm"
      by (rule map_view_Suc) (use Suc.prems(2,4) in simp_all)
    from u(3) have "r = 0 \<and> pt_lookup (ram u) d = map_view (pt_lookup (ram s) d) a (4096 * Suc k) pa perm \<and>
         length xs \<le> length zs + Suc (Suc k) \<or>
       r = - 1 \<and> zs = [] \<and> (\<exists>j \<le> Suc k. pt_lookup (ram u) d = map_pages (pt_lookup (ram s) d) a j pa perm)"
    proof (elim disjE conjE exE)
      fix j assume "r = - 1" "zs = []" "j \<le> k" "pt_lookup (ram u) d = map_pages ?new (a + PGSIZE) j (pa + PGSIZE) perm"
      then show ?thesis unfolding part [OF \<open>j \<le> k\<close>] by (intro disjI2 conjI exI [of _ "Suc j"]) simp_all
    qed (use *(3) full in simp)
    moreover have "mappages_loop n d a l pa perm s = Ok r u" using *(1) \<open>a \<noteq> l\<close> n(1) u(1) by simp
    ultimately show ?thesis using pt_grown_trans [OF *(2) u(2)] by blast
  qed
qed


section \<open>Lemmas: growing an address space\<close>

text \<open>
  \<open>uvm_grown s d xs a t ys fs\<close>: from \<open>s\<close>, with free pages \<open>xs\<close>, the address space was
  extended by one zeroed frame of \<open>fs\<close> per page from \<open>a\<close> on, each a different page
  that was free and is now neither free nor part of the page table; no other lookup and
  no other memory changed.
\<close>

definition uvm_view :: "(u32 \<Rightarrow> u32) \<Rightarrow> u32 \<Rightarrow> u32 list \<Rightarrow> u32 \<Rightarrow> u32" where
  "uvm_view old a fs va =
     (if unat (PGROUNDDOWN va - a) < 4096 * length fs
      then v2p (fs ! (unat (PGROUNDDOWN va - a) div 4096)) OR (PTE_W OR PTE_U) OR PTE_P else old va)"

definition uvm_grown ::
  "'a kmem_scheme \<Rightarrow> u32 \<Rightarrow> u32 list \<Rightarrow> u32 \<Rightarrow> 'a kmem_scheme \<Rightarrow> u32 list \<Rightarrow> u32 list \<Rightarrow> bool" where
  "uvm_grown s d xs a t ys fs =
     (pt_inv t d ys \<and> kend t = kend s \<and> distinct fs \<and> set fs \<union> set ys \<subseteq> set xs \<and> set fs \<inter> set ys = {} \<and>
      footprint (ram s) d \<subseteq> footprint (ram t) d \<and>
      footprint (ram t) d \<subseteq> footprint (ram s) d \<union> set xs \<and> footprint (ram t) d \<inter> set fs = {} \<and>
      same_except (\<lambda>x. \<exists>p \<in> footprint (ram t) d \<union> set fs. in_page p x) (ram s) (ram t) \<and>
      (\<forall>p \<in> set fs. \<forall>x. in_page p x \<longrightarrow> ram t x = 0) \<and>
      pt_lookup (ram t) d = uvm_view (pt_lookup (ram s) d) a fs)"

lemma pt_inv_take:
  assumes inv: "pt_inv s d (p # xs)" and m: "same_except (in_page p) (ram s) m"
    and t: "kalloc s = Ok p t"
  shows "pt_inv (t\<lparr>ram := m\<rparr>) d xs" "footprint m d = footprint (ram s) d"
    "pt_lookup m d = pt_lookup (ram s) d" "kend t = kend s" "ram t = ram s"
    "i < 1024 \<Longrightarrow> pde_of m d i = pde_of (ram s) d i"
proof -
  note inv' = pt_invD [OF inv]
  from kalloc_spec [OF inv'(1,2)] t have t': "free_pages t xs" "ram t = ram s" "kmem_ready t" "kend t = kend s"
    by auto
  have p: "page_ok (kend s) p" "p mod PGSIZE = 0" "p \<notin> set xs" "p \<notin> footprint (ram s) d"
    using free_pages_page [OF inv'(2), of p] inv'(2,4) by (auto simp: free_pages_def)
  have off: "\<not> in_page p x" if "q \<in> footprint (ram s) d \<union> set xs" "in_page q x" for q x
    using in_page_unique [of p q x] footprint_page [OF inv'(3), of q] free_pages_page [OF inv'(2), of q] that p
    by (auto simp: page_ok_def)
  have off': "\<not> in_page p x" if "q \<in> footprint (ram s) d" "in_page q x" for q x
    using off that by blast
  note fr = pt_frame [OF inv'(3) m off']
  show "footprint m d = footprint (ram s) d" "pt_lookup m d = pt_lookup (ram s) d"
    using fr by (auto simp: fun_eq_iff)
  have "free_pages (t\<lparr>ram := m\<rparr>) xs"
  proof (rule free_pages_frame [OF t'(1)])
    show "same_except (in_page p) (ram t) m" using m t'(2) by simp
    show "\<not> in_page p y" if "x \<in> set xs" "in_page x y" for x y using off that by blast
  qed
  with t' fr inv'(4) show "pt_inv (t\<lparr>ram := m\<rparr>) d xs" by (auto simp: pt_inv_def)
  show "kend t = kend s" "ram t = ram s" by (rule t')+
  show "i < 1024 \<Longrightarrow> pde_of m d i = pde_of (ram s) d i" by (rule fr(4))
qed

lemma uvm_grown_Nil: "pt_inv s d xs \<Longrightarrow> uvm_grown s d xs a s xs []"
  by (auto simp: uvm_grown_def uvm_view_def same_except_def)

lemma in_range_less: "a mod PGSIZE = 0 \<Longrightarrow> unat (PGROUNDDOWN v - a) < 4096 * Suc k \<longleftrightarrow> unat (PGROUNDDOWN v - a) \<le> 4096 * k"
proof -
  assume "a mod PGSIZE = 0"
  then have "4096 dvd unat (PGROUNDDOWN v - a)"
    using aligned_minus [of "PGROUNDDOWN v" a] by (simp only: PGROUND_aligned page_aligned_unat)
  then show ?thesis using aligned_step [of 4096 "4096 * k" "unat (PGROUNDDOWN v - a)"] by fastforce
qed

lemma uvm_view_Cons:
  assumes "a mod PGSIZE = 0" "length fs + 1 < 2 ^ 20"
  shows "uvm_view (\<lambda>v. if PGROUNDDOWN v = PGROUNDDOWN a then v2p p OR (PTE_W OR PTE_U) OR PTE_P else old v)
    (a + PGSIZE) fs = uvm_view old a (p # fs)"
proof (rule ext)
  fix v
  let ?P = "PGROUNDDOWN v"
  have al: "(a + PGSIZE) mod PGSIZE = 0" using assms(1) by (intro aligned_add) simp_all
  show "uvm_view (\<lambda>v. if PGROUNDDOWN v = PGROUNDDOWN a then v2p p OR (PTE_W OR PTE_U) OR PTE_P else old v)
    (a + PGSIZE) fs v = uvm_view old a (p # fs) v"
  proof (cases "?P = a")
    case True
    have "unat (- 4096 :: u32) = 4294963200" by simp
    with True assms show ?thesis by (simp add: uvm_view_def PGROUNDDOWN_id)
  next
    case False
    have "?P - (a + PGSIZE) = (?P - a) - 4096" by (simp add: algebra_simps)
    moreover have "unat ((?P - a) - 4096) + 4096 = unat (?P - a)"
      using False by (intro unat_sub_page aligned_minus) (use assms in simp_all)
    ultimately have u: "unat (?P - a) = unat (?P - (a + PGSIZE)) + 4096" by (simp only:)
    have "(n + 4096) div 4096 = Suc (n div 4096)" for n :: nat by simp
    then show ?thesis using False unfolding uvm_view_def u PGROUNDDOWN_id [OF assms(1)] by simp
  qed
qed


lemma map_one_page:
  assumes inv: "pt_inv s d xs" and al: "a mod PGSIZE = 0" and np: "\<not> present (pt_lookup (ram s) d a)"
    and xs: "xs \<noteq> []"
  shows "\<exists>t ys. mappages d a PGSIZE pa perm s = Ok 0 t \<and> pt_grown s d xs t ys \<and> length xs \<le> length ys + 1 \<and>
      pt_lookup (ram t) d =
        (\<lambda>v. if PGROUNDDOWN v = PGROUNDDOWN a then pa OR perm OR PTE_P else pt_lookup (ram s) d v)"
proof -
  have "unat a + 4096 \<le> 2 ^ 32" by (rule page_end [OF al])
  then have "unat (a + 4095) = unat a + 4095" by (simp add: unat_plus_if')
  moreover have "4096 dvd unat a" using al by (simp only: page_aligned_unat)
  ultimately have "unat (PGROUNDDOWN (a + 4095)) = unat a"
    by (elim dvdE) (simp add: unat_PGROUNDDOWN)
  then have "PGROUNDDOWN (a + PGSIZE - 1) = a" by (simp add: word_unat_eq_iff add.commute)
  then have "mappages d a PGSIZE pa perm s = mappages_loop (Suc (2 ^ 20 - 1)) d a a pa perm s"
    using PGROUNDDOWN_id [OF al] by (simp add: mappages_def del: mappages_loop.simps)
  then show ?thesis using mappages_step [OF inv np, of "2 ^ 20 - 1" a pa perm] xs by auto
qed

lemma pt_grown_inv: "pt_grown s d xs t ys \<Longrightarrow> pt_inv t d ys"
  by (simp add: pt_grown_def)

lemma page_off:
  "p mod PGSIZE = 0 \<Longrightarrow> (\<And>q. q \<in> S \<Longrightarrow> q mod PGSIZE = 0) \<Longrightarrow> p \<notin> S \<Longrightarrow> in_page p x \<Longrightarrow> \<not> (\<exists>q \<in> S. in_page q x)"
  by (metis in_page_unique)

lemma uvm_grown_Cons:
  assumes inv: "pt_inv s d (p # xs)" and t: "kalloc s = Ok p t"
    and t1: "t1 = t\<lparr>ram := memset (ram t) p 0 PGSIZE\<rparr>"
    and u: "pt_grown t1 d xs u ys"
    and look: "pt_lookup (ram u) d =
      (\<lambda>v. if PGROUNDDOWN v = PGROUNDDOWN a then v2p p OR (PTE_W OR PTE_U) OR PTE_P else pt_lookup (ram s) d v)"
    and w: "uvm_grown u d ys (a + PGSIZE) w zs fs"
    and a: "a mod PGSIZE = 0" "length fs + 1 < 2 ^ 20"
  shows "uvm_grown s d (p # xs) a w zs (p # fs)"
proof -
  let ?m = "memset (ram s) p 0 PGSIZE" and ?F = "footprint (ram w) d \<union> set fs"
  have m: "same_except (in_page p) (ram s) ?m" by (auto simp: same_except_def memset_page)
  note tk = pt_inv_take [OF inv m t]
  have r1: "ram t1 = ?m" "kend t1 = kend s" using t1 tk by simp_all
  have p: "p mod PGSIZE = 0" "p \<notin> set xs" "p \<notin> footprint (ram s) d"
    using free_pages_page [OF pt_invD(2) [OF inv], of p] pt_invD(2,4) [OF inv] by (auto simp: free_pages_def)
  have fu: "pt_inv u d ys" "set ys \<subseteq> set xs" "footprint (ram u) d = footprint (ram s) d \<union> (set xs - set ys)"
    "same_except (\<lambda>x. \<exists>q \<in> footprint (ram u) d. in_page q x) ?m (ram u)" "kend u = kend s"
    using u unfolding pt_grown_def r1 tk(2) by blast+
  have fw: "pt_inv w d zs" "kend w = kend u" "distinct fs" "set fs \<union> set zs \<subseteq> set ys" "set fs \<inter> set zs = {}"
    "footprint (ram u) d \<subseteq> footprint (ram w) d"
    "footprint (ram w) d \<subseteq> footprint (ram u) d \<union> set ys" "footprint (ram w) d \<inter> set fs = {}"
    "same_except (\<lambda>x. \<exists>q \<in> ?F. in_page q x) (ram u) (ram w)"
    "\<forall>q \<in> set fs. \<forall>x. in_page q x \<longrightarrow> ram w x = 0"
    "pt_lookup (ram w) d = uvm_view (pt_lookup (ram u) d) (a + PGSIZE) fs"
    using w unfolding uvm_grown_def by blast+
  have pF: "p \<notin> ?F" "p \<notin> footprint (ram u) d" using p fu(2,3) fw(4,6,7) by blast+
  have al: "q mod PGSIZE = 0" if "q \<in> ?F" for q
    using that fw(4) footprint_page [OF pt_invD(3) [OF fw(1)], of q] free_pages_page [OF pt_invD(2) [OF fu(1)], of q]
    by (auto simp: page_ok_def)
  have wm: "ram w x = ?m x" if "\<not> (\<exists>q \<in> ?F. in_page q x)" for x
  proof -
    have "ram w x = ram u x" using fw(9) that unfolding same_except_def by blast
    moreover have "\<not> (\<exists>q \<in> footprint (ram u) d. in_page q x)" using that fw(6) by blast
    ultimately show ?thesis using fu(4) unfolding same_except_def by auto
  qed
  have "ram w x = 0" if "in_page p x" for x
  proof -
    have "\<not> (\<exists>q \<in> ?F. in_page q x)" by (rule page_off [OF p(1) al pF(1) that])
    then have "ram w x = ?m x" by (rule wm)
    with that show ?thesis by (simp add: memset_page)
  qed
  moreover have "same_except (\<lambda>x. \<exists>q \<in> footprint (ram w) d \<union> set (p # fs). in_page q x) (ram s) (ram w)"
    using m wm unfolding same_except_def by auto
  moreover have "pt_lookup (ram w) d = uvm_view (pt_lookup (ram s) d) a (p # fs)"
    unfolding fw(11) look by (rule uvm_view_Cons [OF a])
  ultimately show ?thesis
    unfolding uvm_grown_def using fw(1-8,10) fu(2,3,5) p pF by auto
qed


lemma page_range_less:
  assumes "a mod PGSIZE = 0" "k + 1 < 2 ^ 20" "unat (PGROUNDDOWN v - (a + PGSIZE)) < 4096 * k"
  shows "PGROUNDDOWN v \<noteq> a \<and> unat (PGROUNDDOWN v - a) < 4096 * Suc k"
proof (cases k)
  case (Suc j)
  have al: "(a + PGSIZE) mod PGSIZE = 0" using assms(1) by (intro aligned_add) simp_all
  from assms(3) have "unat (PGROUNDDOWN v - (a + PGSIZE)) \<le> 4096 * j"
    unfolding Suc in_range_less [OF al] .
  then have "PGROUNDDOWN v \<noteq> a \<and> unat (PGROUNDDOWN v - a) \<le> 4096 * Suc j"
    using page_range_Suc [OF assms(1), of j v] assms(2) Suc by simp
  then show ?thesis unfolding Suc in_range_less [OF assms(1)] .
qed (use assms in simp)

lemma allocuvm_loop_spec:
  "pt_inv s d xs \<Longrightarrow> a mod PGSIZE = 0 \<Longrightarrow> k < n \<Longrightarrow> k + 1 < 2 ^ 20 \<Longrightarrow> 2 * k \<le> length xs \<Longrightarrow>
   unat newsz \<le> unat a + 4096 * k \<Longrightarrow> unat a + 4096 * k < unat newsz + 4096 \<or> k = 0 \<Longrightarrow>
   unat a + 4096 * k < 2 ^ 32 \<Longrightarrow>
   \<forall>v. unat (PGROUNDDOWN v - a) < 4096 * k \<longrightarrow> \<not> present (pt_lookup (ram s) d v) \<Longrightarrow>
   \<exists>t ys fs. allocuvm_loop n d a oldsz newsz s = Ok newsz t \<and> length fs = k \<and> uvm_grown s d xs a t ys fs"
proof (induction k arbitrary: n s xs a)
  case 0
  then obtain n' where "n = Suc n'" by (cases n) auto
  with "0.prems" uvm_grown_Nil [OF "0.prems"(1), of a] show ?case
    by (auto simp: word_less_nat_alt)
next
  case (Suc k)
  then obtain n' p xs' where n: "n = Suc n'" "k < n'" and xs: "xs = p # xs'" "2 * k + 1 \<le> length xs'"
    by (cases n; cases xs) auto
  note inv = pt_invD [OF Suc.prems(1)]
  from kalloc_spec [OF inv(1,2)] xs obtain t where t: "kalloc s = Ok p t" by auto
  have "p \<noteq> 0" using free_pages_page [OF inv(2), of p] xs by simp
  define t1 where "t1 = t\<lparr>ram := memset (ram t) p 0 PGSIZE\<rparr>"
  have "same_except (in_page p) (ram s) (memset (ram s) p 0 PGSIZE)" by (auto simp: same_except_def memset_page)
  note tk = pt_inv_take [OF Suc.prems(1) [unfolded xs] this t]
  have t1: "pt_inv t1 d xs'" "pt_lookup (ram t1) d = pt_lookup (ram s) d" using tk by (simp_all add: t1_def)
  have "\<not> present (pt_lookup (ram t1) d a)" using Suc.prems(2,9) PGROUNDDOWN_id [of a] t1(2) by simp
  moreover have "xs' \<noteq> []" using xs(2) by auto
  ultimately obtain u ys where
    u: "mappages d a PGSIZE (v2p p) (PTE_W OR PTE_U) t1 = Ok 0 u" "pt_grown t1 d xs' u ys" "length xs' \<le> length ys + 1"
      "pt_lookup (ram u) d = (\<lambda>v. if PGROUNDDOWN v = PGROUNDDOWN a then v2p p OR (PTE_W OR PTE_U) OR PTE_P
        else pt_lookup (ram s) d v)"
    using map_one_page [OF t1(1) Suc.prems(2), of "v2p p" "PTE_W OR PTE_U"] unfolding t1(2) by blast
  have ua: "unat (a + PGSIZE) = unat a + 4096" using Suc.prems(8) by (simp add: unat_plus_if')
  have "\<exists>w zs fs. allocuvm_loop n' d (a + PGSIZE) oldsz newsz u = Ok newsz w \<and> length fs = k \<and>
      uvm_grown u d ys (a + PGSIZE) w zs fs"
  proof (rule Suc.IH [OF pt_grown_inv [OF u(2)] _ n(2)])
    show "(a + PGSIZE) mod PGSIZE = 0" using Suc.prems(2) by (intro aligned_add) simp_all
    show "\<forall>v. unat (PGROUNDDOWN v - (a + PGSIZE)) < 4096 * k \<longrightarrow> \<not> present (pt_lookup (ram u) d v)"
      using Suc.prems(2,4,9) page_range_less [of a k] PGROUNDDOWN_id [of a] by (simp add: u(4))
  qed (use Suc.prems xs u(3) ua in auto)
  then obtain w zs fs where w: "allocuvm_loop n' d (a + PGSIZE) oldsz newsz u = Ok newsz w" "length fs = k"
      "uvm_grown u d ys (a + PGSIZE) w zs fs" by blast
  have "a < newsz" using Suc.prems(7) by (simp add: word_less_nat_alt)
  then have "allocuvm_loop n d a oldsz newsz s = Ok newsz w"
    using n t \<open>p \<noteq> 0\<close> u(1) w(1) by (simp add: run_simps memsetK_def t1_def)
  moreover have "uvm_grown s d xs a w zs (p # fs)"
    unfolding xs by (rule uvm_grown_Cons [OF Suc.prems(1) [unfolded xs] t t1_def u(2,4) w(3) Suc.prems(2)])
      (use Suc.prems(4) w(2) in simp)
  ultimately show ?case using w(2) by (metis length_Cons)
qed


lemma PGROUNDUP_zero: "PGROUNDUP 0 = 0"
  by code_simp

lemma page_ceiling: "n \<le> 4096 * ((n + 4095) div 4096)" "4096 * ((n + 4095) div 4096) \<le> n + 4095" for n :: nat
  using div_mult_mod_eq [of "n + 4095" 4096] mod_less_divisor [of 4096 "n + 4095"] by linarith+

section \<open>Properties\<close>

text \<open>
  (C18) \<open>mappages\<close> (\<open>src/vm.c\<close>) on a range none of whose pages is mapped never panics.
  It returns 0 and maps exactly the pages that the range touches, in order, to physical
  memory from \<open>pa\<close> on; or it returns -1, having found the free list empty after it has
  mapped exactly the first \<open>j\<close> of these pages, fewer than all. In both cases no other virtual
  address is affected, page table pages are taken from the free list, and nothing but page
  table pages is written.
\<close>

theorem mappages_correct:
  assumes "pt_inv s d xs"
    and "\<forall>v. unat (PGROUNDDOWN v - PGROUNDDOWN va) \<le> unat (PGROUNDDOWN (va + sz - 1) - PGROUNDDOWN va) \<longrightarrow>
      \<not> present (pt_lookup (ram s) d v)"
  shows "\<exists>r t ys. mappages d va sz pa perm s = Ok r t \<and> pt_grown s d xs t ys \<and>
    (r = 0 \<and> pt_lookup (ram t) d = map_view (pt_lookup (ram s) d) (PGROUNDDOWN va)
        (unat (PGROUNDDOWN (va + sz - 1) - PGROUNDDOWN va)) pa perm \<or>
     r = - 1 \<and> ys = [] \<and>
       (\<exists>j. 4096 * j \<le> unat (PGROUNDDOWN (va + sz - 1) - PGROUNDDOWN va) \<and>
         pt_lookup (ram t) d = map_pages (pt_lookup (ram s) d) (PGROUNDDOWN va) j pa perm))"
proof -
  let ?a = "PGROUNDDOWN va" and ?l = "PGROUNDDOWN (va + sz - 1)"
  have "4096 dvd unat (?l - ?a)"
    using aligned_minus [of ?l ?a] by (simp only: PGROUND_aligned page_aligned_unat)
  then obtain k where k: "unat (?l - ?a) = 4096 * k" by (elim dvdE)
  then have "k < 2 ^ 20" using unat32_lt [of "?l - ?a"] by simp
  moreover have "?l = ?a + of_nat (4096 * k)" by (simp flip: k)
  ultimately show ?thesis
    using mappages_loop_spec [OF assms(1) PGROUND_aligned(1) _ _ _ assms(2) [unfolded k], of "2 ^ 20" ?l pa perm]
    unfolding mappages_def k mult_le_cancel1 by blast
qed

definition vm0 :: kmem where
  "vm0 = kmem0\<lparr>freelist := 0x80102000, ram := store32 (ram kmem0) 0x80102000 0x80103000\<rparr>"

lemma vm0_pde: "i < 1024 \<Longrightarrow> load32 (ram vm0) (0x80101000 + 4 * i) = 0"
proof -
  assume i: "i < 1024"
  have "load32 (store32 (\<lambda>_. 0) (0x80102000 + 4 * 0) 0x80103000) (0x80101000 + 4 * i) =
      load32 (\<lambda>_. 0) (0x80101000 + 4 * i)"
    by (subst load_store_slot) (use i in simp_all)
  then show ?thesis by (simp add: vm0_def kmem0_def load32_def)
qed

lemma vm0_inv: "pt_inv vm0 0x80101000 [0x80102000, 0x80103000]"
proof -
  have "free_pages vm0 [0x80102000, 0x80103000]"
    by (simp add: free_pages_def vm0_def kmem0_def page_ok_def v2p_def)
      (simp add: load32_def store32_def)
  moreover have "pt_wf (kend vm0) (ram vm0) 0x80101000"
    by (simp add: pt_wf_def pde_of_def vm0_pde) (simp add: vm0_def kmem0_def page_ok_def v2p_def)
  moreover have "footprint (ram vm0) 0x80101000 = {0x80101000}"
    by (auto simp: footprint_def pde_of_def vm0_pde)
  moreover have "kmem_ready vm0" by (simp add: kmem_ready_def vm0_def kmem0_def)
  ultimately show ?thesis by (simp add: pt_inv_def)
qed

lemma vm0_lookup: "pt_lookup (ram vm0) 0x80101000 v = 0"
  by (simp add: pt_lookup_def pde_of_def vm0_pde)

theorem mappages_correct_witness:
  "\<exists>r t ys. mappages 0x80101000 0 PGSIZE 0x9000 PTE_W vm0 = Ok r t \<and>
     pt_grown vm0 0x80101000 [0x80102000, 0x80103000] t ys \<and> (r = 0 \<or> ys = [])"
  using mappages_correct [OF vm0_inv, of 0 PGSIZE "0x9000" PTE_W] by (auto simp: vm0_lookup)

text \<open>
  (C8) \<open>allocuvm\<close> grows an address space: when the pages between the old and the new size
  are unmapped and there is memory for them and their page tables, it returns the new
  size, each page is mapped writable and accessible to user code to a frame of its own
  that was free, the frames hold zeros, and no other mapping and no other memory changes.
\<close>

theorem allocuvm_correct:
  assumes "pt_inv s d xs" "oldsz \<le> newsz" "newsz < KERNBASE"
    "k = (unat newsz - unat (PGROUNDUP oldsz) + 4095) div 4096" "2 * k \<le> length xs"
    "\<forall>v. unat (PGROUNDDOWN v - PGROUNDUP oldsz) < 4096 * k \<longrightarrow> \<not> present (pt_lookup (ram s) d v)"
  shows "\<exists>t ys fs. allocuvm d oldsz newsz s = Ok newsz t \<and> length fs = k \<and>
    uvm_grown s d xs (PGROUNDUP oldsz) t ys fs"
proof -
  let ?a = "PGROUNDUP oldsz"
  have new: "unat newsz < 2147483648" "unat oldsz \<le> unat newsz"
    using assms(2,3) by (simp_all add: word_less_nat_alt word_le_nat_alt)
  then have a: "unat ?a \<le> 2147483648" by (simp add: unat_PGROUNDUP)
  have k: "unat newsz \<le> unat ?a + 4096 * k" "unat ?a + 4096 * k < unat newsz + 4096 \<or> k = 0"
    unfolding assms(4) using new page_ceiling [of "unat newsz - unat ?a"] by auto
  have "k < 524290" unfolding assms(4) using new by simp
  then have b: "k < 2 ^ 20" "k + 1 < 2 ^ 20" "unat ?a + 4096 * k < 2 ^ 32" using a k(2) new by auto
  from allocuvm_loop_spec [OF assms(1) _ b(1,2) assms(5) k b(3) assms(6)]
  show ?thesis using leD [OF assms(2)] assms(3) by (simp add: allocuvm_def not_le [symmetric])
qed

theorem allocuvm_correct_witness:
  "\<exists>t ys fs. allocuvm 0x80101000 0 PGSIZE vm0 = Ok PGSIZE t \<and> length fs = 1 \<and>
     uvm_grown vm0 0x80101000 [0x80102000, 0x80103000] 0 t ys fs"
proof -
  have "PGROUNDUP 0 = 0" by code_simp
  then show ?thesis
    using allocuvm_correct [OF vm0_inv, of 0 PGSIZE 1] by (simp add: vm0_lookup)
qed

text \<open>
  (C34) \<open>allocuvm\<close> does not look at the result of \<open>mappages\<close>: when the last free page
  becomes the frame and none is left for the page table, it still returns the new size,
  although the page it was to add is not mapped (and the frame is lost).
\<close>

theorem allocuvm_ignores_map_failure:
  assumes "pt_inv s d [p]" "\<not> present (pde_of (ram s) d (PDX 0))"
  shows "\<exists>t. allocuvm d 0 PGSIZE s = Ok PGSIZE t \<and> pt_lookup (ram t) d 0 = 0 \<and> free_pages t []"
proof -
  note inv = pt_invD [OF assms(1)]
  from kalloc_spec [OF inv(1,2)] obtain t where t: "kalloc s = Ok p t" by auto
  have p: "p \<noteq> 0" using free_pages_page [OF inv(2), of p] by simp
  define t1 where "t1 = t\<lparr>ram := memset (ram t) p 0 PGSIZE\<rparr>"
  have "same_except (in_page p) (ram s) (memset (ram s) p 0 PGSIZE)" by (auto simp: same_except_def memset_page)
  note tk = pt_inv_take [OF assms(1) this t]
  have t1: "pt_inv t1 d []" "\<not> present (pde_of (ram t1) d (PDX 0))"
    using tk(1,5,6) assms(2) by (simp_all add: t1_def)
  have "kalloc t1 = Ok 0 t1" using pt_invD(1,2) [OF t1(1)] by (simp add: kalloc_run free_pages_simps)
  then have "walkpgdir d 0 True t1 = Ok 0 t1" using walkpgdir_create [OF t1(2), of 0 t1] by simp
  moreover have "PGROUNDDOWN 0 = 0" by code_simp
  ultimately have m: "mappages_loop (Suc n) d 0 l q perm t1 = Ok (- 1) t1" for n l q perm
    by (simp add: run_simps)
  have "mappages d 0 PGSIZE (v2p p) (PTE_W OR PTE_U) t1 = Ok (- 1) t1"
    using m [of "2 ^ 20 - 1"] \<open>PGROUNDDOWN 0 = 0\<close> by (simp add: mappages_def del: mappages_loop.simps)
  then have "allocuvm_loop (Suc (Suc n)) d 0 0 PGSIZE s = Ok PGSIZE t1" for n
    using t p by (simp add: run_simps memsetK_def t1_def)
  from this [of "2 ^ 20 - 2"] have "allocuvm d 0 PGSIZE s = Ok PGSIZE t1"
    by (simp add: allocuvm_def PGROUNDUP_zero del: allocuvm_loop.simps)
  moreover have "pt_lookup (ram t1) d 0 = 0" using t1(2) by (simp add: pt_lookup_def)
  ultimately show ?thesis using pt_invD(2) [OF t1(1)] by blast
qed

theorem allocuvm_ignores_map_failure_witness:
  "\<exists>t. allocuvm 0x80101000 0 PGSIZE (vm0\<lparr>ram := \<lambda>_. 0\<rparr>) = Ok PGSIZE t \<and>
     pt_lookup (ram t) 0x80101000 0 = 0 \<and> free_pages t []"
proof -
  let ?s = "vm0\<lparr>ram := \<lambda>_. 0\<rparr>"
  have z: "load32 (\<lambda>_. 0) a = 0" for a by (simp add: load32_def)
  have "pt_inv ?s 0x80101000 [0x80102000]"
    by (simp add: pt_inv_def kmem_ready_def free_pages_def pt_wf_def footprint_def pde_of_def z)
      (simp add: vm0_def kmem0_def page_ok_def v2p_def)
  moreover have "\<not> present (pde_of (ram ?s) 0x80101000 (PDX 0))" by (simp add: pde_of_def z)
  ultimately show ?thesis by (rule allocuvm_ignores_map_failure)
qed

end
