(* ===== verification/Proc.thy ===== *)
theory Proc
  imports Vm
begin

text \<open>
  Processes and scheduling (\<open>src/proc.c\<close>, \<open>src/proc.h\<close>, and \<open>switchuvm\<close> of
  \<open>src/vm.c\<close>): the process table, context switches, sleeping and waking, killing and
  waiting. A process is named by its index in the table. Calling the scheduler
  (\<open>swtch\<close>) ends an operation with the outcome \<open>Swtch\<close>; what the code does when it is
  scheduled again is a definition of its own (\<open>sleep_resume\<close>).

  The addresses of \<open>trapret\<close> and \<open>forkret\<close>, assembled and linked elsewhere, are constant
  fields of the state. Process creation and exit, which close files, come with the file
  system.
\<close>

unbundle bit_operations_syntax

section \<open>State\<close>

datatype procstate = UNUSED | EMBRYO | SLEEPING | RUNNABLE | RUNNING | ZOMBIE

text \<open>The addresses processes sleep on.\<close>

datatype chan = Proc_chan nat | Log_chan | Ticks_chan | Buf_chan nat | Inode_chan nat
  | Nread_chan u32 | Nwrite_chan u32 | Input_chan

record proc =
  p_sz :: u32
  p_pgdir :: u32
  p_kstack :: u32
  p_state :: procstate
  p_pid :: int
  p_parent :: "nat option"
  p_tf :: u32
  p_context :: u32
  p_chan :: "chan option"
  p_killed :: bool
  p_ofile :: "nat option list"
  p_cwd :: "nat option"
  p_name :: bytes
  p_status :: int

record procs = vm +
  ptable :: "proc list"
  nextpid :: int
  initproc :: "nat option"
  ticks :: u32
  k_trapret :: u32
  k_forkret :: u32

abbreviation (input) NPROC :: nat where "NPROC \<equiv> 64"
abbreviation (input) KSTACKSIZE :: u32 where "KSTACKSIZE \<equiv> 4096"
abbreviation (input) TF_SIZE :: u32 where "TF_SIZE \<equiv> 76"
abbreviation (input) CONTEXT_SIZE :: u32 where "CONTEXT_SIZE \<equiv> 20"

definition upd_proc :: "nat \<Rightarrow> (proc \<Rightarrow> proc) \<Rightarrow> 'a procs_scheme \<Rightarrow> 'a procs_scheme" where
  "upd_proc i f s = s\<lparr>ptable := (ptable s)[i := f (ptable s ! i)]\<rparr>"

definition getP :: "nat \<Rightarrow> (proc \<Rightarrow> 'b) \<Rightarrow> ('a procs_scheme, 'b) kernel" where
  "getP i f = getsK (\<lambda>s. f (ptable s ! i))"

definition setP :: "nat \<Rightarrow> (proc \<Rightarrow> proc) \<Rightarrow> ('a procs_scheme, unit) kernel" where
  "setP i f = modifyK (upd_proc i f)"

text \<open>The variable \<open>proc\<close> of the running CPU; code that dereferences it when it is 0
  faults.\<close>

definition myproc :: "('a base_scheme, nat) kernel" where
  "myproc =
     bindK (getsK (\<lambda>s. cproc (cur_cpu s))) (\<lambda>c.
     case c of None \<Rightarrow> panic ''trap'' | Some i \<Rightarrow> ret i)"

definition swtch :: "('s, unit) kernel" where
  "swtch = (\<lambda>s. Swtch s)"

section \<open>Switching\<close>

definition switchuvm :: "nat \<Rightarrow> ('a procs_scheme, unit) kernel" where
  "switchuvm p =
     seqK pushcli
     (bindK myproc (\<lambda>cur.
      bindK (getP cur p_kstack) (\<lambda>ks.
      seqK (modifyK (upd_cpu (\<lambda>c. c\<lparr>esp0 := ks + KSTACKSIZE\<rparr>)))
      (bindK (getP p p_pgdir) (\<lambda>d.
       if d = 0 then panic ''switchuvm: no pgdir''
       else
         seqK (modifyK (upd_cpu (\<lambda>c. c\<lparr>cr3 := v2p d\<rparr>)))
         popcli)))))"

definition sched :: "('a procs_scheme, unit) kernel" where
  "sched =
     bindK (holding Ptable_lock) (\<lambda>h.
     if \<not> h then panic ''sched ptable.lock''
     else bindK (getsK (\<lambda>s. ncli (cur_cpu s))) (\<lambda>n.
       if n \<noteq> 1 then panic ''sched locks''
       else bindK myproc (\<lambda>cur.
         bindK (getP cur p_state) (\<lambda>st.
         if st = RUNNING then panic ''sched running''
         else bindK (getsK (\<lambda>s. iflag (cur_cpu s))) (\<lambda>fl.
           if fl then panic ''sched interruptible''
           else bindK (getsK (\<lambda>s. intena (cur_cpu s))) (\<lambda>ie.
             seqK swtch
             (modifyK (upd_cpu (\<lambda>c. c\<lparr>intena := ie\<rparr>)))))))))"

definition pinit :: "('a procs_scheme, unit) kernel" where
  "pinit = initlock Ptable_lock ''ptable''"

text \<open>One round of the scheduler's inner loop on the process \<open>p\<close>, up to the switch to it,
  and what follows the switch back.\<close>

definition scheduler_dispatch :: "nat \<Rightarrow> ('a procs_scheme, unit) kernel" where
  "scheduler_dispatch p =
     bindK (getP p p_state) (\<lambda>st.
     if st \<noteq> RUNNABLE then ret ()
     else
       seqK (modifyK (upd_cpu (\<lambda>c. c\<lparr>cproc := Some p\<rparr>)))
       (seqK (switchuvm p)
       (seqK (setP p (\<lambda>q. q\<lparr>p_state := RUNNING\<rparr>))
       swtch)))"

definition scheduler_return :: "('a procs_scheme, unit) kernel" where
  "scheduler_return =
     seqK switchkvm
     (modifyK (upd_cpu (\<lambda>c. c\<lparr>cproc := None\<rparr>)))"

text \<open>A pass over the table from index \<open>i\<close> on: it ends at the first switch.\<close>

fun scheduler_scan :: "nat \<Rightarrow> nat \<Rightarrow> ('a procs_scheme, unit) kernel" where
  "scheduler_scan 0 i = ret ()"
| "scheduler_scan (Suc n) i = seqK (scheduler_dispatch i) (scheduler_scan n (Suc i))"

definition scheduler_pass :: "('a procs_scheme, unit) kernel" where
  "scheduler_pass =
     seqK sti
     (seqK (acquire Ptable_lock)
     (seqK (scheduler_scan NPROC 0)
     (release Ptable_lock)))"

definition yield :: "('a procs_scheme, unit) kernel" where
  "yield =
     seqK (acquire Ptable_lock)
     (bindK myproc (\<lambda>cur.
      seqK (setP cur (\<lambda>p. p\<lparr>p_state := RUNNABLE\<rparr>))
      (seqK sched
      (release Ptable_lock))))"

section \<open>Sleep and wakeup\<close>

definition sleep_resume :: "lockid \<Rightarrow> ('a procs_scheme, unit) kernel" where
  "sleep_resume lk =
     bindK myproc (\<lambda>cur.
     seqK (setP cur (\<lambda>p. p\<lparr>p_chan := None\<rparr>))
     (whenK (lk \<noteq> Ptable_lock)
       (seqK (release Ptable_lock) (acquire lk))))"

text \<open>
  The statements of \<open>sleep\<close> up to the call of \<open>sched\<close>, as a list: other CPUs may run
  between any two of them.
\<close>

definition sleep_steps :: "chan \<Rightarrow> lockid \<Rightarrow> nat \<Rightarrow> ('a procs_scheme, unit) kernel list" where
  "sleep_steps ch lk cur =
     (if lk \<noteq> Ptable_lock then [acquire Ptable_lock, release lk] else []) @
     [setP cur (\<lambda>p. p\<lparr>p_chan := Some ch\<rparr>),
      setP cur (\<lambda>p. p\<lparr>p_state := SLEEPING\<rparr>)]"

text \<open>No caller passes a null lock, so a \<open>lockid\<close> is always one.\<close>

definition sleep :: "chan \<Rightarrow> lockid \<Rightarrow> ('a procs_scheme, unit) kernel" where
  "sleep ch lk =
     bindK (getsK (\<lambda>s. cproc (cur_cpu s))) (\<lambda>c.
     case c of
       None \<Rightarrow> panic ''sleep''
     | Some cur \<Rightarrow>
         seqK (seqsK (sleep_steps ch lk cur))
         (seqK sched
         (sleep_resume lk)))"

definition wake_proc :: "chan \<Rightarrow> proc \<Rightarrow> proc" where
  "wake_proc ch p = (if p_state p = SLEEPING \<and> p_chan p = Some ch then p\<lparr>p_state := RUNNABLE\<rparr> else p)"

definition wakeup1 :: "chan \<Rightarrow> ('a procs_scheme, unit) kernel" where
  "wakeup1 ch = modifyK (\<lambda>s. s\<lparr>ptable := map (wake_proc ch) (ptable s)\<rparr>)"

definition wakeup :: "chan \<Rightarrow> ('a procs_scheme, unit) kernel" where
  "wakeup ch =
     seqK (acquire Ptable_lock)
     (seqK (wakeup1 ch)
     (release Ptable_lock))"

definition kill :: "int \<Rightarrow> ('a procs_scheme, int) kernel" where
  "kill pid =
     seqK (acquire Ptable_lock)
     (bindK (getsK (\<lambda>s. find_index (\<lambda>p. p_pid p = pid) (ptable s))) (\<lambda>f.
      case f of
        Some i \<Rightarrow>
          seqK (setP i (\<lambda>p. p\<lparr>p_killed := True\<rparr>))
          (seqK (setP i (\<lambda>p. if p_state p = SLEEPING then p\<lparr>p_state := RUNNABLE\<rparr> else p))
          (seqK (release Ptable_lock)
          (ret 0)))
      | None \<Rightarrow> seqK (release Ptable_lock) (ret (- 1))))"

section \<open>The process table\<close>

definition allocproc :: "('a procs_scheme, nat option) kernel" where
  "allocproc =
     seqK (acquire Ptable_lock)
     (bindK (getsK (\<lambda>s. find_index (\<lambda>p. p_state p = UNUSED) (ptable s))) (\<lambda>f.
      case f of
        None \<Rightarrow> seqK (release Ptable_lock) (ret None)
      | Some i \<Rightarrow>
          seqK (setP i (\<lambda>p. p\<lparr>p_state := EMBRYO\<rparr>))
          (bindK (getsK nextpid) (\<lambda>np.
           seqK (modifyK (\<lambda>s. s\<lparr>nextpid := wrap32 (np + 1)\<rparr>))
           (seqK (setP i (\<lambda>p. p\<lparr>p_pid := np\<rparr>))
           (seqK (release Ptable_lock)
           (bindK kalloc (\<lambda>ks.
            seqK (setP i (\<lambda>p. p\<lparr>p_kstack := ks\<rparr>))
            (if ks = 0 then
               seqK (setP i (\<lambda>p. p\<lparr>p_state := UNUSED\<rparr>)) (ret None)
             else
               (let sp = ks + KSTACKSIZE - TF_SIZE in
                seqK (setP i (\<lambda>p. p\<lparr>p_tf := sp\<rparr>))
                (bindK (getsK k_trapret) (\<lambda>tr.
                 seqK (store (sp - 4) tr)
                 (let ctx = sp - 4 - CONTEXT_SIZE in
                  seqK (setP i (\<lambda>p. p\<lparr>p_context := ctx\<rparr>))
                  (seqK (memsetK ctx 0 CONTEXT_SIZE)
                  (bindK (getsK k_forkret) (\<lambda>fr.
                   seqK (store (ctx + 16) fr)
                   (ret (Some i))))))))))))))))))"

definition growproc :: "int \<Rightarrow> ('a procs_scheme, int) kernel" where
  "growproc n =
     bindK myproc (\<lambda>cur.
     bindK (getP cur p_sz) (\<lambda>sz.
     bindK (getP cur p_pgdir) (\<lambda>d.
     bindK (if n > 0 then allocuvm d sz (sz + of_int n)
            else if n < 0 then deallocuvm d sz (sz + of_int n)
            else ret sz) (\<lambda>sz'.
     if n \<noteq> 0 \<and> sz' = 0 then ret (- 1)
     else
       seqK (setP cur (\<lambda>p. p\<lparr>p_sz := sz'\<rparr>))
       (seqK (switchuvm cur)
       (ret 0))))))"

text \<open>
  \<open>wait\<close> scans the table for children; \<open>status\<close> is the user address given, 0 for none.
  Without a zombie child it sleeps on its own process structure, holding \<open>ptable.lock\<close>,
  and scans again when it is woken (\<open>sleep_resume\<close>, then \<open>wait_scan\<close>); the value after
  the call of \<open>sleep\<close> is never returned, since \<open>sleep\<close> always switches.
\<close>

definition wait_reap :: "nat \<Rightarrow> u32 \<Rightarrow> ('a procs_scheme, int) kernel" where
  "wait_reap i status =
     bindK (getP i p_status) (\<lambda>st.
     seqK (whenK (status \<noteq> 0) (ustore32 status (of_int st)))
     (bindK (getP i p_pid) (\<lambda>pid.
      bindK (getP i p_kstack) (\<lambda>ks.
      seqK (kfree ks)
      (seqK (setP i (\<lambda>p. p\<lparr>p_kstack := 0\<rparr>))
      (bindK (getP i p_pgdir) (\<lambda>d.
       seqK (freevm d)
       (seqK (setP i (\<lambda>p. p\<lparr>p_state := UNUSED, p_pid := 0, p_parent := None,
           p_name := (p_name p)[0 := 0], p_killed := False\<rparr>))
       (seqK (release Ptable_lock)
       (ret pid))))))))))"

definition wait_scan :: "u32 \<Rightarrow> ('a procs_scheme, int) kernel" where
  "wait_scan status =
     bindK myproc (\<lambda>cur.
     bindK (getsK (\<lambda>s. find_index (\<lambda>p. p_parent p = Some cur \<and> p_state p = ZOMBIE) (ptable s))) (\<lambda>z.
     case z of
       Some i \<Rightarrow> wait_reap i status
     | None \<Rightarrow>
         bindK (getsK (\<lambda>s. \<exists>p \<in> set (ptable s). p_parent p = Some cur)) (\<lambda>havekids.
         bindK (getP cur p_killed) (\<lambda>k.
         if \<not> havekids \<or> k then seqK (release Ptable_lock) (ret (- 1))
         else seqK (sleep (Proc_chan cur) Ptable_lock) (ret 0)))))"

definition wait :: "u32 \<Rightarrow> ('a procs_scheme, int) kernel" where
  "wait status = seqK (acquire Ptable_lock) (wait_scan status)"

section \<open>Process status\<close>

record procstat =
  ps_name :: bytes
  ps_sz :: u32
  ps_nofile :: u32
  ps_state :: procstate

primrec state_code :: "procstate \<Rightarrow> u32" where
  "state_code UNUSED = 0"
| "state_code EMBRYO = 1"
| "state_code SLEEPING = 2"
| "state_code RUNNABLE = 3"
| "state_code RUNNING = 4"
| "state_code ZOMBIE = 5"

definition procstat_of :: "proc \<Rightarrow> procstat" where
  "procstat_of p =
     \<lparr>ps_name = take 16 (p_name p), ps_sz = p_sz p,
      ps_nofile = of_nat (length (filter (\<lambda>f. f \<noteq> None) (p_ofile p))), ps_state = p_state p\<rparr>"

definition pstat :: "int \<Rightarrow> u32 \<Rightarrow> ('a procs_scheme, int) kernel" where
  "pstat pid stat =
     seqK (acquire Ptable_lock)
     (bindK (getsK (\<lambda>s. find_index (\<lambda>p. p_pid p = pid) (ptable s))) (\<lambda>f.
      case f of
        Some i \<Rightarrow>
          bindK (getP i procstat_of) (\<lambda>r.
          seqK (ustore_bytes stat (ps_name r))
          (seqK (ustore32 (stat + 24) (state_code (ps_state r)))
          (seqK (ustore32 (stat + 16) (ps_sz r))
          (seqK (ustore32 (stat + 20) (ps_nofile r))
          (seqK (release Ptable_lock)
          (ret 0))))))
      | None \<Rightarrow> seqK (release Ptable_lock) (ret (- 1))))"

section \<open>CPUs running processes\<close>

text \<open>
  The interleaving of scheduler and processes on any number of CPUs, at the granularity of
  the sections under \<open>ptable.lock\<close>. A CPU without a process is in the loop of
  \<open>scheduler\<close>: it picks a runnable process and switches to it, which then leaves the
  function it had called the scheduler from (\<open>yield\<close> and \<open>forkret\<close> release the lock,
  \<open>sleep\<close> runs \<open>sleep_resume\<close>, and the caller of \<open>sleep\<close> releases its lock). A running
  process may yield, sleep on any channel with any lock, wake up others, or kill. After
  \<open>yield\<close> or \<open>sleep\<close> the scheduler gets control back and releases the lock.
\<close>

definition at_cpu :: "nat \<Rightarrow> 'a base_scheme \<Rightarrow> 'a base_scheme" where
  "at_cpu c s = s\<lparr>mycpu := c\<rparr>"

inductive run_step :: "procs \<Rightarrow> procs \<Rightarrow> bool" where
  dispatch: "cproc (cpus s c) = None \<Longrightarrow> i < length (ptable s) \<Longrightarrow>
     seqK sti (seqK (acquire Ptable_lock) (scheduler_dispatch i)) (at_cpu c s) = Swtch t \<Longrightarrow>
     (if p_chan (ptable t ! i) = None then release Ptable_lock
      else seqK (sleep_resume lk) (release lk)) t = Ok () u \<Longrightarrow> run_step s u"
| yields: "yield (at_cpu c s) = Swtch t \<Longrightarrow>
     seqK scheduler_return (release Ptable_lock) t = Ok () u \<Longrightarrow> run_step s u"
| sleeps: "seqK (acquire lk) (sleep ch lk) (at_cpu c s) = Swtch t \<Longrightarrow>
     seqK scheduler_return (release Ptable_lock) t = Ok () u \<Longrightarrow> run_step s u"
| wakes: "wakeup ch (at_cpu c s) = Ok () u \<Longrightarrow> run_step s u"
| kills: "kill pid (at_cpu c s) = Ok r u \<Longrightarrow> run_step s u"

text \<open>Between such sections no lock is held; a process is running if and only if it is the
  current process of a CPU, and of one CPU only.\<close>

definition quiet :: "'a base_scheme \<Rightarrow> bool" where
  "quiet s = ((\<forall>l. lock_free l s) \<and> (\<forall>c. ncli (cpus s c) = 0))"

definition cpu_view :: "'a procs_scheme \<Rightarrow> (nat \<Rightarrow> nat option) \<times> (nat \<Rightarrow> bool) \<times> nat" where
  "cpu_view s = (\<lambda>c. cproc (cpus s c), \<lambda>i. i < length (ptable s) \<and> p_state (ptable s ! i) = RUNNING, length (ptable s))"

definition view_ok :: "(nat \<Rightarrow> nat option) \<times> (nat \<Rightarrow> bool) \<times> nat \<Rightarrow> bool" where
  "view_ok = (\<lambda>(cp, run, n). (\<forall>c i. cp c = Some i \<longrightarrow> i < n \<and> run i) \<and>
     (\<forall>i < n. run i \<longrightarrow> (\<exists>c. cp c = Some i)) \<and>
     (\<forall>c c' i. cp c = Some i \<longrightarrow> cp c' = Some i \<longrightarrow> c = c'))"

definition run_inv :: "procs \<Rightarrow> bool" where
  "run_inv s = (quiet s \<and> view_ok (cpu_view s))"

section \<open>Lemmas: locks and the process table\<close>

definition sync :: "'a base_scheme \<Rightarrow> 'a base_scheme" where
  "sync s = upd_cpu (\<lambda>c. c\<lparr>intena := iflag c\<rparr>) s"

lemma acquire_sync:
  "lock_free l s \<Longrightarrow> ncli (cur_cpu s) = 0 \<Longrightarrow> acquire l s = Ok () (acq_st l (sync s))"
  by (auto simp: acquire_def pushcli_def cli_def holding_def xchg_def acq_st_def sync_def
      lock_free_def upd_cpu_def upd_lock_def cur_cpu_def run_simps whenK_def
      fun_upd_def intro!: base.equality)

lemma settled_sync: "ncli (cur_cpu s) = 0 \<Longrightarrow> settled (sync s)"
  by (simp add: settled_def sync_def upd_cpu_def cur_cpu_def)

lemma sync_base [simp]:
  "locks (sync s) = locks s" "mycpu (sync s) = mycpu s" "cproc (cur_cpu (sync s)) = cproc (cur_cpu s)"
  "ncli (cur_cpu (sync s)) = ncli (cur_cpu s)"
  by (simp_all add: sync_def upd_cpu_def cur_cpu_def)

lemma lock_free_sync [simp]: "lock_free l (sync s) = lock_free l s"
  by (simp add: lock_free_def)

lemma lock_ok_sync: "lock_free l s \<Longrightarrow> ncli (cur_cpu s) = 0 \<Longrightarrow> lock_ok l (sync s)"
  by (simp add: lock_ok_def settled_sync)

lemma ptable_upd_cpu [simp]: "ptable (upd_cpu f s) = ptable s" "ptable (upd_lock l g s) = ptable s"
  by (simp_all add: upd_cpu_def upd_lock_def)

lemma ptable_acq_st [simp]: "ptable (acq_st l s) = ptable s" "nextpid (acq_st l s) = nextpid s"
  "ptable (sync s) = ptable s" "ptable (at_cpu c s) = ptable s"
  by (simp_all add: acq_st_def sync_def at_cpu_def upd_cpu_def upd_lock_def)

lemma acq_st_procs [simp]:
  "(acq_st l s)\<lparr>ptable := x\<rparr> = acq_st l (s\<lparr>ptable := x\<rparr>)"
  "(acq_st l s)\<lparr>nextpid := n\<rparr> = acq_st l (s\<lparr>nextpid := n\<rparr>)"
  "upd_proc i f (acq_st l s) = acq_st l (upd_proc i f s)"
  by (simp_all add: upd_proc_def acq_st_def upd_cpu_def upd_lock_def)

lemma lock_ok_procs [simp]:
  "lock_ok l (s\<lparr>ptable := x\<rparr>) = lock_ok l s" "lock_ok l (upd_proc i f s) = lock_ok l s"
  "lock_ok l (s\<lparr>nextpid := n\<rparr>) = lock_ok l s"
  "lock_free l (s\<lparr>ptable := x\<rparr>) = lock_free l s" "lock_free l (upd_proc i f s) = lock_free l s"
  by (simp_all add: lock_ok_def lock_free_def settled_def cur_cpu_def upd_proc_def)

lemma cur_cpu_upd_proc [simp]:
  "cur_cpu (upd_proc i f s) = cur_cpu s" "cpus (upd_proc i f s) = cpus s" "mycpu (upd_proc i f s) = mycpu s"
  "cur_cpu (s\<lparr>ptable := x\<rparr>) = cur_cpu s"
  by (simp_all add: upd_proc_def cur_cpu_def)

lemma ptable_upd_proc [simp]: "ptable (upd_proc i f s) = (ptable s)[i := f (ptable s ! i)]"
  by (simp add: upd_proc_def)

lemma upd_cpu_acq_st:
  "(\<And>c n b. f (c\<lparr>ncli := n, iflag := b\<rparr>) = (f c)\<lparr>ncli := n, iflag := b\<rparr>) \<Longrightarrow>
   (\<And>c. ncli (f c) = ncli c) \<Longrightarrow> upd_cpu f (acq_st l s) = acq_st l (upd_cpu f s)"
  by (simp add: acq_st_def upd_cpu_def upd_lock_def)

lemma myproc_run [simp]:
  "cproc (cur_cpu s) = Some i \<Longrightarrow> myproc s = Ok i s" "cproc (cur_cpu s) = None \<Longrightarrow> myproc s = Panic ''trap''"
  by (simp_all add: myproc_def run_simps)

lemma swtch_run [simp]: "swtch s = Swtch s"
  by (simp add: swtch_def)

lemma getP_run [simp]: "getP i f s = Ok (f (ptable s ! i)) s"
  by (simp add: getP_def)

lemma setP_run [simp]: "setP i f s = Ok () (upd_proc i f s)"
  by (simp add: setP_def)

lemma sched_run [kernel_simps]:
  "lock_ok Ptable_lock s \<Longrightarrow> ncli (cur_cpu s) = 0 \<Longrightarrow> cproc (cur_cpu s) = Some i \<Longrightarrow>
   p_state (ptable s ! i) \<noteq> RUNNING \<Longrightarrow> sched (acq_st Ptable_lock s) = Swtch (acq_st Ptable_lock s)"
  by (simp add: sched_def run_simps holding_acq_st)


lemma upd_proc_twice: "i < length (ptable s) \<Longrightarrow> upd_proc i f (upd_proc i g s) = upd_proc i (\<lambda>p. f (g p)) s"
  by (simp add: upd_proc_def)

lemma acq_st_commute: "l \<noteq> k \<Longrightarrow> acq_st l (acq_st k s) = acq_st k (acq_st l s)"
  by (auto simp: acq_st_def upd_lock_def upd_cpu_def fun_upd_twist)

lemma yield_run [kernel_simps]:
  assumes "lock_free Ptable_lock s" "ncli (cur_cpu s) = 0" "cproc (cur_cpu s) = Some i" "i < length (ptable s)"
  shows "yield s = Swtch (acq_st Ptable_lock (upd_proc i (\<lambda>p. p\<lparr>p_state := RUNNABLE\<rparr>) (sync s)))"
  using assms by (simp add: yield_def run_simps acquire_sync sched_run lock_ok_sync)

lemma sleep_in [kernel_simps]:
  assumes "lock_ok Ptable_lock s" "lock_ok lk s" "ncli (cur_cpu s) = 0" "cproc (cur_cpu s) = Some i"
    "i < length (ptable s)"
  shows "sleep ch lk (acq_st lk s) =
    Swtch (acq_st Ptable_lock (upd_proc i (\<lambda>p. p\<lparr>p_chan := Some ch, p_state := SLEEPING\<rparr>) s))"
proof (cases "lk = Ptable_lock")
  case True
  with assms show ?thesis by (simp add: sleep_def sleep_steps_def run_simps sched_run upd_proc_twice)
next
  case False
  have "acquire Ptable_lock (acq_st lk s) = Ok () (acq_st lk (acq_st Ptable_lock s))"
    using False assms(1) by (simp add: acquire_ok acq_st_commute [of Ptable_lock lk])
  moreover have "release lk (acq_st lk (acq_st Ptable_lock s)) = Ok () (acq_st Ptable_lock s)"
    using assms(2) False by (intro release_acq lock_ok_acq_st) auto
  ultimately show ?thesis using assms False by (simp add: sleep_def sleep_steps_def run_simps sched_run upd_proc_twice)
qed

lemma sleep_run [kernel_simps]:
  assumes "lock_free Ptable_lock s" "lock_free lk s" "ncli (cur_cpu s) = 0" "cproc (cur_cpu s) = Some i"
    "i < length (ptable s)"
  shows "seqK (acquire lk) (sleep ch lk) s =
    Swtch (acq_st Ptable_lock (upd_proc i (\<lambda>p. p\<lparr>p_chan := Some ch, p_state := SLEEPING\<rparr>) (sync s)))"
  using assms by (simp add: seqK_run acquire_sync sleep_in lock_ok_sync)

text \<open>The processes sleeping on a channel, made runnable.\<close>

definition woken :: "chan \<Rightarrow> 'a procs_scheme \<Rightarrow> 'a procs_scheme" where
  "woken ch s = s\<lparr>ptable := map (wake_proc ch) (ptable s)\<rparr>"

lemma wakeup_ok [kernel_simps]: "lock_ok Ptable_lock s \<Longrightarrow> wakeup ch s = Ok () (woken ch s)"
  by (simp add: wakeup_def wakeup1_def run_simps acquire_ok release_acq woken_def)

lemma woken_simps [simp]:
  "woken ch (acq_st l s) = acq_st l (woken ch s)" "lock_ok l (woken ch s) = lock_ok l s"
  "cur_cpu (woken ch s) = cur_cpu s" "length (ptable (woken ch s)) = length (ptable s)"
  "ram (woken ch s) = ram s" "locks (woken ch s) = locks s" "mycpu (woken ch s) = mycpu s"
  by (simp_all add: woken_def)

lemma wakeup_run [kernel_simps]:
  "lock_free Ptable_lock s \<Longrightarrow> ncli (cur_cpu s) = 0 \<Longrightarrow>
   wakeup ch s = Ok () (sync s\<lparr>ptable := map (wake_proc ch) (ptable s)\<rparr>)"
  by (simp add: wakeup_def wakeup1_def run_simps acquire_sync release_acq lock_ok_sync)

definition kill_proc :: "proc \<Rightarrow> proc" where
  "kill_proc p = p\<lparr>p_killed := True, p_state := (if p_state p = SLEEPING then RUNNABLE else p_state p)\<rparr>"

lemma kill_run [kernel_simps]:
  "lock_free Ptable_lock s \<Longrightarrow> ncli (cur_cpu s) = 0 \<Longrightarrow>
   kill pid s = (case find_index (\<lambda>p. p_pid p = pid) (ptable s) of
     None \<Rightarrow> Ok (- 1) (sync s) | Some i \<Rightarrow> Ok 0 (upd_proc i kill_proc (sync s)))"
proof (cases "find_index (\<lambda>p. p_pid p = pid) (ptable s)")
  case (Some i)
  assume *: "lock_free Ptable_lock s" "ncli (cur_cpu s) = 0"
  have "i < length (ptable (sync s))" using find_index_less [OF Some] by simp
  then have "upd_proc i (\<lambda>p. if p_state p = SLEEPING then p\<lparr>p_state := RUNNABLE\<rparr> else p)
      (upd_proc i (\<lambda>p. p\<lparr>p_killed := True\<rparr>) (sync s)) = upd_proc i kill_proc (sync s)"
    by (simp add: upd_proc_def kill_proc_def)
  with Some * show ?thesis
    by (simp add: kill_def run_simps acquire_sync release_acq lock_ok_sync)
qed (simp add: kill_def run_simps acquire_sync release_acq lock_ok_sync)

definition off_cpu :: "'a vm_scheme \<Rightarrow> 'a vm_scheme" where
  "off_cpu s = upd_cpu (\<lambda>c. c\<lparr>cr3 := v2p (kpgdir s), cproc := None\<rparr>) s"

lemma kpgdir_acq_st [simp]: "kpgdir (acq_st l s) = kpgdir s"
  by (simp add: acq_st_def upd_cpu_def upd_lock_def)

lemma upd_cpu_upd_cpu: "upd_cpu f (upd_cpu g s) = upd_cpu (\<lambda>c. f (g c)) s"
  by (simp add: upd_cpu_def)

lemma settled_upd_cpu:
  "(\<And>c. ncli (f c) = ncli c \<and> intena (f c) = intena c \<and> iflag (f c) = iflag c) \<Longrightarrow> settled (upd_cpu f s) = settled s"
  by (simp add: settled_def cur_cpu_def upd_cpu_def)

lemma lock_free_upd_cpu [simp]: "lock_free l (upd_cpu f s) = lock_free l s"
  by (simp add: lock_free_def upd_cpu_def)

lemma sched_back [kernel_simps]:
  assumes "lock_ok Ptable_lock s"
  shows "seqK scheduler_return (release Ptable_lock) (acq_st Ptable_lock s) = Ok () (off_cpu s)"
proof -
  have "lock_ok Ptable_lock (off_cpu s)"
    using assms by (simp add: off_cpu_def lock_ok_def settled_upd_cpu)
  moreover have "scheduler_return (acq_st Ptable_lock s) = Ok () (acq_st Ptable_lock (off_cpu s))"
    by (simp add: scheduler_return_def switchkvm_def run_simps upd_cpu_upd_cpu off_cpu_def upd_cpu_acq_st)
  ultimately show ?thesis by (simp add: seqK_run release_acq)
qed

lemma pushed_upd_cpu:
  "(\<And>c n b. f (c\<lparr>ncli := n, iflag := b\<rparr>) = (f c)\<lparr>ncli := n, iflag := b\<rparr>) \<Longrightarrow>
   (\<And>c. ncli (f c) = ncli c \<and> iflag (f c) = iflag c) \<Longrightarrow> upd_cpu f (pushed n s) = pushed n (upd_cpu f s)"
  by (simp add: pushed_def upd_cpu_def)

lemma switchuvm_run [kernel_simps]:
  assumes "settled s" "cproc (cur_cpu s) = Some i" "p_pgdir (ptable s ! i) \<noteq> 0"
  shows "switchuvm i s = Ok () (upd_cpu (\<lambda>c. c\<lparr>esp0 := p_kstack (ptable s ! i) + KSTACKSIZE,
    cr3 := v2p (p_pgdir (ptable s ! i))\<rparr>) s)"
proof -
  let ?ks = "p_kstack (ptable s ! i) + KSTACKSIZE" and ?d = "p_pgdir (ptable s ! i)"
  let ?t = "upd_cpu (\<lambda>c. c\<lparr>esp0 := ?ks, cr3 := v2p ?d\<rparr>) s"
  have [simp]: "ptable (pushed 1 s) = ptable s" "cproc (cur_cpu (pushed 1 s)) = cproc (cur_cpu s)"
    by (simp_all add: pushed_def cur_cpu_def upd_cpu_def)
  have "upd_cpu (\<lambda>c. c\<lparr>cr3 := v2p ?d\<rparr>) (upd_cpu (\<lambda>c. c\<lparr>esp0 := ?ks\<rparr>) (pushed 1 s)) = pushed 1 ?t"
    by (simp add: pushed_upd_cpu upd_cpu_upd_cpu)
  moreover have "settled ?t" using assms(1) by (simp add: settled_upd_cpu)
  ultimately show ?thesis using assms
    by (simp add: switchuvm_def run_simps pushcli_pushed popcli_pushed del: One_nat_def)
qed

text \<open>The state in which the scheduler has put the process \<open>i\<close> on the running CPU.\<close>

definition on_proc :: "nat \<Rightarrow> 'a procs_scheme \<Rightarrow> 'a procs_scheme" where
  "on_proc i s = upd_cpu (\<lambda>c. c\<lparr>intena := True, iflag := True, cproc := Some i,
     esp0 := p_kstack (ptable s ! i) + KSTACKSIZE, cr3 := v2p (p_pgdir (ptable s ! i))\<rparr>) s"

lemma on_proc_simps [simp]:
  "ptable (on_proc i s) = ptable s" "locks (on_proc i s) = locks s" "lock_free l (on_proc i s) = lock_free l s"
  "cproc (cur_cpu (on_proc i s)) = Some i" "ncli (cur_cpu (on_proc i s)) = ncli (cur_cpu s)"
  by (simp_all add: on_proc_def lock_free_def upd_cpu_def cur_cpu_def)

lemma lock_ok_on_proc: "lock_free l s \<Longrightarrow> ncli (cur_cpu s) = 0 \<Longrightarrow> lock_ok l (on_proc i s)"
  by (simp add: lock_ok_def) (simp add: settled_def on_proc_def upd_cpu_def cur_cpu_def)

lemma switchuvm_panic [kernel_simps]:
  assumes "settled s" "cproc (cur_cpu s) = Some i" "p_pgdir (ptable s ! i) = 0"
  shows "switchuvm i s = Panic ''switchuvm: no pgdir''"
proof -
  have [simp]: "ptable (pushed 1 s) = ptable s" "cproc (cur_cpu (pushed 1 s)) = cproc (cur_cpu s)"
    by (simp_all add: pushed_def cur_cpu_def upd_cpu_def)
  show ?thesis using assms by (simp add: switchuvm_def run_simps pushcli_pushed del: One_nat_def)
qed

lemma dispatch_run [kernel_simps]:
  assumes "lock_free Ptable_lock s" "ncli (cur_cpu s) = 0"
  shows "seqK sti (seqK (acquire Ptable_lock) (scheduler_dispatch i)) s =
    (if p_state (ptable s ! i) \<noteq> RUNNABLE
     then Ok () (acq_st Ptable_lock (upd_cpu (\<lambda>c. c\<lparr>intena := True, iflag := True\<rparr>) s))
     else if p_pgdir (ptable s ! i) = 0 then Panic ''switchuvm: no pgdir''
     else Swtch (acq_st Ptable_lock (upd_proc i (\<lambda>p. p\<lparr>p_state := RUNNING\<rparr>) (on_proc i s))))"
proof -
  let ?f = "\<lambda>c :: cpu. c\<lparr>intena := True, iflag := True\<rparr>"
  let ?s1 = "upd_cpu (\<lambda>c. c\<lparr>intena := True, iflag := True, cproc := Some i\<rparr>) s"
  have "sync (upd_cpu (\<lambda>c. c\<lparr>iflag := True\<rparr>) s) = upd_cpu ?f s"
    by (auto simp: sync_def upd_cpu_upd_cpu intro!: arg_cong [of _ _ "\<lambda>f. upd_cpu f s"] cpu.equality)
  then have enter: "seqK sti (acquire Ptable_lock) s = Ok () (acq_st Ptable_lock (upd_cpu ?f s))"
    using assms acquire_sync [of Ptable_lock "upd_cpu (\<lambda>c. c\<lparr>iflag := True\<rparr>) s"]
    by (simp add: sti_def run_simps) (simp add: upd_cpu_def cur_cpu_def)
  have cur: "upd_cpu (\<lambda>c. c\<lparr>cproc := Some i\<rparr>) (acq_st Ptable_lock (upd_cpu ?f s)) = acq_st Ptable_lock ?s1"
    by (simp add: upd_cpu_acq_st upd_cpu_upd_cpu)
  have cp: "cproc (cur_cpu ?s1) = Some i" by (simp add: cur_cpu_def upd_cpu_def)
  have st: "settled (acq_st Ptable_lock ?s1)"
    using assms(2) by (intro settled_acq_st) (simp add: settled_def upd_cpu_def cur_cpu_def)
  have "switchuvm i (acq_st Ptable_lock ?s1) =
      (if p_pgdir (ptable s ! i) = 0 then Panic ''switchuvm: no pgdir'' else Ok () (acq_st Ptable_lock (on_proc i s)))"
    using st cp by (simp add: switchuvm_panic switchuvm_run upd_cpu_acq_st upd_cpu_upd_cpu on_proc_def)
  then show ?thesis using assms enter cur
    by (simp add: seqK_def bindK_assoc [symmetric]) (simp add: scheduler_dispatch_def run_simps)
qed

text \<open>Leaving the switch: whatever the process was doing, it ends up running, with no lock
  held and with its channel cleared.\<close>

lemma resume_run:
  assumes "\<And>l. lock_free l s" "ncli (cur_cpu s) = 0" "i < length (ptable s)"
    "t = acq_st Ptable_lock (upd_proc i (\<lambda>p. p\<lparr>p_state := RUNNING\<rparr>) (on_proc i s))"
  shows "(if p_chan (ptable t ! i) = None then release Ptable_lock
      else seqK (sleep_resume lk) (release lk)) t =
    Ok () (upd_proc i (\<lambda>p. p\<lparr>p_state := RUNNING, p_chan := None\<rparr>) (on_proc i s))"
proof -
  let ?u = "upd_proc i (\<lambda>p. p\<lparr>p_state := RUNNING\<rparr>) (on_proc i s)"
  let ?v = "upd_proc i (\<lambda>p. p\<lparr>p_state := RUNNING, p_chan := None\<rparr>) (on_proc i s)"
  have ok: "lock_ok l ?u" "lock_ok l ?v" for l using assms(1,2) by (simp_all add: lock_ok_on_proc)
  have uv: "upd_proc i (\<lambda>p. p\<lparr>p_chan := None\<rparr>) ?u = ?v" using assms(3) by (simp add: upd_proc_def)
  have "?u = ?v" if "p_chan (ptable s ! i) = None"
  proof -
    have "(ptable s ! i)\<lparr>p_state := RUNNING\<rparr> = (ptable s ! i)\<lparr>p_state := RUNNING, p_chan := None\<rparr>"
      using that by (intro proc.equality) simp_all
    then show ?thesis by (simp only: upd_proc_def on_proc_simps)
  qed
  moreover have "sleep_resume lk (acq_st Ptable_lock ?u) = Ok () (acq_st lk ?v)"
    using ok uv by (simp add: sleep_resume_def run_simps whenK_def release_acq acquire_ok)
  ultimately show ?thesis
    using assms(3,4) ok by (simp add: seqK_run release_acq)
qed

section \<open>Lemmas: the running processes\<close>

lemma view_okD:
  assumes "view_ok (cp, run, n)"
  shows "cp c = Some i \<Longrightarrow> i < n \<and> run i" "i < n \<Longrightarrow> run i \<Longrightarrow> \<exists>c. cp c = Some i"
    "cp c = Some i \<Longrightarrow> cp c' = Some i \<Longrightarrow> c = c'"
  using assms unfolding view_ok_def by blast+

lemma view_okI:
  assumes "\<And>c i. cp c = Some i \<Longrightarrow> i < n \<and> run i" "\<And>i. i < n \<Longrightarrow> run i \<Longrightarrow> \<exists>c. cp c = Some i"
    "\<And>c c' i. cp c = Some i \<Longrightarrow> cp c' = Some i \<Longrightarrow> c = c'"
  shows "view_ok (cp, run, n)"
  unfolding view_ok_def split using assms by blast

lemma view_on:
  assumes v: "view_ok (cp, run, n)" and c: "cp c = None" and i: "i < n" "\<not> run i"
  shows "view_ok (cp(c := Some i), run(i := True), n)"
proof (rule view_okI)
  fix j assume "j < n" "(run(i := True)) j"
  then show "\<exists>c'. (cp(c := Some i)) c' = Some j"
    using view_okD(2) [OF v, of j] c by (cases "j = i") (auto, metis option.distinct(1))
next
  fix c1 c2 j assume a: "(cp(c := Some i)) c1 = Some j" "(cp(c := Some i)) c2 = Some j"
  have "\<not> cp c' = Some i" for c' using view_okD(1) [OF v, of c' i] i by blast
  with a view_okD(3) [OF v, of c1 j c2] show "c1 = c2" by (auto split: if_splits)
next
  fix c' j assume "(cp(c := Some i)) c' = Some j"
  with i view_okD(1) [OF v, of c' j] show "j < n \<and> (run(i := True)) j" by (auto split: if_splits)
qed

lemma view_off:
  assumes v: "view_ok (cp, run, n)" and c: "cp c = Some i"
  shows "view_ok (cp(c := None), run(i := False), n)"
proof (rule view_okI)
  fix j assume j: "j < n" "(run(i := False)) j"
  then obtain c' where "cp c' = Some j" using view_okD(2) [OF v, of j] by (auto split: if_splits)
  with j c show "\<exists>c'. (cp(c := None)) c' = Some j" by (intro exI [of _ c']) (auto split: if_splits)
next
  fix c1 c2 j assume "(cp(c := None)) c1 = Some j" "(cp(c := None)) c2 = Some j"
  with view_okD(3) [OF v, of c1 j c2] show "c1 = c2" by (auto split: if_splits)
next
  fix c' j assume "(cp(c := None)) c' = Some j"
  with c view_okD(1) [OF v, of c' j] view_okD(3) [OF v, of c' j c]
  show "j < n \<and> (run(i := False)) j" by (auto split: if_splits)
qed


lemma quietD: "quiet s \<Longrightarrow> lock_free l s" "quiet s \<Longrightarrow> ncli (cur_cpu s) = 0"
  by (simp_all add: quiet_def cur_cpu_def)

lemma quiet_simps [simp]:
  "quiet (at_cpu c s) = quiet s" "quiet (sync s) = quiet s" "quiet (upd_proc i f s) = quiet s"
  "quiet (on_proc i s) = quiet s" "quiet (off_cpu s) = quiet s" "quiet (s\<lparr>ptable := x\<rparr>) = quiet s"
  by (auto simp: quiet_def at_cpu_def sync_def upd_proc_def on_proc_def off_cpu_def lock_free_def upd_cpu_def)

lemma cur_cpu_at [simp]: "cur_cpu (at_cpu c s) = cpus s c"
  by (simp add: cur_cpu_def at_cpu_def)

lemma cpu_view_same [simp]: "cpu_view (at_cpu c s) = cpu_view s" "cpu_view (sync s) = cpu_view s"
  by (auto simp: cpu_view_def at_cpu_def sync_def upd_cpu_def)

lemma cpu_view_upd_proc:
  "cpu_view s = (cp, run, n) \<Longrightarrow> i < length (ptable s) \<Longrightarrow>
   cpu_view (upd_proc i f s) = (cp, run(i := (p_state (f (ptable s ! i)) = RUNNING)), n)"
  by (auto simp: cpu_view_def nth_list_update fun_eq_iff)

lemma cpu_view_on: "cpu_view s = (cp, run, n) \<Longrightarrow> cpu_view (on_proc i s) = (cp(mycpu s := Some i), run, n)"
  by (auto simp: cpu_view_def on_proc_def upd_cpu_def fun_eq_iff)

lemma cpu_view_off: "cpu_view s = (cp, run, n) \<Longrightarrow> cpu_view (off_cpu s) = (cp(mycpu s := None), run, n)"
  by (auto simp: cpu_view_def off_cpu_def upd_cpu_def fun_eq_iff)

lemma mycpu_simps [simp]: "mycpu (at_cpu c s) = c" "mycpu (on_proc i s) = mycpu s"
  by (simp_all add: at_cpu_def on_proc_def upd_cpu_def)

lemma run_inv_on:
  assumes inv: "run_inv s" and c: "cproc (cpus s c) = None" "i < length (ptable s)"
    "p_state (ptable s ! i) \<noteq> RUNNING" "p_state (f (ptable s ! i)) = RUNNING"
  shows "run_inv (upd_proc i f (on_proc i (at_cpu c s)))"
proof -
  obtain cp run n where v: "cpu_view s = (cp, run, n)" by (metis prod_cases3)
  have "view_ok (cp(c := Some i), run(i := True), n)"
    using view_on [of cp run n c i] inv c v by (auto simp: run_inv_def cpu_view_def)
  moreover have "cpu_view (upd_proc i f (on_proc i (at_cpu c s))) = (cp(c := Some i), run(i := True), n)"
    using cpu_view_upd_proc [OF cpu_view_on [of "at_cpu c s" cp run n i], of i f] v c by simp
  ultimately show ?thesis using inv by (simp add: run_inv_def)
qed

lemma run_inv_off:
  assumes inv: "run_inv s" and c: "cproc (cpus s c) = Some i" "p_state (f (ptable s ! i)) \<noteq> RUNNING"
  shows "run_inv (off_cpu (upd_proc i f (sync (at_cpu c s))))"
proof -
  obtain cp run n where v: "cpu_view s = (cp, run, n)" by (metis prod_cases3)
  have cp: "cp c = Some i" and len: "n = length (ptable s)" using v c by (auto simp: cpu_view_def)
  have ok: "view_ok (cp, run, n)" using inv v by (simp add: run_inv_def)
  have "i < length (ptable s)" using view_okD(1) [OF ok cp] len by simp
  then have "cpu_view (off_cpu (upd_proc i f (sync (at_cpu c s)))) = (cp(c := None), run(i := False), n)"
    using cpu_view_off [OF cpu_view_upd_proc [of "sync (at_cpu c s)" cp run n i f]] v c by simp
  with view_off [OF ok cp] inv show ?thesis by (simp add: run_inv_def)
qed

lemma run_inv_cproc: "run_inv s \<Longrightarrow> cproc (cpus s c) = Some i \<Longrightarrow> i < length (ptable s)"
  using view_okD(1) [of "\<lambda>c. cproc (cpus s c)" _ _ c i] by (auto simp: run_inv_def cpu_view_def)

lemma cpu_view_wake: "cpu_view (s\<lparr>ptable := map (wake_proc ch) (ptable s)\<rparr>) = cpu_view s"
  by (auto simp: cpu_view_def wake_proc_def fun_eq_iff split: if_splits)

lemma cpu_view_kill: "i < length (ptable s) \<Longrightarrow> cpu_view (upd_proc i kill_proc s) = cpu_view s"
  by (auto simp: cpu_view_def kill_proc_def fun_eq_iff nth_list_update)

lemma run_inv_same:
  assumes "run_inv s" "quiet t" "cpu_view t = cpu_view s"
  shows "run_inv t"
  using assms by (simp add: run_inv_def)

lemma run_inv_step: "run_step s u \<Longrightarrow> run_inv s \<Longrightarrow> run_inv u"
proof (induction rule: run_step.induct)
  case (dispatch s c i t lk u)
  have q: "\<And>l. lock_free l (at_cpu c s)" "ncli (cur_cpu (at_cpu c s)) = 0"
    using dispatch.prems quietD [of "at_cpu c s"] by (simp_all add: run_inv_def)
  from dispatch.hyps(3) have st: "p_state (ptable s ! i) = RUNNABLE"
    and t: "t = acq_st Ptable_lock (upd_proc i (\<lambda>p. p\<lparr>p_state := RUNNING\<rparr>) (on_proc i (at_cpu c s)))"
    unfolding dispatch_run [OF q] by (auto split: if_splits)
  have "u = upd_proc i (\<lambda>p. p\<lparr>p_state := RUNNING, p_chan := None\<rparr>) (on_proc i (at_cpu c s))"
    using resume_run [OF q _ t, of lk] dispatch.hyps(2,4) by simp
  then show ?case using run_inv_on [OF dispatch.prems dispatch.hyps(1,2)] st by simp
next
  case (yields c s t u)
  have q: "\<And>l. lock_free l (at_cpu c s)" "ncli (cur_cpu (at_cpu c s)) = 0"
    using yields.prems quietD [of "at_cpu c s"] by (simp_all add: run_inv_def)
  show ?case
  proof (cases "cproc (cpus s c)")
    case None
    with yields.hyps(1) q show ?thesis by (simp add: yield_def run_simps acquire_sync)
  next
    case (Some i)
    have "t = acq_st Ptable_lock (upd_proc i (\<lambda>p. p\<lparr>p_state := RUNNABLE\<rparr>) (sync (at_cpu c s)))"
      using yields.hyps(1) yield_run [OF q, of i] Some run_inv_cproc [OF yields.prems Some] by simp
    then have "u = off_cpu (upd_proc i (\<lambda>p. p\<lparr>p_state := RUNNABLE\<rparr>) (sync (at_cpu c s)))"
      using yields.hyps(2) q by (simp add: sched_back lock_ok_sync)
    then show ?thesis using run_inv_off [OF yields.prems Some] by simp
  qed
next
  case (sleeps lk ch c s t u)
  have q: "\<And>l. lock_free l (at_cpu c s)" "ncli (cur_cpu (at_cpu c s)) = 0"
    using sleeps.prems quietD [of "at_cpu c s"] by (simp_all add: run_inv_def)
  show ?case
  proof (cases "cproc (cpus s c)")
    case None
    with sleeps.hyps(1) q show ?thesis by (simp add: sleep_def run_simps acquire_sync)
  next
    case (Some i)
    let ?f = "\<lambda>p. p\<lparr>p_chan := Some ch, p_state := SLEEPING\<rparr>"
    have "t = acq_st Ptable_lock (upd_proc i ?f (sync (at_cpu c s)))"
      using sleeps.hyps(1) sleep_run [OF q(1) q, of i] Some run_inv_cproc [OF sleeps.prems Some] by simp
    then have "u = off_cpu (upd_proc i ?f (sync (at_cpu c s)))"
      using sleeps.hyps(2) q by (simp add: sched_back lock_ok_sync)
    then show ?thesis using run_inv_off [OF sleeps.prems Some] by simp
  qed
next
  case (wakes ch c s u)
  have q: "\<And>l. lock_free l (at_cpu c s)" "ncli (cur_cpu (at_cpu c s)) = 0" "quiet s"
    using wakes.prems quietD [of "at_cpu c s"] by (simp_all add: run_inv_def)
  have "u = sync (at_cpu c s)\<lparr>ptable := map (wake_proc ch) (ptable s)\<rparr>"
    using wakes.hyps q(1,2) by (simp add: wakeup_run)
  then show ?case
    using run_inv_same [OF wakes.prems, of u] cpu_view_wake [of ch "sync (at_cpu c s)"] q(3) by simp
next
  case (kills pid c s r u)
  have q: "\<And>l. lock_free l (at_cpu c s)" "ncli (cur_cpu (at_cpu c s)) = 0" "quiet s"
    using kills.prems quietD [of "at_cpu c s"] by (simp_all add: run_inv_def)
  then have "u = sync (at_cpu c s) \<or> (\<exists>i < length (ptable s). u = upd_proc i kill_proc (sync (at_cpu c s)))"
    using kills.hyps find_index_less [of "\<lambda>p. p_pid p = pid" "ptable s"]
    by (cases "find_index (\<lambda>p. p_pid p = pid) (ptable s)") (auto simp: kill_run)
  then show ?case
    using run_inv_same [OF kills.prems, of u] cpu_view_kill [of _ "sync (at_cpu c s)"] q(3) by auto
qed


lemma run_inv_run: "run_step\<^sup>*\<^sup>* s t \<Longrightarrow> run_inv s \<Longrightarrow> run_inv t"
  by (induction rule: rtranclp_induct) (auto intro: run_inv_step)

section \<open>Lemmas: process creation\<close>

lemma kmem_ready_procs [simp]:
  "kmem_ready (upd_proc i f s) = kmem_ready s" "kmem_ready (s\<lparr>nextpid := n\<rparr>) = kmem_ready s"
  by (simp_all add: kmem_ready_def upd_proc_def lock_ok_def lock_free_def settled_def cur_cpu_def)

lemma kmem_upd_proc [simp]:
  "freelist (upd_proc i f s) = freelist s" "ram (upd_proc i f s) = ram s"
  "freelist (sync s) = freelist s" "ram (sync s) = ram s" "use_lock (sync s) = use_lock s"
  "nextpid (sync s) = nextpid s" "k_trapret (sync s) = k_trapret s" "k_forkret (sync s) = k_forkret s"
  "k_trapret (upd_proc i f s) = k_trapret s" "k_forkret (upd_proc i f s) = k_forkret s"
  "nextpid (upd_proc i f s) = nextpid s"
  "upd_proc i f (s\<lparr>freelist := r\<rparr>) = (upd_proc i f s)\<lparr>freelist := r\<rparr>"
  "upd_proc i f (s\<lparr>ram := m\<rparr>) = (upd_proc i f s)\<lparr>ram := m\<rparr>"
  "upd_proc i f (s\<lparr>nextpid := n\<rparr>) = (upd_proc i f s)\<lparr>nextpid := n\<rparr>"
  by (simp_all add: upd_proc_def sync_def upd_cpu_def)

lemma kmem_ready_sync: "lock_free Kmem_lock s \<Longrightarrow> ncli (cur_cpu s) = 0 \<Longrightarrow> kmem_ready (sync s)"
  by (simp add: kmem_ready_def lock_ok_sync)

text \<open>The memory of a new kernel stack: the saved context, which starts at \<open>forkret\<close>, and
  above it the address of \<open>trapret\<close> that \<open>forkret\<close> returns to.\<close>

definition new_stack :: "mem \<Rightarrow> u32 \<Rightarrow> u32 \<Rightarrow> u32 \<Rightarrow> mem" where
  "new_stack m ks trapret_a forkret_a =
     store32 (memset (store32 m (ks + 4016) trapret_a) (ks + 3996) 0 20) (ks + 4012) forkret_a"

definition new_proc :: "int \<Rightarrow> u32 \<Rightarrow> proc \<Rightarrow> proc" where
  "new_proc pid ks p = p\<lparr>p_state := EMBRYO, p_pid := pid, p_kstack := ks, p_tf := ks + 4020, p_context := ks + 3996\<rparr>"

lemma allocproc_run [kernel_simps]:
  assumes "lock_free Ptable_lock s" "lock_free Kmem_lock s" "ncli (cur_cpu s) = 0"
    "find_index (\<lambda>p. p_state p = UNUSED) (ptable s) = Some i" "freelist s \<noteq> 0"
  shows "allocproc s = Ok (Some i) ((upd_proc i (new_proc (nextpid s) (freelist s)) (sync s))
    \<lparr>nextpid := wrap32 (nextpid s + 1), freelist := load32 (ram s) (freelist s),
     ram := new_stack (ram s) (freelist s) (k_trapret s) (k_forkret s)\<rparr>)"
proof -
  have i: "i < length (ptable s)" using find_index_less [OF assms(4)] .
  have "kmem_ready (sync s)" using assms by (simp add: kmem_ready_sync)
  then show ?thesis using assms i
    by (simp add: allocproc_def run_simps acquire_sync release_acq lock_ok_sync kalloc_run Let_def
        store_def memsetK_def new_stack_def upd_proc_twice new_proc_def [abs_def] add.commute [of "freelist s"])
qed


lemma spin_acquire:
  assumes "locked (locks s l) \<noteq> 0" "lk_cpu (locks s l) \<noteq> Some (mycpu s)"
  shows "acquire l s = Spin"
  using assms by (simp add: acquire_def pushcli_def cli_def holding_def xchg_def run_simps
      whenK_def upd_cpu_def cur_cpu_def)

lemma spin_wakeup:
  assumes "locked (locks s Ptable_lock) \<noteq> 0" "lk_cpu (locks s Ptable_lock) \<noteq> Some (mycpu s)"
  shows "wakeup ch s = Spin"
  using assms by (simp add: wakeup_def seqK_run spin_acquire)

text \<open>
  A CPU \<open>d\<close> that takes the lock \<open>lk\<close> of the condition and then calls \<open>wakeup\<close> waits
  while another CPU \<open>c\<close> holds \<open>lk\<close> or \<open>ptable.lock\<close>.
\<close>

definition held_by :: "nat \<Rightarrow> lockid \<Rightarrow> 'a procs_scheme \<Rightarrow> bool" where
  "held_by c l s = (locked (locks s l) \<noteq> 0 \<and> lk_cpu (locks s l) = Some c)"

lemma held_by_simps [simp]:
  "held_by c l (acq_st l s) = (mycpu s = c)" "l \<noteq> k \<Longrightarrow> held_by c l (acq_st k s) = held_by c l s"
  "held_by c l (upd_proc i f s) = held_by c l s" "held_by c l (at_cpu d s) = held_by c l s"
  "held_by c l (sync s) = held_by c l s"
  by (auto simp: held_by_def acq_st_def upd_lock_def upd_cpu_def upd_proc_def at_cpu_def sync_def)

lemma waker_waits:
  assumes "held_by c lk t \<or> lk \<noteq> Ptable_lock \<and> lock_free lk t \<and> held_by c Ptable_lock t"
    "ncli (cpus t d) = 0" "d \<noteq> c"
  shows "seqK (acquire lk) (wakeup ch) (at_cpu d t) = Spin"
proof (cases "held_by c lk t")
  case True
  with assms(3) have "acquire lk (at_cpu d t) = Spin" by (intro spin_acquire) (simp_all add: held_by_def at_cpu_def)
  then show ?thesis by (simp add: seqK_run)
next
  case False
  let ?u = "acq_st lk (sync (at_cpu d t))"
  have a: "acquire lk (at_cpu d t) = Ok () ?u" using False assms by (intro acquire_sync) (auto simp: lock_free_def at_cpu_def cur_cpu_def)
  have "held_by c Ptable_lock ?u" using False assms(1) by auto
  then have "wakeup ch ?u = Spin" using assms(3) by (intro spin_wakeup) (auto simp: held_by_def at_cpu_def sync_def upd_cpu_def)
  with a show ?thesis by (simp add: seqK_run)
qed

text \<open>The sleeping CPU holds one of the two locks after each of its statements.\<close>

lemma sleep_prefix:
  assumes "lock_free Ptable_lock s" "lock_free lk s" "ncli (cur_cpu s) = 0" "i < length (ptable s)"
  shows "\<exists>t. seqK (acquire lk) (seqsK (take k (sleep_steps ch lk i))) s = Ok () t \<and>
    (held_by (mycpu s) lk t \<or> lk \<noteq> Ptable_lock \<and> lock_free lk t \<and> held_by (mycpu s) Ptable_lock t) \<and>
    (\<forall>d. d \<noteq> mycpu s \<longrightarrow> cpus t d = cpus s d)"
proof -
  let ?s = "sync s"
  have a: "acquire lk s = Ok () (acq_st lk ?s)" using assms by (intro acquire_sync)
  have b: "acquire Ptable_lock (acq_st lk ?s) = Ok () (acq_st lk (acq_st Ptable_lock ?s))" if "lk \<noteq> Ptable_lock"
    using that assms by (simp add: acquire_ok lock_ok_sync acq_st_commute [of Ptable_lock lk])
  have c: "release lk (acq_st lk (acq_st Ptable_lock ?s)) = Ok () (acq_st Ptable_lock ?s)" if "lk \<noteq> Ptable_lock"
    using that assms by (intro release_acq lock_ok_acq_st lock_ok_sync) auto
  have r: "d \<noteq> mycpu s \<Longrightarrow> cpus (acq_st l ?s) d = cpus s d"
    "d \<noteq> mycpu s \<Longrightarrow> cpus (acq_st l (acq_st k ?s)) d = cpus s d"
    "d \<noteq> mycpu s \<Longrightarrow> cpus (upd_proc i f (acq_st l ?s)) d = cpus s d" for d l k f
    by (simp_all add: acq_st_def upd_lock_def upd_cpu_def sync_def upd_proc_def)
  consider "k = 0" | "k = 1" | "k = 2" | "k = 3" | "4 \<le> k" by linarith
  then show ?thesis
    by cases (use assms a b c r in \<open>simp_all add: sleep_steps_def seqK_run take_Cons' upd_proc_twice\<close>)
qed

definition pid_inv :: "'a procs_scheme \<Rightarrow> bool" where
  "pid_inv s = ((\<forall>i < length (ptable s). p_state (ptable s ! i) \<noteq> UNUSED \<longrightarrow>
       0 < p_pid (ptable s ! i) \<and> p_pid (ptable s ! i) < nextpid s) \<and>
     (\<forall>i < length (ptable s). \<forall>j < length (ptable s). p_state (ptable s ! i) \<noteq> UNUSED \<longrightarrow>
       p_state (ptable s ! j) \<noteq> UNUSED \<longrightarrow> p_pid (ptable s ! i) = p_pid (ptable s ! j) \<longrightarrow> i = j) \<and>
     0 < nextpid s)"

lemma pid_inv_new:
  assumes inv: "pid_inv s" and i: "i < length (ptable s)"
    and t: "ptable t = (ptable s)[i := q]" "p_pid q = nextpid s" "nextpid t = nextpid s + 1"
  shows "pid_inv t"
proof -
  have "0 < p_pid (ptable t ! j) \<and> p_pid (ptable t ! j) < nextpid t"
    if "j < length (ptable t)" "p_state (ptable t ! j) \<noteq> UNUSED" for j
    using that inv t by (cases "j = i") (auto simp: pid_inv_def)
  moreover have "j = k" if "j < length (ptable t)" "k < length (ptable t)"
    "p_state (ptable t ! j) \<noteq> UNUSED" "p_state (ptable t ! k) \<noteq> UNUSED"
    "p_pid (ptable t ! j) = p_pid (ptable t ! k)" for j k
  proof -
    have lt: "p_pid (ptable t ! m) < nextpid s"
      if "m < length (ptable t)" "p_state (ptable t ! m) \<noteq> UNUSED" "m \<noteq> i" for m
      using inv that t(1) by (simp add: pid_inv_def)
    have new: "p_pid (ptable t ! i) = nextpid s" using t i by simp
    consider "j = i" "k = i" | "j = i" "k \<noteq> i" | "j \<noteq> i" "k = i" | "j \<noteq> i" "k \<noteq> i" by blast
    then show ?thesis
    proof cases
      case 2
      with lt [of k] that new show ?thesis by simp
    next
      case 3
      with lt [of j] that new show ?thesis by simp
    next
      case 4
      with that t inv show ?thesis by (simp add: pid_inv_def)
    qed simp
  qed
  moreover have "0 < nextpid t" using inv t by (simp add: pid_inv_def)
  ultimately show ?thesis unfolding pid_inv_def by blast
qed

section \<open>Properties\<close>

text \<open>
  (C6) However scheduler, \<open>yield\<close>, \<open>sleep\<close>, \<open>wakeup\<close> and \<open>kill\<close> (\<open>src/proc.c\<close>)
  interleave on any number of CPUs: a process is in state \<open>RUNNING\<close> if and only if it is
  the current process of some CPU, it is so on one CPU only, and a CPU that runs a
  process can always give it up: \<open>yield\<close> passes every check of \<open>sched\<close>.
\<close>

theorem scheduler_exclusive:
  assumes "run_inv s" "run_step\<^sup>*\<^sup>* s t"
  shows "(\<forall>i < length (ptable t). p_state (ptable t ! i) = RUNNING \<longleftrightarrow> (\<exists>!c. cproc (cpus t c) = Some i)) \<and>
    (\<forall>c i. cproc (cpus t c) = Some i \<longrightarrow> (\<exists>u. yield (at_cpu c t) = Swtch u \<and> p_state (ptable u ! i) = RUNNABLE))"
proof -
  have inv: "run_inv t" using run_inv_run [OF assms(2,1)] .
  then have v: "view_ok (cpu_view t)" and q: "quiet t" by (simp_all add: run_inv_def)
  note d = view_okD [OF v [unfolded cpu_view_def]]
  have "p_state (ptable t ! i) = RUNNING \<longleftrightarrow> (\<exists>!c. cproc (cpus t c) = Some i)" if "i < length (ptable t)" for i
  proof
    assume "p_state (ptable t ! i) = RUNNING"
    with d(2) [of i] that obtain c where "cproc (cpus t c) = Some i" by blast
    with d(3) [of _ i] show "\<exists>!c. cproc (cpus t c) = Some i" by blast
  next
    assume "\<exists>!c. cproc (cpus t c) = Some i"
    with d(1) show "p_state (ptable t ! i) = RUNNING" by blast
  qed
  moreover have "\<exists>u. yield (at_cpu c t) = Swtch u \<and> p_state (ptable u ! i) = RUNNABLE"
    if "cproc (cpus t c) = Some i" for c i
    using yield_run [of "at_cpu c t" i] quietD [of "at_cpu c t"] q that run_inv_cproc [OF inv that] by simp
  ultimately show ?thesis by blast
qed

definition proc0 :: proc where
  "proc0 = \<lparr>p_sz = 0, p_pgdir = 0, p_kstack = 0, p_state = UNUSED, p_pid = 0, p_parent = None, p_tf = 0,
     p_context = 0, p_chan = None, p_killed = False, p_ofile = replicate 16 None, p_cwd = None,
     p_name = replicate 16 0, p_status = 0\<rparr>"

definition procs0 :: procs where
  "procs0 = \<lparr>locks = \<lambda>_. \<lparr>locked = 0, lk_name = [], lk_cpu = None\<rparr>,
     cpus = \<lambda>_. \<lparr>ncli = 0, intena = False, iflag = False, cproc = None, cr3 = 0, esp0 = 0\<rparr>, mycpu = 0,
     ram = \<lambda>_. 0, use_lock = False, freelist = 0x80101000, kend = 0x80100001, kdata = 0x80100000, kpgdir = 0,
     ptable = replicate NPROC proc0, nextpid = 1, initproc = None, ticks = 0, k_trapret = 7, k_forkret = 9\<rparr>"

text \<open>The same with process 0, of pid 1, running on CPU 0.\<close>

definition procs1 :: procs where
  "procs1 = procs0\<lparr>cpus := (cpus procs0)(0 := (cpus procs0 0)\<lparr>cproc := Some 0\<rparr>),
     ptable := (ptable procs0)[0 := proc0\<lparr>p_state := RUNNING, p_pid := 1\<rparr>], nextpid := 2\<rparr>"

lemma procs1_ptable [simp]:
  "length (ptable procs1) = 64" "ptable procs1 ! 0 = proc0\<lparr>p_state := RUNNING, p_pid := 1\<rparr>"
  "0 < i \<Longrightarrow> i < 64 \<Longrightarrow> ptable procs1 ! i = proc0"
  by (simp_all add: procs1_def procs0_def)

lemma procs1_cpus [simp]: "cproc (cpus procs1 c) = (if c = 0 then Some 0 else None)" "ncli (cpus procs1 c) = 0"
  by (simp_all add: procs1_def procs0_def)

lemma procs1_quiet: "quiet procs1"
  by (simp add: quiet_def lock_free_def) (simp add: procs1_def procs0_def)

lemma procs1_inv: "run_inv procs1"
proof -
  have "view_ok (cpu_view procs1)"
    unfolding cpu_view_def
  proof (rule view_okI)
    fix i assume "i < length (ptable procs1)" "i < length (ptable procs1) \<and> p_state (ptable procs1 ! i) = RUNNING"
    then show "\<exists>c. cproc (cpus procs1 c) = Some i"
      by (cases "i = 0") (auto simp: proc0_def)
  qed (auto split: if_splits)
  with procs1_quiet show ?thesis by (simp add: run_inv_def)
qed

theorem scheduler_exclusive_witness:
  "\<exists>u. yield (at_cpu 0 procs1) = Swtch u \<and> p_state (ptable u ! 0) = RUNNABLE"
  using scheduler_exclusive [OF procs1_inv rtranclp.rtrancl_refl] by simp

text \<open>
  (C17) No wakeup is lost. Let the current process of CPU \<open>c\<close> take the lock \<open>lk\<close> and sleep
  on \<open>ch\<close> with it. Stopped after any number \<open>k\<close> of the statements of \<open>sleep\<close>, no other
  CPU can take \<open>lk\<close>, the lock of the condition, and get through \<open>wakeup(ch)\<close>: it waits.
  At the switch the process is recorded as sleeping on \<open>ch\<close>, \<open>lk\<close> has been released, and
  \<open>ptable.lock\<close> is still held, so that a \<open>wakeup\<close> on any other CPU waits, too; after the
  scheduler has released it, \<open>wakeup(ch)\<close> on that CPU makes the process runnable.
\<close>

theorem sleep_no_lost_wakeup:
  assumes "quiet s" "cproc (cpus s c) = Some i" "i < length (ptable s)" "d \<noteq> c"
  shows "(\<forall>k. \<exists>t. seqK (acquire lk) (seqsK (take k (sleep_steps ch lk i))) (at_cpu c s) = Ok () t \<and>
      seqK (acquire lk) (wakeup ch) (at_cpu d t) = Spin) \<and>
    (\<exists>t u v. seqK (acquire lk) (sleep ch lk) (at_cpu c s) = Swtch t \<and>
      p_state (ptable t ! i) = SLEEPING \<and> p_chan (ptable t ! i) = Some ch \<and>
      (lk \<noteq> Ptable_lock \<longrightarrow> lock_free lk t) \<and> wakeup ch (at_cpu d t) = Spin \<and>
      seqK scheduler_return (release Ptable_lock) t = Ok () u \<and>
      wakeup ch (at_cpu d u) = Ok () v \<and> p_state (ptable v ! i) = RUNNABLE)"
proof -
  let ?f = "\<lambda>p. p\<lparr>p_chan := Some ch, p_state := SLEEPING\<rparr>"
  define w where "w = upd_proc i ?f (sync (at_cpu c s))"
  have q: "lock_free l (at_cpu c s)" "ncli (cur_cpu (at_cpu c s)) = 0" for l
    using quietD [of "at_cpu c s"] assms(1) by simp_all
  have qw: "quiet (off_cpu w)" "lock_ok Ptable_lock w" using assms(1) q by (simp_all add: w_def lock_ok_sync)
  have slept: "seqK (acquire lk) (sleep ch lk) (at_cpu c s) = Swtch (acq_st Ptable_lock w)"
    using sleep_run [OF q(1) q(1,2), of i lk ch] assms by (simp add: w_def)
  have pt: "p_state (ptable w ! i) = SLEEPING" "p_chan (ptable w ! i) = Some ch"
    using assms(3) by (simp_all add: w_def)
  have free: "lk \<noteq> Ptable_lock \<Longrightarrow> lock_free lk (acq_st Ptable_lock w)" using q by (simp add: w_def)
  have spin: "wakeup ch (at_cpu d (acq_st Ptable_lock w)) = Spin"
    using assms(4) by (intro spin_wakeup) (simp_all add: at_cpu_def acq_st_def upd_lock_def upd_cpu_def w_def)
  have returned: "seqK scheduler_return (release Ptable_lock) (acq_st Ptable_lock w) = Ok () (off_cpu w)"
    using qw(2) by (rule sched_back)
  define v where "v = sync (at_cpu d (off_cpu w))\<lparr>ptable := map (wake_proc ch) (ptable w)\<rparr>"
  have wake: "wakeup ch (at_cpu d (off_cpu w)) = Ok () v"
    using wakeup_run [of "at_cpu d (off_cpu w)" ch] quietD [of "at_cpu d (off_cpu w)"] qw(1)
    by (simp add: off_cpu_def v_def)
  have "p_state (ptable v ! i) = RUNNABLE"
    using pt assms(3) by (simp add: wake_proc_def w_def v_def)
  moreover have "p_state (ptable (acq_st Ptable_lock w) ! i) = SLEEPING"
    "p_chan (ptable (acq_st Ptable_lock w) ! i) = Some ch" using pt by simp_all
  moreover have "\<exists>t. seqK (acquire lk) (seqsK (take k (sleep_steps ch lk i))) (at_cpu c s) = Ok () t \<and>
      seqK (acquire lk) (wakeup ch) (at_cpu d t) = Spin" for k
  proof -
    have n: "ncli (cpus s d) = 0" using quietD [of "at_cpu d s"] assms(1) by simp
    obtain t where t: "seqK (acquire lk) (seqsK (take k (sleep_steps ch lk i))) (at_cpu c s) = Ok () t"
      "held_by c lk t \<or> lk \<noteq> Ptable_lock \<and> lock_free lk t \<and> held_by c Ptable_lock t" "cpus t d = cpus s d"
      using sleep_prefix [OF q(1) q(1,2), of i lk k ch] assms(3,4) by (auto simp: at_cpu_def)
    from t(1) waker_waits [OF t(2) _ assms(4)] n t(3) show ?thesis by auto
  qed
  ultimately show ?thesis using slept free spin returned wake by blast
qed

theorem sleep_no_lost_wakeup_witness:
  "(\<forall>k. \<exists>t. seqK (acquire Log_lock) (seqsK (take k (sleep_steps Log_chan Log_lock 0))) (at_cpu 0 procs1) = Ok () t \<and>
      seqK (acquire Log_lock) (wakeup Log_chan) (at_cpu 1 t) = Spin) \<and>
    (\<exists>t u v. seqK (acquire Log_lock) (sleep Log_chan Log_lock) (at_cpu 0 procs1) = Swtch t \<and>
      p_state (ptable t ! 0) = SLEEPING \<and> p_chan (ptable t ! 0) = Some Log_chan \<and>
      (Log_lock \<noteq> Ptable_lock \<longrightarrow> lock_free Log_lock t) \<and> wakeup Log_chan (at_cpu 1 t) = Spin \<and>
      seqK scheduler_return (release Ptable_lock) t = Ok () u \<and>
      wakeup Log_chan (at_cpu 1 u) = Ok () v \<and> p_state (ptable v ! 0) = RUNNABLE)"
  by (rule sleep_no_lost_wakeup) (simp_all add: procs1_quiet)


text \<open>
  (C29) \<open>allocproc\<close> with a free slot and memory, while fewer than \<open>2\<^sup>3\<^sup>1 - 1\<close> pids have been
  given out (\<open>nextpid\<close> is an \<open>int\<close> and wraps around after that): it takes the first
  unused slot, gives it a pid no other process has, keeps the pids of all processes distinct and positive, leaves
  every other process alone, and builds a kernel stack on which the scheduler's switch
  will return to \<open>forkret\<close> and \<open>forkret\<close> to \<open>trapret\<close>.
\<close>

theorem allocproc_correct:
  assumes "quiet s" "pid_inv s" "find_index (\<lambda>p. p_state p = UNUSED) (ptable s) = Some i"
    "page_ok (kend s) (freelist s)" "KERNBASE < kend s" "nextpid s < 2 ^ 31 - 1"
  shows "\<exists>t. allocproc s = Ok (Some i) t \<and> pid_inv t \<and>
    p_state (ptable t ! i) = EMBRYO \<and> p_pid (ptable t ! i) = nextpid s \<and>
    (\<forall>j. j \<noteq> i \<longrightarrow> ptable t ! j = ptable s ! j) \<and>
    load32 (ram t) (p_context (ptable t ! i) + 16) = k_forkret s \<and>
    load32 (ram t) (p_context (ptable t ! i) + 20) = k_trapret s"
proof -
  let ?ks = "freelist s"
  let ?m = "new_stack (ram s) ?ks (k_trapret s) (k_forkret s)"
  let ?t = "(upd_proc i (new_proc (nextpid s) ?ks) (sync s))
    \<lparr>nextpid := wrap32 (nextpid s + 1), freelist := load32 (ram s) ?ks, ram := ?m\<rparr>"
  have ks: "?ks \<noteq> 0" "?ks mod 4 = 0" using kend_page [OF assms(4,5)] by simp_all
  have i: "i < length (ptable s)" using find_index_less [OF assms(3)] .
  have run: "allocproc s = Ok (Some i) ?t"
    using allocproc_run [OF quietD(1) quietD(1) quietD(2) assms(3) ks(1)] assms(1) by simp
  have al: "(?ks + 4012) mod 4 = 0" "(?ks + 4016) mod 4 = 0"
    using mod4_add [OF ks(2), of 1003] mod4_add [OF ks(2), of 1004] by simp_all
  have "load32 ?m (?ks + 4016) = k_trapret s"
  proof -
    let ?n = "store32 (ram s) (?ks + 4016) (k_trapret s)"
    have "load32 ?m (?ks + 4016) = load32 (memset ?n (?ks + 3996) 0 20) (?ks + 4016)"
      unfolding new_stack_def using al by (intro load32_store32_other) simp_all
    also have "\<dots> = load32 ?n (?ks + 4016)"
    proof (rule load32_cong)
      fix x assume x: "unat (x - (?ks + 4016)) < 4"
      have "x - (?ks + 3996) = (x - (?ks + 4016)) + 20" by simp
      then have "unat (x - (?ks + 3996)) = unat (x - (?ks + 4016)) + 20"
        using x by (simp only: unat_plus_if') simp
      then show "memset ?n (?ks + 3996) 0 20 x = ?n x" by (simp add: memset_fill fill_area_def)
    qed
    finally show ?thesis by simp
  qed
  moreover have "load32 ?m (?ks + 4012) = k_forkret s" by (simp add: new_stack_def)
  moreover have "pid_inv ?t"
    using assms(2,6)
    by (intro pid_inv_new [OF assms(2) i, of _ "new_proc (nextpid s) ?ks (ptable s ! i)"])
      (simp_all add: new_proc_def pid_inv_def)
  ultimately show ?thesis using run i
    by (intro exI [of _ ?t]) (simp add: new_proc_def add.assoc)
qed

theorem allocproc_correct_witness:
  "\<exists>t. allocproc procs1 = Ok (Some 1) t \<and> p_pid (ptable t ! 1) = 2 \<and>
     load32 (ram t) (p_context (ptable t ! 1) + 16) = 9"
proof -
  have u: "find_index (\<lambda>p. p_state p = UNUSED) (ptable procs1) = Some 1"
    by (simp add: find_index_Some) (simp add: proc0_def)
  have "pid_inv procs1"
    unfolding pid_inv_def
  proof (intro conjI allI impI)
    fix i assume i: "i < length (ptable procs1)" "p_state (ptable procs1 ! i) \<noteq> UNUSED"
    then have "i = 0" by (cases "i = 0") (simp_all add: proc0_def)
    then show "0 < p_pid (ptable procs1 ! i)" "p_pid (ptable procs1 ! i) < nextpid procs1"
      by (simp_all add: procs1_def procs0_def)
    fix j assume "j < length (ptable procs1)" "p_state (ptable procs1 ! j) \<noteq> UNUSED"
    then have "j = 0" by (cases "j = 0") (simp_all add: proc0_def)
    with \<open>i = 0\<close> show "i = j" by simp
  qed (simp add: procs1_def)
  from allocproc_correct [OF procs1_quiet this u] show ?thesis
    by (simp add: procs1_def procs0_def page_ok_def v2p_def) blast
qed

text \<open>
  (C35) \<open>kill\<close> looks for the pid in unused slots, too, whose pid is 0, and no code clears
  \<open>killed\<close> when a slot is reused: after \<open>kill(0)\<close>, which succeeds, the next process created
  in that slot starts out killed.
\<close>

theorem kill_zero_poisons_slot:
  assumes "quiet s" "find_index (\<lambda>p. p_pid p = 0) (ptable s) = Some i"
    "find_index (\<lambda>p. p_state p = UNUSED) (ptable s) = Some i" "freelist s \<noteq> 0"
  shows "\<exists>t u. kill 0 s = Ok 0 t \<and> allocproc t = Ok (Some i) u \<and>
    p_state (ptable u ! i) = EMBRYO \<and> p_killed (ptable u ! i)"
proof -
  let ?t = "upd_proc i kill_proc (sync s)"
  have i: "i < length (ptable s)" using find_index_less [OF assms(2)] .
  have q: "quiet ?t" using assms(1) by simp
  have "find_index (\<lambda>p. p_state p = UNUSED) (ptable ?t) = Some i"
    using assms(3) i by (auto simp: find_index_Some kill_proc_def nth_list_update)
  from allocproc_run [OF quietD(1) [OF q] quietD(1) [OF q] quietD(2) [OF q] this]
  obtain u where "allocproc ?t = Ok (Some i) u" "p_state (ptable u ! i) = EMBRYO" "p_killed (ptable u ! i)"
    using assms(4) i by (simp add: new_proc_def kill_proc_def)
  moreover have "kill 0 s = Ok 0 ?t"
    using kill_run [OF quietD(1) quietD(2), of s 0] assms(1,2) by simp
  ultimately show ?thesis by blast
qed

theorem kill_zero_poisons_slot_witness:
  "\<exists>t u. kill 0 procs1 = Ok 0 t \<and> allocproc t = Ok (Some 1) u \<and>
    p_state (ptable u ! 1) = EMBRYO \<and> p_killed (ptable u ! 1)"
  by (rule kill_zero_poisons_slot [OF procs1_quiet])
    (simp_all add: find_index_Some, simp_all add: proc0_def, simp add: procs1_def procs0_def)

end
