(* ===== verification/Pipe.thy ===== *)
theory Pipe
  imports Proc
begin

text \<open>
  Pipes (\<open>src/pipe.c\<close>): a ring buffer of 512 bytes with free-running 32-bit counters,
  shared by readers and writers that sleep on the counters' addresses. A pipe is named by
  the address of its page; \<open>pipes\<close> holds the structures. Reading and writing user memory
  goes byte by byte through the page table, as the code does.
\<close>

unbundle bit_operations_syntax

section \<open>State\<close>

abbreviation (input) PIPESIZE :: nat where "PIPESIZE \<equiv> 512"

record pipe =
  data :: bytes
  nread :: u32
  nwrite :: u32
  readopen :: bool
  writeopen :: bool

record pipesys = procs +
  pipes :: "u32 \<Rightarrow> pipe"

definition upd_pipe :: "u32 \<Rightarrow> (pipe \<Rightarrow> pipe) \<Rightarrow> 'a pipesys_scheme \<Rightarrow> 'a pipesys_scheme" where
  "upd_pipe p f s = s\<lparr>pipes := (pipes s)(p := f (pipes s p))\<rparr>"

section \<open>Operations\<close>

text \<open>\<open>p->data[p->nwrite++ % PIPESIZE] = c\<close> and \<open>p->data[p->nread++ % PIPESIZE]\<close>.\<close>

definition pipe_put :: "u8 \<Rightarrow> pipe \<Rightarrow> pipe" where
  "pipe_put c q = q\<lparr>data := (data q)[unat (nwrite q mod 512) := c], nwrite := nwrite q + 1\<rparr>"

definition pipe_get :: "pipe \<Rightarrow> u8 \<times> pipe" where
  "pipe_get q = (data q ! unat (nread q mod 512), q\<lparr>nread := nread q + 1\<rparr>)"

definition pipeclose :: "u32 \<Rightarrow> bool \<Rightarrow> ('a pipesys_scheme, unit) kernel" where
  "pipeclose p writable =
     seqK (acquire (Pipe_lock p))
     (seqK
       (if writable then
          seqK (modifyK (upd_pipe p (\<lambda>q. q\<lparr>writeopen := False\<rparr>))) (wakeup (Nread_chan p))
        else
          seqK (modifyK (upd_pipe p (\<lambda>q. q\<lparr>readopen := False\<rparr>))) (wakeup (Nwrite_chan p)))
     (bindK (getsK (\<lambda>s. pipes s p)) (\<lambda>q.
      if \<not> readopen q \<and> \<not> writeopen q then seqK (release (Pipe_lock p)) (kfree p)
      else release (Pipe_lock p))))"

text \<open>
  The loop of \<open>pipewrite\<close> with \<open>k\<close> bytes left of \<open>n\<close>, the next at \<open>addr\<close>. A full pipe
  puts the writer to sleep; when it is woken it goes on at the same byte
  (\<open>pipewrite_resume\<close>). The value after \<open>sleep\<close> is never returned, since \<open>sleep\<close> switches.
\<close>

fun pipewrite_loop :: "u32 \<Rightarrow> u32 \<Rightarrow> int \<Rightarrow> nat \<Rightarrow> ('a pipesys_scheme, int) kernel" where
  "pipewrite_loop p addr n 0 =
     seqK (wakeup (Nread_chan p))
     (seqK (release (Pipe_lock p))
     (ret n))"
| "pipewrite_loop p addr n (Suc k) =
     bindK (getsK (\<lambda>s. pipes s p)) (\<lambda>q.
     if nwrite q = nread q + 512 then
       bindK myproc (\<lambda>cur.
       bindK (getP cur p_killed) (\<lambda>killed.
       if \<not> readopen q \<or> killed then seqK (release (Pipe_lock p)) (ret (- 1))
       else
         seqK (wakeup (Nread_chan p))
         (seqK (sleep (Nwrite_chan p) (Pipe_lock p))
         (ret n))))
     else
       bindK (uload8 addr) (\<lambda>c.
       seqK (modifyK (upd_pipe p (pipe_put c)))
       (pipewrite_loop p (addr + 1) n k)))"

definition pipewrite :: "u32 \<Rightarrow> u32 \<Rightarrow> int \<Rightarrow> ('a pipesys_scheme, int) kernel" where
  "pipewrite p addr n =
     seqK (acquire (Pipe_lock p))
     (pipewrite_loop p addr n (nat n))"

definition pipewrite_resume :: "u32 \<Rightarrow> u32 \<Rightarrow> int \<Rightarrow> nat \<Rightarrow> ('a pipesys_scheme, int) kernel" where
  "pipewrite_resume p addr n k =
     seqK (sleep_resume (Pipe_lock p))
     (pipewrite_loop p addr n k)"

fun piperead_copy :: "u32 \<Rightarrow> u32 \<Rightarrow> int \<Rightarrow> nat \<Rightarrow> ('a pipesys_scheme, int) kernel" where
  "piperead_copy p addr i 0 = ret i"
| "piperead_copy p addr i (Suc k) =
     bindK (getsK (\<lambda>s. pipes s p)) (\<lambda>q.
     if nread q = nwrite q then ret i
     else
       (case pipe_get q of (c, q') \<Rightarrow>
          seqK (modifyK (upd_pipe p (\<lambda>_. q')))
          (seqK (ustore8 addr c)
          (piperead_copy p (addr + 1) (i + 1) k))))"

definition piperead_loop :: "u32 \<Rightarrow> u32 \<Rightarrow> int \<Rightarrow> ('a pipesys_scheme, int) kernel" where
  "piperead_loop p addr n =
     bindK (getsK (\<lambda>s. pipes s p)) (\<lambda>q.
     if nread q = nwrite q \<and> writeopen q then
       bindK myproc (\<lambda>cur.
       bindK (getP cur p_killed) (\<lambda>killed.
       if killed then seqK (release (Pipe_lock p)) (ret (- 1))
       else seqK (sleep (Nread_chan p) (Pipe_lock p)) (ret 0)))
     else
       bindK (piperead_copy p addr 0 (nat n)) (\<lambda>i.
       seqK (wakeup (Nwrite_chan p))
       (seqK (release (Pipe_lock p))
       (ret i))))"

definition piperead :: "u32 \<Rightarrow> u32 \<Rightarrow> int \<Rightarrow> ('a pipesys_scheme, int) kernel" where
  "piperead p addr n =
     seqK (acquire (Pipe_lock p))
     (piperead_loop p addr n)"

definition piperead_resume :: "u32 \<Rightarrow> u32 \<Rightarrow> int \<Rightarrow> ('a pipesys_scheme, int) kernel" where
  "piperead_resume p addr n =
     seqK (sleep_resume (Pipe_lock p))
     (piperead_loop p addr n)"

section \<open>The queue in a pipe\<close>

definition pipe_queue :: "pipe \<Rightarrow> bytes" where
  "pipe_queue q = map (\<lambda>j. data q ! unat ((nread q + of_nat j) mod 512)) [0..<unat (nwrite q - nread q)]"

definition pipe_wf :: "pipe \<Rightarrow> bool" where
  "pipe_wf q = (length (data q) = 512 \<and> unat (nwrite q - nread q) \<le> 512)"

section \<open>Lemmas: the ring buffer\<close>

lemma unat_mod512: "unat (x mod 512) = unat x mod 512" for x :: u32
  by (simp add: unat_mod)

lemma mod512_lt: "unat (x mod 512) < 512" for x :: u32
  by (simp add: unat_mod512)

lemma ring_slot: "unat ((x + of_nat j) mod 512) = (unat x + j) mod 512" for x :: u32
  by (simp add: unat_mod512 unat_plus_mod)

lemma pipe_full: "pipe_wf q \<Longrightarrow> nwrite q = nread q + 512 \<longleftrightarrow> length (pipe_queue q) = 512"
proof -
  have "nwrite q = nread q + 512 \<longleftrightarrow> nwrite q - nread q = 512" by (auto simp: algebra_simps)
  also have "\<dots> \<longleftrightarrow> unat (nwrite q - nread q) = 512" by (simp add: word_unat_eq_iff)
  finally show ?thesis by (simp add: pipe_queue_def)
qed

lemma pipe_empty: "nread q = nwrite q \<longleftrightarrow> pipe_queue q = []"
proof -
  have "nread q = nwrite q \<longleftrightarrow> unat (nwrite q - nread q) = 0" by (auto simp: unat_eq_0)
  then show ?thesis by (simp add: pipe_queue_def)
qed

lemma pipe_put_queue:
  assumes wf: "pipe_wf q" and room: "nwrite q \<noteq> nread q + 512"
  shows "pipe_queue (pipe_put c q) = pipe_queue q @ [c]" "pipe_wf (pipe_put c q)"
proof -
  let ?n = "unat (nwrite q - nread q)"
  have n: "?n < 512" using wf room pipe_full [OF wf] by (simp add: pipe_wf_def pipe_queue_def)
  have w: "nwrite q = nread q + of_nat ?n" by simp
  have e: "nwrite q + 1 - nread q = (nwrite q - nread q) + 1" by simp
  have sz: "unat (nwrite q + 1 - nread q) = Suc ?n" unfolding e using n by (simp add: unat_plus_if')
  have slot: "unat (nwrite q mod 512) = (unat (nread q) + ?n) mod 512"
    using ring_slot [of "nread q" ?n] by simp
  have "data (pipe_put c q) ! unat ((nread q + of_nat j) mod 512) = data q ! unat ((nread q + of_nat j) mod 512)"
    if "j < ?n" for j
  proof -
    have "(unat (nread q) + ?n) mod 512 \<noteq> (unat (nread q) + j) mod 512"
      using mod_add_inj [of ?n 512 j "unat (nread q)"] n that by auto
    then show ?thesis by (simp add: pipe_put_def slot ring_slot)
  qed
  moreover have "data (pipe_put c q) ! unat ((nread q + of_nat ?n) mod 512) = c"
    using wf mod512_lt [of "nwrite q"] by (simp add: pipe_put_def pipe_wf_def)
  ultimately show "pipe_queue (pipe_put c q) = pipe_queue q @ [c]"
    using sz by (simp add: pipe_queue_def pipe_put_def)
  show "pipe_wf (pipe_put c q)" using wf n sz by (simp add: pipe_wf_def pipe_put_def)
qed

lemma pipe_get_queue:
  assumes wf: "pipe_wf q" and some: "nread q \<noteq> nwrite q" and g: "pipe_get q = (c, q')"
  shows "pipe_queue q = c # pipe_queue q'" "pipe_wf q'"
proof -
  let ?n = "unat (nwrite q - nread q)"
  have q': "c = data q ! unat (nread q mod 512)" "q' = q\<lparr>nread := nread q + 1\<rparr>"
    using g by (auto simp: pipe_get_def)
  have nz: "nwrite q - nread q \<noteq> 0" using some by simp
  have e: "nwrite q - (nread q + 1) = (nwrite q - nread q) - 1" by (simp add: algebra_simps)
  have sz: "unat (nwrite q - (nread q + 1)) = ?n - 1" unfolding e by (rule unat_minus_one [OF nz])
  have "0 < ?n" using nz by (simp only: unat_gt_0) simp
  then obtain m where m: "?n = Suc m" by (cases ?n) auto
  have "[0..<Suc m] = 0 # map Suc [0..<m]" by (simp add: map_Suc_upt upt_conv_Cons del: upt_Suc)
  then show "pipe_queue q = c # pipe_queue q'"
    using sz m by (simp add: pipe_queue_def q' algebra_simps del: upt_Suc)
  show "pipe_wf q'" using wf sz m by (simp add: pipe_wf_def q')
qed


section \<open>The interface of a byte queue\<close>

text \<open>A bounded queue of bytes, as the pipe and the console's input line provide it.\<close>

locale byte_queue =
  fixes put :: "u8 \<Rightarrow> 'q \<Rightarrow> 'q"
    and get :: "'q \<Rightarrow> u8 \<times> 'q"
    and queue :: "'q \<Rightarrow> bytes"
    and wf :: "'q \<Rightarrow> bool"
    and cap :: nat
  assumes put_law: "wf q \<Longrightarrow> length (queue q) < cap \<Longrightarrow> queue (put c q) = queue q @ [c] \<and> wf (put c q)"
    and get_law: "wf q \<Longrightarrow> queue q \<noteq> [] \<Longrightarrow> get q = (c, q') \<Longrightarrow> queue q = c # queue q' \<and> wf q'"
    and cap_law: "wf q \<Longrightarrow> length (queue q) \<le> cap"
begin

lemma puts_queue:
  "wf q \<Longrightarrow> length (queue q) + length bs \<le> cap \<Longrightarrow> queue (fold put bs q) = queue q @ bs \<and> wf (fold put bs q)"
proof (induction bs arbitrary: q)
  case (Cons b bs)
  then have "queue (put b q) = queue q @ [b] \<and> wf (put b q)" using put_law by simp
  with Cons.IH [of "put b q"] Cons.prems show ?case by simp
qed simp

lemma put_get:
  assumes "wf q" "length (queue q) < cap" "get (put c q) = (d, q')"
  shows "queue q @ [c] = d # queue q'"
  using put_law [OF assms(1,2), of c] get_law [of "put c q" d q'] assms(3) by simp

end

interpretation pq: byte_queue pipe_put pipe_get pipe_queue pipe_wf 512
proof (unfold_locales, goal_cases)
  case (1 q c)
  then show ?case using pipe_put_queue [of q c] pipe_full [of q] by auto
next
  case (2 q c q')
  then show ?case using pipe_get_queue [of q c q'] pipe_empty [of q] by auto
next
  case (3 q)
  then show ?case by (simp add: pipe_wf_def pipe_queue_def)
qed

section \<open>Lemmas: running the operations\<close>

lemma acq_st_pipes [simp]:
  "pipes (acq_st l s) = pipes s" "upd_pipe p f (acq_st l s) = acq_st l (upd_pipe p f s)"
  by (simp_all add: upd_pipe_def acq_st_def upd_cpu_def upd_lock_def)

lemma upd_pipe_simps [simp]:
  "lock_ok l (upd_pipe p f s) = lock_ok l s" "cur_cpu (upd_pipe p f s) = cur_cpu s"
  "ptable (upd_pipe p f s) = ptable s" "ram (upd_pipe p f s) = ram s"
  "pipes (upd_pipe p f s) p = f (pipes s p)" "pipes (woken ch s) = pipes s"
  "upd_pipe p f (upd_pipe p g s) = upd_pipe p (\<lambda>q. f (g q)) s"
  "mycpu (upd_pipe p f s) = mycpu s"
  by (simp_all add: upd_pipe_def lock_ok_def lock_free_def settled_def cur_cpu_def woken_def)

lemma cr3_acq_st [simp]: "cr3 (cur_cpu (acq_st l s)) = cr3 (cur_cpu s)"
  by (simp add: acq_st_def upd_cpu_def upd_lock_def cur_cpu_def)

definition sleeping_on :: "chan \<Rightarrow> nat \<Rightarrow> 'a procs_scheme \<Rightarrow> 'a procs_scheme" where
  "sleeping_on ch i s = upd_proc i (\<lambda>p. p\<lparr>p_chan := Some ch, p_state := SLEEPING\<rparr>) s"

text \<open>Where \<open>pipewrite\<close> ends with \<open>k\<close> bytes to go: they all fit, or as many as fit are
  written and the writer fails or sleeps.\<close>

definition pipewrite_result ::
  "u32 \<Rightarrow> int \<Rightarrow> nat \<Rightarrow> bytes \<Rightarrow> nat \<Rightarrow> 'a pipesys_scheme \<Rightarrow> (int, 'a pipesys_scheme) outcome" where
  "pipewrite_result p n i bs room s =
     (let t = upd_pipe p (fold pipe_put (take room bs)) s in
      if length bs \<le> room then Ok n (woken (Nread_chan p) t)
      else if \<not> readopen (pipes s p) \<or> p_killed (ptable s ! i) then Ok (- 1) t
      else Swtch (acq_st Ptable_lock (sleeping_on (Nwrite_chan p) i (woken (Nread_chan p) t))))"

lemma pipe_put_open [simp]: "readopen (pipe_put c q) = readopen q" "writeopen (pipe_put c q) = writeopen q"
  by (simp_all add: pipe_put_def)

lemma fold_put_open [simp]: "readopen (fold pipe_put bs q) = readopen q" "writeopen (fold pipe_put bs q) = writeopen q"
  by (induction bs arbitrary: q) (simp_all add: pipe_put_def)

lemma pipewrite_loop_run:
  "lock_ok (Pipe_lock p) s \<Longrightarrow> lock_ok Ptable_lock s \<Longrightarrow> ncli (cur_cpu s) = 0 \<Longrightarrow>
   cproc (cur_cpu s) = Some i \<Longrightarrow> i < length (ptable s) \<Longrightarrow> pipe_wf (pipes s p) \<Longrightarrow>
   ubytes (ram s) (cr3 (cur_cpu s)) addr k = Some bs \<Longrightarrow>
   pipewrite_loop p addr n k (acq_st (Pipe_lock p) s) =
     pipewrite_result p n i bs (512 - length (pipe_queue (pipes s p))) s"
proof (induction k arbitrary: s addr bs)
  case 0
  then have "bs = []" by simp
  with "0.prems" show ?case
    by (simp add: run_simps wakeup_ok release_acq pipewrite_result_def Let_def)
      (simp add: upd_pipe_def woken_def)
next
  case (Suc k)
  let ?q = "pipes s p" and ?room = "512 - length (pipe_queue (pipes s p))"
  from Suc.prems(7) obtain a bs' where a: "uaddr (ram s) (cr3 (cur_cpu s)) addr = Some a" "bs = ram s a # bs'"
    "ubytes (ram s) (cr3 (cur_cpu s)) (addr + 1) k = Some bs'"
    by (auto split: option.splits)
  show ?case
  proof (cases "nwrite ?q = nread ?q + 512")
    case True
    then have "?room = 0" using pipe_full [OF Suc.prems(6)] by simp
    then have r: "pipewrite_result p n i bs ?room s =
        (if \<not> readopen ?q \<or> p_killed (ptable s ! i) then Ok (- 1) s
         else Swtch (acq_st Ptable_lock (sleeping_on (Nwrite_chan p) i (woken (Nread_chan p) s))))"
      using a by (simp add: pipewrite_result_def Let_def) (simp add: upd_pipe_def)
    show ?thesis using Suc.prems True unfolding r
      by (simp add: run_simps wakeup_ok release_acq sleep_in sleeping_on_def)
  next
    case False
    let ?s = "upd_pipe p (pipe_put (ram s a)) s"
    note pq = pipe_put_queue [OF Suc.prems(6) False, of "ram s a"]
    have "length (pipe_queue ?q) < 512" using False pipe_full [OF Suc.prems(6)] pq.cap_law [OF Suc.prems(6)] by simp
    then obtain m where m: "?room = Suc m" "512 - length (pipe_queue (pipes ?s p)) = m" using pq by (cases ?room) auto
    have "pipewrite_loop p addr n (Suc k) (acq_st (Pipe_lock p) s) =
        pipewrite_loop p (addr + 1) n k (acq_st (Pipe_lock p) ?s)"
      using False a Suc.prems by (simp add: run_simps uload8_run)
    also have "\<dots> = pipewrite_result p n i bs' m ?s"
      using Suc.IH [of ?s "addr + 1" bs'] Suc.prems pq a m by simp
    also have "\<dots> = pipewrite_result p n i bs (Suc m) s"
      using a by (simp add: pipewrite_result_def Let_def comp_def)
    finally show ?thesis by (simp only: m)
  qed
qed


definition pipe_drain :: "nat \<Rightarrow> pipe \<Rightarrow> pipe" where
  "pipe_drain n q = q\<lparr>nread := nread q + of_nat n\<rparr>"

lemma pipe_drain_simps [simp]:
  "pipe_drain 0 q = q" "pipe_drain n (q\<lparr>nread := nread q + 1\<rparr>) = pipe_drain (Suc n) q"
  "pipe_get q = (c, q') \<Longrightarrow> pipe_drain n q' = pipe_drain (Suc n) q"
  by (auto simp: pipe_drain_def pipe_get_def algebra_simps)

lemma ram_upd_pipe [simp]: "(upd_pipe p f s)\<lparr>ram := m\<rparr> = upd_pipe p f (s\<lparr>ram := m\<rparr>)"
  by (simp add: upd_pipe_def)

lemma piperead_copy_run:
  "pipe_wf (pipes s p) \<Longrightarrow> uput (ram s) (cr3 (cur_cpu s)) addr (take k (pipe_queue (pipes s p))) = Some m \<Longrightarrow>
   j = min k (length (pipe_queue (pipes s p))) \<Longrightarrow>
   piperead_copy p addr i k s = Ok (i + int j) (upd_pipe p (pipe_drain j) (s\<lparr>ram := m\<rparr>)) \<and>
   pipe_wf (pipe_drain j (pipes s p)) \<and>
   pipe_queue (pipe_drain j (pipes s p)) = drop k (pipe_queue (pipes s p))"
proof (induction k arbitrary: s addr i j)
  case 0
  then show ?case by (simp add: upd_pipe_def)
next
  case (Suc k)
  let ?q = "pipes s p"
  show ?case
  proof (cases "nread ?q = nwrite ?q")
    case True
    then have "pipe_queue ?q = []" using pipe_empty by blast
    with True Suc.prems show ?thesis by (simp add: run_simps upd_pipe_def)
  next
    case False
    obtain c q' where g: "pipe_get ?q = (c, q')" by (cases "pipe_get ?q")
    note pg = pipe_get_queue [OF Suc.prems(1) False g]
    from Suc.prems(2) pg obtain a where a: "uwaddr (ram s) (cr3 (cur_cpu s)) addr = Some a"
      "uput ((ram s)(a := c)) (cr3 (cur_cpu s)) (addr + 1) (take k (pipe_queue q')) = Some m"
      by (auto split: option.splits)
    let ?s = "upd_pipe p (\<lambda>_. q') (s\<lparr>ram := (ram s)(a := c)\<rparr>)"
    have cc: "cur_cpu (s\<lparr>ram := x\<rparr>) = cur_cpu s" for x by (simp add: cur_cpu_def)
    obtain j' where j: "j = Suc j'" "j' = min k (length (pipe_queue q'))" using Suc.prems(3) pg by auto
    have "piperead_copy p addr i (Suc k) s = piperead_copy p (addr + 1) (i + 1) k ?s"
      using False g a by (simp add: run_simps ustore8_run)
    moreover have "piperead_copy p (addr + 1) (i + 1) k ?s =
        Ok (i + 1 + int j') (upd_pipe p (pipe_drain j') (?s\<lparr>ram := m\<rparr>)) \<and>
        pipe_wf (pipe_drain j' (pipes ?s p)) \<and> pipe_queue (pipe_drain j' (pipes ?s p)) = drop k (pipe_queue (pipes ?s p))"
      by (rule Suc.IH) (use pg a j cc in \<open>simp_all del: fun_upd_apply\<close>)
    moreover have "upd_pipe p (pipe_drain j') (?s\<lparr>ram := m\<rparr>) = upd_pipe p (pipe_drain j) (s\<lparr>ram := m\<rparr>)"
      using g j by (simp add: upd_pipe_def)
    ultimately show ?thesis using pg g j by simp
  qed
qed

lemma ubytes_length: "ubytes m c va n = Some bs \<Longrightarrow> length bs = n"
  by (induction n arbitrary: va bs) (auto split: option.splits)

section \<open>Properties\<close>

text \<open>
  (C10) \<open>pipewrite\<close> (\<open>src/pipe.c\<close>) appends to the queue in the pipe, in order and across
  the wrap-around of both the buffer and the 32-bit counters: all \<open>n\<close> bytes if they fit;
  otherwise as many as fit, after which it returns -1 if the reading end is closed or the
  process was killed, and else sleeps, having woken the readers.
\<close>

theorem pipewrite_correct:
  assumes "lock_ok (Pipe_lock p) s" "lock_ok Ptable_lock s" "ncli (cur_cpu s) = 0"
    "cproc (cur_cpu s) = Some i" "i < length (ptable s)" "pipe_wf (pipes s p)" "0 \<le> n"
    "ubytes (ram s) (cr3 (cur_cpu s)) addr (nat n) = Some bs" "room = 512 - length (pipe_queue (pipes s p))"
  shows "\<exists>q. pipe_wf q \<and> pipe_queue q = pipe_queue (pipes s p) @ take room bs \<and>
    pipewrite p addr n s =
     (if nat n \<le> room then Ok n (woken (Nread_chan p) (upd_pipe p (\<lambda>_. q) s))
      else if \<not> readopen (pipes s p) \<or> p_killed (ptable s ! i) then Ok (- 1) (upd_pipe p (\<lambda>_. q) s)
      else Swtch (acq_st Ptable_lock
        (sleeping_on (Nwrite_chan p) i (woken (Nread_chan p) (upd_pipe p (\<lambda>_. q) s)))))"
proof -
  let ?q = "fold pipe_put (take room bs) (pipes s p)"
  have len: "length bs = nat n"
    using assms(8) by (rule ubytes_length)
  have u: "upd_pipe p (fold pipe_put (take room bs)) s = upd_pipe p (\<lambda>_. ?q) s" by (simp add: upd_pipe_def)
  have "length (pipe_queue (pipes s p)) \<le> 512" by (rule pq.cap_law [OF assms(6)])
  then have "pipe_queue ?q = pipe_queue (pipes s p) @ take room bs \<and> pipe_wf ?q"
    using assms(9) by (intro pq.puts_queue [OF assms(6)]) simp
  moreover have "pipewrite p addr n s = pipewrite_result p n i bs room s"
    using pipewrite_loop_run [OF assms(1-6,8)] assms(1,9) by (simp add: pipewrite_def seqK_run acquire_ok)
  ultimately show ?thesis using len
    by (intro exI [of _ ?q]) (simp add: pipewrite_result_def Let_def u)
qed


text \<open>A process with one page of user memory mapped at 0, and an empty pipe at address 1.\<close>

definition pipe0 :: pipe where
  "pipe0 = \<lparr>data = replicate 512 0, nread = 0xFFFFFFFF, nwrite = 0xFFFFFFFF, readopen = True, writeopen = True\<rparr>"

definition pipesys0 :: pipesys where
  "pipesys0 = \<lparr>locks = locks procs1, cpus = cpus procs1, mycpu = 0,
     ram = (store32 (store32 (\<lambda>_. 0) 0x80000000 0x1003) 0x80001000 0x2007)(0x80002000 := 42, 0x80002001 := 43),
     use_lock = False, freelist = 0, kend = 0x80100001, kdata = 0x80100000, kpgdir = 0,
     ptable = ptable procs1, nextpid = 2, initproc = None, ticks = 0, k_trapret = 7, k_forkret = 9,
     pipes = \<lambda>_. pipe0\<rparr>"


lemma pipesys0_ram:
  "ubytes (ram pipesys0) 0 0 2 = Some [42, 43]"
  "uput (ram pipesys0) 0 4 [42] = Some ((ram pipesys0)(0x80002004 := 42))"
  by code_simp+

lemma pipesys0_simps [simp]:
  "cproc (cur_cpu pipesys0) = Some 0" "ncli (cur_cpu pipesys0) = 0" "cr3 (cur_cpu pipesys0) = 0"
  "length (ptable pipesys0) = 64" "pipes pipesys0 p = pipe0" "pipe_wf pipe0" "pipe_queue pipe0 = []"
  by (simp_all add: pipesys0_def pipe0_def pipe_wf_def pipe_queue_def procs1_def procs0_def cur_cpu_def)

lemma pipesys0_lock [simp]: "lock_ok l pipesys0"
  by (simp add: lock_ok_def lock_free_def settled_def cur_cpu_def pipesys0_def procs1_def procs0_def)

theorem pipewrite_correct_witness:
  "\<exists>q. pipe_queue q = [42, 43] \<and> pipewrite 1 0 2 pipesys0 =
     Ok 2 (woken (Nread_chan 1) (upd_pipe 1 (\<lambda>_. q) pipesys0))"
  using pipewrite_correct [of 1 pipesys0 0 2 0 "[42, 43]" 512] pipesys0_ram(1) by auto

text \<open>
  (C11) \<open>piperead\<close> on a pipe with data, or whose writing end is closed: it takes the bytes
  out in the order they were put in, at most \<open>n\<close>, stores them at \<open>addr\<close>, returns their
  number (0 at the end of the data) and wakes the writers. On an empty pipe that may
  still be written to it sleeps, or returns -1 if the process was killed.
\<close>

theorem piperead_correct:
  assumes "lock_ok (Pipe_lock p) s" "lock_ok Ptable_lock s" "ncli (cur_cpu s) = 0"
    "cproc (cur_cpu s) = Some i" "i < length (ptable s)" "pipe_wf (pipes s p)" "0 \<le> n"
    "uput (ram s) (cr3 (cur_cpu s)) addr (take (nat n) (pipe_queue (pipes s p))) = Some m"
    "j = min (nat n) (length (pipe_queue (pipes s p)))"
  shows "piperead p addr n s =
     (if pipe_queue (pipes s p) = [] \<and> writeopen (pipes s p) then
        if p_killed (ptable s ! i) then Ok (- 1) s
        else Swtch (acq_st Ptable_lock (sleeping_on (Nread_chan p) i s))
      else Ok (int j) (woken (Nwrite_chan p) (upd_pipe p (pipe_drain j) (s\<lparr>ram := m\<rparr>)))) \<and>
    pipe_wf (pipe_drain j (pipes s p)) \<and>
    pipe_queue (pipe_drain j (pipes s p)) = drop (nat n) (pipe_queue (pipes s p))"
proof -
  let ?s = "acq_st (Pipe_lock p) s"
  have c: "piperead_copy p addr 0 (nat n) ?s = Ok (0 + int j) (upd_pipe p (pipe_drain j) (?s\<lparr>ram := m\<rparr>)) \<and>
      pipe_wf (pipe_drain j (pipes ?s p)) \<and>
      pipe_queue (pipe_drain j (pipes ?s p)) = drop (nat n) (pipe_queue (pipes ?s p))"
    by (rule piperead_copy_run) (use assms in simp_all)
  have "piperead p addr n s =
     (if pipe_queue (pipes s p) = [] \<and> writeopen (pipes s p) then
        if p_killed (ptable s ! i) then Ok (- 1) s
        else Swtch (acq_st Ptable_lock (sleeping_on (Nread_chan p) i s))
      else Ok (int j) (woken (Nwrite_chan p) (upd_pipe p (pipe_drain j) (s\<lparr>ram := m\<rparr>))))"
    using assms c pipe_empty [of "pipes s p"]
    by (simp add: piperead_def piperead_loop_def run_simps acquire_ok release_acq wakeup_ok sleep_in sleeping_on_def)
  with c show ?thesis by simp
qed

theorem piperead_correct_witness:
  "\<exists>q. pipe_queue q = [42] \<and> piperead 1 4 1 (upd_pipe 1 (\<lambda>_. q) pipesys0) =
     Ok 1 (woken (Nwrite_chan 1) (upd_pipe 1 (pipe_drain 1)
       ((upd_pipe 1 (\<lambda>_. q) pipesys0)\<lparr>ram := (ram pipesys0)(0x80002004 := 42)\<rparr>)))"
proof -
  let ?q = "pipe_put 42 pipe0" and ?s = "upd_pipe 1 (\<lambda>_. pipe_put 42 pipe0) pipesys0"
  have q: "pipe_queue ?q = [42]" "pipe_wf ?q" using pq.put_law [of pipe0 42] by simp_all
  then show ?thesis
    using piperead_correct [of 1 ?s 0 1 4 "(ram pipesys0)(0x80002004 := 42)" 1] pipesys0_ram(2)
    by (intro exI [of _ ?q]) (simp del: fun_upd_apply)
qed

end
