(* ===== verification/Bio.thy ===== *)
theory Bio
  imports Pipe
begin

text \<open>
  The buffer cache (\<open>src/bio.c\<close>, \<open>src/buf.h\<close>) on the memory disk (\<open>src/memide.c\<close>). A
  buffer is named by its index; \<open>lru\<close> is the list of buffers linked through \<open>next\<close> from
  the list head, most recently used first. \<open>disk\<close> is the contents of the disk by sector,
  and \<open>dwrites\<close> the history of the writes it has received: what is on the disk after a
  crash is the effect of a prefix of them.

  \<open>blk\<close> is the contents of a sector as the kernel sees it, through the cache.
\<close>

section \<open>State\<close>

abbreviation (input) NBUF :: nat where "NBUF \<equiv> 30"
abbreviation (input) BSIZE :: nat where "BSIZE \<equiv> 512"

record buf =
  b_busy :: bool
  b_valid :: bool
  b_dirty :: bool
  b_dev :: u32
  b_sector :: u32
  b_data :: bytes

record bufsys = pipesys +
  bcache :: "buf list"
  lru :: "nat list"
  disk :: "u32 \<Rightarrow> bytes"
  disksize :: u32
  dwrites :: "(u32 \<times> bytes) list"

definition upd_buf :: "nat \<Rightarrow> (buf \<Rightarrow> buf) \<Rightarrow> 'a bufsys_scheme \<Rightarrow> 'a bufsys_scheme" where
  "upd_buf b f s = s\<lparr>bcache := (bcache s)[b := f (bcache s ! b)]\<rparr>"

definition getB :: "nat \<Rightarrow> (buf \<Rightarrow> 'b) \<Rightarrow> ('a bufsys_scheme, 'b) kernel" where
  "getB b f = getsK (\<lambda>s. f (bcache s ! b))"

definition setB :: "nat \<Rightarrow> (buf \<Rightarrow> buf) \<Rightarrow> ('a bufsys_scheme, unit) kernel" where
  "setB b f = modifyK (upd_buf b f)"

section \<open>The disk\<close>

definition disk_write :: "u32 \<Rightarrow> bytes \<Rightarrow> 'a bufsys_scheme \<Rightarrow> 'a bufsys_scheme" where
  "disk_write sec d s = s\<lparr>disk := (disk s)(sec := d), dwrites := dwrites s @ [(sec, d)]\<rparr>"

definition iderw :: "nat \<Rightarrow> ('a bufsys_scheme, unit) kernel" where
  "iderw b =
     bindK (getB b id) (\<lambda>bf.
     if \<not> b_busy bf then panic ''iderw: buf not busy''
     else if b_valid bf \<and> \<not> b_dirty bf then panic ''iderw: nothing to do''
     else if b_dev bf \<noteq> 1 then panic ''iderw: request not for disk 1''
     else bindK (getsK disksize) (\<lambda>n.
       if b_sector bf \<ge> n then panic ''iderw: sector out of range''
       else
         seqK
           (if b_dirty bf then
              seqK (setB b (\<lambda>f. f\<lparr>b_dirty := False\<rparr>))
              (modifyK (disk_write (b_sector bf) (b_data bf)))
            else
              bindK (getsK (\<lambda>s. disk s (b_sector bf))) (\<lambda>d.
              setB b (\<lambda>f. f\<lparr>b_data := d\<rparr>)))
         (setB b (\<lambda>f. f\<lparr>b_valid := True\<rparr>))))"

section \<open>The cache\<close>

definition binit :: "('a bufsys_scheme, unit) kernel" where
  "binit =
     seqK (initlock Bcache_lock ''bcache'')
     (modifyK (\<lambda>s. s\<lparr>lru := fold (\<lambda>b l. b # l) [0..<NBUF] [],
        bcache := map (\<lambda>f. f\<lparr>b_dev := - 1\<rparr>) (bcache s)\<rparr>))"

definition bget_loop :: "u32 \<Rightarrow> u32 \<Rightarrow> ('a bufsys_scheme, nat) kernel" where
  "bget_loop dev sector =
     bindK (getsK (\<lambda>s. find (\<lambda>b. b_dev (bcache s ! b) = dev \<and> b_sector (bcache s ! b) = sector) (lru s))) (\<lambda>f.
     case f of
       Some b \<Rightarrow>
         bindK (getB b b_busy) (\<lambda>busy.
         if \<not> busy then
           seqK (setB b (\<lambda>f. f\<lparr>b_busy := True\<rparr>))
           (seqK (release Bcache_lock)
           (ret b))
         else seqK (sleep (Buf_chan b) Bcache_lock) (ret b))
     | None \<Rightarrow>
         bindK (getsK (\<lambda>s. find (\<lambda>b. \<not> b_busy (bcache s ! b) \<and> \<not> b_dirty (bcache s ! b)) (rev (lru s)))) (\<lambda>g.
         case g of
           Some b \<Rightarrow>
             seqK (setB b (\<lambda>f. f\<lparr>b_dev := dev, b_sector := sector,
                 b_busy := True, b_valid := False, b_dirty := False\<rparr>))
             (seqK (release Bcache_lock)
             (ret b))
         | None \<Rightarrow> panic ''bget: no buffers''))"

definition bget :: "u32 \<Rightarrow> u32 \<Rightarrow> ('a bufsys_scheme, nat) kernel" where
  "bget dev sector = seqK (acquire Bcache_lock) (bget_loop dev sector)"

text \<open>A process that slept for a busy buffer starts over.\<close>

definition bget_resume :: "u32 \<Rightarrow> u32 \<Rightarrow> ('a bufsys_scheme, nat) kernel" where
  "bget_resume dev sector = seqK (sleep_resume Bcache_lock) (bget_loop dev sector)"

definition bread :: "u32 \<Rightarrow> u32 \<Rightarrow> ('a bufsys_scheme, nat) kernel" where
  "bread dev sector =
     bindK (bget dev sector) (\<lambda>b.
     bindK (getB b b_valid) (\<lambda>v.
     seqK (whenK (\<not> v) (iderw b))
     (ret b)))"

definition bwrite :: "nat \<Rightarrow> ('a bufsys_scheme, unit) kernel" where
  "bwrite b =
     bindK (getB b b_busy) (\<lambda>busy.
     if \<not> busy then panic ''bwrite''
     else
       seqK (setB b (\<lambda>f. f\<lparr>b_dirty := True\<rparr>))
       (iderw b))"

definition brelse :: "nat \<Rightarrow> ('a bufsys_scheme, unit) kernel" where
  "brelse b =
     bindK (getB b b_busy) (\<lambda>busy.
     if \<not> busy then panic ''brelse''
     else
       seqK (acquire Bcache_lock)
       (seqK (modifyK (\<lambda>s. s\<lparr>lru := b # remove1 b (lru s)\<rparr>))
       (seqK (setB b (\<lambda>f. f\<lparr>b_busy := False\<rparr>))
       (seqK (wakeup (Buf_chan b))
       (release Bcache_lock)))))"

section \<open>Invariant and view\<close>

text \<open>
  \<open>bio_inv\<close>: the list holds every buffer once; a buffer is one of disk 1 or unused; no two buffers hold the same sector of the
  disk; a buffer that is valid and not waiting to be written agrees with the disk; a
  buffer being used for the log or a read has 512 bytes. \<open>calm\<close>: a process runs with no
  lock held.
\<close>

definition bio_inv :: "'a bufsys_scheme \<Rightarrow> bool" where
  "bio_inv s = (length (bcache s) = NBUF \<and> distinct (lru s) \<and> set (lru s) = {..<NBUF} \<and>
     (\<forall>i < NBUF. b_dev (bcache s ! i) = 1 \<or> b_dev (bcache s ! i) = - 1 \<and> \<not> b_busy (bcache s ! i) \<and> \<not> b_dirty (bcache s ! i)) \<and>
     (\<forall>i < NBUF. \<forall>j < NBUF. b_dev (bcache s ! i) = 1 \<longrightarrow> b_dev (bcache s ! j) = 1 \<longrightarrow>
        b_sector (bcache s ! i) = b_sector (bcache s ! j) \<longrightarrow> i = j) \<and>
     (\<forall>i < NBUF. b_valid (bcache s ! i) \<and> \<not> b_dirty (bcache s ! i) \<and> b_dev (bcache s ! i) = 1 \<longrightarrow>
        b_data (bcache s ! i) = disk s (b_sector (bcache s ! i))) \<and>
     (\<forall>i < NBUF. b_dirty (bcache s ! i) \<longrightarrow> b_valid (bcache s ! i)) \<and>
     (\<forall>i < NBUF. \<not> b_busy (bcache s ! i) \<and> b_dev (bcache s ! i) = 1 \<longrightarrow> b_valid (bcache s ! i)))"

definition holds :: "'a bufsys_scheme \<Rightarrow> u32 \<Rightarrow> nat \<Rightarrow> bool" where
  "holds s sec i = (i < NBUF \<and> b_dev (bcache s ! i) = 1 \<and> b_sector (bcache s ! i) = sec)"

definition cached :: "'a bufsys_scheme \<Rightarrow> u32 \<Rightarrow> nat option" where
  "cached s sec = find_index (\<lambda>b. b_dev b = 1 \<and> b_sector b = sec) (bcache s)"

definition blk :: "'a bufsys_scheme \<Rightarrow> u32 \<Rightarrow> bytes" where
  "blk s sec = (case cached s sec of None \<Rightarrow> disk s sec
     | Some i \<Rightarrow> if b_valid (bcache s ! i) then b_data (bcache s ! i) else disk s sec)"

definition clean_free :: "'a bufsys_scheme \<Rightarrow> nat set" where
  "clean_free s = {i. i < NBUF \<and> \<not> b_busy (bcache s ! i) \<and> \<not> b_dirty (bcache s ! i)}"

definition calm :: "'a base_scheme \<Rightarrow> bool" where
  "calm s = ((\<forall>l. lock_ok l s) \<and> ncli (cur_cpu s) = 0)"

section \<open>Lemmas: running the operations\<close>

lemma acq_st_bufs [simp]:
  "bcache (acq_st l s) = bcache s" "lru (acq_st l s) = lru s" "disk (acq_st l s) = disk s"
  "disksize (acq_st l s) = disksize s" "dwrites (acq_st l s) = dwrites s"
  "upd_buf b f (acq_st l s) = acq_st l (upd_buf b f s)"
  "(acq_st l s)\<lparr>lru := x\<rparr> = acq_st l (s\<lparr>lru := x\<rparr>)"
  by (simp_all add: upd_buf_def acq_st_def upd_cpu_def upd_lock_def)

lemma lock_ok_bufs [simp]:
  "lock_ok l (upd_buf b f s) = lock_ok l s" "lock_ok l (s\<lparr>lru := x\<rparr>) = lock_ok l s"
  "lock_ok l (disk_write sec d s) = lock_ok l s"
  by (simp_all add: lock_ok_def lock_free_def settled_def cur_cpu_def upd_buf_def disk_write_def)

lemma upd_buf_simps [simp]:
  "bcache (upd_buf b f s) = (bcache s)[b := f (bcache s ! b)]" "lru (upd_buf b f s) = lru s"
  "disk (upd_buf b f s) = disk s" "disksize (upd_buf b f s) = disksize s" "dwrites (upd_buf b f s) = dwrites s"
  "cur_cpu (upd_buf b f s) = cur_cpu s" "ptable (upd_buf b f s) = ptable s"
  by (simp_all add: upd_buf_def cur_cpu_def)

lemma woken_bufs [simp]:
  "bcache (woken ch s) = bcache s" "lru (woken ch s) = lru s" "disk (woken ch s) = disk s"
  "disksize (woken ch s) = disksize s" "dwrites (woken ch s) = dwrites s"
  by (simp_all add: woken_def)

lemma disk_write_simps [simp]:
  "bcache (disk_write sec d s) = bcache s" "lru (disk_write sec d s) = lru s"
  "disk (disk_write sec d s) = (disk s)(sec := d)" "disksize (disk_write sec d s) = disksize s"
  "dwrites (disk_write sec d s) = dwrites s @ [(sec, d)]" "cur_cpu (disk_write sec d s) = cur_cpu s"
  by (simp_all add: disk_write_def cur_cpu_def)

lemma getB_run [simp]: "getB b f s = Ok (f (bcache s ! b)) s"
  by (simp add: getB_def)

lemma setB_run [simp]: "setB b f s = Ok () (upd_buf b f s)"
  by (simp add: setB_def)

lemma upd_buf_twice: "b < length (bcache s) \<Longrightarrow> upd_buf b f (upd_buf b g s) = upd_buf b (\<lambda>x. f (g x)) s"
  by (simp add: upd_buf_def)

lemma cur_cpu_lru [simp]: "cur_cpu (s\<lparr>lru := x\<rparr>) = cur_cpu s"
  by (simp add: cur_cpu_def)

lemma calmD: "calm s \<Longrightarrow> lock_ok l s" "calm s \<Longrightarrow> ncli (cur_cpu s) = 0"
  by (simp_all add: calm_def)

lemma calm_simps [simp]:
  "calm (upd_buf b f s) = calm s" "calm (woken ch s) = calm s" "calm (s\<lparr>lru := x\<rparr>) = calm s"
  "calm (disk_write sec d s) = calm s"
  by (simp_all add: calm_def)

lemma bio_invD:
  assumes "bio_inv s"
  shows "length (bcache s) = 30" "distinct (lru s)" "i \<in> set (lru s) \<longleftrightarrow> i < 30"
    "holds s sec i \<Longrightarrow> holds s sec j \<Longrightarrow> i = j"
    "i < 30 \<Longrightarrow> b_valid (bcache s ! i) \<Longrightarrow> \<not> b_dirty (bcache s ! i) \<Longrightarrow> b_dev (bcache s ! i) = 1 \<Longrightarrow>
       b_data (bcache s ! i) = disk s (b_sector (bcache s ! i))"
    "i < 30 \<Longrightarrow> b_dirty (bcache s ! i) \<Longrightarrow> b_valid (bcache s ! i)"
    "i < 30 \<Longrightarrow> \<not> b_busy (bcache s ! i) \<Longrightarrow> b_dev (bcache s ! i) = 1 \<Longrightarrow> b_valid (bcache s ! i)"
    "i < 30 \<Longrightarrow> b_dev (bcache s ! i) = 1 \<or> b_dev (bcache s ! i) = - 1 \<and> \<not> b_busy (bcache s ! i) \<and> \<not> b_dirty (bcache s ! i)"
  using assms unfolding bio_inv_def holds_def by blast+

lemma bio_invI:
  assumes "length (bcache s) = 30" "distinct (lru s)" "\<And>i. i \<in> set (lru s) \<longleftrightarrow> i < 30"
    "\<And>i j sec. holds s sec i \<Longrightarrow> holds s sec j \<Longrightarrow> i = j"
    "\<And>i. i < 30 \<Longrightarrow> b_valid (bcache s ! i) \<Longrightarrow> \<not> b_dirty (bcache s ! i) \<Longrightarrow> b_dev (bcache s ! i) = 1 \<Longrightarrow>
       b_data (bcache s ! i) = disk s (b_sector (bcache s ! i))"
    "\<And>i. i < 30 \<Longrightarrow> b_dirty (bcache s ! i) \<Longrightarrow> b_valid (bcache s ! i)"
    "\<And>i. i < 30 \<Longrightarrow> \<not> b_busy (bcache s ! i) \<Longrightarrow> b_dev (bcache s ! i) = 1 \<Longrightarrow> b_valid (bcache s ! i)"
    "\<And>i. i < 30 \<Longrightarrow> b_dev (bcache s ! i) = 1 \<or> b_dev (bcache s ! i) = - 1 \<and> \<not> b_busy (bcache s ! i) \<and> \<not> b_dirty (bcache s ! i)"
  shows "bio_inv s"
  using assms unfolding bio_inv_def holds_def by (auto; blast)

lemma find_Some_unique:
  "x \<in> set xs \<Longrightarrow> P x \<Longrightarrow> (\<And>y. P y \<Longrightarrow> y \<in> set xs \<Longrightarrow> y = x) \<Longrightarrow> find P xs = Some x"
proof (induction xs)
  case (Cons a xs)
  show ?case
  proof (cases "P a")
    case True
    then have "a = x" using Cons.prems(3) by simp
    with True show ?thesis by simp
  next
    case False
    then have "x \<in> set xs" using Cons.prems(1,2) by auto
    from Cons.IH [OF this Cons.prems(2)] Cons.prems(3) False show ?thesis by simp
  qed
qed simp

lemma find_holds:
  assumes "bio_inv s" "holds s sec b"
  shows "find (\<lambda>b. b_dev (bcache s ! b) = 1 \<and> b_sector (bcache s ! b) = sec) (lru s) = Some b"
proof (rule find_Some_unique)
  show "b \<in> set (lru s)" using bio_invD(3) [OF assms(1), of b] assms(2) by (simp add: holds_def)
  show "b_dev (bcache s ! b) = 1 \<and> b_sector (bcache s ! b) = sec" using assms(2) by (simp add: holds_def)
  fix y assume "b_dev (bcache s ! y) = 1 \<and> b_sector (bcache s ! y) = sec" "y \<in> set (lru s)"
  then have "holds s sec y" using bio_invD(3) [OF assms(1), of y] by (simp add: holds_def)
  then show "y = b" using bio_invD(4) [OF assms(1) _ assms(2)] by blast
qed

lemma find_holds_none:
  assumes "bio_inv s" "\<And>b. \<not> holds s sec b"
  shows "find (\<lambda>b. b_dev (bcache s ! b) = 1 \<and> b_sector (bcache s ! b) = sec) (lru s) = None"
proof -
  have "\<not> (b_dev (bcache s ! x) = 1 \<and> b_sector (bcache s ! x) = sec)" if "x \<in> set (lru s)" for x
    using assms(2) [of x] that bio_invD(3) [OF assms(1), of x] by (auto simp: holds_def)
  then show ?thesis by (auto simp: find_None_iff)
qed

text \<open>The buffer \<open>bget\<close> recycles: the least recently used one that is neither busy nor
  waiting to be written.\<close>

definition victim :: "'a bufsys_scheme \<Rightarrow> nat option" where
  "victim s = find (\<lambda>b. \<not> b_busy (bcache s ! b) \<and> \<not> b_dirty (bcache s ! b)) (rev (lru s))"

lemma find_SomeD: "find P xs = Some x \<Longrightarrow> P x \<and> x \<in> set xs"
  by (induction xs) (auto split: if_splits)

lemma victim_Some: "victim s = Some b \<Longrightarrow> bio_inv s \<Longrightarrow> b \<in> clean_free s"
  using bio_invD(3) [of s b] find_SomeD [of _ "rev (lru s)" b] by (auto simp: victim_def clean_free_def)

lemma victim_ex: "clean_free s \<noteq> {} \<Longrightarrow> bio_inv s \<Longrightarrow> \<exists>b. victim s = Some b"
proof (rule ccontr)
  assume a: "clean_free s \<noteq> {}" "bio_inv s" "\<nexists>b. victim s = Some b"
  then obtain i where "i \<in> clean_free s" by blast
  moreover have "victim s = None" using a(3) by (cases "victim s") simp_all
  ultimately show False using bio_invD(3) [OF a(2), of i]
    by (auto simp: victim_def clean_free_def find_None_iff)
qed

lemma bread_hit [kernel_simps]:
  assumes "calm s" "bio_inv s" "holds s sec b" "\<not> b_busy (bcache s ! b)"
  shows "bread 1 sec s = Ok b (upd_buf b (\<lambda>f. f\<lparr>b_busy := True\<rparr>) s)"
proof -
  have b: "b < length (bcache s)" "b_valid (bcache s ! b)"
    using assms bio_invD(1,7) [OF assms(2)] by (auto simp: holds_def)
  with assms show ?thesis
    by (simp add: bread_def bget_def bget_loop_def run_simps acquire_ok release_acq calmD find_holds)
qed

lemma buf_fill:
  "f\<lparr>b_dev := d, b_sector := sec, b_busy := True, b_dirty := False, b_data := x, b_valid := True\<rparr> =
   \<lparr>b_busy = True, b_valid = True, b_dirty = False, b_dev = d, b_sector = sec, b_data = x\<rparr>"
  by (rule buf.equality) simp_all

lemma bread_miss [kernel_simps]:
  assumes "calm s" "bio_inv s" "\<And>b. \<not> holds s sec b" "victim s = Some b" "sec < disksize s"
  shows "bread 1 sec s = Ok b (upd_buf b (\<lambda>_. \<lparr>b_busy = True, b_valid = True, b_dirty = False,
    b_dev = 1, b_sector = sec, b_data = disk s sec\<rparr>) s)"
proof -
  have b: "b < length (bcache s)"
    using victim_Some [OF assms(4,2)] bio_invD(1) [OF assms(2)] by (auto simp: clean_free_def)
  have f: "find (\<lambda>b. \<not> b_busy (bcache s ! b) \<and> \<not> b_dirty (bcache s ! b)) (rev (lru s)) = Some b"
    using assms(4) by (simp add: victim_def)
  show ?thesis using assms b f
    by (simp add: bread_def bget_def bget_loop_def run_simps acquire_ok release_acq calmD find_holds_none
        iderw_def upd_buf_twice not_le [symmetric]) (simp add: upd_buf_def buf_fill)
qed


section \<open>Lemmas: the cache by sector\<close>

text \<open>The sectors with a buffer waiting to be written, and those in use.\<close>

definition dirty_secs :: "'a bufsys_scheme \<Rightarrow> u32 set" where
  "dirty_secs s = {sec. \<exists>i. holds s sec i \<and> b_dirty (bcache s ! i)}"

definition busy_secs :: "'a bufsys_scheme \<Rightarrow> u32 set" where
  "busy_secs s = {sec. \<exists>i. holds s sec i \<and> b_busy (bcache s ! i)}"

definition holding_buf :: "'a bufsys_scheme \<Rightarrow> u32 \<Rightarrow> nat \<Rightarrow> bool" where
  "holding_buf s sec b = (holds s sec b \<and> b_busy (bcache s ! b) \<and> b_valid (bcache s ! b))"

lemma cached_holds:
  assumes "bio_inv s" "holds s sec i"
  shows "cached s sec = Some i"
proof -
  have "i < length (bcache s)" using assms bio_invD(1) [OF assms(1)] by (simp add: holds_def)
  then obtain j where j: "cached s sec = Some j"
    using find_index_ex [of i "bcache s" "\<lambda>b. b_dev b = 1 \<and> b_sector b = sec"] assms(2)
    by (auto simp: cached_def holds_def)
  then have "holds s sec j" using bio_invD(1) [OF assms(1)] by (simp add: cached_def find_index_Some holds_def)
  from bio_invD(4) [OF assms(1) this assms(2)] j show ?thesis by simp
qed

lemma cached_none:
  assumes "bio_inv s" "\<And>i. \<not> holds s sec i"
  shows "cached s sec = None"
proof (cases "cached s sec")
  case (Some j)
  then have "holds s sec j" using bio_invD(1) [OF assms(1)] by (simp add: cached_def find_index_Some holds_def)
  with assms(2) show ?thesis by blast
qed simp

lemma blk_holds:
  assumes "bio_inv s" "holds s sec i"
  shows "blk s sec = (if b_valid (bcache s ! i) then b_data (bcache s ! i) else disk s sec)"
  using cached_holds [OF assms] by (simp add: blk_def)

lemma blk_none:
  assumes "bio_inv s" "\<And>i. \<not> holds s sec i"
  shows "blk s sec = disk s sec"
  using cached_none [OF assms] by (simp add: blk_def)

lemma holds_upd_buf:
  assumes "bio_inv s" "b < 30"
  shows "holds (upd_buf b f s) sec i =
    (if i = b then b_dev (f (bcache s ! b)) = 1 \<and> b_sector (f (bcache s ! b)) = sec else holds s sec i)"
  using assms bio_invD(1) [OF assms(1)] by (auto simp: holds_def nth_list_update)

lemma nth_upd_buf:
  assumes "bio_inv s" "b < 30"
  shows "bcache (upd_buf b f s) ! i = (if i = b then f (bcache s ! b) else bcache s ! i)"
  using assms bio_invD(1) [OF assms(1)] by (auto simp: nth_list_update)

lemma bio_inv_upd:
  assumes inv: "bio_inv s" and b: "b < 30" and g: "g = f (bcache s ! b)"
    and "b_dev g = 1" "\<And>i. holds s (b_sector g) i \<Longrightarrow> i = b"
    "b_valid g \<Longrightarrow> \<not> b_dirty g \<Longrightarrow> b_data g = disk s (b_sector g)"
    "b_dirty g \<Longrightarrow> b_valid g" "\<not> b_busy g \<Longrightarrow> b_valid g"
  shows "bio_inv (upd_buf b f s)"
proof (rule bio_invI)
  note u = nth_upd_buf [OF inv b, of f] and h = holds_upd_buf [OF inv b, of f]
  show "length (bcache (upd_buf b f s)) = 30" using bio_invD(1) [OF inv] by simp
  show "distinct (lru (upd_buf b f s))" using bio_invD(2) [OF inv] by simp
  show "\<And>i. i \<in> set (lru (upd_buf b f s)) \<longleftrightarrow> i < 30" using bio_invD(3) [OF inv] by simp
  fix i :: nat assume i: "i < 30"
  show "b_dirty (bcache (upd_buf b f s) ! i) \<Longrightarrow> b_valid (bcache (upd_buf b f s) ! i)"
    unfolding u using assms(4,6-8) g bio_invD(6) [OF inv i] by (cases "i = b") simp_all
  show "\<not> b_busy (bcache (upd_buf b f s) ! i) \<Longrightarrow> b_dev (bcache (upd_buf b f s) ! i) = 1 \<Longrightarrow>
      b_valid (bcache (upd_buf b f s) ! i)"
    unfolding u using assms(4,6-8) g bio_invD(7) [OF inv i] by (cases "i = b") simp_all
  show "b_dev (bcache (upd_buf b f s) ! i) = 1 \<or> b_dev (bcache (upd_buf b f s) ! i) = - 1 \<and> \<not> b_busy (bcache (upd_buf b f s) ! i) \<and> \<not> b_dirty (bcache (upd_buf b f s) ! i)"
    unfolding u using assms(4) g bio_invD(8) [OF inv i] by (cases "i = b") simp_all
  show "b_valid (bcache (upd_buf b f s) ! i) \<Longrightarrow> \<not> b_dirty (bcache (upd_buf b f s) ! i) \<Longrightarrow>
      b_dev (bcache (upd_buf b f s) ! i) = 1 \<Longrightarrow>
      b_data (bcache (upd_buf b f s) ! i) = disk (upd_buf b f s) (b_sector (bcache (upd_buf b f s) ! i))"
    unfolding u using assms(4,6-8) g bio_invD(5) [OF inv i] by (cases "i = b") simp_all
next
  fix i j sec assume "holds (upd_buf b f s) sec i" "holds (upd_buf b f s) sec j"
  then have hi: "i = b \<and> sec = b_sector g \<or> i \<noteq> b \<and> holds s sec i"
    and hj: "j = b \<and> sec = b_sector g \<or> j \<noteq> b \<and> holds s sec j"
    unfolding holds_upd_buf [OF inv b] g by (auto split: if_splits)
  from hi hj show "i = j"
  proof (elim disjE conjE)
    assume "i \<noteq> b" "holds s sec i" "j \<noteq> b" "holds s sec j"
    then show ?thesis using bio_invD(4) [OF inv] by blast
  next
    assume "i = b" "sec = b_sector g" "j \<noteq> b" "holds s sec j"
    then show ?thesis using assms(5) by blast
  next
    assume "i \<noteq> b" "holds s sec i" "j = b" "sec = b_sector g"
    then show ?thesis using assms(5) by blast
  qed (simp only:)
qed


lemma blk_upd_buf:
  assumes "bio_inv s" "b < 30" "bio_inv (upd_buf b f s)"
    "b_dev (f (bcache s ! b)) = 1" "b_sector (f (bcache s ! b)) = sec" "b_valid (f (bcache s ! b))"
    "holds s sec b \<or> \<not> b_busy (bcache s ! b) \<and> \<not> b_dirty (bcache s ! b)"
  shows "blk (upd_buf b f s) = (blk s)(sec := b_data (f (bcache s ! b)))"
proof (rule ext)
  fix x
  note h = holds_upd_buf [OF assms(1,2), of f] and u = nth_upd_buf [OF assms(1,2), of f]
  show "blk (upd_buf b f s) x = ((blk s)(sec := b_data (f (bcache s ! b)))) x"
  proof (cases "x = sec")
    case True
    then have "holds (upd_buf b f s) x b" unfolding h using assms(4,5) by simp
    from blk_holds [OF assms(3) this] True assms(6) show ?thesis unfolding u by simp
  next
    case False
    show ?thesis
    proof (cases "\<exists>i. i \<noteq> b \<and> holds s x i")
      case True
      then obtain i where i: "i \<noteq> b" "holds s x i" by blast
      then have "holds (upd_buf b f s) x i" unfolding h by simp
      from blk_holds [OF assms(3) this] blk_holds [OF assms(1) i(2)] i(1) False show ?thesis
        unfolding u by simp
    next
      case none: False
      then have "\<And>i. \<not> holds (upd_buf b f s) x i" unfolding h using assms(4,5) False by auto
      then have l: "blk (upd_buf b f s) x = disk s x" using blk_none [OF assms(3)] by simp
      have "blk s x = disk s x"
      proof (cases "holds s x b")
        case True
        then have "\<not> holds s sec b" using False by (auto simp: holds_def)
        then have "\<not> b_busy (bcache s ! b)" "\<not> b_dirty (bcache s ! b)" using assms(7) by auto
        moreover have "b < 30" "b_dev (bcache s ! b) = 1" "b_sector (bcache s ! b) = x" using True by (auto simp: holds_def)
        ultimately show ?thesis
          using blk_holds [OF assms(1) True] bio_invD(5,7) [OF assms(1), of b] by auto
      next
        case False
        with none have "\<And>i. \<not> holds s x i" by metis
        then show ?thesis by (rule blk_none [OF assms(1)])
      qed
      with l False show ?thesis by simp
    qed
  qed
qed


text \<open>What an operation of this theory leaves alone.\<close>

definition rest_same :: "'a bufsys_scheme \<Rightarrow> 'a bufsys_scheme \<Rightarrow> bool" where
  "rest_same s t = (bufsys.more t = bufsys.more s \<and> disksize t = disksize s \<and> ram t = ram s \<and>
     cur_cpu t = cur_cpu s \<and> locks t = locks s \<and> freelist t = freelist s)"

lemma rest_same_trans: "rest_same s t \<Longrightarrow> rest_same t u \<Longrightarrow> rest_same s u"
  by (simp add: rest_same_def)

lemma rest_same_simps [simp]: "rest_same s s" "rest_same s (upd_buf b f t) = rest_same s t"
  "rest_same s (disk_write sec d t) = rest_same s t" "rest_same s (woken ch t) = rest_same s t"
  "rest_same s (t\<lparr>lru := x\<rparr>) = rest_same s t"
  by (auto simp: rest_same_def upd_buf_def disk_write_def woken_def cur_cpu_def)

lemma holds_same_sector:
  "(\<And>i. b_dev (bcache t ! i) = b_dev (bcache s ! i) \<and> b_sector (bcache t ! i) = b_sector (bcache s ! i)) \<Longrightarrow>
   holds t = holds s"
  by (rule ext)+ (simp add: holds_def)

definition bread_ok :: "'a bufsys_scheme \<Rightarrow> u32 \<Rightarrow> bool" where
  "bread_ok s sec = (sec < disksize s \<and> sec \<notin> busy_secs s \<and> ((\<exists>i. holds s sec i) \<or> clean_free s \<noteq> {}))"

lemma bread_spec:
  assumes calm: "calm s" and inv: "bio_inv s" and ok: "bread_ok s sec"
  shows "\<exists>b t. bread 1 sec s = Ok b t \<and> bio_inv t \<and> calm t \<and> rest_same s t \<and> holding_buf t sec b \<and>
    b_data (bcache t ! b) = blk s sec \<and> blk t = blk s \<and> disk t = disk s \<and> dwrites t = dwrites s \<and>
    dirty_secs t = dirty_secs s \<and> busy_secs t = insert sec (busy_secs s) \<and> b < 30 \<and> \<not> b_busy (bcache s ! b) \<and>
    clean_free s - {b} = clean_free t \<and> (\<forall>i. i \<noteq> b \<longrightarrow> bcache t ! i = bcache s ! i)"
proof (cases "\<exists>b. holds s sec b")
  case True
  then obtain b where b: "holds s sec b" by blast
  let ?f = "\<lambda>f :: buf. f\<lparr>b_busy := True\<rparr>"
  let ?t = "upd_buf b ?f s"
  have b30: "b < 30" and nb: "\<not> b_busy (bcache s ! b)" and g: "b_dev (bcache s ! b) = 1" "b_sector (bcache s ! b) = sec"
    using b ok by (auto simp: holds_def bread_ok_def busy_secs_def)
  have v: "b_valid (bcache s ! b)" using bio_invD(7) [OF inv b30 nb g(1)] .
  have inv': "bio_inv ?t"
    by (rule bio_inv_upd [OF inv b30 refl])
      (use g v bio_invD(4) [OF inv _ b] bio_invD(5) [OF inv b30] in auto)
  have "blk ?t = (blk s)(sec := b_data (bcache s ! b))"
    using blk_upd_buf [OF inv b30 inv', of sec] g v b by simp
  then have "blk ?t = blk s" using blk_holds [OF inv b] v by (simp add: fun_upd_idem)
  moreover note u = nth_upd_buf [OF inv b30, of ?f] and h = holds_upd_buf [OF inv b30, of ?f]
  have hh: "holds ?t = holds s" by (rule holds_same_sector) (simp only: u, simp)
  have "dirty_secs ?t = dirty_secs s" unfolding dirty_secs_def hh u by auto
  moreover have "busy_secs ?t = insert sec (busy_secs s)"
    unfolding busy_secs_def hh u using b by (auto simp: holds_def)
  moreover have "clean_free s - {b} = clean_free ?t" unfolding clean_free_def u by auto
  moreover have "holding_buf ?t sec b" unfolding holding_buf_def hh u using b v by simp
  moreover have "b_data (bcache ?t ! b) = blk s sec" "\<forall>i. i \<noteq> b \<longrightarrow> bcache ?t ! i = bcache s ! i"
    unfolding u using blk_holds [OF inv b] v by simp_all
  ultimately show ?thesis
    using bread_hit [OF calm inv b nb] inv' calm nb b30 by (intro exI [of _ b] exI [of _ ?t]) simp
next
  case False
  then obtain b where vic: "victim s = Some b" using ok victim_ex [OF _ inv] by (auto simp: bread_ok_def)
  let ?g = "\<lparr>b_busy = True, b_valid = True, b_dirty = False, b_dev = 1, b_sector = sec, b_data = disk s sec\<rparr>"
  let ?t = "upd_buf b (\<lambda>_. ?g) s"
  have cf: "b < 30" "\<not> b_busy (bcache s ! b)" "\<not> b_dirty (bcache s ! b)"
    using victim_Some [OF vic inv] by (auto simp: clean_free_def)
  have inv': "bio_inv ?t" by (rule bio_inv_upd [OF inv cf(1) refl]) (use False in auto)
  have bs: "blk s sec = disk s sec" using blk_none [OF inv] False by blast
  have "blk ?t = (blk s)(sec := disk s sec)"
    using blk_upd_buf [OF inv cf(1) inv', of sec] cf by simp
  then have "blk ?t = blk s" using bs by auto
  moreover note u = nth_upd_buf [OF inv cf(1), of "\<lambda>_. ?g"] and h = holds_upd_buf [OF inv cf(1), of "\<lambda>_. ?g"]
  have "dirty_secs ?t = dirty_secs s"
    unfolding dirty_secs_def h u using False cf by (auto split: if_splits)
  moreover have "busy_secs ?t = insert sec (busy_secs s)"
    unfolding busy_secs_def h u using cf by (auto split: if_splits)
  moreover have "clean_free s - {b} = clean_free ?t" unfolding clean_free_def u by auto
  moreover have "holding_buf ?t sec b" unfolding holding_buf_def h u by simp
  moreover have "b_data (bcache ?t ! b) = blk s sec" "\<forall>i. i \<noteq> b \<longrightarrow> bcache ?t ! i = bcache s ! i"
    unfolding u using bs by simp_all
  moreover have "bread 1 sec s = Ok b ?t"
    using bread_miss [OF calm inv _ vic] False ok by (auto simp: bread_ok_def)
  ultimately show ?thesis using inv' calm cf by (intro exI [of _ b] exI [of _ ?t]) simp
qed


text \<open>Replacing the data of a buffer in use and writing it to the disk.\<close>

lemma bwrite_spec:
  assumes calm: "calm s" and inv: "bio_inv s" and hb: "holding_buf s sec b" and sec: "sec < disksize s"
  shows "\<exists>t. seqK (setB b (\<lambda>f. f\<lparr>b_data := d\<rparr>)) (bwrite b) s = Ok () t \<and> bio_inv t \<and> calm t \<and> rest_same s t \<and>
    holding_buf t sec b \<and> b_data (bcache t ! b) = d \<and> \<not> b_dirty (bcache t ! b) \<and>
    blk t = (blk s)(sec := d) \<and> disk t = (disk s)(sec := d) \<and>
    dwrites t = dwrites s @ [(sec, d)] \<and> dirty_secs t = dirty_secs s - {sec} \<and> busy_secs t = busy_secs s \<and>
    clean_free t = clean_free s \<and> (\<forall>i. i \<noteq> b \<longrightarrow> bcache t ! i = bcache s ! i)"
proof -
  have g: "b < 30" "b_dev (bcache s ! b) = 1" "b_sector (bcache s ! b) = sec" "b_busy (bcache s ! b)" "b_valid (bcache s ! b)"
    and h: "holds s sec b" using hb by (auto simp: holding_buf_def holds_def)
  let ?f = "\<lambda>f :: buf. f\<lparr>b_data := d, b_dirty := False, b_valid := True\<rparr>"
  let ?u = "disk_write sec d s" and ?t = "upd_buf b ?f (disk_write sec d s)"
  have run: "seqK (setB b (\<lambda>f. f\<lparr>b_data := d\<rparr>)) (bwrite b) s = Ok () ?t"
    using g sec bio_invD(1) [OF inv]
    by (simp add: bwrite_def iderw_def run_simps upd_buf_twice not_le [symmetric]) (simp add: upd_buf_def disk_write_def)
  have u: "bcache ?t ! i = (if i = b then ?f (bcache s ! b) else bcache s ! i)" for i
    using g(1) bio_invD(1) [OF inv] by (simp add: nth_list_update)
  have hh: "holds ?t = holds s" by (rule holds_same_sector) (simp only: u, simp)
  have inv': "bio_inv ?t"
  proof (rule bio_invI)
    show "length (bcache ?t) = 30" "distinct (lru ?t)" "\<And>i. i \<in> set (lru ?t) \<longleftrightarrow> i < 30"
      using bio_invD(1-3) [OF inv] by simp_all
    show "\<And>i j x. holds ?t x i \<Longrightarrow> holds ?t x j \<Longrightarrow> i = j" unfolding hh using bio_invD(4) [OF inv] by blast
    fix i :: nat assume i: "i < 30"
    show "b_dirty (bcache ?t ! i) \<Longrightarrow> b_valid (bcache ?t ! i)" unfolding u using bio_invD(6) [OF inv i] by (cases "i = b") simp_all
    show "\<not> b_busy (bcache ?t ! i) \<Longrightarrow> b_dev (bcache ?t ! i) = 1 \<Longrightarrow> b_valid (bcache ?t ! i)"
      unfolding u using bio_invD(7) [OF inv i] by (cases "i = b") simp_all
    show "b_dev (bcache ?t ! i) = 1 \<or> b_dev (bcache ?t ! i) = - 1 \<and> \<not> b_busy (bcache ?t ! i) \<and> \<not> b_dirty (bcache ?t ! i)" unfolding u using bio_invD(8) [OF inv i] g(2) by (cases "i = b") simp_all
    show "b_valid (bcache ?t ! i) \<Longrightarrow> \<not> b_dirty (bcache ?t ! i) \<Longrightarrow> b_dev (bcache ?t ! i) = 1 \<Longrightarrow>
        b_data (bcache ?t ! i) = disk ?t (b_sector (bcache ?t ! i))"
    proof (cases "i = b")
      case False
      assume a: "b_valid (bcache ?t ! i)" "\<not> b_dirty (bcache ?t ! i)" "b_dev (bcache ?t ! i) = 1"
      have "b_sector (bcache s ! i) \<noteq> sec"
        using bio_invD(4) [OF inv _ h, of i] False a(3) i unfolding u by (auto simp: holds_def)
      with False a bio_invD(5) [OF inv i] show ?thesis unfolding u by simp
    qed (use g in \<open>simp add: u del: upd_buf_simps(1)\<close>)
  qed
  have "blk ?t = (blk s)(sec := d)"
  proof (rule ext)
    fix x
    show "blk ?t x = ((blk s)(sec := d)) x"
    proof (cases "\<exists>i. holds s x i")
      case True
      then obtain i where i: "holds s x i" by blast
      have "i = b \<longleftrightarrow> x = sec" using i h bio_invD(4) [OF inv] by (auto simp: holds_def)
      with blk_holds [OF inv i] blk_holds [OF inv', of x i] i show ?thesis unfolding hh u by simp
    next
      case False
      then have "x \<noteq> sec" using h by blast
      with False show ?thesis using blk_none [OF inv, of x] blk_none [OF inv', of x] unfolding hh by simp
    qed
  qed
  moreover have "dirty_secs ?t = dirty_secs s - {sec}"
  proof (rule set_eqI)
    fix x
    have "(holds s x i \<and> b_dirty (if i = b then ?f (bcache s ! b) else bcache s ! i)) \<longleftrightarrow>
        (holds s x i \<and> b_dirty (bcache s ! i) \<and> x \<noteq> sec)" for i
      using g h bio_invD(4) [OF inv, of x i b] bio_invD(4) [OF inv, of sec i b] by (cases "i = b") (auto simp: holds_def)
    then show "x \<in> dirty_secs ?t \<longleftrightarrow> x \<in> dirty_secs s - {sec}" unfolding dirty_secs_def hh u by auto
  qed
  moreover have "busy_secs ?t = busy_secs s" unfolding busy_secs_def hh u using g by auto
  moreover have "clean_free ?t = clean_free s" unfolding clean_free_def u using g by auto
  moreover have "holding_buf ?t sec b" unfolding holding_buf_def hh u using g h by simp
  moreover have "b_data (bcache ?t ! b) = d" "\<not> b_dirty (bcache ?t ! b)" "\<forall>i. i \<noteq> b \<longrightarrow> bcache ?t ! i = bcache s ! i"
    unfolding u by simp_all
  ultimately show ?thesis using run inv' calm by (intro exI [of _ ?t]) simp
qed


lemma brelse_spec:
  assumes calm: "calm s" and inv: "bio_inv s" and hb: "holding_buf s sec b"
  shows "\<exists>t. brelse b s = Ok () t \<and> bio_inv t \<and> calm t \<and> rest_same s t \<and>
    blk t = blk s \<and> disk t = disk s \<and> dwrites t = dwrites s \<and> dirty_secs t = dirty_secs s \<and>
    busy_secs t = busy_secs s - {sec} \<and>
    clean_free t = clean_free s \<union> (if b_dirty (bcache s ! b) then {} else {b}) \<and>
    (\<forall>i. i \<noteq> b \<longrightarrow> bcache t ! i = bcache s ! i)"
proof -
  have g: "b < 30" "b_dev (bcache s ! b) = 1" "b_sector (bcache s ! b) = sec" "b_busy (bcache s ! b)" "b_valid (bcache s ! b)"
    and h: "holds s sec b" using hb by (auto simp: holding_buf_def holds_def)
  let ?f = "\<lambda>f :: buf. f\<lparr>b_busy := False\<rparr>"
  let ?t = "woken (Buf_chan b) (upd_buf b ?f (s\<lparr>lru := b # remove1 b (lru s)\<rparr>))"
  have run: "brelse b s = Ok () ?t"
    using g calm by (simp add: brelse_def run_simps acquire_ok release_acq wakeup_ok calmD)
  have u: "bcache ?t ! i = (if i = b then ?f (bcache s ! b) else bcache s ! i)" for i
    using g(1) bio_invD(1) [OF inv] by (simp add: nth_list_update)
  have hh: "holds ?t = holds s" by (rule holds_same_sector) (simp only: u, simp)
  have inv': "bio_inv ?t"
  proof (rule bio_invI)
    show "length (bcache ?t) = 30" using bio_invD(1) [OF inv] by simp
    show "distinct (lru ?t)" using bio_invD(2) [OF inv] by (simp add: distinct_remove1)
    show "\<And>i. i \<in> set (lru ?t) \<longleftrightarrow> i < 30" using bio_invD(2,3) [OF inv] g(1) by (auto simp: set_remove1_eq)
    show "\<And>i j x. holds ?t x i \<Longrightarrow> holds ?t x j \<Longrightarrow> i = j" unfolding hh using bio_invD(4) [OF inv] by blast
    fix i :: nat assume i: "i < 30"
    show "b_dirty (bcache ?t ! i) \<Longrightarrow> b_valid (bcache ?t ! i)"
      unfolding u using bio_invD(6) [OF inv i] g by (cases "i = b") simp_all
    show "\<not> b_busy (bcache ?t ! i) \<Longrightarrow> b_dev (bcache ?t ! i) = 1 \<Longrightarrow> b_valid (bcache ?t ! i)"
      unfolding u using bio_invD(7) [OF inv i] g by (cases "i = b") simp_all
    show "b_dev (bcache ?t ! i) = 1 \<or> b_dev (bcache ?t ! i) = - 1 \<and> \<not> b_busy (bcache ?t ! i) \<and> \<not> b_dirty (bcache ?t ! i)" unfolding u using bio_invD(8) [OF inv i] g(2) by (cases "i = b") simp_all
    show "b_valid (bcache ?t ! i) \<Longrightarrow> \<not> b_dirty (bcache ?t ! i) \<Longrightarrow> b_dev (bcache ?t ! i) = 1 \<Longrightarrow>
        b_data (bcache ?t ! i) = disk ?t (b_sector (bcache ?t ! i))"
      unfolding u using bio_invD(5) [OF inv i] by (cases "i = b") simp_all
  qed
  have "blk ?t = blk s"
  proof (rule ext)
    fix x
    show "blk ?t x = blk s x"
    proof (cases "\<exists>i. holds s x i")
      case True
      then obtain i where i: "holds s x i" by blast
      then have "holds ?t x i" unfolding hh .
      from blk_holds [OF inv i] blk_holds [OF inv' this] show ?thesis unfolding u by simp
    next
      case False
      then show ?thesis using blk_none [OF inv, of x] blk_none [OF inv', of x] unfolding hh by simp
    qed
  qed
  moreover have "dirty_secs ?t = dirty_secs s" unfolding dirty_secs_def hh u by auto
  moreover have "busy_secs ?t = busy_secs s - {sec}"
  proof (rule set_eqI)
    fix x
    have "(holds s x i \<and> b_busy (if i = b then ?f (bcache s ! b) else bcache s ! i)) \<longleftrightarrow>
        (holds s x i \<and> b_busy (bcache s ! i) \<and> x \<noteq> sec)" for i
      using g h bio_invD(4) [OF inv, of sec i b] by (cases "i = b") (auto simp: holds_def)
    then show "x \<in> busy_secs ?t \<longleftrightarrow> x \<in> busy_secs s - {sec}" unfolding busy_secs_def hh u by auto
  qed
  moreover have "clean_free ?t = clean_free s \<union> (if b_dirty (bcache s ! b) then {} else {b})"
    unfolding clean_free_def u using g by auto
  moreover have "\<forall>i. i \<noteq> b \<longrightarrow> bcache ?t ! i = bcache s ! i" unfolding u by simp
  ultimately show ?thesis using run inv' calm by (intro exI [of _ ?t]) simp
qed

text \<open>Every buffer can be recycled, is in use or waits to be written.\<close>

lemma clean_count:
  assumes "bio_inv s"
  shows "card (clean_free s) + card (busy_secs s \<union> dirty_secs s) = 30"
proof -
  let ?U = "{i. i < 30 \<and> (b_busy (bcache s ! i) \<or> b_dirty (bcache s ! i))}"
  have dev: "b_dev (bcache s ! i) = 1" if "i \<in> ?U" for i using bio_invD(8) [OF assms, of i] that by auto
  have "inj_on (\<lambda>i. b_sector (bcache s ! i)) ?U"
  proof (rule inj_onI)
    fix i j assume "i \<in> ?U" "j \<in> ?U" "b_sector (bcache s ! i) = b_sector (bcache s ! j)"
    then have "holds s (b_sector (bcache s ! j)) i" "holds s (b_sector (bcache s ! j)) j" using dev by (simp_all add: holds_def)
    then show "i = j" by (rule bio_invD(4) [OF assms])
  qed
  moreover have "(\<lambda>i. b_sector (bcache s ! i)) ` ?U = busy_secs s \<union> dirty_secs s"
    using dev by (auto simp: busy_secs_def dirty_secs_def holds_def image_iff)
  ultimately have "card (busy_secs s \<union> dirty_secs s) = card ?U" by (simp add: card_image [symmetric])
  moreover have "clean_free s \<union> ?U = {..<30}" "clean_free s \<inter> ?U = {}" by (auto simp: clean_free_def)
  moreover have "finite (clean_free s)" "finite ?U" by (auto simp: clean_free_def)
  ultimately show ?thesis using card_Un_disjoint [of "clean_free s" ?U] by simp
qed

lemma finite_secs: "finite (busy_secs s)" "finite (dirty_secs s)"
proof -
  have "busy_secs s \<subseteq> (\<lambda>i. b_sector (bcache s ! i)) ` {..<30}" "dirty_secs s \<subseteq> (\<lambda>i. b_sector (bcache s ! i)) ` {..<30}"
    by (auto simp: busy_secs_def dirty_secs_def holds_def)
  then show "finite (busy_secs s)" "finite (dirty_secs s)" by (auto intro: finite_subset)
qed

lemma clean_nonempty: "bio_inv s \<Longrightarrow> card (busy_secs s \<union> dirty_secs s) < 30 \<Longrightarrow> clean_free s \<noteq> {}"
  using clean_count [of s] by auto

section \<open>Whole accesses to a block\<close>

text \<open>
  \<open>idle\<close>: no lock is held, no buffer of the disk is in use and at least one buffer can be
  recycled. Between two block accesses of a process the cache is in such a state.
\<close>

definition idle :: "'a bufsys_scheme \<Rightarrow> bool" where
  "idle s = (calm s \<and> bio_inv s \<and> busy_secs s = {} \<and> clean_free s \<noteq> {})"

lemma idleD: "idle s \<Longrightarrow> calm s" "idle s \<Longrightarrow> bio_inv s" "idle s \<Longrightarrow> busy_secs s = {}" "idle s \<Longrightarrow> clean_free s \<noteq> {}"
  by (simp_all add: idle_def)

lemma bread_idle:
  assumes "idle s" "sec < disksize s"
  shows "\<exists>b t. bread 1 sec s = Ok b t \<and> bio_inv t \<and> calm t \<and> rest_same s t \<and> holding_buf t sec b \<and>
    b_data (bcache t ! b) = blk s sec \<and> blk t = blk s \<and> disk t = disk s \<and> dwrites t = dwrites s \<and>
    dirty_secs t = dirty_secs s \<and> busy_secs t = {sec} \<and> b < 30 \<and> clean_free s - {b} = clean_free t"
  using bread_spec [of s sec] assms by (auto simp: idle_def bread_ok_def)

lemma clean_free_dirty: "holds s sec b \<Longrightarrow> sec \<notin> dirty_secs s \<Longrightarrow> \<not> b_dirty (bcache s ! b)"
  by (auto simp: dirty_secs_def)

text \<open>
  Replacing a block through the cache: \<open>bp = bread(dev, sec); change bp->data; bwrite(bp);
  brelse(bp)\<close>, the access the log is built from.
\<close>

definition replace_block :: "u32 \<Rightarrow> (bytes \<Rightarrow> bytes) \<Rightarrow> ('a bufsys_scheme, unit) kernel" where
  "replace_block sec f =
     bindK (bread 1 sec) (\<lambda>b.
     bindK (getB b b_data) (\<lambda>d.
     seqK (seqK (setB b (\<lambda>g. g\<lparr>b_data := f d\<rparr>)) (bwrite b))
     (brelse b)))"

lemma replace_block_spec:
  assumes idle: "idle s" and sec: "sec < disksize s"
  shows "\<exists>t. replace_block sec f s = Ok () t \<and> idle t \<and> rest_same s t \<and>
    blk t = (blk s)(sec := f (blk s sec)) \<and> disk t = (disk s)(sec := f (blk s sec)) \<and>
    dwrites t = dwrites s @ [(sec, f (blk s sec))] \<and> dirty_secs t = dirty_secs s - {sec} \<and> clean_free s \<subseteq> clean_free t"
proof -
  obtain b u where u: "bread 1 sec s = Ok b u" "bio_inv u" "calm u" "rest_same s u" "holding_buf u sec b"
    "b_data (bcache u ! b) = blk s sec" "blk u = blk s" "disk u = disk s" "dwrites u = dwrites s"
    "dirty_secs u = dirty_secs s" "busy_secs u = {sec}" "clean_free s - {b} = clean_free u"
    using bread_idle [OF assms] by blast
  have "sec < disksize u" using u(4) sec by (simp add: rest_same_def)
  then obtain v where v: "seqK (setB b (\<lambda>g. g\<lparr>b_data := f (blk s sec)\<rparr>)) (bwrite b) u = Ok () v" "bio_inv v" "calm v"
    "rest_same u v" "holding_buf v sec b" "\<not> b_dirty (bcache v ! b)" "blk v = (blk u)(sec := f (blk s sec))"
    "disk v = (disk u)(sec := f (blk s sec))" "dwrites v = dwrites u @ [(sec, f (blk s sec))]"
    "dirty_secs v = dirty_secs u - {sec}" "busy_secs v = busy_secs u" "clean_free v = clean_free u"
    using bwrite_spec [OF u(3,2,5), of "f (blk s sec)"] by blast
  obtain t where t: "brelse b v = Ok () t" "bio_inv t" "calm t" "rest_same v t" "blk t = blk v" "disk t = disk v"
    "dwrites t = dwrites v" "dirty_secs t = dirty_secs v" "busy_secs t = busy_secs v - {sec}"
    "clean_free t = clean_free v \<union> (if b_dirty (bcache v ! b) then {} else {b})"
    using brelse_spec [OF v(3,2,5)] by blast
  have cf: "clean_free t = clean_free s \<union> {b}" using t(10) v(6,12) u(12) by auto
  have "replace_block sec f s = Ok () t"
    using u(1,6) v(1) t(1) by (simp add: replace_block_def getB_def bindK_run seqK_Ok [where m = "seqK m n" for m n])
  moreover have "idle t" using t(2,3,9) v(11) u(11) cf by (simp add: idle_def)
  moreover have "rest_same s t" using u(4) v(4) t(4) by (blast intro: rest_same_trans)
  ultimately show ?thesis
    using u v t cf by auto
qed

section \<open>Properties\<close>

lemma sleep_not_Ok: "sleep ch lk s \<noteq> Ok a t"
proof -
  have sched: "sched u \<noteq> Ok a t" for a and t u :: "'b procs_scheme"
    by (simp add: sched_def swtch_def run_simps split: outcome.split)
  show ?thesis
    by (simp add: sleep_def seqK_eq_Ok bindK_eq_Ok sched split: option.split)
qed

lemma bread_busy:
  assumes "calm s" "bio_inv s" "sec \<in> busy_secs s"
  shows "bread 1 sec s \<noteq> Ok b t"
proof -
  obtain i where i: "holds s sec i" "b_busy (bcache s ! i)" using assms(3) by (auto simp: busy_secs_def)
  show ?thesis using assms i
    by (auto simp: bread_def bget_def bget_loop_def bindK_eq_Ok seqK_eq_Ok acquire_ok calmD find_holds sleep_not_Ok getB_def)
qed

lemma victim_none: "bio_inv s \<Longrightarrow> clean_free s = {} \<Longrightarrow> victim s = None"
  using victim_Some [of s] by (cases "victim s") auto

lemma bread_no_buffers:
  assumes "calm s" "bio_inv s" "\<And>b. \<not> holds s sec b" "clean_free s = {}"
  shows "bread 1 sec s = Panic ''bget: no buffers''"
  using assms victim_none [OF assms(2,4), unfolded victim_def]
  by (simp add: bread_def bget_def bget_loop_def run_simps acquire_ok calmD find_holds_none)

text \<open>
  (C12) The cache is coherent. A block that is read, changed, written and released
  (\<open>bread\<close>, \<open>bwrite\<close>, \<open>brelse\<close> of \<open>src/bio.c\<close>) causes exactly one disk write, and from
  then on \<open>bread\<close> of any block of the disk returns what was last written to it, whether
  its buffer is still in the cache or has been recycled for another block in between. The
  invariant of the cache (every buffer on the list once, no block in two buffers, clean
  buffers agree with the disk) is kept.
\<close>

theorem block_write_read:
  assumes "idle s" "sec < disksize s"
  shows "\<exists>t. replace_block sec f s = Ok () t \<and> idle t \<and> dwrites t = dwrites s @ [(sec, f (blk s sec))] \<and>
    (\<forall>x < disksize s. \<exists>b u. bread 1 x t = Ok b u \<and> bio_inv u \<and> holding_buf u x b \<and>
       b_data (bcache u ! b) = (if x = sec then f (blk s sec) else blk s x))"
proof -
  obtain t where t: "replace_block sec f s = Ok () t" "idle t" "rest_same s t"
    "blk t = (blk s)(sec := f (blk s sec))" "dwrites t = dwrites s @ [(sec, f (blk s sec))]"
    using replace_block_spec [OF assms] by blast
  have "\<exists>b u. bread 1 x t = Ok b u \<and> bio_inv u \<and> holding_buf u x b \<and>
      b_data (bcache u ! b) = (if x = sec then f (blk s sec) else blk s x)" if "x < disksize s" for x
    using bread_idle [OF t(2), of x] t(3,4) that by (auto simp: rest_same_def)
  with t show ?thesis by blast
qed

definition bufsys0 :: bufsys where
  "bufsys0 = pipesys.extend pipesys0 (bufsys.fields
     (replicate 30 \<lparr>b_busy = False, b_valid = False, b_dirty = False, b_dev = - 1, b_sector = 0, b_data = replicate 512 0\<rparr>)
     [0..<30] (\<lambda>_. replicate 512 0) 1024 [])"

lemma bufsys0_base [simp]: "cur_cpu bufsys0 = cur_cpu pipesys0" "locks bufsys0 = locks pipesys0" "lock_ok l bufsys0"
  "ptable bufsys0 = ptable pipesys0" "disksize bufsys0 = 1024" "disk bufsys0 = (\<lambda>_. replicate 512 0)" "dwrites bufsys0 = []"
proof -
  show "cur_cpu bufsys0 = cur_cpu pipesys0" "locks bufsys0 = locks pipesys0"
    by (simp_all add: cur_cpu_def bufsys0_def pipesys.defs bufsys.defs)
  then show "lock_ok l bufsys0" using pipesys0_lock [of l] by (simp add: lock_ok_def lock_free_def settled_def)
qed (simp_all add: bufsys0_def pipesys.defs bufsys.defs)

lemma bufsys0_bcache: "i < 30 \<Longrightarrow> bcache bufsys0 ! i =
    \<lparr>b_busy = False, b_valid = False, b_dirty = False, b_dev = - 1, b_sector = 0, b_data = replicate 512 0\<rparr>"
  "length (bcache bufsys0) = 30" "lru bufsys0 = [0..<30]"
  by (simp_all add: bufsys0_def pipesys.defs bufsys.defs)

lemma bufsys0_holds: "\<not> holds bufsys0 sec i"
  by (cases "i < 30") (simp_all add: holds_def bufsys0_bcache)

lemma bufsys0_inv: "bio_inv bufsys0"
  using bufsys0_holds by (auto intro!: bio_invI simp: bufsys0_bcache)

lemma bufsys0_idle: "idle bufsys0"
  using bufsys0_inv bufsys0_holds
  by (auto simp: idle_def calm_def busy_secs_def clean_free_def bufsys0_bcache intro: exI [of _ 0])

lemma bufsys0_blk: "blk bufsys0 = (\<lambda>_. replicate 512 0)"
  using blk_none [OF bufsys0_inv] bufsys0_holds by (auto simp: fun_eq_iff)

text \<open>Any state with the empty cache of \<open>bufsys0\<close>.\<close>

lemma fresh_cache:
  assumes "bcache s = bcache bufsys0" "lru s = lru bufsys0" "locks s = locks bufsys0" "cpus s = cpus bufsys0" "mycpu s = mycpu bufsys0"
  shows "\<not> holds s x i" "bio_inv s" "calm s" "busy_secs s = {}" "dirty_secs s = {}" "clean_free s = {..<30}" "blk s = disk s"
proof -
  show h: "\<not> holds s x i" for x i using bufsys0_holds [of x i] by (simp add: holds_def assms)
  show inv: "bio_inv s" using h by (auto intro!: bio_invI simp: bufsys0_bcache assms)
  have "lock_ok l s = lock_ok l bufsys0" for l by (simp add: lock_ok_def lock_free_def settled_def cur_cpu_def assms)
  moreover have "cur_cpu s = cur_cpu bufsys0" by (simp add: cur_cpu_def assms)
  ultimately show "calm s" by (simp add: calm_def)
  show "busy_secs s = {}" "dirty_secs s = {}" using h by (simp_all add: busy_secs_def dirty_secs_def)
  show "clean_free s = {..<30}" by (auto simp: clean_free_def bufsys0_bcache assms)
  show "blk s = disk s" using blk_none [OF inv] h by (auto simp: fun_eq_iff)
qed

theorem block_write_read_witness:
  "\<exists>t. replace_block 7 (map (\<lambda>x. x + 1)) bufsys0 = Ok () t \<and> idle t \<and> dwrites t = [(7, replicate 512 1)] \<and>
    (\<forall>x < 1024. \<exists>b u. bread 1 x t = Ok b u \<and> bio_inv u \<and> holding_buf u x b \<and>
       b_data (bcache u ! b) = (if x = 7 then replicate 512 1 else replicate 512 0))"
  using block_write_read [OF bufsys0_idle, of 7 "map (\<lambda>x. x + 1)"]
  unfolding bufsys0_blk by (simp cong: if_cong)

text \<open>
  (C30) A buffer has one user at a time, and the cache has a limit. \<open>bread\<close> returns a block
  only if nobody else uses it, and then the caller is recorded as its user; while all
  buffers are busy or wait for the log to write them, a read of a block outside of the
  cache ends in the panic of \<open>bget\<close>.
\<close>

theorem bread_exclusive:
  assumes "calm s" "bio_inv s" "sec < disksize s"
  shows "(sec \<in> busy_secs s \<longrightarrow> bread 1 sec s \<noteq> Ok b t) \<and>
    (sec \<notin> busy_secs s \<and> (clean_free s \<noteq> {} \<or> (\<exists>i. holds s sec i)) \<longrightarrow>
      (\<exists>b t. bread 1 sec s = Ok b t \<and> holding_buf t sec b \<and> busy_secs t = insert sec (busy_secs s))) \<and>
    (clean_free s = {} \<and> (\<forall>i. \<not> holds s sec i) \<longrightarrow> bread 1 sec s = Panic ''bget: no buffers'')"
proof (intro conjI impI)
  assume "sec \<notin> busy_secs s \<and> (clean_free s \<noteq> {} \<or> (\<exists>i. holds s sec i))"
  then have "bread_ok s sec" using assms(3) by (auto simp: bread_ok_def)
  from bread_spec [OF assms(1,2) this] show "\<exists>b t. bread 1 sec s = Ok b t \<and> holding_buf t sec b \<and>
    busy_secs t = insert sec (busy_secs s)" by blast
qed (use bread_busy [OF assms(1,2)] bread_no_buffers [OF assms(1,2)] in auto)

theorem bread_exclusive_witness:
  "\<exists>b t. bread 1 5 bufsys0 = Ok b t \<and> holding_buf t 5 b \<and> busy_secs t = {5}"
  using bread_exclusive [OF idleD(1,2) [OF bufsys0_idle], of 5] bufsys0_idle by (simp add: idle_def)

end
