(* ===== verification/Log.thy ===== *)
theory Log
  imports Bio
begin

text \<open>
  The redo log (\<open>src/log.c\<close>, and \<open>readsb\<close> of \<open>src/fs.c\<close>). System calls that write
  bracket their writes with \<open>begin_op\<close> and \<open>end_op\<close>; \<open>log_write\<close> records a block in the
  log header and pins its buffer; the last \<open>end_op\<close> commits: it writes the blocks to the
  log, then the header, installs them and clears the header. \<open>recover_from_log\<close> runs at
  boot. The result of this theory is that a crash at any point leaves, after recovery,
  either none or all of a transaction on the disk.
\<close>

unbundle bit_operations_syntax

section \<open>Words in a block\<close>

definition get32 :: "bytes \<Rightarrow> nat \<Rightarrow> u32" where
  "get32 bs off = of_le (take 4 (drop off bs))"

definition put32 :: "bytes \<Rightarrow> nat \<Rightarrow> u32 \<Rightarrow> bytes" where
  "put32 bs off w = take off bs @ le_bytes w @ drop (off + 4) bs"

section \<open>State\<close>

abbreviation (input) LOGSIZE :: nat where "LOGSIZE \<equiv> 30"
abbreviation (input) MAXOPBLOCKS :: int where "MAXOPBLOCKS \<equiv> 10"

record superblock =
  sb_size :: u32
  sb_nblocks :: u32
  sb_ninodes :: u32
  sb_nlog :: u32

record logsys = bufsys +
  log_start :: u32
  log_size :: int
  log_outstanding :: int
  log_committing :: bool
  log_dev :: u32
  lh_n :: int
  lh_sector :: "u32 list"

section \<open>Operations\<close>

definition readsb :: "u32 \<Rightarrow> ('a bufsys_scheme, superblock) kernel" where
  "readsb dev =
     bindK (bread dev 1) (\<lambda>bp.
     bindK (getB bp b_data) (\<lambda>d.
     seqK (brelse bp)
     (ret \<lparr>sb_size = get32 d 0, sb_nblocks = get32 d 4, sb_ninodes = get32 d 8, sb_nlog = get32 d 12\<rparr>)))"

fun install_trans_loop :: "nat \<Rightarrow> nat \<Rightarrow> ('a logsys_scheme, unit) kernel" where
  "install_trans_loop 0 tail = ret ()"
| "install_trans_loop (Suc k) tail =
     bindK (getsK log_dev) (\<lambda>dev.
     bindK (getsK log_start) (\<lambda>start.
     bindK (bread dev (start + of_nat tail + 1)) (\<lambda>lbuf.
     bindK (getsK (\<lambda>s. lh_sector s ! tail)) (\<lambda>sec.
     bindK (bread dev sec) (\<lambda>dbuf.
     bindK (getB lbuf b_data) (\<lambda>d.
     seqK (seqK (setB dbuf (\<lambda>f. f\<lparr>b_data := d\<rparr>)) (bwrite dbuf))
     (seqK (brelse lbuf)
     (seqK (brelse dbuf)
     (install_trans_loop k (Suc tail))))))))))"

definition install_trans :: "('a logsys_scheme, unit) kernel" where
  "install_trans = bindK (getsK lh_n) (\<lambda>n. install_trans_loop (nat n) 0)"

definition head_sectors :: "bytes \<Rightarrow> nat \<Rightarrow> u32 list" where
  "head_sectors d n = map (\<lambda>i. get32 d (4 + 4 * i)) [0..<n]"

definition read_head :: "('a logsys_scheme, unit) kernel" where
  "read_head =
     bindK (getsK log_dev) (\<lambda>dev.
     bindK (getsK log_start) (\<lambda>start.
     bindK (bread dev start) (\<lambda>b.
     bindK (getB b b_data) (\<lambda>d.
     seqK (modifyK (\<lambda>s. s\<lparr>lh_n := sint (get32 d 0)\<rparr>))
     (seqK (modifyK (\<lambda>s. s\<lparr>lh_sector := head_sectors d (nat (lh_n s)) @ drop (nat (lh_n s)) (lh_sector s)\<rparr>))
     (brelse b))))))"

definition put_head :: "bytes \<Rightarrow> int \<Rightarrow> u32 list \<Rightarrow> bytes" where
  "put_head d n secs =
     fold (\<lambda>i d. put32 d (4 + 4 * i) (secs ! i)) [0..<nat n] (put32 d 0 (of_int n))"

definition write_head :: "('a logsys_scheme, unit) kernel" where
  "write_head =
     bindK (getsK log_dev) (\<lambda>dev.
     bindK (getsK log_start) (\<lambda>start.
     bindK (bread dev start) (\<lambda>b.
     bindK (getB b b_data) (\<lambda>d.
     bindK (getsK lh_n) (\<lambda>n.
     bindK (getsK lh_sector) (\<lambda>secs.
     seqK (seqK (setB b (\<lambda>f. f\<lparr>b_data := put_head d n secs\<rparr>)) (bwrite b))
     (brelse b)))))))"

definition recover_from_log :: "('a logsys_scheme, unit) kernel" where
  "recover_from_log =
     seqK read_head
     (seqK install_trans
     (seqK (modifyK (\<lambda>s. s\<lparr>lh_n := 0\<rparr>))
     write_head))"

text \<open>The header takes 124 bytes, so the check of its size in \<open>initlog\<close> never fails.\<close>

definition initlog :: "('a logsys_scheme, unit) kernel" where
  "initlog =
     (if (4 + 4 * LOGSIZE) \<ge> BSIZE then panic ''initlog: too big logheader''
      else
        seqK (initlock Log_lock ''log'')
        (bindK (readsb 1) (\<lambda>sb.
         seqK (modifyK (\<lambda>s. s\<lparr>log_start := sb_size sb - sb_nlog sb, log_size := sint (sb_nlog sb), log_dev := 1\<rparr>))
         recover_from_log)))"

definition begin_op_loop :: "('a logsys_scheme, unit) kernel" where
  "begin_op_loop =
     bindK (getsK log_committing) (\<lambda>c.
     if c then sleep Log_chan Log_lock
     else
       bindK (getsK lh_n) (\<lambda>n.
       bindK (getsK log_outstanding) (\<lambda>out.
       if n + (out + 1) * MAXOPBLOCKS > int LOGSIZE then sleep Log_chan Log_lock
       else
         seqK (modifyK (\<lambda>s. s\<lparr>log_outstanding := out + 1\<rparr>))
         (release Log_lock))))"

definition begin_op :: "('a logsys_scheme, unit) kernel" where
  "begin_op = seqK (acquire Log_lock) begin_op_loop"

definition begin_op_resume :: "('a logsys_scheme, unit) kernel" where
  "begin_op_resume = seqK (sleep_resume Log_lock) begin_op_loop"

fun write_log_loop :: "nat \<Rightarrow> nat \<Rightarrow> ('a logsys_scheme, unit) kernel" where
  "write_log_loop 0 tail = ret ()"
| "write_log_loop (Suc k) tail =
     bindK (getsK log_dev) (\<lambda>dev.
     bindK (getsK log_start) (\<lambda>start.
     bindK (bread dev (start + of_nat tail + 1)) (\<lambda>to.
     bindK (getsK (\<lambda>s. lh_sector s ! tail)) (\<lambda>sec.
     bindK (bread dev sec) (\<lambda>from_b.
     bindK (getB from_b b_data) (\<lambda>d.
     seqK (seqK (setB to (\<lambda>f. f\<lparr>b_data := d\<rparr>)) (bwrite to))
     (seqK (brelse from_b)
     (seqK (brelse to)
     (write_log_loop k (Suc tail))))))))))"

definition write_log :: "('a logsys_scheme, unit) kernel" where
  "write_log = bindK (getsK lh_n) (\<lambda>n. write_log_loop (nat n) 0)"

definition commit :: "('a logsys_scheme, unit) kernel" where
  "commit =
     bindK (getsK lh_n) (\<lambda>n.
     whenK (n > 0)
       (seqK write_log
       (seqK write_head
       (seqK install_trans
       (seqK (modifyK (\<lambda>s. s\<lparr>lh_n := 0\<rparr>))
       write_head)))))"

definition end_op :: "('a logsys_scheme, unit) kernel" where
  "end_op =
     seqK (acquire Log_lock)
     (seqK (modifyK (\<lambda>s. s\<lparr>log_outstanding := log_outstanding s - 1\<rparr>))
     (bindK (getsK log_committing) (\<lambda>c.
      if c then panic ''log.committing''
      else
        bindK (getsK log_outstanding) (\<lambda>out.
        seqK (if out = 0 then modifyK (\<lambda>s. s\<lparr>log_committing := True\<rparr>) else wakeup Log_chan)
        (seqK (release Log_lock)
        (whenK (out = 0)
          (seqK commit
          (seqK (acquire Log_lock)
          (seqK (modifyK (\<lambda>s. s\<lparr>log_committing := False\<rparr>))
          (seqK (wakeup Log_chan)
          (release Log_lock)))))))))))"

definition log_write :: "nat \<Rightarrow> ('a logsys_scheme, unit) kernel" where
  "log_write b =
     bindK (getsK lh_n) (\<lambda>n.
     bindK (getsK log_size) (\<lambda>sz.
     if n \<ge> int LOGSIZE \<or> n \<ge> sz - 1 then panic ''too big a transaction''
     else bindK (getsK log_outstanding) (\<lambda>out.
       if out < 1 then panic ''log_write outside of trans''
       else
         seqK (acquire Log_lock)
         (bindK (getB b b_sector) (\<lambda>sec.
          bindK (getsK (\<lambda>s. (lh_n s, find_index (\<lambda>x. x = sec) (take (nat (lh_n s)) (lh_sector s))))) (\<lambda>(n, f).
          let i = (case f of Some i \<Rightarrow> i | None \<Rightarrow> nat n) in
          seqK (modifyK (\<lambda>s. s\<lparr>lh_sector := (lh_sector s)[i := sec]\<rparr>))
          (seqK (whenK (int i = n) (modifyK (\<lambda>s. s\<lparr>lh_n := n + 1\<rparr>)))
          (seqK (setB b (\<lambda>f. f\<lparr>b_dirty := True\<rparr>))
          (release Log_lock)))))))))"

section \<open>Lemmas: words in a block\<close>

lemma length_le_bytes [simp]: "length (le_bytes w) = 4"
  by (simp add: le_bytes_def)

lemma of_le_bytes [simp]: "of_le (le_bytes w) = w"
proof (rule bit_word_eqI)
  fix n assume "n < LENGTH(32)"
  then consider "n < 8" | "8 \<le> n" "n < 16" | "16 \<le> n" "n < 24" | "24 \<le> n" "n < 32" by force
  then show "bit (of_le (le_bytes w)) n = bit w n"
    by cases (auto simp: le_bytes_def bit_simps)
qed

lemma length_put32 [simp]: "off + 4 \<le> length bs \<Longrightarrow> length (put32 bs off w) = length bs"
  by (simp add: put32_def)

lemma get32_put32 [simp]: "off + 4 \<le> length bs \<Longrightarrow> get32 (put32 bs off w) off = w"
  by (simp add: get32_def put32_def)

lemma get32_put32_other:
  "off + 4 \<le> length bs \<Longrightarrow> off' + 4 \<le> length bs \<Longrightarrow> off' + 4 \<le> off \<or> off + 4 \<le> off' \<Longrightarrow>
   get32 (put32 bs off w) off' = get32 bs off'"
  unfolding get32_def
  by (rule arg_cong [of _ _ of_le], rule nth_equalityI) (auto simp: put32_def nth_append)

section \<open>Lemmas: the header block\<close>

lemma put_head_Suc:
  "put_head d (int (Suc n)) secs = put32 (fold (\<lambda>i d. put32 d (4 + 4 * i) (secs ! i)) [0..<n] (put32 d 0 (of_nat (Suc n))))
     (4 + 4 * n) (secs ! n)"
  by (simp add: put_head_def del: of_nat_Suc)

lemma length_fold_put:
  "4 + 4 * n \<le> length d \<Longrightarrow> length (fold (\<lambda>i d. put32 d (4 + 4 * i) (secs ! i)) [0..<n] d) = length d"
  by (induction n) simp_all

lemma get32_fold_put_0:
  "4 + 4 * n \<le> length d \<Longrightarrow> get32 (fold (\<lambda>i d. put32 d (4 + 4 * i) (secs ! i)) [0..<n] d) 0 = get32 d 0"
  by (induction n) (simp_all add: get32_put32_other length_fold_put)

lemma get32_fold_put:
  "4 + 4 * n \<le> length d \<Longrightarrow> i < n \<Longrightarrow>
   get32 (fold (\<lambda>i d. put32 d (4 + 4 * i) (secs ! i)) [0..<n] d) (4 + 4 * i) = secs ! i"
proof (induction n)
  case (Suc n)
  then show ?case
    by (cases "i = n") (simp_all add: get32_put32_other length_fold_put)
qed simp

lemma put_head_get:
  assumes "length d = 512" "n \<le> 30"
  shows "length (put_head d (int n) secs) = 512" "sint (get32 (put_head d (int n) secs) 0) = int n"
    "n \<le> length secs \<Longrightarrow> head_sectors (put_head d (int n) secs) n = take n secs"
proof -
  have s: "sint (of_nat n :: u32) = int n" using assms(2) by (simp add: signed_of_nat signed_take_bit_int_eq_self)
  show "length (put_head d (int n) secs) = 512" using assms by (simp add: put_head_def length_fold_put)
  show "sint (get32 (put_head d (int n) secs) 0) = int n"
    using assms s by (simp add: put_head_def get32_fold_put_0)
  show "head_sectors (put_head d (int n) secs) n = take n secs" if "n \<le> length secs"
    using assms that by (intro nth_equalityI) (simp_all add: head_sectors_def put_head_def get32_fold_put)
qed

section \<open>Lemmas: sequences of disk writes\<close>

definition put_all :: "(u32 \<times> bytes) list \<Rightarrow> (u32 \<Rightarrow> bytes) \<Rightarrow> u32 \<Rightarrow> bytes" where
  "put_all ws D = fold (\<lambda>(a, d) D. D(a := d)) ws D"

lemma put_all_simps [simp]:
  "put_all [] D = D" "put_all ((a, d) # ws) D = put_all ws (D(a := d))"
  "put_all (ws @ vs) D = put_all vs (put_all ws D)"
  by (simp_all add: put_all_def)

lemma put_all_other: "a \<notin> fst ` set ws \<Longrightarrow> put_all ws D a = D a"
  by (induction ws arbitrary: D) auto

lemma put_all_in: "distinct (map fst ws) \<Longrightarrow> (a, d) \<in> set ws \<Longrightarrow> put_all ws D a = d"
proof (induction ws arbitrary: D)
  case (Cons w ws)
  obtain x y where w: "w = (x, y)" by fastforce
  show ?case
  proof (cases "(a, d) \<in> set ws")
    case False
    then have "x = a" "y = d" using Cons.prems w by auto
    moreover have "a \<notin> fst ` set ws" using Cons.prems w \<open>x = a\<close> by simp
    ultimately show ?thesis by (simp add: w put_all_other)
  qed (use Cons w in simp)
qed simp

lemma put_all_upd: "a \<notin> fst ` set ws \<Longrightarrow> put_all ws (D(a := d)) = (put_all ws D)(a := d)"
  by (induction ws arbitrary: D) (auto simp: fun_upd_twist)

section \<open>Lemmas: copying a block to another\<close>

lemma holding_buf_frame:
  "holding_buf s sec b \<Longrightarrow> \<forall>i. i \<noteq> c \<longrightarrow> bcache t ! i = bcache s ! i \<Longrightarrow> b \<noteq> c \<Longrightarrow> holding_buf t sec b"
  by (simp add: holding_buf_def holds_def)

lemma holding_buf_neq: "holding_buf s a i \<Longrightarrow> holding_buf s b j \<Longrightarrow> a \<noteq> b \<Longrightarrow> i \<noteq> j"
  by (auto simp: holding_buf_def holds_def)

definition two_free :: "'a bufsys_scheme \<Rightarrow> bool" where
  "two_free s = (\<exists>x y. x \<noteq> y \<and> {x, y} \<subseteq> clean_free s)"

lemma two_free_mono: "two_free s \<Longrightarrow> clean_free s \<subseteq> clean_free t \<Longrightarrow> two_free t"
  by (auto simp: two_free_def)

lemma bread_two:
  assumes idle: "idle s" and sec: "a < disksize s" "b < disksize s" "a \<noteq> b" "a \<notin> dirty_secs s"
    and room: "b \<in> dirty_secs s \<or> two_free s"
  shows "\<exists>i j u v. bread 1 a s = Ok i u \<and> rest_same s u \<and> bread 1 b u = Ok j v \<and> rest_same s v \<and>
    calm v \<and> bio_inv v \<and> holding_buf v a i \<and> holding_buf v b j \<and> b_data (bcache v ! i) = blk s a \<and>
    b_data (bcache v ! j) = blk s b \<and> blk v = blk s \<and> disk v = disk s \<and> dwrites v = dwrites s \<and>
    dirty_secs v = dirty_secs s \<and> busy_secs v = {a, b} \<and> clean_free v = clean_free s - {i, j} \<and> \<not> b_dirty (bcache v ! i)"
proof -
  obtain i u where u: "bread 1 a s = Ok i u" "bio_inv u" "calm u" "rest_same s u" "holding_buf u a i"
    "b_data (bcache u ! i) = blk s a" "blk u = blk s" "disk u = disk s" "dwrites u = dwrites s"
    "dirty_secs u = dirty_secs s" "busy_secs u = {a}" "clean_free s - {i} = clean_free u"
    using bread_idle [OF idle sec(1)] by blast
  have "(\<exists>k. holds u b k) \<or> clean_free u \<noteq> {}"
  proof (cases "b \<in> dirty_secs s")
    case True
    then show ?thesis using u(10) by (auto simp: dirty_secs_def)
  next
    case False
    then obtain x y where "x \<noteq> y" "x \<in> clean_free s" "y \<in> clean_free s" using room by (auto simp: two_free_def)
    then show ?thesis unfolding u(12) [symmetric] by (cases "x = i") auto
  qed
  then have "bread_ok u b" using sec u(4,11) by (auto simp: bread_ok_def rest_same_def)
  then obtain j v where v: "bread 1 b u = Ok j v" "bio_inv v" "calm v" "rest_same u v" "holding_buf v b j"
    "b_data (bcache v ! j) = blk u b" "blk v = blk u" "disk v = disk u" "dwrites v = dwrites u"
    "dirty_secs v = dirty_secs u" "busy_secs v = insert b (busy_secs u)" "clean_free u - {j} = clean_free v"
    "\<not> b_busy (bcache u ! j)" "\<forall>k. k \<noteq> j \<longrightarrow> bcache v ! k = bcache u ! k"
    using bread_spec [OF u(3,2)] by blast
  have ij: "i \<noteq> j" using v(13) u(5) by (auto simp: holding_buf_def)
  have "holding_buf v a i" using holding_buf_frame [OF u(5) v(14) ij] .
  moreover have "\<not> b_dirty (bcache u ! i)"
  proof (rule clean_free_dirty)
    show "holds u a i" using u(5) by (simp add: holding_buf_def)
    show "a \<notin> dirty_secs u" using u(10) sec(4) by simp
  qed
  moreover have "rest_same s v" using u(4) v(4) by (rule rest_same_trans)
  moreover have "clean_free v = clean_free s - {i, j}" using u(12) v(12) by blast
  moreover have "busy_secs v = {a, b}" using u(11) v(11) by auto
  moreover have "bcache v ! i = bcache u ! i" using v(14) ij by blast
  ultimately show ?thesis using u(1,4,6-10) v(1-3,5-10)
    by (intro exI [of _ i] exI [of _ j] exI [of _ u] exI [of _ v]) simp
qed

lemma brelse_two:
  assumes "calm v" "bio_inv v" "holding_buf v a i" "holding_buf v b j" "a \<noteq> b" "busy_secs v = {a, b}"
  shows "\<exists>u t. brelse i v = Ok () u \<and> brelse j u = Ok () t \<and> calm t \<and> bio_inv t \<and> rest_same v t \<and> blk t = blk v \<and>
    disk t = disk v \<and> dwrites t = dwrites v \<and> dirty_secs t = dirty_secs v \<and> busy_secs t = {} \<and>
    clean_free t = clean_free v \<union> (if b_dirty (bcache v ! i) then {} else {i}) \<union> (if b_dirty (bcache v ! j) then {} else {j})"
proof -
  obtain u where u: "brelse i v = Ok () u" "bio_inv u" "calm u" "rest_same v u" "blk u = blk v" "disk u = disk v"
    "dwrites u = dwrites v" "dirty_secs u = dirty_secs v" "busy_secs u = busy_secs v - {a}"
    "clean_free u = clean_free v \<union> (if b_dirty (bcache v ! i) then {} else {i})" "\<forall>k. k \<noteq> i \<longrightarrow> bcache u ! k = bcache v ! k"
    using brelse_spec [OF assms(1-3)] by blast
  have ji: "j \<noteq> i" using holding_buf_neq [OF assms(4,3)] assms(5) by blast
  obtain t where t: "brelse j u = Ok () t" "bio_inv t" "calm t" "rest_same u t" "blk t = blk u" "disk t = disk u"
    "dwrites t = dwrites u" "dirty_secs t = dirty_secs u" "busy_secs t = busy_secs u - {b}"
    "clean_free t = clean_free u \<union> (if b_dirty (bcache u ! j) then {} else {j})"
    using brelse_spec [OF u(3,2) holding_buf_frame [OF assms(4) u(11) ji]] by blast
  have "rest_same v t" using u(4) t(4) by (rule rest_same_trans)
  moreover have "busy_secs t = {}" using u(9) t(9) assms(5,6) by auto
  moreover have "bcache u ! j = bcache v ! j" using u(11) ji by blast
  ultimately show ?thesis using u(1,5-8,10) t(1-3,5-8,10)
    by (intro exI [of _ u] exI [of _ t]) simp
qed

lemma rest_same_log:
  assumes "rest_same s t"
  shows "log_dev t = log_dev s" "log_start t = log_start s" "lh_sector t = lh_sector s" "lh_n t = lh_n s"
    "log_size t = log_size s" "log_outstanding t = log_outstanding s" "log_committing t = log_committing s"
    "disksize t = disksize s"
  using assms by (cases s, cases t, simp add: rest_same_def)+

definition copied :: "u32 \<Rightarrow> u32 \<Rightarrow> 'a bufsys_scheme \<Rightarrow> 'a bufsys_scheme \<Rightarrow> bool" where
  "copied a b s t = (idle t \<and> rest_same s t \<and> blk t = (blk s)(b := blk s a) \<and> disk t = (disk s)(b := blk s a) \<and>
     dwrites t = dwrites s @ [(b, blk s a)] \<and> dirty_secs t = dirty_secs s - {b})"

lemma install_step:
  assumes idle: "idle s" and dev: "log_dev s = 1" and l: "log_start s + of_nat tail + 1 = l" and h: "lh_sector s ! tail = h"
    and sec: "l < disksize s" "h < disksize s" "l \<noteq> h" "l \<notin> dirty_secs s" "h \<in> dirty_secs s \<or> two_free s"
  shows "\<exists>t. install_trans_loop (Suc k) tail s = install_trans_loop k (Suc tail) t \<and> copied l h s t \<and> clean_free s \<subseteq> clean_free t"
proof -
  obtain i j u v where v: "bread 1 l s = Ok i u" "rest_same s u" "bread 1 h u = Ok j v" "rest_same s v"
    "calm v" "bio_inv v" "holding_buf v l i" "holding_buf v h j" "b_data (bcache v ! i) = blk s l"
    "blk v = blk s" "disk v = disk s" "dwrites v = dwrites s"
    "dirty_secs v = dirty_secs s" "busy_secs v = {l, h}" "clean_free v = clean_free s - {i, j}" "\<not> b_dirty (bcache v ! i)"
    using bread_two [OF idle sec] by (elim exE conjE) (rule that; assumption)
  have hd: "h < disksize v" using v(4) sec(2) by (simp add: rest_same_def)
  obtain w where w: "seqK (setB j (\<lambda>f. f\<lparr>b_data := blk s l\<rparr>)) (bwrite j) v = Ok () w" "bio_inv w" "calm w" "rest_same v w"
    "holding_buf w h j" "\<not> b_dirty (bcache w ! j)" "blk w = (blk v)(h := blk s l)" "disk w = (disk v)(h := blk s l)"
    "dwrites w = dwrites v @ [(h, blk s l)]" "dirty_secs w = dirty_secs v - {h}" "busy_secs w = busy_secs v"
    "clean_free w = clean_free v" "\<forall>k. k \<noteq> j \<longrightarrow> bcache w ! k = bcache v ! k"
    using bwrite_spec [OF v(5,6,8) hd, of "blk s l"] by blast
  have ij: "i \<noteq> j" using holding_buf_neq [OF v(7,8) sec(3)] .
  have bs: "busy_secs w = {l, h}" using w(11) v(14) by simp
  obtain x t where t: "brelse i w = Ok () x" "brelse j x = Ok () t" "calm t" "bio_inv t" "rest_same w t" "blk t = blk w"
    "disk t = disk w" "dwrites t = dwrites w" "dirty_secs t = dirty_secs w" "busy_secs t = {}"
    "clean_free t = clean_free w \<union> (if b_dirty (bcache w ! i) then {} else {i}) \<union> (if b_dirty (bcache w ! j) then {} else {j})"
    using brelse_two [OF w(3,2) holding_buf_frame [OF v(7) w(13) ij] w(5) sec(3) bs] by blast
  have "bcache w ! i = bcache v ! i" using w(13) ij by blast
  then have "clean_free t = clean_free v \<union> {i} \<union> {j}" using t(11) w(6,12) v(16) by simp
  then have cf: "clean_free s \<subseteq> clean_free t" "clean_free t \<noteq> {}" using v(15) by blast+
  have "seqK (seqK (setB j (\<lambda>f. f\<lparr>b_data := blk s l\<rparr>)) (bwrite j)) m v = m w" for m :: "('a logsys_scheme, unit) kernel"
    by (rule seqK_Ok) (rule w(1))
  then have "install_trans_loop (Suc k) tail s = install_trans_loop k (Suc tail) t"
    using v(1,3,9) dev l h rest_same_log(3) [OF v(2)] t(1,2) by (simp add: getB_def bindK_run seqK_run [of "brelse b" for b])
  moreover have "rest_same s t" using v(4) w(4) t(5) by (blast intro: rest_same_trans)
  ultimately show ?thesis using v(10-13) w(7-10) t(3,4,6-10) cf by (intro exI [of _ t]) (simp add: copied_def idle_def)
qed

lemma write_log_step:
  assumes idle: "idle s" and dev: "log_dev s = 1" and l: "log_start s + of_nat tail + 1 = l" and h: "lh_sector s ! tail = h"
    and sec: "l < disksize s" "h < disksize s" "l \<noteq> h" "l \<notin> dirty_secs s" "h \<in> dirty_secs s \<or> two_free s"
  shows "\<exists>t. write_log_loop (Suc k) tail s = write_log_loop k (Suc tail) t \<and> copied h l s t"
proof -
  obtain i j u v where v: "bread 1 l s = Ok i u" "rest_same s u" "bread 1 h u = Ok j v" "rest_same s v"
    "calm v" "bio_inv v" "holding_buf v l i" "holding_buf v h j" "b_data (bcache v ! j) = blk s h"
    "blk v = blk s" "disk v = disk s" "dwrites v = dwrites s"
    "dirty_secs v = dirty_secs s" "busy_secs v = {l, h}" "clean_free v = clean_free s - {i, j}" "\<not> b_dirty (bcache v ! i)"
    using bread_two [OF idle sec] by (elim exE conjE) (rule that; assumption)
  have ld: "l < disksize v" using v(4) sec(1) by (simp add: rest_same_def)
  obtain w where w: "seqK (setB i (\<lambda>f. f\<lparr>b_data := blk s h\<rparr>)) (bwrite i) v = Ok () w" "bio_inv w" "calm w" "rest_same v w"
    "holding_buf w l i" "\<not> b_dirty (bcache w ! i)" "blk w = (blk v)(l := blk s h)" "disk w = (disk v)(l := blk s h)"
    "dwrites w = dwrites v @ [(l, blk s h)]" "dirty_secs w = dirty_secs v - {l}" "busy_secs w = busy_secs v"
    "clean_free w = clean_free v" "\<forall>k. k \<noteq> i \<longrightarrow> bcache w ! k = bcache v ! k"
    using bwrite_spec [OF v(5,6,7) ld, of "blk s h"] by blast
  have ji: "j \<noteq> i" using holding_buf_neq [OF v(8,7)] sec(3) by blast
  have bs: "busy_secs w = {h, l}" using w(11) v(14) by auto
  have hl: "h \<noteq> l" using sec(3) by simp
  obtain x t where t: "brelse j w = Ok () x" "brelse i x = Ok () t" "calm t" "bio_inv t" "rest_same w t" "blk t = blk w"
    "disk t = disk w" "dwrites t = dwrites w" "dirty_secs t = dirty_secs w" "busy_secs t = {}"
    "clean_free t = clean_free w \<union> (if b_dirty (bcache w ! j) then {} else {j}) \<union> (if b_dirty (bcache w ! i) then {} else {i})"
    using brelse_two [OF w(3,2) holding_buf_frame [OF v(8) w(13) ji] w(5) hl bs] by blast
  have cf: "clean_free t \<noteq> {}" using t(11) w(6) by simp
  have "seqK (seqK (setB i (\<lambda>f. f\<lparr>b_data := blk s h\<rparr>)) (bwrite i)) m v = m w" for m :: "('a logsys_scheme, unit) kernel"
    by (rule seqK_Ok) (rule w(1))
  then have "write_log_loop (Suc k) tail s = write_log_loop k (Suc tail) t"
    using v(1,3,9) dev l h rest_same_log(3) [OF v(2)] t(1,2) by (simp add: getB_def bindK_run seqK_run [of "brelse b" for b])
  moreover have "rest_same s t" using v(4) w(4) t(5) by (blast intro: rest_same_trans)
  ultimately show ?thesis using v(10-13) w(7-10) t(3,4,6-10) cf sec(4)
    by (intro exI [of _ t]) (simp add: copied_def idle_def)
qed

section \<open>Lemmas: the log on the disk\<close>

text \<open>
  \<open>log_area\<close>: the sectors of the log. \<open>log_at s secs\<close>: the geometry of the log is sane and
  the header in memory lists the sectors \<open>secs\<close>, all different and outside of the log.
\<close>

definition log_area :: "'a logsys_scheme \<Rightarrow> u32 set" where
  "log_area s = {x. unat (log_start s) \<le> unat x \<and> unat x < unat (log_start s) + nat (log_size s)}"

definition log_sec :: "'a logsys_scheme \<Rightarrow> nat \<Rightarrow> u32" where
  "log_sec s i = log_start s + of_nat i + 1"

definition log_geom :: "'a logsys_scheme \<Rightarrow> bool" where
  "log_geom s = (log_dev s = 1 \<and> 0 < log_size s \<and> log_size s \<le> 30 \<and> length (lh_sector s) = 30 \<and>
     unat (log_start s) + nat (log_size s) \<le> unat (disksize s))"

definition log_at :: "'a logsys_scheme \<Rightarrow> u32 list \<Rightarrow> bool" where
  "log_at s secs = (log_geom s \<and> lh_n s = int (length secs) \<and> (\<forall>i < length secs. lh_sector s ! i = secs ! i) \<and>
     int (length secs) < log_size s \<and> distinct secs \<and> (\<forall>x \<in> set secs. x < disksize s \<and> x \<notin> log_area s))"

lemma log_at_same:
  assumes "rest_same s t"
  shows "log_at t secs = log_at s secs" "log_sec t = log_sec s" "log_area t = log_area s" "log_geom t = log_geom s"
  using rest_same_log [OF assms] by (simp_all add: log_at_def log_geom_def log_area_def log_sec_def fun_eq_iff)

lemma log_sec_unat:
  assumes "log_geom s" "int i + 1 < log_size s"
  shows "unat (log_sec s i) = unat (log_start s) + i + 1" "log_sec s i < disksize s" "log_sec s i \<in> log_area s"
proof -
  have lt: "unat (disksize s) < 2 ^ 32" using unsigned_less [of "disksize s", where 'a = nat] by simp
  have b: "unat (log_start s) + i + 1 < unat (disksize s)" using assms by (auto simp: log_geom_def)
  have "unat (of_nat i :: u32) = i" using b lt by (simp add: unat_of_nat)
  then show u: "unat (log_sec s i) = unat (log_start s) + i + 1"
    using b lt by (simp add: log_sec_def unat_word_ariths)
  show "log_sec s i < disksize s" using u b by (simp add: word_less_nat_alt)
  show "log_sec s i \<in> log_area s" using u assms by (simp add: log_area_def)
qed

lemma log_sec_inj:
  assumes "log_geom s" "int i + 1 < log_size s" "int j + 1 < log_size s" "log_sec s i = log_sec s j"
  shows "i = j"
proof -
  have "unat (log_start s) + i + 1 = unat (log_start s) + j + 1"
    unfolding log_sec_unat(1) [OF assms(1,2), symmetric] log_sec_unat(1) [OF assms(1,3), symmetric] assms(4) ..
  then show ?thesis by simp
qed

lemma log_sec_start:
  assumes "log_geom s" "int i + 1 < log_size s"
  shows "log_sec s i \<noteq> log_start s" "log_start s < disksize s" "log_start s \<in> log_area s"
proof -
  show "log_sec s i \<noteq> log_start s"
  proof
    assume "log_sec s i = log_start s"
    with log_sec_unat(1) [OF assms] show False by simp
  qed
qed (use assms(1) in \<open>auto simp: log_geom_def log_area_def word_less_nat_alt\<close>)

lemma log_at_nth:
  assumes "log_at s secs" "i < length secs"
  shows "lh_sector s ! i = secs ! i" "secs ! i < disksize s" "secs ! i \<notin> log_area s" "int i + 1 < log_size s"
    "log_geom s" "log_sec s i \<noteq> secs ! i"
proof -
  show "lh_sector s ! i = secs ! i" using assms by (simp add: log_at_def)
  have "secs ! i < disksize s \<and> secs ! i \<notin> log_area s" using assms(1) nth_mem [OF assms(2)] unfolding log_at_def by blast
  then show "secs ! i < disksize s" and a: "secs ! i \<notin> log_area s" by simp_all
  show g: "log_geom s" "int i + 1 < log_size s" using assms by (simp_all add: log_at_def)
  show "log_sec s i \<noteq> secs ! i"
  proof
    assume "log_sec s i = secs ! i"
    with log_sec_unat(3) [OF g(1,2)] a show False by simp
  qed
qed

definition log_copies :: "'a logsys_scheme \<Rightarrow> u32 list \<Rightarrow> nat \<Rightarrow> nat \<Rightarrow> (u32 \<times> bytes) list" where
  "log_copies s secs i j = map (\<lambda>i. (log_sec s i, blk s (secs ! i))) [i..<j]"

definition home_copies :: "'a logsys_scheme \<Rightarrow> u32 list \<Rightarrow> nat \<Rightarrow> nat \<Rightarrow> (u32 \<times> bytes) list" where
  "home_copies s secs i j = map (\<lambda>i. (secs ! i, blk s (log_sec s i))) [i..<j]"

lemma upt_head: "[i..<i + Suc k] = i # [Suc i..<Suc i + k]"
  by (simp add: upt_conv_Cons del: upt_Suc)

lemma write_log_loop_spec:
  assumes "idle s" "log_at s secs" "tail + k \<le> length secs" "set secs \<subseteq> dirty_secs s" "dirty_secs s \<inter> log_area s = {}"
  shows "\<exists>t. write_log_loop k tail s = Ok () t \<and> idle t \<and> rest_same s t \<and> dirty_secs t = dirty_secs s \<and>
    dwrites t = dwrites s @ log_copies s secs tail (tail + k) \<and>
    disk t = put_all (log_copies s secs tail (tail + k)) (disk s) \<and>
    blk t = put_all (log_copies s secs tail (tail + k)) (blk s)"
  using assms
proof (induction k arbitrary: tail s)
  case 0
  then show ?case by (simp add: log_copies_def)
next
  case (Suc k)
  have i: "tail < length secs" using Suc.prems(3) by simp
  note n = log_at_nth [OF Suc.prems(2) i]
  note l = log_sec_unat [OF n(5,4)]
  have nd: "log_sec s tail \<notin> dirty_secs s" using l(3) Suc.prems(5) by blast
  have d: "secs ! tail \<in> dirty_secs s" using i Suc.prems(4) by auto
  have dev: "log_dev s = 1" using Suc.prems(2) by (simp add: log_at_def log_geom_def)
  obtain u where u: "write_log_loop (Suc k) tail s = write_log_loop k (Suc tail) u"
    and c: "copied (secs ! tail) (log_sec s tail) s u"
    using write_log_step [OF Suc.prems(1) dev _ n(1) l(2) n(2) n(6) nd, of k] d
    by (auto simp: log_sec_def)
  then have u': "idle u" "rest_same s u" "dirty_secs u = dirty_secs s" using nd by (auto simp: copied_def)
  note same = log_at_same [OF u'(2)]
  obtain t where t: "write_log_loop k (Suc tail) u = Ok () t" "idle t" "rest_same u t" "dirty_secs t = dirty_secs u"
    "dwrites t = dwrites u @ log_copies u secs (Suc tail) (Suc tail + k)"
    "disk t = put_all (log_copies u secs (Suc tail) (Suc tail + k)) (disk u)"
    "blk t = put_all (log_copies u secs (Suc tail) (Suc tail + k)) (blk u)"
    using Suc.IH [of u "Suc tail"] u' Suc.prems(2-5) unfolding same by auto
  have bu: "blk u = (blk s)(log_sec s tail := blk s (secs ! tail))" using c by (simp add: copied_def)
  have "blk u (secs ! i) = blk s (secs ! i)" if "i < length secs" for i
    unfolding bu by (rule fun_upd_other) (use log_at_nth(3) [OF Suc.prems(2) that] l(3) in metis)
  then have e: "log_copies s secs tail (tail + Suc k) =
      (log_sec s tail, blk s (secs ! tail)) # log_copies u secs (Suc tail) (Suc tail + k)"
    using Suc.prems(3) unfolding log_copies_def same upt_head by auto
  from u t c u'(3) rest_same_trans [OF u'(2) t(3)] show ?case
    by (simp only: e put_all_simps) (simp add: copied_def)
qed

lemma install_trans_loop_spec:
  assumes "idle s" "log_at s secs" "tail + k \<le> length secs" "dirty_secs s \<inter> log_area s = {}"
    "(\<forall>i < length secs. tail \<le> i \<longrightarrow> secs ! i \<in> dirty_secs s) \<or> two_free s"
  shows "\<exists>t. install_trans_loop k tail s = Ok () t \<and> idle t \<and> rest_same s t \<and> clean_free s \<subseteq> clean_free t \<and>
    dirty_secs t = dirty_secs s - (\<lambda>i. secs ! i) ` {tail..<tail + k} \<and>
    dwrites t = dwrites s @ home_copies s secs tail (tail + k) \<and>
    disk t = put_all (home_copies s secs tail (tail + k)) (disk s) \<and>
    blk t = put_all (home_copies s secs tail (tail + k)) (blk s)"
  using assms
proof (induction k arbitrary: tail s)
  case 0
  then show ?case by (simp add: home_copies_def)
next
  case (Suc k)
  have i: "tail < length secs" using Suc.prems(3) by simp
  note n = log_at_nth [OF Suc.prems(2) i]
  note l = log_sec_unat [OF n(5,4)]
  have nd: "log_sec s tail \<notin> dirty_secs s" using l(3) Suc.prems(4) by blast
  have room: "secs ! tail \<in> dirty_secs s \<or> two_free s" using i Suc.prems(5) by blast
  have dev: "log_dev s = 1" using Suc.prems(2) by (simp add: log_at_def log_geom_def)
  obtain u where u: "install_trans_loop (Suc k) tail s = install_trans_loop k (Suc tail) u"
    and c: "copied (log_sec s tail) (secs ! tail) s u" and cf: "clean_free s \<subseteq> clean_free u"
    using install_step [OF Suc.prems(1) dev _ n(1) l(2) n(2) n(6) nd room, of k] by (auto simp: log_sec_def)
  then have u': "idle u" "rest_same s u" "dirty_secs u = dirty_secs s - {secs ! tail}" by (auto simp: copied_def)
  note same = log_at_same [OF u'(2)]
  have "distinct secs" using Suc.prems(2) by (simp add: log_at_def)
  then have "secs ! i \<noteq> secs ! tail" if "i < length secs" "Suc tail \<le> i" for i
    using that i by (simp add: nth_eq_iff_index_eq)
  then have room': "(\<forall>i < length secs. Suc tail \<le> i \<longrightarrow> secs ! i \<in> dirty_secs u) \<or> two_free u"
    using Suc.prems(5) u'(3) two_free_mono [OF _ cf] by auto
  have dl: "dirty_secs u \<inter> log_area s = {}" using u'(3) Suc.prems(4) by blast
  obtain t where t: "install_trans_loop k (Suc tail) u = Ok () t" "idle t" "rest_same u t" "clean_free u \<subseteq> clean_free t"
    "dirty_secs t = dirty_secs u - (\<lambda>i. secs ! i) ` {Suc tail..<Suc tail + k}"
    "dwrites t = dwrites u @ home_copies u secs (Suc tail) (Suc tail + k)"
    "disk t = put_all (home_copies u secs (Suc tail) (Suc tail + k)) (disk u)"
    "blk t = put_all (home_copies u secs (Suc tail) (Suc tail + k)) (blk u)"
    using Suc.IH [of u "Suc tail"] u'(1) Suc.prems(2,3) dl room' unfolding same by auto
  have bu: "blk u = (blk s)(secs ! tail := blk s (log_sec s tail))" using c by (simp add: copied_def)
  have "blk u (log_sec s i) = blk s (log_sec s i)" if "i < length secs" for i
    unfolding bu using log_sec_unat(3) [OF log_at_nth(5,4) [OF Suc.prems(2) that]] n(3)
    by (intro fun_upd_other) metis
  then have e: "home_copies s secs tail (tail + Suc k) =
      (secs ! tail, blk s (log_sec s tail)) # home_copies u secs (Suc tail) (Suc tail + k)"
    using Suc.prems(3) unfolding home_copies_def same upt_head by auto
  have "{tail..<tail + Suc k} = insert tail {Suc tail..<Suc tail + k}" by auto
  then have ds: "dirty_secs t = dirty_secs s - (\<lambda>i. secs ! i) ` {tail..<tail + Suc k}"
    using t(5) u'(3) by auto
  have "clean_free s \<subseteq> clean_free t" using cf t(4) by blast
  with u t c ds rest_same_trans [OF u'(2) t(3)] show ?case
    by (simp only: e put_all_simps) (simp add: copied_def)
qed

section \<open>Lemmas: header, commit and recovery\<close>

lemma bio_log_upd [simp]:
  "calm (s\<lparr>lh_n := x\<rparr>) = calm s" "bio_inv (s\<lparr>lh_n := x\<rparr>) = bio_inv s" "blk (s\<lparr>lh_n := x\<rparr>) = blk s"
  "dirty_secs (s\<lparr>lh_n := x\<rparr>) = dirty_secs s" "busy_secs (s\<lparr>lh_n := x\<rparr>) = busy_secs s"
  "clean_free (s\<lparr>lh_n := x\<rparr>) = clean_free s" "holding_buf (s\<lparr>lh_n := x\<rparr>) = holding_buf s"
  "calm (s\<lparr>lh_sector := y\<rparr>) = calm s" "bio_inv (s\<lparr>lh_sector := y\<rparr>) = bio_inv s" "blk (s\<lparr>lh_sector := y\<rparr>) = blk s"
  "dirty_secs (s\<lparr>lh_sector := y\<rparr>) = dirty_secs s" "busy_secs (s\<lparr>lh_sector := y\<rparr>) = busy_secs s"
  "clean_free (s\<lparr>lh_sector := y\<rparr>) = clean_free s" "holding_buf (s\<lparr>lh_sector := y\<rparr>) = holding_buf s"
  by (simp_all add: calm_def lock_ok_def lock_free_def settled_def cur_cpu_def bio_inv_def blk_def cached_def
      dirty_secs_def busy_secs_def clean_free_def holding_buf_def holds_def fun_eq_iff split: option.split)

lemma idle_log_upd [simp]:
  "idle (s\<lparr>lh_n := x\<rparr>) = idle s" "idle (s\<lparr>lh_sector := y\<rparr>) = idle s"
  "two_free (s\<lparr>lh_n := x\<rparr>) = two_free s" "two_free (s\<lparr>lh_sector := y\<rparr>) = two_free s"
  by (simp_all add: idle_def two_free_def)

lemma write_head_replace:
  assumes "idle s" "log_dev s = 1" "log_start s < disksize s"
  shows "write_head s = replace_block (log_start s) (\<lambda>d. put_head d (lh_n s) (lh_sector s)) s"
proof -
  obtain b u where u: "bread 1 (log_start s) s = Ok b u" "rest_same s u" using bread_idle [OF assms(1,3)] by blast
  then show ?thesis using rest_same_log [OF u(2)] assms(2)
    by (simp add: write_head_def replace_block_def bindK_run getB_def)
qed

lemma write_head_spec:
  assumes "idle s" "log_geom s" "log_start s \<notin> dirty_secs s"
  shows "\<exists>t. write_head s = Ok () t \<and> idle t \<and> rest_same s t \<and> dirty_secs t = dirty_secs s \<and> clean_free s \<subseteq> clean_free t \<and>
    blk t = (blk s)(log_start s := put_head (blk s (log_start s)) (lh_n s) (lh_sector s)) \<and>
    disk t = (disk s)(log_start s := put_head (blk s (log_start s)) (lh_n s) (lh_sector s)) \<and>
    dwrites t = dwrites s @ [(log_start s, put_head (blk s (log_start s)) (lh_n s) (lh_sector s))]"
proof -
  have g: "log_dev s = 1" "log_start s < disksize s" using assms(2) by (auto simp: log_geom_def word_less_nat_alt)
  have "dirty_secs s - {log_start s} = dirty_secs s" using assms(3) by simp
  with replace_block_spec [OF assms(1) g(2), of "\<lambda>d. put_head d (lh_n s) (lh_sector s)"] show ?thesis
    unfolding write_head_replace [OF assms(1) g] by (elim exE conjE) (intro exI conjI; simp)
qed

lemma read_head_spec:
  assumes "idle s" "log_geom s" "log_start s \<notin> dirty_secs s"
  defines "n \<equiv> sint (get32 (blk s (log_start s)) 0)"
  shows "\<exists>t. read_head s = Ok () t \<and> idle t \<and> dirty_secs t = dirty_secs s \<and> clean_free s \<subseteq> clean_free t \<and>
    blk t = blk s \<and> disk t = disk s \<and> dwrites t = dwrites s \<and> lh_n t = n \<and>
    lh_sector t = head_sectors (blk s (log_start s)) (nat n) @ drop (nat n) (lh_sector s) \<and>
    log_dev t = log_dev s \<and> log_start t = log_start s \<and> log_size t = log_size s \<and> disksize t = disksize s"
proof -
  have g: "log_dev s = 1" "log_start s < disksize s" using assms(2) by (auto simp: log_geom_def word_less_nat_alt)
  obtain b u where u: "bread 1 (log_start s) s = Ok b u" "bio_inv u" "calm u" "rest_same s u" "holding_buf u (log_start s) b"
    "b_data (bcache u ! b) = blk s (log_start s)" "blk u = blk s" "disk u = disk s" "dwrites u = dwrites s"
    "dirty_secs u = dirty_secs s" "busy_secs u = {log_start s}" "clean_free s - {b} = clean_free u"
    using bread_idle [OF assms(1) g(2)] by blast
  let ?v = "u\<lparr>lh_n := n, lh_sector := head_sectors (blk s (log_start s)) (nat n) @ drop (nat n) (lh_sector s)\<rparr>"
  have v: "bio_inv ?v" "calm ?v" "holding_buf ?v (log_start s) b" using u(2,3,5) by simp_all
  obtain t where t: "brelse b ?v = Ok () t" "bio_inv t" "calm t" "rest_same ?v t" "blk t = blk ?v" "disk t = disk ?v"
    "dwrites t = dwrites ?v" "dirty_secs t = dirty_secs ?v" "busy_secs t = busy_secs ?v - {log_start s}"
    "clean_free t = clean_free ?v \<union> (if b_dirty (bcache ?v ! b) then {} else {b})"
    using brelse_spec [OF v(2,1,3)] by blast
  have "\<not> b_dirty (bcache u ! b)"
  proof (rule clean_free_dirty)
    show "holds u (log_start s) b" using u(5) by (simp add: holding_buf_def)
    show "log_start s \<notin> dirty_secs u" using u(10) assms(3) by simp
  qed
  then have "clean_free t = clean_free u \<union> {b}" using t(10) by simp
  then have cf: "clean_free s \<subseteq> clean_free t" "clean_free t \<noteq> {}" using u(12) by blast+
  have "read_head s = Ok () t"
    using u(1,6) t(1) g(1) rest_same_log [OF u(4)] by (simp add: read_head_def getB_def run_simps n_def)
  moreover have "busy_secs t = {}" using t(9) u(11) by simp
  ultimately show ?thesis using t(2,3,5-8) u(7-10) cf rest_same_log [OF t(4)] rest_same_log [OF u(4)]
    by (intro exI [of _ t]) (simp add: idle_def)
qed

text \<open>The disk writes of a commit, in order.\<close>

definition commit_writes :: "'a logsys_scheme \<Rightarrow> u32 list \<Rightarrow> (u32 \<times> bytes) list" where
  "commit_writes s secs =
     log_copies s secs 0 (length secs) @
     [(log_start s, put_head (blk s (log_start s)) (lh_n s) (lh_sector s))] @
     map (\<lambda>x. (x, blk s x)) secs @
     [(log_start s, put_head (put_head (blk s (log_start s)) (lh_n s) (lh_sector s)) 0 (lh_sector s))]"

lemma log_copies_fst: "fst ` set (log_copies s secs 0 n) = log_sec s ` {..<n}"
  by (simp add: log_copies_def image_image lessThan_atLeast0)

lemma log_copies_distinct:
  assumes "log_at s secs"
  shows "distinct (map fst (log_copies s secs 0 (length secs)))"
proof -
  have "inj_on (log_sec s) {..<length secs}"
    using log_sec_inj log_at_nth(4,5) [OF assms] by (intro inj_onI) blast
  then show ?thesis by (simp add: log_copies_def distinct_map o_def lessThan_atLeast0)
qed

lemma log_copies_read:
  assumes "log_at s secs" "i < length secs"
  shows "put_all (log_copies s secs 0 (length secs)) D (log_sec s i) = blk s (secs ! i)"
  by (rule put_all_in [OF log_copies_distinct [OF assms(1)]]) (use assms(2) in \<open>auto simp: log_copies_def\<close>)

lemma log_copies_outside:
  assumes "log_at s secs" "x \<notin> log_area s \<or> x = log_start s"
  shows "put_all (log_copies s secs 0 (length secs)) D x = D x"
proof (rule put_all_other)
  have "x \<noteq> log_sec s i" if "i < length secs" for i
    using log_sec_unat(3) [OF log_at_nth(5,4) [OF assms(1) that]] log_sec_start(1) [OF log_at_nth(5,4) [OF assms(1) that]]
      assms(2) by metis
  then show "x \<notin> fst ` set (log_copies s secs 0 (length secs))" unfolding log_copies_fst by auto
qed

lemma log_at_area: "log_at s secs \<Longrightarrow> set secs \<inter> log_area s = {}" "log_at s secs \<Longrightarrow> log_start s \<in> log_area s"
  "log_at s secs \<Longrightarrow> log_geom s" "log_at s secs \<Longrightarrow> lh_n s = int (length secs)"
  by (auto simp: log_at_def log_geom_def log_area_def)

lemma commit_spec:
  assumes "idle s" "log_at s secs" "secs \<noteq> []" "dirty_secs s = set secs"
  shows "\<exists>t. commit s = Ok () t \<and> idle t \<and> log_at t [] \<and> dirty_secs t = {} \<and>
    dwrites t = dwrites s @ commit_writes s secs \<and> disk t = put_all (commit_writes s secs) (disk s)"
proof -
  let ?n = "length secs" and ?L = "log_start s" and ?C = "log_copies s secs 0 (length secs)"
  note area = log_at_area [OF assms(2)]
  have d: "set secs \<subseteq> dirty_secs s" "dirty_secs s \<inter> log_area s = {}" using assms(4) area(1) by simp_all
  obtain u where u: "write_log_loop ?n 0 s = Ok () u" "idle u" "rest_same s u" "dirty_secs u = dirty_secs s"
    "dwrites u = dwrites s @ ?C" "disk u = put_all ?C (disk s)" "blk u = put_all ?C (blk s)"
    using write_log_loop_spec [OF assms(1,2) _ d, of 0 ?n] by auto
  note su = rest_same_log [OF u(3)] log_at_same [OF u(3)]
  have st: "?L \<notin> dirty_secs u" using u(4) d(2) area(2) by blast
  have Lu: "blk u ?L = blk s ?L" using u(7) log_copies_outside [OF assms(2)] by simp
  let ?H = "put_head (blk s ?L) (lh_n s) (lh_sector s)"
  obtain v where v: "write_head u = Ok () v" "idle v" "rest_same u v" "dirty_secs v = dirty_secs u"
    "blk v = (blk u)(?L := ?H)" "disk v = (disk u)(?L := ?H)" "dwrites v = dwrites u @ [(?L, ?H)]"
    using write_head_spec [OF u(2)] area(3) st Lu by (auto simp: su)
  note sv = rest_same_log [OF v(3)] log_at_same [OF v(3)]
  have inst: "log_at v secs" "dirty_secs v \<inter> log_area v = {}"
    "(\<forall>i < length secs. 0 \<le> i \<longrightarrow> secs ! i \<in> dirty_secs v) \<or> two_free v"
    using assms(2,4) area(1) u(4) v(4) by (simp_all add: su sv)
  obtain w where w: "install_trans_loop ?n 0 v = Ok () w" "idle w" "rest_same v w"
    "dirty_secs w = dirty_secs v - (\<lambda>i. secs ! i) ` {0..<?n}"
    "dwrites w = dwrites v @ home_copies v secs 0 ?n" "disk w = put_all (home_copies v secs 0 ?n) (disk v)"
    "blk w = put_all (home_copies v secs 0 ?n) (blk v)"
    using install_trans_loop_spec [OF v(2) inst(1) _ inst(2,3), of ?n] by auto
  note sw = rest_same_log [OF w(3)] log_at_same [OF w(3)]
  have "blk v (log_sec s i) = blk s (secs ! i)" if "i < ?n" for i
    using v(5) u(7) log_sec_start(1) [OF log_at_nth(5,4) [OF assms(2) that]] log_copies_read [OF assms(2) that] by simp
  then have hc: "home_copies v secs 0 ?n = map (\<lambda>x. (x, blk s x)) secs"
    by (intro nth_equalityI) (simp_all add: home_copies_def su sv)
  have "(\<lambda>i. secs ! i) ` {0..<?n} = set secs" by (auto simp: set_conv_nth)
  then have dw: "dirty_secs w = {}" using w(4) v(4) u(4) assms(4) by simp
  have "?L \<notin> set secs" using area(1,2) by blast
  then have Lw: "blk w ?L = ?H" unfolding w(7) hc v(5) by (subst put_all_other) auto
  let ?w = "w\<lparr>lh_n := 0\<rparr>"
  have "idle ?w" "log_geom ?w" "log_start ?w \<notin> dirty_secs ?w"
    using w(2) dw area(3) by (simp_all add: log_geom_def su sv sw)
  from write_head_spec [OF this] obtain t where t: "write_head ?w = Ok () t" "idle t" "rest_same ?w t"
    "dirty_secs t = dirty_secs ?w" "disk t = (disk w)(?L := put_head ?H 0 (lh_sector s))"
    "dwrites t = dwrites w @ [(?L, put_head ?H 0 (lh_sector s))]" by (auto simp: su sv sw Lw)
  have "commit s = Ok () t"
    using assms(3) u(1) v(1) w(1) t(1) area(4)
    by (simp add: commit_def write_log_def install_trans_def run_simps su sv)
  moreover have "dwrites t = dwrites s @ commit_writes s secs"
    unfolding t(6) w(5) hc v(7) u(5) commit_writes_def by simp
  moreover have "disk t = put_all (commit_writes s secs) (disk s)"
    unfolding t(5) w(6) hc v(6) u(6) commit_writes_def by simp
  moreover have "log_at t []" using area(3) rest_same_log [OF t(3)]
    by (simp add: log_at_def log_geom_def su sv sw)
  ultimately show ?thesis using t(2,4) dw by (intro exI [of _ t]) simp
qed

text \<open>
  \<open>booted r\<close>: a kernel that has just started: nothing in the cache, so that what it reads
  is what is on the disk. \<open>log_head r secs\<close>: the header on its disk lists \<open>secs\<close>.
\<close>

definition booted :: "'a logsys_scheme \<Rightarrow> bool" where
  "booted r = (idle r \<and> two_free r \<and> dirty_secs r = {} \<and> blk r = disk r \<and> log_geom r)"

definition log_head :: "'a logsys_scheme \<Rightarrow> u32 list \<Rightarrow> bool" where
  "log_head r secs = (sint (get32 (disk r (log_start r)) 0) = int (length secs) \<and>
     head_sectors (disk r (log_start r)) (length secs) = secs \<and> int (length secs) < log_size r \<and>
     distinct secs \<and> (\<forall>x \<in> set secs. x < disksize r \<and> x \<notin> log_area r) \<and> length (disk r (log_start r)) = 512)"

lemma recover_spec:
  assumes "booted r" "log_head r secs"
  shows "\<exists>t. recover_from_log r = Ok () t \<and> booted t \<and> log_head t [] \<and> log_start t = log_start r \<and> log_size t = log_size r \<and>
    disksize t = disksize r \<and> (\<forall>x. x \<notin> log_area r \<longrightarrow>
      disk t x = put_all (map (\<lambda>i. (secs ! i, disk r (log_sec r i))) [0..<length secs]) (disk r) x)"
proof -
  let ?n = "length secs" and ?L = "log_start r"
  have b: "idle r" "two_free r" "dirty_secs r = {}" "blk r = disk r" "log_geom r" using assms(1) by (simp_all add: booted_def)
  have h: "sint (get32 (blk r ?L) 0) = int ?n" "head_sectors (blk r ?L) ?n = secs" "int ?n < log_size r"
    "distinct secs" "\<forall>x \<in> set secs. x < disksize r \<and> x \<notin> log_area r" "length (blk r ?L) = 512"
    using assms(2) b(4) by (simp_all add: log_head_def)
  obtain u where u: "read_head r = Ok () u" "idle u" "dirty_secs u = {}" "clean_free r \<subseteq> clean_free u"
    "blk u = blk r" "disk u = disk r" "lh_n u = int ?n" "lh_sector u = secs @ drop ?n (lh_sector r)"
    "log_dev u = log_dev r" "log_start u = log_start r" "log_size u = log_size r" "disksize u = disksize r"
    using read_head_spec [OF b(1,5)] b(3) by (auto simp: h(1,2))
  have la: "log_area u = log_area r" "log_sec u = log_sec r" using u(10,11) by (auto simp: log_area_def log_sec_def fun_eq_iff)
  have "log_geom u" "log_at u secs"
    using b(5) h(3-5) u(7-12) la by (auto simp: log_geom_def log_at_def nth_append)
  note at = this
  obtain v where v: "install_trans_loop ?n 0 u = Ok () v" "idle v" "rest_same u v" "clean_free u \<subseteq> clean_free v" "dirty_secs v = {}"
    "disk v = put_all (home_copies u secs 0 ?n) (disk u)" "blk v = put_all (home_copies u secs 0 ?n) (blk u)"
    using install_trans_loop_spec [OF u(2) at(2), of 0 ?n] u(3) two_free_mono [OF b(2) u(4)] by auto
  have bd: "blk v = disk v" using v(6,7) u(5,6) b(4) by simp
  note sv = rest_same_log [OF v(3)]
  let ?v = "v\<lparr>lh_n := 0\<rparr>"
  have "idle ?v" "log_geom ?v" "log_start ?v \<notin> dirty_secs ?v" using v(2,5) at(1) by (simp_all add: log_geom_def sv)
  from write_head_spec [OF this] obtain t where t: "write_head ?v = Ok () t" "idle t" "rest_same ?v t" "dirty_secs t = {}"
    "clean_free v \<subseteq> clean_free t"
    "blk t = (blk v)(?L := put_head (blk v ?L) 0 (lh_sector v))" "disk t = (disk v)(?L := put_head (blk v ?L) 0 (lh_sector v))"
    using v(5) u(10) by (auto simp: sv)
  note st = rest_same_log [OF t(3)]
  have "recover_from_log r = Ok () t"
    using u(1,7) v(1) t(1) by (simp add: recover_from_log_def install_trans_def run_simps)
  moreover have "two_free t" using two_free_mono [OF two_free_mono [OF b(2)]] u(4) v(4) t(5) by blast
  moreover have "log_geom t" using at(1) by (simp add: log_geom_def sv st)
  moreover have "length (blk v ?L) = 512"
  proof -
    have "?L \<notin> set secs" using h(5) log_at_area(2) [OF at(2)] la u(10) by auto
    then have "blk v ?L = blk u ?L" unfolding v(7) by (intro put_all_other) (auto simp: home_copies_def)
    then show ?thesis using h(6) u(5) by simp
  qed
  then have "log_head t []"
    using put_head_get [of "blk v ?L" 0 "lh_sector v"] b(5) u(10,11) t(7)
    by (simp add: log_head_def sv st head_sectors_def log_geom_def)
  moreover have "disk t x = put_all (map (\<lambda>i. (secs ! i, disk r (log_sec r i))) [0..<?n]) (disk r) x"
    if "x \<notin> log_area r" for x
    using that log_at_area(2) [OF at(2)] la u(5,6,10) b(4) t(7) v(6) by (auto simp: home_copies_def)
  ultimately show ?thesis using t bd u(10-12) by (intro exI [of _ t]) (simp add: booted_def sv st)
qed

lemma blk_clean: "idle s \<Longrightarrow> x \<notin> dirty_secs s \<Longrightarrow> blk s x = disk s x"
proof (cases "\<exists>i. holds s x i")
  case True
  assume a: "idle s" "x \<notin> dirty_secs s"
  from True obtain i where i: "holds s x i" by blast
  then have h: "i < 30" "b_dev (bcache s ! i) = 1" "b_sector (bcache s ! i) = x" by (simp_all add: holds_def)
  have "\<not> b_dirty (bcache s ! i)" using clean_free_dirty [OF i a(2)] .
  then show ?thesis
    using blk_holds [OF idleD(2) [OF a(1)] i] bio_invD(5) [OF idleD(2) [OF a(1)] h(1)] h by simp
next
  case False
  assume "idle s"
  with False blk_none [OF idleD(2), of s x] show ?thesis by blast
qed

section \<open>Lemmas: adding a block to the transaction\<close>

lemma acq_st_log [simp]:
  "lh_n (acq_st l s) = lh_n s" "lh_sector (acq_st l s) = lh_sector s" "log_size (acq_st l s) = log_size s"
  "log_outstanding (acq_st l s) = log_outstanding s" "log_committing (acq_st l s) = log_committing s"
  "(acq_st l s)\<lparr>lh_n := x\<rparr> = acq_st l (s\<lparr>lh_n := x\<rparr>)" "(acq_st l s)\<lparr>lh_sector := y\<rparr> = acq_st l (s\<lparr>lh_sector := y\<rparr>)"
  "(acq_st l s)\<lparr>log_outstanding := x\<rparr> = acq_st l (s\<lparr>log_outstanding := x\<rparr>)"
  "(acq_st l s)\<lparr>log_committing := c\<rparr> = acq_st l (s\<lparr>log_committing := c\<rparr>)"
  by (simp_all add: acq_st_def upd_cpu_def upd_lock_def)

lemma lock_ok_log [simp]:
  "lock_ok l (s\<lparr>lh_n := x\<rparr>) = lock_ok l s" "lock_ok l (s\<lparr>lh_sector := y\<rparr>) = lock_ok l s"
  "lock_ok l (s\<lparr>log_outstanding := x\<rparr>) = lock_ok l s" "lock_ok l (s\<lparr>log_committing := c\<rparr>) = lock_ok l s"
  by (simp_all add: lock_ok_def lock_free_def settled_def cur_cpu_def)

lemma upd_buf_log [simp]:
  "lh_n (upd_buf b f s) = lh_n s" "lh_sector (upd_buf b f s) = lh_sector s" "log_size (upd_buf b f s) = log_size s"
  "log_outstanding (upd_buf b f s) = log_outstanding s" "log_dev (upd_buf b f s) = log_dev s" "log_start (upd_buf b f s) = log_start s"
  "upd_buf b f (s\<lparr>lh_n := x\<rparr>) = (upd_buf b f s)\<lparr>lh_n := x\<rparr>" "upd_buf b f (s\<lparr>lh_sector := y\<rparr>) = (upd_buf b f s)\<lparr>lh_sector := y\<rparr>"
  by (simp_all add: upd_buf_def)

text \<open>Pinning a buffer in use: its data is replaced and it becomes dirty.\<close>

lemma pin_buf:
  fixes d :: bytes
  assumes inv: "bio_inv s" and hb: "holding_buf s sec b"
  defines "t \<equiv> upd_buf b (\<lambda>f. f\<lparr>b_data := d, b_dirty := True\<rparr>) s"
  shows "bio_inv t" "blk t = (blk s)(sec := d)" "dirty_secs t = insert sec (dirty_secs s)" "busy_secs t = busy_secs s"
    "holding_buf t sec b" "b_data (bcache t ! b) = d" "b_dirty (bcache t ! b)" "\<forall>i. i \<noteq> b \<longrightarrow> bcache t ! i = bcache s ! i"
    "clean_free t = clean_free s"
proof -
  have g: "b < 30" "b_dev (bcache s ! b) = 1" "b_sector (bcache s ! b) = sec" "b_busy (bcache s ! b)" "b_valid (bcache s ! b)"
    and h: "holds s sec b" using hb by (auto simp: holding_buf_def holds_def)
  let ?f = "\<lambda>f :: buf. f\<lparr>b_data := d, b_dirty := True\<rparr>"
  have u: "bcache t ! i = (if i = b then ?f (bcache s ! b) else bcache s ! i)" for i
    using nth_upd_buf [OF inv g(1), of ?f i] by (simp add: t_def)
  have hh: "holds t = holds s" by (rule holds_same_sector) (simp only: u, simp)
  show inv': "bio_inv t" unfolding t_def
    by (rule bio_inv_upd [OF inv g(1) refl]) (use g bio_invD(4) [OF inv _ h] in auto)
  show "blk t = (blk s)(sec := d)"
    using blk_upd_buf [OF inv g(1) inv' [unfolded t_def], of sec] g h by (simp add: t_def)
  show "dirty_secs t = insert sec (dirty_secs s)"
  proof (rule set_eqI)
    fix x
    have "(holds s x i \<and> b_dirty (if i = b then ?f (bcache s ! b) else bcache s ! i)) \<longleftrightarrow>
        (holds s x i \<and> (b_dirty (bcache s ! i) \<or> i = b))" for i by simp
    moreover have "holds s x b \<longleftrightarrow> x = sec" using g by (auto simp: holds_def)
    ultimately show "x \<in> dirty_secs t \<longleftrightarrow> x \<in> insert sec (dirty_secs s)" unfolding dirty_secs_def hh u by auto
  qed
  show "busy_secs t = busy_secs s" unfolding busy_secs_def hh u using g by auto
  show "holding_buf t sec b" unfolding holding_buf_def hh u using g h by simp
  show "b_data (bcache t ! b) = d" "b_dirty (bcache t ! b)" "\<forall>i. i \<noteq> b \<longrightarrow> bcache t ! i = bcache s ! i" unfolding u by simp_all
  show "clean_free t = clean_free s" unfolding clean_free_def u using g by auto
qed

definition logged :: "u32 \<Rightarrow> u32 list \<Rightarrow> u32 list" where
  "logged sec secs = (if sec \<in> set secs then secs else secs @ [sec])"

lemma log_find:
  assumes "log_at s secs"
  shows "find_index (\<lambda>x. x = sec) (take (nat (lh_n s)) (lh_sector s)) = find_index (\<lambda>x. x = sec) secs"
proof -
  have n: "lh_n s = int (length secs)" "length secs \<le> length (lh_sector s)"
    using assms by (auto simp: log_at_def log_geom_def)
  have "take (length secs) (lh_sector s) = secs"
    using log_at_nth(1) [OF assms] n(2) by (intro nth_equalityI) simp_all
  then show ?thesis by (simp add: n)
qed

lemma log_write_run:
  assumes calm: "calm s" and inv: "bio_inv s" and hb: "holding_buf s sec b" and at: "log_at s secs"
    and room: "int (length secs) + 1 < log_size s" and out: "1 \<le> log_outstanding s"
  shows "\<exists>y. seqK (setB b (\<lambda>f. f\<lparr>b_data := d\<rparr>)) (log_write b) s =
      Ok () ((upd_buf b (\<lambda>f. f\<lparr>b_data := d, b_dirty := True\<rparr>) s)\<lparr>lh_sector := y, lh_n := int (length (logged sec secs))\<rparr>) \<and>
    length y = 30 \<and> (\<forall>i < length (logged sec secs). y ! i = logged sec secs ! i)"
proof -
  have b: "b < length (bcache s)" "b_sector (bcache s ! b) = sec"
    using hb bio_invD(1) [OF inv] by (auto simp: holding_buf_def holds_def)
  have n: "lh_n s = int (length secs)" "length (lh_sector s) = 30" "length secs < 29" "log_size s \<le> 30"
    using at room by (auto simp: log_at_def log_geom_def)
  let ?s = "upd_buf b (\<lambda>f. f\<lparr>b_data := d\<rparr>) s"
  have f: "find_index (\<lambda>x. x = sec) (take (nat (lh_n s)) (lh_sector s)) = find_index (\<lambda>x. x = sec) secs"
    by (rule log_find [OF at])
  show ?thesis
  proof (cases "find_index (\<lambda>x. x = sec) secs")
    case None
    then have ns: "sec \<notin> set secs" by (auto simp: find_index_None)
    have "\<forall>i < Suc (length secs). (lh_sector s)[length secs := sec] ! i = (secs @ [sec]) ! i"
      using log_at_nth(1) [OF at] n(2,3) by (simp add: nth_list_update nth_append)
    then show ?thesis using calm b n room out None f
      by (intro exI [of _ "(lh_sector s)[length secs := sec]"])
        (simp add: log_write_def run_simps acquire_ok release_acq calmD logged_def ns upd_buf_twice Let_def)
  next
    case (Some i)
    then have i: "i < length secs" "secs ! i = sec" using find_index_less find_index_sat by blast+
    then have ns: "sec \<in> set secs" by auto
    have y: "(lh_sector s)[i := sec] = lh_sector s" using log_at_nth(1) [OF at i(1)] i(2) list_update_id by metis
    show ?thesis using calm b n room out Some f i(1) y log_at_nth(1) [OF at]
      by (intro exI [of _ "lh_sector s"])
        (simp add: log_write_def run_simps acquire_ok release_acq calmD logged_def ns upd_buf_twice Let_def)
  qed
qed

lemma log_write_spec:
  assumes calm: "calm s" and inv: "bio_inv s" and hb: "holding_buf s sec b" and at: "log_at s secs"
    and room: "int (length secs) + 1 < log_size s" and out: "1 \<le> log_outstanding s"
    and sec: "sec < disksize s" "sec \<notin> log_area s"
  shows "\<exists>t. seqK (setB b (\<lambda>f. f\<lparr>b_data := d\<rparr>)) (log_write b) s = Ok () t \<and> bio_inv t \<and> calm t \<and>
    log_at t (logged sec secs) \<and> blk t = (blk s)(sec := d) \<and> disk t = disk s \<and> dwrites t = dwrites s \<and>
    dirty_secs t = insert sec (dirty_secs s) \<and> busy_secs t = busy_secs s \<and> holding_buf t sec b \<and> b_dirty (bcache t ! b) \<and>
    clean_free t = clean_free s \<and> (\<forall>i. i \<noteq> b \<longrightarrow> bcache t ! i = bcache s ! i) \<and>
    (\<exists>x y. t = (upd_buf b (\<lambda>f. f\<lparr>b_data := d, b_dirty := True\<rparr>) s)\<lparr>lh_sector := y, lh_n := x\<rparr>)"
proof -
  obtain y where y: "seqK (setB b (\<lambda>f. f\<lparr>b_data := d\<rparr>)) (log_write b) s =
      Ok () ((upd_buf b (\<lambda>f. f\<lparr>b_data := d, b_dirty := True\<rparr>) s)\<lparr>lh_sector := y, lh_n := int (length (logged sec secs))\<rparr>)"
    "length y = 30" "\<forall>i < length (logged sec secs). y ! i = logged sec secs ! i"
    using log_write_run [OF calm inv hb at room out] by blast
  let ?t = "(upd_buf b (\<lambda>f. f\<lparr>b_data := d, b_dirty := True\<rparr>) s)\<lparr>lh_sector := y, lh_n := int (length (logged sec secs))\<rparr>"
  note pin = pin_buf [OF inv hb, of d]
  have "log_area ?t = log_area s" by (simp add: log_area_def)
  then have "log_at ?t (logged sec secs)"
    using at y(2,3) room sec by (auto simp: log_at_def log_geom_def logged_def)
  then show ?thesis using y(1) pin calm
    by (intro exI [of _ ?t] conjI exI [of _ y] exI [of _ "int (length (logged sec secs))"]) simp_all
qed

section \<open>Properties\<close>

text \<open>
  \<open>crashed s ws k r\<close>: \<open>r\<close> is a kernel booted on the disk of \<open>s\<close> after the first \<open>k\<close> of the
  writes \<open>ws\<close> have reached it.
\<close>

definition crashed :: "'a logsys_scheme \<Rightarrow> (u32 \<times> bytes) list \<Rightarrow> nat \<Rightarrow> 'b logsys_scheme \<Rightarrow> bool" where
  "crashed s ws k r = (booted r \<and> log_start r = log_start s \<and> log_size r = log_size s \<and> disksize r = disksize s \<and>
     disk r = put_all (take k ws) (disk s))"

lemma crashed_same: "crashed s ws k r \<Longrightarrow> log_area r = log_area s" "crashed s ws k r \<Longrightarrow> log_sec r = log_sec s"
  by (auto simp: crashed_def log_area_def log_sec_def fun_eq_iff)

definition recovers_to :: "'a logsys_scheme \<Rightarrow> (u32 \<Rightarrow> bytes) \<Rightarrow> bool" where
  "recovers_to r D = (\<exists>u. recover_from_log r = Ok () u \<and> booted u \<and> log_head u [] \<and>
     (\<forall>x. x \<notin> log_area r \<longrightarrow> disk u x = D x))"

lemma recovers_empty:
  assumes "booted r" "sint (get32 (disk r (log_start r)) 0) = 0" "length (disk r (log_start r)) = 512"
  shows "recovers_to r (disk r)"
proof -
  have "0 < log_size r" using assms(1) by (simp add: booted_def log_geom_def)
  then have "log_head r []" using assms(2,3) by (simp add: log_head_def head_sectors_def)
  from recover_spec [OF assms(1) this] show ?thesis by (auto simp: recovers_to_def)
qed

lemma recovers_to_cong: "recovers_to r D \<Longrightarrow> (\<And>x. x \<notin> log_area r \<Longrightarrow> D x = E x) \<Longrightarrow> recovers_to r E"
  by (auto simp: recovers_to_def)

lemma homes_other: "x \<notin> set secs \<Longrightarrow> put_all (take j (map (\<lambda>x. (x, f x)) secs)) D x = D x"
  using set_take_subset [of j "map (\<lambda>x. (x, f x)) secs"] by (intro put_all_other) auto

text \<open>A state in which the blocks \<open>secs\<close> wait for their commit and the log on the disk is empty.\<close>

definition pending :: "'a logsys_scheme \<Rightarrow> u32 list \<Rightarrow> bool" where
  "pending s secs = (idle s \<and> log_at s secs \<and> dirty_secs s = set secs \<and>
     sint (get32 (disk s (log_start s)) 0) = 0 \<and> length (disk s (log_start s)) = 512)"

lemma pendingD:
  assumes "pending s secs"
  shows "idle s" "log_at s secs" "dirty_secs s = set secs" "sint (get32 (disk s (log_start s)) 0) = 0"
    "length (disk s (log_start s)) = 512" "blk s (log_start s) = disk s (log_start s)" "length secs \<le> 30"
    "length secs \<le> length (lh_sector s)" "take (length secs) (lh_sector s) = secs"
proof -
  show p: "idle s" "log_at s secs" "dirty_secs s = set secs" "sint (get32 (disk s (log_start s)) 0) = 0"
    "length (disk s (log_start s)) = 512" using assms by (simp_all add: pending_def)
  have "log_start s \<notin> dirty_secs s" using log_at_area(1,2) [OF p(2)] p(3) by auto
  then show "blk s (log_start s) = disk s (log_start s)" by (rule blk_clean [OF p(1)])
  show "length secs \<le> 30" "length secs \<le> length (lh_sector s)" using p(2) by (auto simp: log_at_def log_geom_def)
  then show "take (length secs) (lh_sector s) = secs"
    using log_at_nth(1) [OF p(2)] by (intro nth_equalityI) simp_all
qed

lemma crash_early:
  assumes p: "pending s secs" and c: "crashed s (commit_writes s secs) k r" and k: "k \<le> length secs"
  shows "recovers_to r (disk s)"
proof -
  note pd = pendingD [OF p]
  let ?C = "log_copies s secs 0 (length secs)"
  have "take k (commit_writes s secs) = take k ?C" using k by (simp add: commit_writes_def log_copies_def)
  then have r: "disk r = put_all (take k ?C) (disk s)" "log_start r = log_start s" "booted r" using c by (simp_all add: crashed_def)
  have out: "disk r x = disk s x" if "x \<notin> log_area s \<or> x = log_start s" for x
  proof -
    have "x \<notin> fst ` set ?C"
    proof
      assume "x \<in> fst ` set ?C"
      then obtain i where i: "i < length secs" "x = log_sec s i" unfolding log_copies_fst by blast
      with log_sec_unat(3) [OF log_at_nth(5,4) [OF pd(2) i(1)]] log_sec_start(1) [OF log_at_nth(5,4) [OF pd(2) i(1)]] that
      show False by auto
    qed
    then show ?thesis unfolding r(1) using set_take_subset [of k ?C] by (intro put_all_other) auto
  qed
  have "recovers_to r (disk r)" by (rule recovers_empty) (use r pd(4,5) out [of "log_start s"] in simp_all)
  then show ?thesis by (rule recovers_to_cong) (use out crashed_same(1) [OF c] in simp)
qed

lemma crash_committed:
  assumes p: "pending s secs" and c: "crashed s (commit_writes s secs) k r"
    and k: "length secs < k" "k \<le> 2 * length secs + 1"
  shows "recovers_to r (blk s)"
proof -
  note pd = pendingD [OF p]
  let ?n = "length secs" and ?L = "log_start s" and ?C = "log_copies s secs 0 (length secs)"
  let ?M = "take (k - ?n - 1) (map (\<lambda>x. (x, blk s x)) secs)"
  let ?H = "put_head (blk s ?L) (lh_n s) (lh_sector s)"
  have lc: "length ?C = ?n" by (simp add: log_copies_def)
  have "take k (commit_writes s secs) = ?C @ [(?L, ?H)] @ ?M"
    using k by (simp add: commit_writes_def lc take_Cons')
  then have r: "disk r = put_all ?M ((put_all ?C (disk s))(?L := ?H))" "log_start r = ?L" "booted r"
    using c by (simp_all add: crashed_def)
  note same = crashed_same [OF c] and area = log_at_area [OF pd(2)]
  have L: "?L \<notin> set secs" using area(1,2) by auto
  have rL: "disk r ?L = ?H" unfolding r(1) using homes_other [OF L] by simp
  have n: "lh_n s = int ?n" using area(4) .
  have H: "length ?H = 512" "sint (get32 ?H 0) = int ?n" "head_sectors ?H ?n = secs"
    using put_head_get [of "blk s ?L" ?n "lh_sector s"] pd(5-9) n by simp_all
  have "int ?n < log_size r" "distinct secs" "\<forall>x \<in> set secs. x < disksize r \<and> x \<notin> log_area r"
    using pd(2) c same(1) by (simp_all add: log_at_def crashed_def)
  then have "log_head r secs" unfolding log_head_def r(2) rL using H by simp
  from recover_spec [OF r(3) this] obtain u where u: "recover_from_log r = Ok () u" "booted u" "log_head u []"
    "\<And>x. x \<notin> log_area r \<Longrightarrow> disk u x = put_all (map (\<lambda>i. (secs ! i, disk r (log_sec r i))) [0..<?n]) (disk r) x" by blast
  have "disk r (log_sec s i) = blk s (secs ! i)" if i: "i < ?n" for i
  proof -
    note ln = log_at_nth [OF pd(2) i]
    have "log_sec s i \<notin> set secs" using log_sec_unat(3) [OF ln(5,4)] area(1) by auto
    then show ?thesis unfolding r(1) using homes_other log_sec_start(1) [OF ln(5,4)] log_copies_read [OF pd(2) i]
      by (simp add: fun_upd_other)
  qed
  then have m: "map (\<lambda>i. (secs ! i, disk r (log_sec r i))) [0..<?n] = map (\<lambda>x. (x, blk s x)) secs"
    by (intro nth_equalityI) (simp_all add: same(2))
  have "disk u x = blk s x" if x: "x \<notin> log_area r" for x
  proof (cases "x \<in> set secs")
    case True
    have "distinct (map fst (map (\<lambda>x. (x, blk s x)) secs))" using pd(2) by (simp add: log_at_def o_def)
    then show ?thesis unfolding u(4) [OF x] m by (rule put_all_in) (use True in simp)
  next
    case False
    have xa: "x \<notin> log_area s" using x same(1) by simp
    then have xL: "x \<noteq> ?L" using area(2) by auto
    have "disk u x = disk r x" unfolding u(4) [OF x] m using homes_other [OF False, of "?n"] by simp
    also have "\<dots> = disk s x"
      unfolding r(1) using homes_other [OF False] xL log_copies_outside [OF pd(2), of x] xa by (simp add: fun_upd_other)
    also have "\<dots> = blk s x" using blk_clean [OF pd(1)] pd(3) False by simp
    finally show ?thesis .
  qed
  then show ?thesis using u(1-3) by (auto simp: recovers_to_def)
qed

lemma commit_disk:
  assumes p: "pending s secs" and x: "x \<notin> log_area s"
  shows "put_all (commit_writes s secs) (disk s) x = blk s x"
proof -
  note pd = pendingD [OF p] and area = log_at_area [OF pendingD(2) [OF p]]
  have xL: "x \<noteq> log_start s" using area(2) x by auto
  show ?thesis
  proof (cases "x \<in> set secs")
    case True
    have "distinct (map fst (map (\<lambda>x. (x, blk s x)) secs))" using pd(2) by (simp add: log_at_def o_def)
    then show ?thesis using True xL put_all_in [of "map (\<lambda>x. (x, blk s x)) secs" x "blk s x"]
      by (simp add: commit_writes_def fun_upd_other)
  next
    case False
    then show ?thesis using xL homes_other [OF False, of "length secs"] log_copies_outside [OF pd(2), of x] x
        blk_clean [OF pd(1), of x] pd(3) by (simp add: commit_writes_def fun_upd_other)
  qed
qed

lemma crash_late:
  assumes p: "pending s secs" and c: "crashed s (commit_writes s secs) k r" and k: "2 * length secs + 1 < k"
  shows "recovers_to r (blk s)"
proof -
  note pd = pendingD [OF p]
  have "take k (commit_writes s secs) = commit_writes s secs" using k by (simp add: commit_writes_def log_copies_def)
  then have r: "disk r = put_all (commit_writes s secs) (disk s)" "log_start r = log_start s" "booted r"
    using c by (simp_all add: crashed_def)
  let ?H = "put_head (blk s (log_start s)) (lh_n s) (lh_sector s)"
  have "length ?H = 512"
    using put_head_get(1) [of "blk s (log_start s)" "length secs"] pd(5-7) log_at_area(4) [OF pd(2)] by simp
  then have "sint (get32 (put_head ?H 0 (lh_sector s)) 0) = 0" "length (put_head ?H 0 (lh_sector s)) = 512"
    using put_head_get [of ?H 0 "lh_sector s"] by simp_all
  then have "recovers_to r (disk r)" by (intro recovers_empty) (simp_all add: r commit_writes_def)
  then show ?thesis by (rule recovers_to_cong) (use commit_disk [OF p] r(1) crashed_same(1) [OF c] in simp)
qed

text \<open>
  (C1) Crash atomicity. \<open>commit\<close> of \<open>src/log.c\<close> for the blocks of a transaction makes a
  sequence of disk writes after which the disk holds the blocks of the cache. If the
  machine crashes after any number \<open>k\<close> of these writes and another kernel boots on that
  disk, \<open>recover_from_log\<close> ends without panic with an empty log and with either none of
  the blocks of the transaction changed or all of them; the switch from none to all
  happens at the write of the header.
\<close>

theorem commit_crash_atomic:
  assumes "pending s secs"
  shows "\<exists>t ws. commit s = Ok () t \<and> dwrites t = dwrites s @ ws \<and> idle t \<and> log_at t [] \<and> dirty_secs t = {} \<and>
    (\<forall>x. x \<notin> log_area s \<longrightarrow> disk t x = blk s x) \<and>
    (\<forall>k r. crashed s ws k r \<longrightarrow>
       (if k \<le> length secs then recovers_to r (disk s) else recovers_to r (blk s)))"
proof (cases "secs = []")
  case True
  note pd = pendingD [OF assms]
  have bd: "blk s = disk s" using blk_clean [OF pd(1)] pd(3) True by (simp add: fun_eq_iff)
  have "recovers_to r (disk s)" if "crashed s [] k r" for k and r :: "'b logsys_scheme"
    using recovers_empty [of r] that pd(4,5) by (simp add: crashed_def)
  moreover have "commit s = Ok () s" using log_at_area(4) [OF pd(2)] True by (simp add: commit_def run_simps)
  ultimately show ?thesis using pd(1-3) True bd by (intro exI [of _ s] exI [of _ "[]"]) simp
next
  case False
  note pd = pendingD [OF assms]
  obtain t where t: "commit s = Ok () t" "idle t" "log_at t []" "dirty_secs t = {}"
    "dwrites t = dwrites s @ commit_writes s secs" "disk t = put_all (commit_writes s secs) (disk s)"
    using commit_spec [OF pd(1,2) False pd(3)] by blast
  have "if k \<le> length secs then recovers_to r (disk s) else recovers_to r (blk s)"
    if "crashed s (commit_writes s secs) k r" for k and r :: "'b logsys_scheme"
    using crash_early [OF assms that] crash_committed [OF assms that] crash_late [OF assms that]
    by (cases "k \<le> length secs"; cases "k \<le> 2 * length secs + 1") simp_all
  with t commit_disk [OF assms] show ?thesis
    by (intro exI [of _ t] exI [of _ "commit_writes s secs"]) simp
qed

text \<open>A log at the end of a disk of 1024 sectors with the sizes of \<open>src/mkfs.c\<close>, nothing cached.\<close>

definition logsys0 :: "u32 list \<Rightarrow> logsys" where
  "logsys0 secs = bufsys.extend bufsys0 (logsys.fields 994 30 1 False 1 (int (length secs)) (secs @ replicate (30 - length secs) 0))"

lemma logsys0_simps [simp]:
  "bcache (logsys0 secs) = bcache bufsys0" "lru (logsys0 secs) = lru bufsys0" "disk (logsys0 secs) = disk bufsys0"
  "disksize (logsys0 secs) = 1024" "locks (logsys0 secs) = locks bufsys0" "cpus (logsys0 secs) = cpus bufsys0"
  "mycpu (logsys0 secs) = mycpu bufsys0" "log_start (logsys0 secs) = 994" "log_size (logsys0 secs) = 30"
  "log_outstanding (logsys0 secs) = 1" "log_committing (logsys0 secs) = False" "log_dev (logsys0 secs) = 1"
  "lh_n (logsys0 secs) = int (length secs)" "lh_sector (logsys0 secs) = secs @ replicate (30 - length secs) 0"
  by (simp_all add: logsys0_def bufsys.defs logsys.defs bufsys0_def pipesys.defs pipesys0_def)

lemma logsys0_bio: "\<not> holds (logsys0 secs) x i" "bio_inv (logsys0 secs)" "calm (logsys0 secs)"
  "busy_secs (logsys0 secs) = {}" "dirty_secs (logsys0 secs) = {}" "clean_free (logsys0 secs) = {..<30}"
  using fresh_cache [of "logsys0 secs"] by simp_all

lemma logsys0_at: "length secs < 30 \<Longrightarrow> distinct secs \<Longrightarrow> \<forall>x \<in> set secs. unat x < 994 \<Longrightarrow> log_at (logsys0 secs) secs"
  by (auto simp: log_at_def log_geom_def log_area_def nth_append word_less_nat_alt)

definition logsys1 :: logsys where
  "logsys1 = upd_buf 0 (\<lambda>_. \<lparr>b_busy = False, b_valid = True, b_dirty = True, b_dev = 1, b_sector = 5,
     b_data = replicate 512 7\<rparr>) (logsys0 [5])"

lemma zero_head: "sint (get32 (replicate 512 0) 0) = 0"
  by code_simp

lemma logsys1_pending: "pending logsys1 [5]" "blk logsys1 5 = replicate 512 7" "disk logsys1 = (\<lambda>_. replicate 512 0)"
proof -
  let ?f = "\<lambda>_ :: buf. \<lparr>b_busy = False, b_valid = True, b_dirty = True, b_dev = 1, b_sector = 5, b_data = replicate 512 7\<rparr>"
  note b = logsys0_bio [of "[5]"]
  have nh: "\<not> holds (logsys0 [5]) x i" for x i by (rule logsys0_bio(1))
  have inv: "bio_inv logsys1" unfolding logsys1_def
    by (rule bio_inv_upd [OF b(2) _ refl]) (use nh in auto)
  note h = holds_upd_buf [OF b(2), of 0 ?f] and u = nth_upd_buf [OF b(2), of 0 ?f]
  have d: "dirty_secs logsys1 = {5}"
    unfolding dirty_secs_def logsys1_def h [simplified] u [simplified] using nh by (auto simp: bufsys0_bcache(2))
  have bs: "busy_secs logsys1 = {}"
    unfolding busy_secs_def logsys1_def h [simplified] u [simplified] using nh by (auto simp: bufsys0_bcache(2))
  have "1 \<in> clean_free logsys1"
    unfolding clean_free_def logsys1_def u [simplified] by (simp add: bufsys0_bcache)
  then have cf: "clean_free logsys1 \<noteq> {}" by blast
  have "calm logsys1" using b(3) by (simp add: logsys1_def)
  then have idle: "idle logsys1" using inv bs cf by (simp add: idle_def)
  have "log_at logsys1 [5]"
    using logsys0_at [of "[5]"] by (simp add: log_at_def log_geom_def log_area_def logsys1_def)
  then show "pending logsys1 [5]" using idle d zero_head by (simp add: pending_def logsys1_def)
  show "blk logsys1 5 = replicate 512 7"
    using blk_upd_buf [OF b(2) _ inv [unfolded logsys1_def], of 5] by (simp add: logsys1_def bufsys0_bcache)
  show "disk logsys1 = (\<lambda>_. replicate 512 0)" by (simp add: logsys1_def)
qed

lemma logsys0_booted: "booted ((logsys0 [])\<lparr>disk := D\<rparr>)"
proof -
  let ?r = "(logsys0 [])\<lparr>disk := D\<rparr>"
  have f: "bio_inv ?r" "calm ?r" "busy_secs ?r = {}" "dirty_secs ?r = {}" "clean_free ?r = {..<30}" "blk ?r = disk ?r"
    using fresh_cache [of ?r] by simp_all
  have "two_free ?r" unfolding two_free_def f(5) by (intro exI [of _ 0] exI [of _ 1]) simp
  moreover have "clean_free ?r \<noteq> {}" unfolding f(5) by (simp add: lessThan_empty_iff)
  moreover have "log_geom ?r" by (simp add: log_geom_def)
  ultimately show ?thesis using f by (simp add: booted_def idle_def)
qed

text \<open>One block in the transaction; the machine stops after the header has been written.\<close>

theorem commit_crash_atomic_witness:
  "\<exists>t ws r u. commit logsys1 = Ok () t \<and> dwrites t = dwrites logsys1 @ ws \<and> crashed logsys1 ws 2 (r :: logsys) \<and>
     recover_from_log r = Ok () u \<and> disk u 5 = replicate 512 7 \<and> disk logsys1 5 = replicate 512 0"
proof -
  obtain t ws where t: "commit logsys1 = Ok () t" "dwrites t = dwrites logsys1 @ ws"
    "\<And>k (r :: logsys). crashed logsys1 ws k r \<Longrightarrow>
       (if k \<le> length [5 :: u32] then recovers_to r (disk logsys1) else recovers_to r (blk logsys1))"
    using commit_crash_atomic [OF logsys1_pending(1)] by blast
  let ?r = "(logsys0 [])\<lparr>disk := put_all (take 2 ws) (disk logsys1)\<rparr> :: logsys"
  have c: "crashed logsys1 ws 2 ?r"
    using logsys0_booted by (simp add: crashed_def logsys1_def)
  from t(3) [OF c] have "recovers_to ?r (blk logsys1)" by simp
  moreover have "5 \<notin> log_area ?r" by (simp add: log_area_def)
  ultimately show ?thesis using t(1,2) c logsys1_pending(2,3) unfolding recovers_to_def by fastforce
qed

text \<open>
  \<open>log_write\<close> on a buffer in use, within the size of the log: the block is listed in
  the header once, however often it is written (absorption), the buffer is pinned until
  the commit, the disk is not touched, and the next reader sees the new contents.
\<close>

theorem log_write_absorbs:
  assumes "calm s" "bio_inv s" "holding_buf s sec b" "log_at s secs" "int (length secs) + 1 < log_size s"
    "1 \<le> log_outstanding s" "sec < disksize s" "sec \<notin> log_area s"
  shows "\<exists>t. seqK (setB b (\<lambda>f. f\<lparr>b_data := d\<rparr>)) (log_write b) s = Ok () t \<and> bio_inv t \<and>
    log_at t (if sec \<in> set secs then secs else secs @ [sec]) \<and> blk t = (blk s)(sec := d) \<and> disk t = disk s \<and>
    dwrites t = dwrites s \<and> dirty_secs t = insert sec (dirty_secs s)"
  using log_write_spec [OF assms, of d] unfolding logged_def by blast

lemma begin_op_run:
  assumes "calm s" "\<not> log_committing s" "lh_n s + (log_outstanding s + 1) * 10 \<le> 30"
  shows "begin_op s = Ok () (s\<lparr>log_outstanding := log_outstanding s + 1\<rparr>)"
  using assms by (simp add: begin_op_def begin_op_loop_def run_simps acquire_ok release_acq calmD)

lemma log_write_full: "log_size s = 30 \<Longrightarrow> lh_n s = 29 \<Longrightarrow> log_write b s = Panic ''too big a transaction''"
  by (simp add: log_write_def run_simps)

text \<open>
  (C36) The reservation of \<open>begin_op\<close> is one block too generous. With the log size that
  \<open>src/mkfs.c\<close> writes (30 blocks, one of them the header) \<open>begin_op\<close> lets three system
  calls in, each of which may write \<open>MAXOPBLOCKS\<close> = 10 blocks, but once they have logged
  29 blocks any further \<open>log_write\<close> panics, even of a block that is in the log already.
\<close>

theorem log_reservation_panics:
  assumes "calm s" "\<not> log_committing s" "lh_n s = 0" "log_outstanding s = 0" "log_size s = 30"
  shows "\<exists>t. seqK begin_op (seqK begin_op begin_op) s = Ok () t \<and> log_outstanding t = 3 \<and> log_size t = 30 \<and>
    log_write b (t\<lparr>lh_n := 29, lh_sector := secs\<rparr>) = Panic ''too big a transaction''"
proof -
  have c: "calm (s\<lparr>log_outstanding := x\<rparr>)" for x
    using assms(1) by (simp add: calm_def cur_cpu_def)
  show ?thesis using assms c
    by (intro exI [of _ "s\<lparr>log_outstanding := 3\<rparr>"]) (simp add: run_simps begin_op_run log_write_full)
qed

theorem log_reservation_panics_witness:
  "\<exists>t. seqK begin_op (seqK begin_op begin_op) ((logsys0 [])\<lparr>log_outstanding := 0\<rparr>) = Ok () t \<and> log_outstanding t = 3 \<and>
    log_size t = 30 \<and> log_write 0 (t\<lparr>lh_n := 29, lh_sector := map of_nat [0..<30]\<rparr>) = Panic ''too big a transaction''"
  by (rule log_reservation_panics)
    (use logsys0_bio(3) [of "[]"] in \<open>simp_all add: calm_def cur_cpu_def\<close>)

end
