(* ===== verification/Inode.thy ===== *)
theory Inode
  imports Log
begin

text \<open>
  Blocks and inodes of the file system (\<open>src/fs.c\<close>, first half; \<open>src/fs.h\<close>,
  \<open>src/file.h\<close>): the block allocator over the free bitmap, the on-disk inodes, the inode
  cache with its reference counts and locks, and the map from the blocks of a file to
  disk blocks. A cached inode is named by its index in \<open>icache\<close>.
\<close>

unbundle bit_operations_syntax

section \<open>State\<close>

abbreviation (input) NINODE :: nat where "NINODE \<equiv> 50"
abbreviation (input) NDIRECT :: nat where "NDIRECT \<equiv> 12"
abbreviation (input) NINDIRECT :: nat where "NINDIRECT \<equiv> 128"
abbreviation (input) MAXFILE :: nat where "MAXFILE \<equiv> 140"
abbreviation (input) IPB :: u32 where "IPB \<equiv> 8"
abbreviation (input) BPB :: u32 where "BPB \<equiv> 4096"
abbreviation (input) T_DIR :: u16 where "T_DIR \<equiv> 1"
abbreviation (input) T_FILE :: u16 where "T_FILE \<equiv> 2"
abbreviation (input) T_DEV :: u16 where "T_DEV \<equiv> 3"

record dinode =
  d_type :: u16
  d_major :: u16
  d_minor :: u16
  d_nlink :: u16
  d_size :: u32
  d_addrs :: "u32 list"

text \<open>\<open>i_d\<close> is the copy of the disk inode; \<open>I_BUSY\<close> and \<open>I_VALID\<close> are the flags.\<close>

record inode =
  i_dev :: u32
  i_inum :: u32
  i_ref :: int
  i_busy :: bool
  i_valid :: bool
  i_d :: dinode

record fssys = logsys +
  icache :: "inode list"

definition upd_ip :: "nat \<Rightarrow> (inode \<Rightarrow> inode) \<Rightarrow> 'a fssys_scheme \<Rightarrow> 'a fssys_scheme" where
  "upd_ip ip f s = s\<lparr>icache := (icache s)[ip := f (icache s ! ip)]\<rparr>"

definition getI :: "nat \<Rightarrow> (inode \<Rightarrow> 'b) \<Rightarrow> ('a fssys_scheme, 'b) kernel" where
  "getI ip f = getsK (\<lambda>s. f (icache s ! ip))"

definition setI :: "nat \<Rightarrow> (inode \<Rightarrow> inode) \<Rightarrow> ('a fssys_scheme, unit) kernel" where
  "setI ip f = modifyK (upd_ip ip f)"

definition setD :: "nat \<Rightarrow> (dinode \<Rightarrow> dinode) \<Rightarrow> ('a fssys_scheme, unit) kernel" where
  "setD ip f = setI ip (\<lambda>i. i\<lparr>i_d := f (i_d i)\<rparr>)"

text \<open>\<open>bp->data = d; log_write(bp); brelse(bp)\<close>: the end of every change of a block.\<close>

definition log_update :: "nat \<Rightarrow> bytes \<Rightarrow> ('a logsys_scheme, unit) kernel" where
  "log_update bp d =
     seqK (seqK (setB bp (\<lambda>f. f\<lparr>b_data := d\<rparr>)) (log_write bp))
     (brelse bp)"

section \<open>Layout on the disk\<close>

definition IBLOCK :: "u32 \<Rightarrow> u32" where
  "IBLOCK i = i div IPB + 2"

definition BBLOCK :: "u32 \<Rightarrow> u32 \<Rightarrow> u32" where
  "BBLOCK b ninodes = b div BPB + ninodes div IPB + 3"

definition get16 :: "bytes \<Rightarrow> nat \<Rightarrow> u16" where
  "get16 bs off = ucast (bs ! off) OR push_bit 8 (ucast (bs ! (off + 1)))"

definition put16 :: "bytes \<Rightarrow> nat \<Rightarrow> u16 \<Rightarrow> bytes" where
  "put16 bs off w = bs[off := ucast w, off + 1 := ucast (drop_bit 8 w)]"

text \<open>The inode in slot \<open>k\<close> (64 bytes each) of an inode block.\<close>

definition get_dinode :: "bytes \<Rightarrow> nat \<Rightarrow> dinode" where
  "get_dinode bs k = (let pos = 64 * k in
     \<lparr>d_type = get16 bs pos, d_major = get16 bs (pos + 2), d_minor = get16 bs (pos + 4), d_nlink = get16 bs (pos + 6),
      d_size = get32 bs (pos + 8), d_addrs = map (\<lambda>i. get32 bs (pos + 12 + 4 * i)) [0..<NDIRECT + 1]\<rparr>)"

definition put_addrs :: "bytes \<Rightarrow> nat \<Rightarrow> u32 list \<Rightarrow> bytes" where
  "put_addrs bs pos as = fold (\<lambda>i bs. put32 bs (pos + 4 * i) (as ! i)) [0..<NDIRECT + 1] bs"

definition put_dinode :: "bytes \<Rightarrow> nat \<Rightarrow> dinode \<Rightarrow> bytes" where
  "put_dinode bs k d = (let pos = 64 * k in
     put_addrs (put32 (put16 (put16 (put16 (put16 bs pos (d_type d)) (pos + 2) (d_major d)) (pos + 4) (d_minor d))
       (pos + 6) (d_nlink d)) (pos + 8) (d_size d)) (pos + 12) (d_addrs d))"

section \<open>Blocks\<close>

definition bzero :: "u32 \<Rightarrow> u32 \<Rightarrow> ('a logsys_scheme, unit) kernel" where
  "bzero dev bno =
     bindK (bread dev bno) (\<lambda>bp.
     log_update bp (replicate BSIZE 0))"

definition bit_of :: "bytes \<Rightarrow> nat \<Rightarrow> bool" where
  "bit_of d bi = ((d ! (bi div 8)) AND push_bit (bi mod 8) 1 \<noteq> 0)"

definition mark_bit :: "bytes \<Rightarrow> nat \<Rightarrow> bytes" where
  "mark_bit d bi = d[bi div 8 := (d ! (bi div 8)) OR push_bit (bi mod 8) 1]"

definition clear_bit :: "bytes \<Rightarrow> nat \<Rightarrow> bytes" where
  "clear_bit d bi = d[bi div 8 := (d ! (bi div 8)) AND NOT (push_bit (bi mod 8) 1)]"

text \<open>
  The outer loop of \<open>balloc\<close> over the bitmap blocks from block \<open>b\<close> on; the bitmap of
  \<open>2 ^ 32\<close> blocks has \<open>2 ^ 20\<close> blocks, so that many rounds are enough.
\<close>

fun balloc_loop :: "nat \<Rightarrow> u32 \<Rightarrow> superblock \<Rightarrow> u32 \<Rightarrow> ('a logsys_scheme, u32) kernel" where
  "balloc_loop 0 dev sb b = panic ''balloc: out of blocks''"
| "balloc_loop (Suc k) dev sb b =
     (if \<not> b < sb_size sb then panic ''balloc: out of blocks''
      else
        bindK (bread dev (BBLOCK b (sb_ninodes sb))) (\<lambda>bp.
        bindK (getB bp b_data) (\<lambda>d.
        case find (\<lambda>bi. b + of_nat bi < sb_size sb \<and> \<not> bit_of d bi) [0..<4096] of
          Some bi \<Rightarrow>
            seqK (log_update bp (mark_bit d bi))
            (seqK (bzero dev (b + of_nat bi))
            (ret (b + of_nat bi)))
        | None \<Rightarrow> seqK (brelse bp) (balloc_loop k dev sb (b + BPB)))))"

definition balloc :: "u32 \<Rightarrow> ('a logsys_scheme, u32) kernel" where
  "balloc dev = bindK (readsb dev) (\<lambda>sb. balloc_loop (2 ^ 20) dev sb 0)"

definition bfree :: "u32 \<Rightarrow> u32 \<Rightarrow> ('a logsys_scheme, unit) kernel" where
  "bfree dev b =
     bindK (readsb dev) (\<lambda>sb.
     bindK (bread dev (BBLOCK b (sb_ninodes sb))) (\<lambda>bp.
     bindK (getB bp b_data) (\<lambda>d.
     let bi = unat (b mod BPB) in
     if \<not> bit_of d bi then panic ''freeing free block''
     else log_update bp (clear_bit d bi))))"

section \<open>Inodes\<close>

definition iinit :: "('a fssys_scheme, unit) kernel" where
  "iinit = initlock Icache_lock ''icache''"

definition iget :: "u32 \<Rightarrow> u32 \<Rightarrow> ('a fssys_scheme, nat) kernel" where
  "iget dev inum =
     seqK (acquire Icache_lock)
     (bindK (getsK (\<lambda>s. find_index (\<lambda>i. i_ref i > 0 \<and> i_dev i = dev \<and> i_inum i = inum) (icache s))) (\<lambda>f.
      case f of
        Some ip \<Rightarrow>
          seqK (setI ip (\<lambda>i. i\<lparr>i_ref := i_ref i + 1\<rparr>))
          (seqK (release Icache_lock)
          (ret ip))
      | None \<Rightarrow>
          bindK (getsK (\<lambda>s. find_index (\<lambda>i. i_ref i = 0) (icache s))) (\<lambda>e.
          case e of
            None \<Rightarrow> panic ''iget: no inodes''
          | Some ip \<Rightarrow>
              seqK (setI ip (\<lambda>i. i\<lparr>i_dev := dev, i_inum := inum, i_ref := 1, i_busy := False, i_valid := False\<rparr>))
              (seqK (release Icache_lock)
              (ret ip)))))"

fun ialloc_loop :: "nat \<Rightarrow> u32 \<Rightarrow> u16 \<Rightarrow> superblock \<Rightarrow> u32 \<Rightarrow> ('a fssys_scheme, nat) kernel" where
  "ialloc_loop 0 dev typ sb inum = panic ''ialloc: no inodes''"
| "ialloc_loop (Suc k) dev typ sb inum =
     (if \<not> inum < sb_ninodes sb then panic ''ialloc: no inodes''
      else
        bindK (bread dev (IBLOCK inum)) (\<lambda>bp.
        bindK (getB bp b_data) (\<lambda>d.
        let j = unat (inum mod IPB) in
        if get16 d (64 * j) = 0 then
          seqK (log_update bp (put16 (take (64 * j) d @ replicate 64 0 @ drop (64 * j + 64) d) (64 * j) typ))
          (iget dev inum)
        else seqK (brelse bp) (ialloc_loop k dev typ sb (inum + 1)))))"

definition ialloc :: "u32 \<Rightarrow> u16 \<Rightarrow> ('a fssys_scheme, nat) kernel" where
  "ialloc dev typ = bindK (readsb dev) (\<lambda>sb. ialloc_loop (unat (sb_ninodes sb)) dev typ sb 1)"

definition iupdate :: "nat \<Rightarrow> ('a fssys_scheme, unit) kernel" where
  "iupdate ip =
     bindK (getI ip id) (\<lambda>i.
     bindK (bread (i_dev i) (IBLOCK (i_inum i))) (\<lambda>bp.
     bindK (getB bp b_data) (\<lambda>d.
     log_update bp (put_dinode d (unat (i_inum i mod IPB)) (i_d i)))))"

definition idup :: "nat \<Rightarrow> ('a fssys_scheme, nat) kernel" where
  "idup ip =
     seqK (acquire Icache_lock)
     (seqK (setI ip (\<lambda>i. i\<lparr>i_ref := i_ref i + 1\<rparr>))
     (seqK (release Icache_lock)
     (ret ip)))"

text \<open>\<open>ilock\<close> from the test of \<open>I_BUSY\<close> on, which is where a process continues that slept.\<close>

definition ilock_loop :: "nat \<Rightarrow> ('a fssys_scheme, unit) kernel" where
  "ilock_loop ip =
     bindK (getI ip id) (\<lambda>i.
     if i_busy i then sleep (Inode_chan ip) Icache_lock
     else
       seqK (setI ip (\<lambda>i. i\<lparr>i_busy := True\<rparr>))
       (seqK (release Icache_lock)
       (bindK (getI ip id) (\<lambda>i.
        whenK (\<not> i_valid i)
          (bindK (bread (i_dev i) (IBLOCK (i_inum i))) (\<lambda>bp.
           bindK (getB bp b_data) (\<lambda>d.
           seqK (setI ip (\<lambda>j. j\<lparr>i_d := get_dinode d (unat (i_inum i mod IPB))\<rparr>))
           (seqK (brelse bp)
           (seqK (setI ip (\<lambda>j. j\<lparr>i_valid := True\<rparr>))
           (bindK (getI ip (\<lambda>j. d_type (i_d j))) (\<lambda>typ.
            whenK (typ = 0) (panic ''ilock: no type''))))))))))))"

definition ilock :: "nat \<Rightarrow> ('a fssys_scheme, unit) kernel" where
  "ilock ip =
     bindK (getI ip i_ref) (\<lambda>r.
     if r < 1 then panic ''ilock''
     else seqK (acquire Icache_lock) (ilock_loop ip))"

definition ilock_resume :: "nat \<Rightarrow> ('a fssys_scheme, unit) kernel" where
  "ilock_resume ip = seqK (sleep_resume Icache_lock) (ilock_loop ip)"

definition iunlock :: "nat \<Rightarrow> ('a fssys_scheme, unit) kernel" where
  "iunlock ip =
     bindK (getI ip id) (\<lambda>i.
     if \<not> i_busy i \<or> i_ref i < 1 then panic ''iunlock''
     else
       seqK (acquire Icache_lock)
       (seqK (setI ip (\<lambda>i. i\<lparr>i_busy := False\<rparr>))
       (seqK (wakeup (Inode_chan ip))
       (release Icache_lock))))"

section \<open>The contents of an inode\<close>

definition bmap :: "nat \<Rightarrow> u32 \<Rightarrow> ('a fssys_scheme, u32) kernel" where
  "bmap ip bn =
     bindK (getI ip i_dev) (\<lambda>dev.
     if bn < 12 then
       bindK (getI ip (\<lambda>i. d_addrs (i_d i) ! unat bn)) (\<lambda>addr.
       if addr = 0 then
         bindK (balloc dev) (\<lambda>addr.
         seqK (setD ip (\<lambda>d. d\<lparr>d_addrs := (d_addrs d)[unat bn := addr]\<rparr>))
         (ret addr))
       else ret addr)
     else
       (let bn = bn - 12 in
        if bn < 128 then
          bindK (getI ip (\<lambda>i. d_addrs (i_d i) ! NDIRECT)) (\<lambda>addr.
          bindK
            (if addr = 0 then
               bindK (balloc dev) (\<lambda>addr.
               seqK (setD ip (\<lambda>d. d\<lparr>d_addrs := (d_addrs d)[NDIRECT := addr]\<rparr>))
               (ret addr))
             else ret addr) (\<lambda>addr.
          bindK (bread dev addr) (\<lambda>bp.
          bindK (getB bp (\<lambda>f. get32 (b_data f) (4 * unat bn))) (\<lambda>a.
          if a = 0 then
            bindK (balloc dev) (\<lambda>addr.
            bindK (getB bp b_data) (\<lambda>d.
            seqK (log_update bp (put32 d (4 * unat bn) addr))
            (ret addr)))
          else seqK (brelse bp) (ret a)))))
        else panic ''bmap: out of range''))"

definition itrunc :: "nat \<Rightarrow> ('a fssys_scheme, unit) kernel" where
  "itrunc ip =
     bindK (getI ip i_dev) (\<lambda>dev.
     seqK (forK [0..<NDIRECT] (\<lambda>i.
       bindK (getI ip (\<lambda>n. d_addrs (i_d n) ! i)) (\<lambda>a.
       whenK (a \<noteq> 0)
         (seqK (bfree dev a)
         (setD ip (\<lambda>d. d\<lparr>d_addrs := (d_addrs d)[i := 0]\<rparr>))))))
     (bindK (getI ip (\<lambda>n. d_addrs (i_d n) ! NDIRECT)) (\<lambda>ia.
      seqK
        (whenK (ia \<noteq> 0)
          (bindK (bread dev ia) (\<lambda>bp.
           seqK (forK [0..<NINDIRECT] (\<lambda>j.
             bindK (getB bp (\<lambda>f. get32 (b_data f) (4 * j))) (\<lambda>a.
             whenK (a \<noteq> 0) (bfree dev a))))
           (seqK (brelse bp)
           (seqK (bfree dev ia)
           (setD ip (\<lambda>d. d\<lparr>d_addrs := (d_addrs d)[NDIRECT := 0]\<rparr>)))))))
      (seqK (setD ip (\<lambda>d. d\<lparr>d_size := 0\<rparr>))
      (iupdate ip)))))"

definition iput :: "nat \<Rightarrow> ('a fssys_scheme, unit) kernel" where
  "iput ip =
     seqK (acquire Icache_lock)
     (bindK (getI ip id) (\<lambda>i.
      seqK
        (whenK (i_ref i = 1 \<and> i_valid i \<and> d_nlink (i_d i) = 0)
          (if i_busy i then panic ''iput busy''
           else
             seqK (setI ip (\<lambda>i. i\<lparr>i_busy := True\<rparr>))
             (seqK (release Icache_lock)
             (seqK (itrunc ip)
             (seqK (setD ip (\<lambda>d. d\<lparr>d_type := 0\<rparr>))
             (seqK (iupdate ip)
             (seqK (acquire Icache_lock)
             (seqK (setI ip (\<lambda>i. i\<lparr>i_busy := False, i_valid := False\<rparr>))
             (wakeup (Inode_chan ip))))))))))
      (seqK (setI ip (\<lambda>i. i\<lparr>i_ref := i_ref i - 1\<rparr>))
      (release Icache_lock))))"

definition iunlockput :: "nat \<Rightarrow> ('a fssys_scheme, unit) kernel" where
  "iunlockput ip = seqK (iunlock ip) (iput ip)"

record stat =
  st_type :: u16
  st_dev :: u32
  st_ino :: u32
  st_nlink :: u16
  st_size :: u32

definition stati :: "nat \<Rightarrow> ('a fssys_scheme, stat) kernel" where
  "stati ip = getI ip (\<lambda>i. \<lparr>st_type = d_type (i_d i), st_dev = i_dev i, st_ino = i_inum i,
     st_nlink = d_nlink (i_d i), st_size = d_size (i_d i)\<rparr>)"

section \<open>Inside a transaction\<close>

text \<open>
  \<open>tx B secs s\<close>: a process between \<open>begin_op\<close> and \<open>end_op\<close>, with the buffers of the blocks
  \<open>B\<close> in its hands and the blocks \<open>secs\<close> in the log. \<open>log_same\<close>: what the accesses to
  blocks leave alone. \<open>held_same X\<close>: the buffers in use stay as they are, but for those of
  the blocks in \<open>X\<close>.
\<close>

definition tx :: "u32 set \<Rightarrow> u32 list \<Rightarrow> 'a logsys_scheme \<Rightarrow> bool" where
  "tx B secs s = (calm s \<and> bio_inv s \<and> busy_secs s = B \<and> log_at s secs \<and> dirty_secs s = set secs \<and> 1 \<le> log_outstanding s)"

definition log_same :: "'a logsys_scheme \<Rightarrow> 'a logsys_scheme \<Rightarrow> bool" where
  "log_same s t = (logsys.more t = logsys.more s \<and> disksize t = disksize s \<and> ram t = ram s \<and> cur_cpu t = cur_cpu s \<and>
     log_start t = log_start s \<and> log_size t = log_size s \<and> log_dev t = log_dev s \<and> log_outstanding t = log_outstanding s \<and>
     disk t = disk s \<and> dwrites t = dwrites s)"

definition held_same :: "u32 set \<Rightarrow> 'a logsys_scheme \<Rightarrow> 'a logsys_scheme \<Rightarrow> bool" where
  "held_same X s t = (\<forall>x i. x \<notin> X \<longrightarrow> holding_buf s x i \<longrightarrow> holding_buf t x i \<and> b_data (bcache t ! i) = b_data (bcache s ! i))"

lemma log_same_refl [simp]: "log_same s s" "held_same X s s"
  by (simp_all add: log_same_def held_same_def)

lemma log_same_trans: "log_same s t \<Longrightarrow> log_same t u \<Longrightarrow> log_same s u"
  by (simp add: log_same_def)

lemma held_same_trans: "held_same X s t \<Longrightarrow> held_same Y t u \<Longrightarrow> held_same (X \<union> Y) s u"
  unfolding held_same_def by (metis UnI1 UnI2)

lemma held_same_mono: "held_same X s t \<Longrightarrow> X \<subseteq> Y \<Longrightarrow> held_same Y s t"
  by (auto simp: held_same_def)

lemma log_sameD:
  assumes "log_same s t"
  shows "disksize t = disksize s" "log_area t = log_area s" "log_size t = log_size s"
  using assms by (simp_all add: log_same_def log_area_def)

lemma rest_same_log_same:
  fixes s t :: "'a logsys_scheme"
  assumes "rest_same s t" "disk t = disk s" "dwrites t = dwrites s"
  shows "log_same s t"
proof -
  have "logsys.more t = logsys.more s" using assms(1) by (cases s, cases t, simp add: rest_same_def)
  then show ?thesis using rest_same_log [OF assms(1)] assms by (simp add: log_same_def rest_same_def)
qed

lemma txD:
  assumes "tx B secs s"
  shows "calm s" "bio_inv s" "busy_secs s = B" "log_at s secs" "dirty_secs s = set secs" "1 \<le> log_outstanding s"
  using assms by (simp_all add: tx_def)

lemma tx_bread:
  assumes t: "tx B secs s" and sec: "sec \<notin> B" "sec < disksize s" and room: "card (B \<union> set secs) < 30"
  shows "\<exists>b u. bread 1 sec s = Ok b u \<and> tx (insert sec B) secs u \<and> holding_buf u sec b \<and> b_data (bcache u ! b) = blk s sec \<and>
    blk u = blk s \<and> log_same s u \<and> held_same {} s u"
proof -
  note d = txD [OF t]
  have "clean_free s \<noteq> {}" using clean_nonempty [OF d(2)] d(3,5) room by simp
  then have ok: "bread_ok s sec" using sec d(3) by (simp add: bread_ok_def)
  obtain b u where u: "bread 1 sec s = Ok b u" "bio_inv u" "calm u" "rest_same s u" "holding_buf u sec b"
    "b_data (bcache u ! b) = blk s sec" "blk u = blk s" "disk u = disk s" "dwrites u = dwrites s"
    "dirty_secs u = dirty_secs s" "busy_secs u = insert sec (busy_secs s)" "\<not> b_busy (bcache s ! b)"
    "\<forall>i. i \<noteq> b \<longrightarrow> bcache u ! i = bcache s ! i"
    using bread_spec [OF d(1,2) ok] by (elim exE conjE) (rule that; assumption)
  have "held_same {} s u" unfolding held_same_def
  proof (intro allI impI)
    fix x i assume h: "holding_buf s x i"
    then have ib: "i \<noteq> b" using u(12) by (auto simp: holding_buf_def)
    from holding_buf_frame [OF h u(13) ib] u(13) ib
    show "holding_buf u x i \<and> b_data (bcache u ! i) = b_data (bcache s ! i)" by simp
  qed
  moreover have "log_at u secs" "1 \<le> log_outstanding u"
    using d(4,6) log_at_same(1) [OF u(4)] rest_same_log(6) [OF u(4)] by simp_all
  ultimately show ?thesis
    using u(1-3,5-7,10,11) d(3,5) rest_same_log_same [OF u(4,8,9)] by (intro exI [of _ b] exI [of _ u]) (simp add: tx_def)
qed

lemma tx_brelse:
  assumes t: "tx B secs s" and hb: "holding_buf s sec b"
  shows "\<exists>u. brelse b s = Ok () u \<and> tx (B - {sec}) secs u \<and> blk u = blk s \<and> log_same s u \<and> held_same {sec} s u"
proof -
  note d = txD [OF t]
  obtain u where u: "brelse b s = Ok () u" "bio_inv u" "calm u" "rest_same s u" "blk u = blk s" "disk u = disk s"
    "dwrites u = dwrites s" "dirty_secs u = dirty_secs s" "busy_secs u = busy_secs s - {sec}"
    "\<forall>i. i \<noteq> b \<longrightarrow> bcache u ! i = bcache s ! i"
    using brelse_spec [OF d(1,2) hb] by (elim exE conjE) (rule that; assumption)
  have "held_same {sec} s u" unfolding held_same_def
  proof (intro allI impI)
    fix x i assume x: "x \<notin> {sec}" and h: "holding_buf s x i"
    then have ib: "i \<noteq> b" using holding_buf_neq [OF h hb] by simp
    from holding_buf_frame [OF h u(10) ib] u(10) ib
    show "holding_buf u x i \<and> b_data (bcache u ! i) = b_data (bcache s ! i)" by simp
  qed
  moreover have "log_at u secs" "1 \<le> log_outstanding u"
    using d(4,6) log_at_same(1) [OF u(4)] rest_same_log(6) [OF u(4)] by simp_all
  ultimately show ?thesis
    using u(1-3,5,8,9) d(3,5) rest_same_log_same [OF u(4,6,7)] by (intro exI [of _ u]) (simp add: tx_def)
qed

lemma tx_log_update:
  assumes t: "tx B secs s" and hb: "holding_buf s sec b" and room: "int (length secs) + 1 < log_size s"
    and sec: "sec < disksize s" "sec \<notin> log_area s"
  shows "\<exists>u. log_update b d s = Ok () u \<and> tx (B - {sec}) (logged sec secs) u \<and> blk u = (blk s)(sec := d) \<and>
    log_same s u \<and> held_same {sec} s u"
proof -
  note p = txD [OF t]
  obtain v where v: "seqK (setB b (\<lambda>f. f\<lparr>b_data := d\<rparr>)) (log_write b) s = Ok () v" "bio_inv v" "calm v"
    "log_at v (logged sec secs)" "blk v = (blk s)(sec := d)" "disk v = disk s" "dwrites v = dwrites s"
    "dirty_secs v = insert sec (dirty_secs s)" "busy_secs v = busy_secs s" "holding_buf v sec b"
    "\<forall>i. i \<noteq> b \<longrightarrow> bcache v ! i = bcache s ! i"
    "\<exists>x y. v = (upd_buf b (\<lambda>f. f\<lparr>b_data := d, b_dirty := True\<rparr>) s)\<lparr>lh_sector := y, lh_n := x\<rparr>"
    using log_write_spec [OF p(1,2) hb p(4) room p(6) sec, of d] by (elim exE conjE) (rule that; assumption?; blast)
  have same: "log_same s v" using v(12) by (auto simp: log_same_def cur_cpu_def upd_buf_def)
  have lg: "insert sec (set secs) = set (logged sec secs)" by (auto simp: logged_def)
  have "tx B (logged sec secs) v"
    using v(2-4,8,9) p(3,5,6) same by (simp add: tx_def lg log_same_def)
  from tx_brelse [OF this v(10)] obtain u where u: "brelse b v = Ok () u" "tx (B - {sec}) (logged sec secs) u" "blk u = blk v"
    "log_same v u" "held_same {sec} v u" by blast
  have "held_same {sec} s v" unfolding held_same_def
  proof (intro allI impI)
    fix x i assume x: "x \<notin> {sec}" and h: "holding_buf s x i"
    then have ib: "i \<noteq> b" using holding_buf_neq [OF h hb] by simp
    from holding_buf_frame [OF h v(11) ib] v(11) ib
    show "holding_buf v x i \<and> b_data (bcache v ! i) = b_data (bcache s ! i)" by simp
  qed
  then have "held_same {sec} s u" using held_same_trans [OF _ u(5)] by fastforce
  moreover have "log_update b d s = Ok () u" using v(1) u(1) by (simp add: log_update_def seqK_Ok)
  ultimately show ?thesis using u(2,3) v(5) log_same_trans [OF same u(4)] by (intro exI [of _ u]) simp
qed

section \<open>Lemmas: reading and changing one block\<close>

definition sb_of :: "bytes \<Rightarrow> superblock" where
  "sb_of d = \<lparr>sb_size = get32 d 0, sb_nblocks = get32 d 4, sb_ninodes = get32 d 8, sb_nlog = get32 d 12\<rparr>"

lemma tx_readsb:
  assumes "tx B secs s" "1 \<notin> B" "1 < disksize s" "card (B \<union> set secs) < 30"
  shows "\<exists>u. readsb 1 s = Ok (sb_of (blk s 1)) u \<and> tx B secs u \<and> blk u = blk s \<and> log_same s u \<and> held_same {1} s u"
proof -
  obtain b t where t: "bread 1 1 s = Ok b t" "tx (insert 1 B) secs t" "holding_buf t 1 b" "b_data (bcache t ! b) = blk s 1"
    "blk t = blk s" "log_same s t" "held_same {} s t" using tx_bread [OF assms] by blast
  obtain u where u: "brelse b t = Ok () u" "tx (insert 1 B - {1}) secs u" "blk u = blk t" "log_same t u" "held_same {1} t u"
    using tx_brelse [OF t(2,3)] by blast
  have "insert 1 B - {1} = B" using assms(2) by simp
  moreover have "readsb 1 s = Ok (sb_of (blk s 1)) u" using t(1,4) u(1) by (simp add: readsb_def getB_def run_simps sb_of_def)
  ultimately show ?thesis using t(5) u(2,3) log_same_trans [OF t(6) u(4)] held_same_trans [OF t(7) u(5)]
    by (intro exI [of _ u]) simp
qed

text \<open>Reading a block and writing it back changed, inside a transaction.\<close>

lemma tx_update:
  assumes "tx B secs s" "sec \<notin> B" "sec < disksize s" "sec \<notin> log_area s" "card (B \<union> set secs) < 30"
    "int (length secs) + 1 < log_size s"
  shows "\<exists>b t u. bread 1 sec s = Ok b t \<and> b_data (bcache t ! b) = blk s sec \<and> log_update b d t = Ok () u \<and>
    tx B (logged sec secs) u \<and> blk u = (blk s)(sec := d) \<and> log_same s u \<and> log_same s t \<and> held_same {sec} s u"
proof -
  obtain b t where t: "bread 1 sec s = Ok b t" "tx (insert sec B) secs t" "holding_buf t sec b" "b_data (bcache t ! b) = blk s sec"
    "blk t = blk s" "log_same s t" "held_same {} s t" using tx_bread [OF assms(1-3,5)] by blast
  note same = log_sameD [OF t(6)]
  obtain u where u: "log_update b d t = Ok () u" "tx (insert sec B - {sec}) (logged sec secs) u" "blk u = (blk t)(sec := d)"
    "log_same t u" "held_same {sec} t u"
    using tx_log_update [OF t(2,3), of d] assms(3,4,6) unfolding same by blast
  have "insert sec B - {sec} = B" using assms(2) by simp
  then show ?thesis using t(1,4-6) u(1-3) log_same_trans [OF t(6) u(4)] held_same_trans [OF t(7) u(5)]
    by (intro exI [of _ b] exI [of _ t] exI [of _ u]) simp
qed

lemma card_logged: "card (B \<union> set (logged sec secs)) \<le> card (B \<union> set secs) + 1"
  by (cases "finite (B \<union> set secs)") (auto simp: logged_def card_insert_if)

lemma length_logged: "length (logged sec secs) \<le> length secs + 1"
  by (simp add: logged_def)

lemma tx_card:
  assumes "tx B secs s" "int (length secs) + 1 < log_size s" "card B \<le> 1"
  shows "card (B \<union> set secs) < 30"
proof -
  have "card (set secs) \<le> 28" using txD(4) [OF assms(1)] assms(2) card_length [of secs] by (simp add: log_at_def log_geom_def)
  then show ?thesis using card_Un_le [of B "set secs"] assms(3) by linarith
qed

lemma bzero_spec:
  assumes "tx B secs s" "sec \<notin> B" "sec < disksize s" "sec \<notin> log_area s" "card (B \<union> set secs) < 30"
    "int (length secs) + 1 < log_size s"
  shows "\<exists>u. bzero 1 sec s = Ok () u \<and> tx B (logged sec secs) u \<and> blk u = (blk s)(sec := replicate 512 0) \<and>
    log_same s u \<and> held_same {sec} s u"
  using tx_update [OF assms, of "replicate 512 0"] by (elim exE conjE) (intro exI conjI; simp add: bzero_def bindK_Ok)

section \<open>Lemmas: the block allocator\<close>

definition used :: "'a bufsys_scheme \<Rightarrow> superblock \<Rightarrow> u32 \<Rightarrow> bool" where
  "used s sb x = bit_of (blk s (BBLOCK x (sb_ninodes sb))) (unat (x mod 4096))"

definition fs_layout :: "'a logsys_scheme \<Rightarrow> superblock \<Rightarrow> bool" where
  "fs_layout s sb = (sb = sb_of (blk s 1) \<and> sb_size sb \<le> disksize s \<and> 1 < disksize s \<and>
     (\<forall>b < sb_size sb. BBLOCK b (sb_ninodes sb) < disksize s \<and> BBLOCK b (sb_ninodes sb) \<notin> log_area s \<and>
        BBLOCK b (sb_ninodes sb) \<noteq> 1 \<and> length (blk s (BBLOCK b (sb_ninodes sb))) = 512))"

lemma slot_aligned_add:
  assumes "4096 dvd unat (b :: u32)" "i < 4096"
  shows "unat (b + of_nat i) = unat b + i" "(b + of_nat i) div 4096 = b div 4096" "unat ((b + of_nat i) mod 4096) = i"
proof -
  obtain k where k: "unat b = 4096 * k" using assms(1) by (elim dvdE)
  have "unat b < 2 ^ 32" using unsigned_less [of b, where 'a = nat] by simp
  then have "k < 2 ^ 20" using k by simp
  then have lt: "unat b + i < 2 ^ 32" using k assms(2) by simp
  have i: "unat (of_nat i :: u32) = i" using assms(2) by (simp add: unat_of_nat)
  show u: "unat (b + of_nat i) = unat b + i" using lt i by (simp add: unat_word_ariths)
  have "(unat b + i) div 4096 = unat b div 4096" using k assms(2) by simp
  then show "(b + of_nat i) div 4096 = b div 4096" by (simp add: word_unat_eq_iff unat_div u)
  show "unat ((b + of_nat i) mod 4096) = i" using k assms(2) by (simp add: unat_mod u)
qed

lemma aligned_next:
  assumes "4096 dvd unat (b :: u32)" "b < n" "unat n - unat b > 4096"
  shows "unat (b + 4096) = unat b + 4096" "4096 dvd unat (b + 4096)"
proof -
  have "unat b + 4096 < 2 ^ 32" using assms(3) unsigned_less [of n, where 'a = nat] by simp
  then show u: "unat (b + 4096) = unat b + 4096" by (simp add: unat_word_ariths)
  show "4096 dvd unat (b + 4096)" using assms(1) by (simp add: u)
qed

lemma block_bits:
  assumes "4096 dvd unat (b :: u32)" "unat b \<le> unat y" "unat y < unat b + 4096"
  shows "y = b + of_nat (unat y - unat b)" "used s sb y = bit_of (blk s (BBLOCK b (sb_ninodes sb))) (unat y - unat b)"
    "BBLOCK y n = BBLOCK b n"
proof -
  let ?i = "unat y - unat b"
  have i: "?i < 4096" using assms(2,3) by simp
  note a = slot_aligned_add [OF assms(1) i]
  show y: "y = b + of_nat ?i" using a(1) assms(2) by (simp add: word_unat_eq_iff)
  show "BBLOCK y n = BBLOCK b n" using a(2) y by (simp add: BBLOCK_def)
  have "unat (y mod 4096) = ?i" using a(3) y by simp
  then show "used s sb y = bit_of (blk s (BBLOCK b (sb_ninodes sb))) ?i"
    using a(2) y by (simp add: used_def BBLOCK_def)
qed

lemma held_same_free:
  assumes "tx B secs s" "held_same X s t" "X \<inter> B = {}"
  shows "held_same {} s t"
proof -
  have "x \<in> B" if "holding_buf s x i" for x i
    using that txD(3) [OF assms(1)] by (auto simp: busy_secs_def holding_buf_def)
  then show ?thesis using assms(2,3) unfolding held_same_def by blast
qed

lemma find_upt: "find P [0..<n] = Some i \<Longrightarrow> i < n \<and> P i \<and> (\<forall>j < i. \<not> P j)"
  by (auto simp: find_Some_iff)

definition balloc_ok :: "u32 set \<Rightarrow> u32 list \<Rightarrow> superblock \<Rightarrow> 'a logsys_scheme \<Rightarrow> bool" where
  "balloc_ok B secs sb s = (tx B secs s \<and> fs_layout s sb \<and> card B \<le> 1 \<and> int (length secs) + 2 < log_size s \<and>
     (\<forall>b < sb_size sb. BBLOCK b (sb_ninodes sb) \<notin> B) \<and>
     (\<forall>x < sb_size sb. \<not> used s sb x \<and> (\<forall>y. y < x \<longrightarrow> used s sb y) \<longrightarrow> x \<notin> B \<and> x \<notin> log_area s))"

definition balloc_post :: "u32 set \<Rightarrow> u32 list \<Rightarrow> superblock \<Rightarrow> 'a logsys_scheme \<Rightarrow> u32 \<Rightarrow> 'a logsys_scheme \<Rightarrow> bool" where
  "balloc_post B secs sb s x t = (x < sb_size sb \<and> \<not> used s sb x \<and> (\<forall>y. y < x \<longrightarrow> used s sb y) \<and>
     tx B (logged x (logged (BBLOCK x (sb_ninodes sb)) secs)) t \<and>
     blk t = (blk s)(BBLOCK x (sb_ninodes sb) := mark_bit (blk s (BBLOCK x (sb_ninodes sb))) (unat (x mod 4096)), x := replicate 512 0) \<and>
     log_same s t \<and> held_same {} s t)"

lemma balloc_postD:
  assumes "balloc_post B secs sb s x t"
  shows "x < sb_size sb" "\<not> used s sb x" "\<forall>y. y < x \<longrightarrow> used s sb y"
    "tx B (logged x (logged (BBLOCK x (sb_ninodes sb)) secs)) t" "log_same s t"
    "blk t = (blk s)(BBLOCK x (sb_ninodes sb) := mark_bit (blk s (BBLOCK x (sb_ninodes sb))) (unat (x mod 4096)), x := replicate 512 0)"
    "held_same {} s t"
  using assms unfolding balloc_post_def by - (elim conjE, assumption)+

lemma balloc_hit:
  assumes ok: "balloc_ok B secs sb s" and b: "4096 dvd unat b" "b < sb_size sb" "\<forall>y. y < b \<longrightarrow> used s sb y"
    and f: "find (\<lambda>bi. b + of_nat bi < sb_size sb \<and> \<not> bit_of (blk s (BBLOCK b (sb_ninodes sb))) bi) [0..<4096] = Some i"
  shows "\<exists>t. balloc_loop (Suc k) 1 sb b s = Ok (b + of_nat i) t \<and> balloc_post B secs sb s (b + of_nat i) t"
proof -
  let ?bb = "BBLOCK b (sb_ninodes sb)" and ?x = "b + of_nat i"
  let ?P = "\<lambda>bi. b + of_nat bi < sb_size sb \<and> \<not> bit_of (blk s ?bb) bi"
  have i: "i < 4096" "?x < sb_size sb" "\<not> bit_of (blk s ?bb) i" "\<forall>j < i. \<not> ?P j" using find_upt [OF f] by auto
  note a = slot_aligned_add [OF b(1) i(1)]
  have bx: "BBLOCK ?x (sb_ninodes sb) = ?bb" using a(2) by (simp add: BBLOCK_def)
  have ux: "\<not> used s sb ?x" using i(3) bx a(3) by (simp add: used_def)
  have lower: "used s sb y" if "y < ?x" for y
  proof (cases "y < b")
    case True
    then show ?thesis using b(3) by blast
  next
    case False
    then have y: "unat b \<le> unat y" "unat y < unat b + i" using that a(1) by (simp_all add: word_less_nat_alt)
    then have "unat y < unat b + 4096" using i(1) by simp
    note bb = block_bits [OF b(1) y(1) this]
    have "b + of_nat (unat y - unat b) < sb_size sb"
      unfolding bb(1) [symmetric] using that i(2) by (rule less_trans)
    moreover have "unat y - unat b < i" using y by simp
    ultimately show ?thesis unfolding bb(2) using i(4) by blast
  qed
  have tx: "tx B secs s" and lay: "fs_layout s sb" and cB: "card B \<le> 1" and room: "int (length secs) + 2 < log_size s"
    and bB: "?bb \<notin> B" and xB: "?x \<notin> B" "?x \<notin> log_area s" using ok b(2) i(2) ux lower by (auto simp: balloc_ok_def)
  have l: "?bb < disksize s" "?bb \<notin> log_area s" "?x < disksize s"
    using lay b(2) i(2) by (auto simp: fs_layout_def)
  have c1: "card (B \<union> set secs) < 29"
  proof -
    have "card (set secs) \<le> 27" using txD(4) [OF tx] room card_length [of secs] by (simp add: log_at_def log_geom_def)
    then show ?thesis using card_Un_le [of B "set secs"] cB by linarith
  qed
  then have c1': "card (B \<union> set secs) < 30" by simp
  let ?d = "mark_bit (blk s ?bb) i"
  obtain c u v where v: "bread 1 ?bb s = Ok c u" "b_data (bcache u ! c) = blk s ?bb" "log_update c ?d u = Ok () v"
    "tx B (logged ?bb secs) v" "blk v = (blk s)(?bb := ?d)" "log_same s v" "held_same {?bb} s v"
    using tx_update [OF tx bB l(1,2) c1', of ?d] room by auto
  note same = log_sameD [OF v(6)]
  have r2: "int (length (logged ?bb secs)) + 1 < log_size v" using length_logged [of ?bb secs] room same(3) by simp
  have c2: "card (B \<union> set (logged ?bb secs)) < 30" using card_logged [of B ?bb secs] c1 by simp
  obtain t where t: "bzero 1 ?x v = Ok () t" "tx B (logged ?x (logged ?bb secs)) t" "blk t = (blk v)(?x := replicate 512 0)"
    "log_same v t" "held_same {?x} v t"
    using bzero_spec [OF v(4) xB(1) _ _ c2 r2] l(3) xB(2) same by auto
  have "held_same {} s v" using held_same_free [OF tx v(7)] bB by simp
  moreover have "held_same {} v t" using held_same_free [OF v(4) t(5)] xB by simp
  ultimately have "held_same {} s t" using held_same_trans by fastforce
  moreover have "balloc_loop (Suc k) 1 sb b s = Ok ?x t"
    using b(2) v(1-3) f t(1) by (simp add: getB_def run_simps)
  ultimately show ?thesis using i(2) ux lower t(2,3) v(5) a(3) log_same_trans [OF v(6) t(4)]
    by (intro exI [of _ t]) (simp add: balloc_post_def bx)
qed

lemma balloc_miss:
  assumes ok: "balloc_ok B secs sb s" and b: "4096 dvd unat b" "b < sb_size sb" "\<forall>y. y < b \<longrightarrow> used s sb y"
    and f: "find (\<lambda>bi. b + of_nat bi < sb_size sb \<and> \<not> bit_of (blk s (BBLOCK b (sb_ninodes sb))) bi) [0..<4096] = None"
  shows "\<exists>t. balloc_loop (Suc k) 1 sb b s = balloc_loop k 1 sb (b + 4096) t \<and> tx B secs t \<and> blk t = blk s \<and>
    log_same s t \<and> held_same {} s t \<and> (\<forall>y. y < sb_size sb \<and> unat y < unat b + 4096 \<longrightarrow> used s sb y)"
proof -
  let ?bb = "BBLOCK b (sb_ninodes sb)"
  have tx: "tx B secs s" and bB: "?bb \<notin> B" and l: "?bb < disksize s"
    using ok b(2) by (auto simp: balloc_ok_def fs_layout_def)
  have c: "card (B \<union> set secs) < 30" using tx_card [OF tx] ok by (simp add: balloc_ok_def)
  obtain c u where u: "bread 1 ?bb s = Ok c u" "tx (insert ?bb B) secs u" "holding_buf u ?bb c" "b_data (bcache u ! c) = blk s ?bb"
    "blk u = blk s" "log_same s u" "held_same {} s u" using tx_bread [OF tx bB l c] by blast
  obtain t where t: "brelse c u = Ok () t" "tx (insert ?bb B - {?bb}) secs t" "blk t = blk u" "log_same u t" "held_same {?bb} u t"
    using tx_brelse [OF u(2,3)] by blast
  have "held_same {?bb} s t" using held_same_trans [OF u(7) t(5)] by simp
  then have "held_same {} s t" using held_same_free [OF tx] bB by simp
  moreover have "used s sb y" if "y < sb_size sb" "unat y < unat b + 4096" for y
  proof (cases "y < b")
    case False
    then have "unat b \<le> unat y" by (simp add: word_less_nat_alt)
    note bb = block_bits [OF b(1) this that(2)]
    have "unat y - unat b \<in> set [0..<4096]" using that(2) by auto
    then have "\<not> (b + of_nat (unat y - unat b) < sb_size sb \<and> \<not> bit_of (blk s ?bb) (unat y - unat b))"
      using f unfolding find_None_iff by blast
    then show ?thesis unfolding bb(2) bb(1) [symmetric] using that(1) by blast
  qed (use b(3) in blast)
  moreover have "insert ?bb B - {?bb} = B" using bB by simp
  moreover have "balloc_loop (Suc k) 1 sb b s = balloc_loop k 1 sb (b + 4096) t"
    using b(2) u(1,4) f t(1) by (simp add: getB_def run_simps)
  ultimately show ?thesis using t(2,3) u(5) log_same_trans [OF u(6) t(4)] by (intro exI [of _ t]) simp
qed

lemma balloc_ok_same:
  assumes "balloc_ok B secs sb s" "tx B secs t" "blk t = blk s" "log_same s t"
  shows "balloc_ok B secs sb t" "used t sb = used s sb"
  using assms log_sameD [OF assms(4)] by (auto simp: balloc_ok_def fs_layout_def used_def fun_eq_iff)

lemma balloc_post_same:
  assumes "balloc_post B secs sb t x u" "blk t = blk s" "log_same s t" "held_same {} s t" "used t sb = used s sb"
  shows "balloc_post B secs sb s x u"
  using assms log_same_trans [OF assms(3)] held_same_trans [OF assms(4)] by (fastforce simp: balloc_post_def)

lemma balloc_loop_spec:
  assumes "balloc_ok B secs sb s" "4096 dvd unat b" "b < sb_size sb" "unat (sb_size sb) - unat b \<le> 4096 * k"
    "\<forall>y. y < b \<longrightarrow> used s sb y" "x < sb_size sb" "\<not> used s sb x"
  shows "\<exists>x t. balloc_loop k 1 sb b s = Ok x t \<and> balloc_post B secs sb s x t"
  using assms
proof (induction k arbitrary: b s)
  case 0
  then have "unat b < unat (sb_size sb)" by (simp add: word_less_nat_alt)
  then show ?case using 0 by simp
next
  case (Suc k)
  let ?f = "find (\<lambda>bi. b + of_nat bi < sb_size sb \<and> \<not> bit_of (blk s (BBLOCK b (sb_ninodes sb))) bi) [0..<4096]"
  show ?case
  proof (cases ?f)
    case None
    obtain t where t: "balloc_loop (Suc k) 1 sb b s = balloc_loop k 1 sb (b + 4096) t" "tx B secs t" "blk t = blk s"
      "log_same s t" "held_same {} s t" "\<forall>y. y < sb_size sb \<and> unat y < unat b + 4096 \<longrightarrow> used s sb y"
      using balloc_miss [OF Suc.prems(1-3,5) None] by blast
    have "unat b + 4096 \<le> unat x" using t(6) Suc.prems(6,7) by (meson not_le)
    then have gt: "unat (sb_size sb) - unat b > 4096" using Suc.prems(6) by (simp add: word_less_nat_alt)
    note nx = aligned_next [OF Suc.prems(2,3) gt]
    note same = balloc_ok_same [OF Suc.prems(1) t(2-4)]
    have "b + 4096 < sb_size sb" using gt by (simp add: word_less_nat_alt nx)
    moreover have "unat (sb_size sb) - unat (b + 4096) \<le> 4096 * k" using Suc.prems(4) by (simp add: nx)
    moreover have "\<forall>y. y < b + 4096 \<longrightarrow> used s sb y"
    proof (intro allI impI)
      fix y assume y: "y < b + 4096"
      then have "y < sb_size sb" using \<open>b + 4096 < sb_size sb\<close> by (rule less_trans)
      moreover have "unat y < unat b + 4096" using y nx(1) by (simp add: word_less_nat_alt)
      ultimately show "used s sb y" using t(6) by blast
    qed
    ultimately obtain z u where u: "balloc_loop k 1 sb (b + 4096) t = Ok z u" "balloc_post B secs sb t z u"
      using Suc.IH [OF same(1) nx(2)] Suc.prems(6,7) same(2) by auto
    then show ?thesis using t(1) balloc_post_same [OF u(2) t(3-5) same(2)] by auto
  next
    case (Some i)
    then show ?thesis using balloc_hit [OF Suc.prems(1-3,5) Some, of k] by blast
  qed
qed

lemma balloc_spec:
  assumes ok: "balloc_ok B secs sb s" and "1 \<notin> B" "x < sb_size sb" "\<not> used s sb x"
  shows "\<exists>x t. balloc 1 s = Ok x t \<and> balloc_post B secs sb s x t"
proof -
  have tx: "tx B secs s" and sb: "sb = sb_of (blk s 1)" "1 < disksize s" using ok by (auto simp: balloc_ok_def fs_layout_def)
  have c: "card (B \<union> set secs) < 30" using tx_card [OF tx] ok by (simp add: balloc_ok_def)
  obtain u where u: "readsb 1 s = Ok sb u" "tx B secs u" "blk u = blk s" "log_same s u" "held_same {1} s u"
    using tx_readsb [OF tx assms(2) sb(2) c] sb(1) by auto
  note same = balloc_ok_same [OF ok u(2-4)]
  have h: "held_same {} s u" using held_same_free [OF tx u(5)] assms(2) by simp
  have k: "unat (sb_size sb) - unat (0 :: u32) \<le> 4096 * 2 ^ 20"
    using unsigned_less [of "sb_size sb", where 'a = nat] by simp
  have "0 < sb_size sb" using le_less_trans [OF word_zero_le assms(3)] .
  then obtain y t where t: "balloc_loop (2 ^ 20) 1 sb 0 u = Ok y t" "balloc_post B secs sb u y t"
    using balloc_loop_spec [OF same(1) _ _ k _ assms(3)] assms(4) same(2) by auto
  then show ?thesis using u(1) balloc_post_same [OF t(2) u(3,4) h same(2)]
    by (intro exI [of _ y] exI [of _ t]) (simp add: balloc_def bindK_run)
qed

lemma bfree_spec:
  assumes tx: "tx B secs s" and lay: "fs_layout s sb" and "1 \<notin> B" "card B \<le> 1" "int (length secs) + 1 < log_size s"
    and x: "x < sb_size sb" "used s sb x" "BBLOCK x (sb_ninodes sb) \<notin> B"
  defines "bb \<equiv> BBLOCK x (sb_ninodes sb)"
  shows "\<exists>t. bfree 1 x s = Ok () t \<and> tx B (logged bb secs) t \<and>
    blk t = (blk s)(bb := clear_bit (blk s bb) (unat (x mod 4096))) \<and> log_same s t \<and> held_same {} s t"
proof -
  have sb: "sb = sb_of (blk s 1)" "1 < disksize s" "bb < disksize s" "bb \<notin> log_area s" using lay x(1) by (auto simp: fs_layout_def bb_def)
  have c: "card (B \<union> set secs) < 30" using tx_card [OF tx assms(5,4)] .
  obtain u where u: "readsb 1 s = Ok sb u" "tx B secs u" "blk u = blk s" "log_same s u" "held_same {1} s u"
    using tx_readsb [OF tx assms(3) sb(2) c] sb(1) by auto
  note same = log_sameD [OF u(4)]
  let ?d = "clear_bit (blk s bb) (unat (x mod 4096))"
  obtain b v t where t: "bread 1 bb u = Ok b v" "b_data (bcache v ! b) = blk u bb" "log_update b ?d v = Ok () t"
    "tx B (logged bb secs) t" "blk t = (blk u)(bb := ?d)" "log_same u t" "held_same {bb} u t"
    using tx_update [OF u(2) _ _ _ c, of bb ?d] x(3) sb(3,4) assms(5) same by (auto simp: bb_def)
  have "held_same {} s u" using held_same_free [OF tx u(5)] assms(3) by simp
  moreover have "held_same {} u t" using held_same_free [OF u(2) t(7)] x(3) by (simp add: bb_def)
  ultimately have "held_same {} s t" using held_same_trans by fastforce
  moreover have "bit_of (blk s bb) (unat (x mod 4096))" using x(2) by (simp add: used_def bb_def)
  then have "bfree 1 x s = Ok () t"
    using u(1,3) t(1-3) by (simp add: bfree_def bindK_run bb_def [symmetric] getB_def Let_def)
  ultimately show ?thesis using t(4,5) u(3) log_same_trans [OF u(4) t(6)] by (intro exI [of _ t]) simp
qed

lemma bit_of_iff: "bit_of d i = bit (d ! (i div 8)) (i mod 8)"
  by (simp add: bit_of_def bit_iff_and_push_bit_not_eq_0)

lemma bit_of_mark:
  assumes "length d = 512" "i < 4096" "j < 4096"
  shows "bit_of (mark_bit d i) j = (j = i \<or> bit_of d j)"
proof (cases "i div 8 = j div 8")
  case True
  have len: "i div 8 < length d" using assms by simp
  have ji: "i mod 8 = j mod 8 \<longleftrightarrow> j = i" using True by (metis div_mult_mod_eq)
  have "i mod 8 < 8" "j mod 8 < 8" by simp_all
  then show ?thesis using True len ji by (auto simp: bit_of_iff mark_bit_def bit_simps)
next
  case False
  then show ?thesis by (auto simp: bit_of_iff mark_bit_def)
qed

lemma bit_of_clear:
  assumes "length d = 512" "i < 4096" "j < 4096"
  shows "bit_of (clear_bit d i) j = (j \<noteq> i \<and> bit_of d j)"
proof (cases "i div 8 = j div 8")
  case True
  have len: "i div 8 < length d" using assms by simp
  have ji: "i mod 8 = j mod 8 \<longleftrightarrow> j = i" using True by (metis div_mult_mod_eq)
  have "i mod 8 < 8" "j mod 8 < 8" by simp_all
  then show ?thesis using True len ji by (auto simp: bit_of_iff clear_bit_def bit_simps)
next
  case False
  then show ?thesis by (auto simp: bit_of_iff clear_bit_def)
qed

lemma length_bits [simp]: "length (mark_bit d i) = length d" "length (clear_bit d i) = length d"
  by (simp_all add: mark_bit_def clear_bit_def)

lemma BBLOCK_mod: "BBLOCK x n = BBLOCK y n \<Longrightarrow> x mod 4096 = y mod 4096 \<longleftrightarrow> x = y"
proof -
  assume "BBLOCK x n = BBLOCK y n"
  then have "x div 4096 = y div 4096" by (simp add: BBLOCK_def)
  then show ?thesis by (metis word_mod_div_equality)
qed

lemma bit_index: "unat ((x :: u32) mod 4096) < 4096" "unat (x mod 4096) = unat (y mod 4096) \<longleftrightarrow> x mod 4096 = y mod 4096"
  by (simp_all add: unat_mod word_unat_eq_iff)

text \<open>The super block and the bitmap blocks are not free themselves.\<close>

definition bitmap_ok :: "'a bufsys_scheme \<Rightarrow> superblock \<Rightarrow> bool" where
  "bitmap_ok s sb = (used s sb 1 \<and> (\<forall>b < sb_size sb. BBLOCK b (sb_ninodes sb) < sb_size sb \<and> used s sb (BBLOCK b (sb_ninodes sb))))"

lemma used_balloc:
  assumes lay: "fs_layout s sb" and bm: "bitmap_ok s sb" and post: "balloc_post B secs sb s x t" and y: "y < sb_size sb"
  shows "used t sb y = (y = x \<or> used s sb y)" "length (blk t (BBLOCK y (sb_ninodes sb))) = 512" "BBLOCK y (sb_ninodes sb) \<noteq> x"
proof -
  let ?bx = "BBLOCK x (sb_ninodes sb)" and ?by = "BBLOCK y (sb_ninodes sb)"
  have x: "x < sb_size sb" "\<not> used s sb x"
    and b: "blk t = (blk s)(?bx := mark_bit (blk s ?bx) (unat (x mod 4096)), x := replicate 512 0)"
    using post by (auto simp: balloc_post_def)
  show ne: "?by \<noteq> x" using bm y x by (auto simp: bitmap_ok_def)
  have len: "length (blk s ?by) = 512" using lay y by (auto simp: fs_layout_def)
  show "length (blk t ?by) = 512" using b ne len by auto
  show "used t sb y = (y = x \<or> used s sb y)"
  proof (cases "?by = ?bx")
    case True
    then have "(unat (y mod 4096) = unat (x mod 4096)) = (y = x)" using BBLOCK_mod [OF True] bit_index(2) by simp
    then show ?thesis using b ne True len bit_of_mark [OF len, of "unat (x mod 4096)" "unat (y mod 4096)"] bit_index(1)
      by (auto simp: used_def)
  next
    case False
    then show ?thesis using b ne by (auto simp: used_def)
  qed
qed

lemma used_bfree:
  assumes lay: "\<And>b. b < sb_size sb \<Longrightarrow> length (blk t (BBLOCK b (sb_ninodes sb))) = 512"
    and b: "blk u = (blk t)(BBLOCK x (sb_ninodes sb) := clear_bit (blk t (BBLOCK x (sb_ninodes sb))) (unat (x mod 4096)))"
    and y: "y < sb_size sb"
  shows "used u sb y = (y \<noteq> x \<and> used t sb y)"
proof (cases "BBLOCK y (sb_ninodes sb) = BBLOCK x (sb_ninodes sb)")
  case True
  then have "(unat (y mod 4096) = unat (x mod 4096)) = (y = x)" using BBLOCK_mod [OF True] bit_index(2) by simp
  then show ?thesis
    using b True bit_of_clear [OF lay [OF y], of "unat (x mod 4096)" "unat (y mod 4096)"] bit_index(1) by (auto simp: used_def)
next
  case False
  then show ?thesis using b by (auto simp: used_def)
qed

lemma balloc_loop_full:
  assumes "balloc_ok B secs sb s" "4096 dvd unat b" "\<forall>y. y < sb_size sb \<longrightarrow> used s sb y"
  shows "balloc_loop k 1 sb b s = Panic ''balloc: out of blocks''"
  using assms
proof (induction k arbitrary: b s)
  case (Suc k)
  show ?case
  proof (cases "b < sb_size sb")
    case True
    have lower: "\<forall>y. y < b \<longrightarrow> used s sb y" using True Suc.prems(3) by (meson less_trans)
    have none: "find (\<lambda>bi. b + of_nat bi < sb_size sb \<and> \<not> bit_of (blk s (BBLOCK b (sb_ninodes sb))) bi) [0..<4096] = None"
      (is "?f = None")
    proof (cases ?f)
      case (Some i)
      then show ?thesis using balloc_hit [OF Suc.prems(1,2) True lower Some] Suc.prems(3) by (auto simp: balloc_post_def)
    qed
    obtain t where t: "balloc_loop (Suc k) 1 sb b s = balloc_loop k 1 sb (b + 4096) t" "tx B secs t" "blk t = blk s" "log_same s t"
      using balloc_miss [OF Suc.prems(1,2) True lower none] by blast
    note same = balloc_ok_same [OF Suc.prems(1) t(2-4)]
    have "4096 dvd unat (b + 4096)"
      using Suc.prems(2) by (simp add: unat_word_ariths) (simp add: dvd_mod)
    then show ?thesis using Suc.IH [OF same(1)] Suc.prems(3) same(2) t(1) by simp
  qed simp
qed simp

section \<open>Lemmas: inodes on the disk\<close>

lemma length_put16 [simp]: "length (put16 bs off w) = length bs"
  by (simp add: put16_def)

lemma get16_put16 [simp]: "off + 1 < length bs \<Longrightarrow> get16 (put16 bs off w) off = w"
  by (rule bit_word_eqI) (auto simp: get16_def put16_def bit_simps)

lemma get16_put16_other: "off' + 1 < off \<or> off + 1 < off' \<Longrightarrow> get16 (put16 bs off w) off' = get16 bs off'"
  by (auto simp: get16_def put16_def nth_list_update)

lemma get32_nth: "off + 4 \<le> length bs \<Longrightarrow> get32 bs off = of_le [bs ! off, bs ! (off + 1), bs ! (off + 2), bs ! (off + 3)]"
proof -
  assume l: "off + 4 \<le> length bs"
  obtain a b c d r where r: "drop off bs = a # b # c # d # r"
  proof -
    have "4 \<le> length (drop off bs)" using l by simp
    then obtain a as where 1: "drop off bs = a # as" "3 \<le> length as" by (cases "drop off bs") auto
    then obtain b bs' where 2: "as = b # bs'" "2 \<le> length bs'" by (cases as) auto
    then obtain c cs where 3: "bs' = c # cs" "1 \<le> length cs" by (cases bs') auto
    then show ?thesis using 1 2 that by (cases cs) auto
  qed
  have n: "bs ! (off + k) = drop off bs ! k" for k using l by simp
  have "bs ! off = a" "bs ! (off + 1) = b" "bs ! (off + 2) = c" "bs ! (off + 3) = d"
    using n [of 0] n [of 1] n [of 2] n [of 3] unfolding r by simp_all
  then show ?thesis by (simp add: get32_def r)
qed

lemma get32_put16: "off' + 4 \<le> length bs \<Longrightarrow> off' + 4 \<le> off \<or> off + 1 < off' \<Longrightarrow> get32 (put16 bs off w) off' = get32 bs off'"
proof -
  assume l: "off' + 4 \<le> length bs" and d: "off' + 4 \<le> off \<or> off + 1 < off'"
  then have "put16 bs off w ! (off' + i) = bs ! (off' + i)" if "i < 4" for i
    using that by (auto simp: put16_def nth_list_update)
  from this [of 0] this [of 1] this [of 2] this [of 3] l show ?thesis by (simp add: get32_nth)
qed

lemma put32_nth: "off + 4 \<le> length bs \<Longrightarrow> i < off \<or> off + 4 \<le> i \<Longrightarrow> put32 bs off w ! i = bs ! i"
  by (auto simp: put32_def nth_append)

lemma get16_put32: "off + 4 \<le> length bs \<Longrightarrow> off' + 1 < off \<or> off + 4 \<le> off' \<Longrightarrow> get16 (put32 bs off w) off' = get16 bs off'"
  by (auto simp: get16_def put32_nth)

lemma put_addrs_inv:
  assumes "pos + 4 * n \<le> length bs"
  shows "length (fold (\<lambda>i bs. put32 bs (pos + 4 * i) (as ! i)) [0..<n] bs) = length bs"
    "i < n \<Longrightarrow> get32 (fold (\<lambda>i bs. put32 bs (pos + 4 * i) (as ! i)) [0..<n] bs) (pos + 4 * i) = as ! i"
    "off + 4 \<le> length bs \<Longrightarrow> off + 4 \<le> pos \<or> pos + 4 * n \<le> off \<Longrightarrow>
       get32 (fold (\<lambda>i bs. put32 bs (pos + 4 * i) (as ! i)) [0..<n] bs) off = get32 bs off"
    "off + 1 < pos \<or> pos + 4 * n \<le> off \<Longrightarrow>
       get16 (fold (\<lambda>i bs. put32 bs (pos + 4 * i) (as ! i)) [0..<n] bs) off = get16 bs off"
  using assms
proof (induction n)
  case (Suc n)
  { case 1 then show ?case using Suc by simp }
  { case 2 then show ?case using Suc by (cases "i = n") (simp_all add: get32_put32_other) }
  { case 3 then show ?case using Suc by (auto simp: get32_put32_other) }
  { case 4 then show ?case using Suc by (auto simp: get16_put32) }
qed simp_all

lemmas dinode_simps = get_dinode_def put_dinode_def put_addrs_def Let_def put_addrs_inv get16_put16_other get32_put16
  get16_put32 get32_put32_other

lemma length_put_dinode [simp]: "64 * k + 64 \<le> length bs \<Longrightarrow> length (put_dinode bs k d) = length bs"
  by (simp add: dinode_simps)

lemma get_put_dinode:
  assumes "64 * k + 64 \<le> length bs" "length (d_addrs d) = 13"
  shows "get_dinode (put_dinode bs k d) k = d"
proof -
  have "map (\<lambda>i. d_addrs d ! i) [0..<13] = d_addrs d" using assms(2) by (metis map_nth)
  moreover have "map (\<lambda>i. get32 (put_dinode bs k d) (64 * k + 12 + 4 * i)) [0..<13] = map (\<lambda>i. d_addrs d ! i) [0..<13]"
    using assms(1) by (intro map_cong refl) (simp add: dinode_simps)
  ultimately have "d_addrs (get_dinode (put_dinode bs k d) k) = d_addrs d" by (simp add: get_dinode_def Let_def)
  moreover have "d_type (get_dinode (put_dinode bs k d) k) = d_type d" "d_major (get_dinode (put_dinode bs k d) k) = d_major d"
    "d_minor (get_dinode (put_dinode bs k d) k) = d_minor d" "d_nlink (get_dinode (put_dinode bs k d) k) = d_nlink d"
    "d_size (get_dinode (put_dinode bs k d) k) = d_size d"
    using assms(1) by (simp_all add: dinode_simps)
  ultimately show ?thesis by (intro dinode.equality) simp_all
qed

lemma get_put_dinode_other:
  assumes "64 * k + 64 \<le> length bs" "64 * j + 64 \<le> length bs" "j \<noteq> k"
  shows "get_dinode (put_dinode bs k d) j = get_dinode bs j"
proof -
  have "64 * j + 64 \<le> 64 * k \<or> 64 * k + 64 \<le> 64 * j" using assms(3) by linarith
  then show ?thesis using assms(1,2) by (auto simp: dinode_simps intro!: map_cong)
qed

section \<open>Lemmas: the inode cache\<close>

lemma acq_st_ip [simp]:
  "icache (acq_st l s) = icache s" "upd_ip ip f (acq_st l s) = acq_st l (upd_ip ip f s)"
  by (simp_all add: upd_ip_def acq_st_def upd_cpu_def upd_lock_def)

lemma lock_ok_ip [simp]: "lock_ok l (upd_ip ip f s) = lock_ok l s" "cur_cpu (upd_ip ip f s) = cur_cpu s"
  by (simp_all add: upd_ip_def lock_ok_def lock_free_def settled_def cur_cpu_def)

lemma icache_upd [simp]: "icache (upd_ip ip f s) = (icache s)[ip := f (icache s ! ip)]" "ptable (upd_ip ip f s) = ptable s"
  by (simp_all add: upd_ip_def)

lemma upd_ip_twice: "ip < length (icache s) \<Longrightarrow> upd_ip ip g (upd_ip ip f s) = upd_ip ip (\<lambda>i. g (f i)) s"
  by (simp add: upd_ip_def)

lemma woken_icache [simp]: "icache (woken ch s) = icache s"
  by (simp add: woken_def)

lemma bio_upd_ip [simp]:
  "calm (upd_ip ip f s) = calm s" "bio_inv (upd_ip ip f s) = bio_inv s" "blk (upd_ip ip f s) = blk s"
  "dirty_secs (upd_ip ip f s) = dirty_secs s" "busy_secs (upd_ip ip f s) = busy_secs s"
  "clean_free (upd_ip ip f s) = clean_free s" "holding_buf (upd_ip ip f s) = holding_buf s"
  "bcache (upd_ip ip f s) = bcache s" "disksize (upd_ip ip f s) = disksize s" "log_area (upd_ip ip f s) = log_area s"
  "log_at (upd_ip ip f s) = log_at s" "log_size (upd_ip ip f s) = log_size s"
  by (simp_all add: upd_ip_def calm_def lock_ok_def lock_free_def settled_def cur_cpu_def bio_inv_def blk_def cached_def
      dirty_secs_def busy_secs_def clean_free_def holding_buf_def holds_def log_area_def log_at_def log_geom_def fun_eq_iff split: option.split)

lemma tx_upd_ip [simp]: "tx B secs (upd_ip ip f s) = tx B secs s" "fs_layout (upd_ip ip f s) = fs_layout s" "used (upd_ip ip f s) = used s"
  by (simp_all add: tx_def fs_layout_def used_def fun_eq_iff) (simp add: upd_ip_def)

lemma log_same_icache: "log_same s t \<Longrightarrow> icache t = icache s"
  by (cases s, cases t) (simp add: log_same_def)

lemma tx_woken [simp]: "tx B secs (woken ch s) = tx B secs s"
  by (simp add: tx_def calm_def lock_ok_def lock_free_def settled_def cur_cpu_def bio_inv_def
      dirty_secs_def busy_secs_def holds_def log_area_def log_at_def log_geom_def woken_def)

lemma blk_woken [simp]: "blk (woken ch s) = blk s"
  by (simp add: blk_def cached_def fun_eq_iff split: option.split)

text \<open>The inode \<open>inum\<close> as the kernel sees it on the disk.\<close>

definition inode_at :: "'a bufsys_scheme \<Rightarrow> u32 \<Rightarrow> dinode" where
  "inode_at s inum = get_dinode (blk s (IBLOCK inum)) (unat (inum mod 8))"

lemma IBLOCK_mod: "IBLOCK i = IBLOCK j \<Longrightarrow> unat (i mod 8) = unat (j mod 8) \<longleftrightarrow> i = j"
proof -
  assume "IBLOCK i = IBLOCK j"
  then have "i div 8 = j div 8" by (simp add: IBLOCK_def)
  then show ?thesis by (metis word_mod_div_equality word_unat_eq_iff)
qed

lemma inode_slot: "64 * unat ((i :: u32) mod 8) + 64 \<le> 512"
proof -
  have "unat (i mod 8) < 8" by (simp add: unat_mod)
  then show ?thesis by simp
qed

definition inode_block_ok :: "'a logsys_scheme \<Rightarrow> u32 \<Rightarrow> bool" where
  "inode_block_ok s inum = (IBLOCK inum < disksize s \<and> IBLOCK inum \<notin> log_area s \<and> length (blk s (IBLOCK inum)) = 512)"

lemma iupdate_spec:
  assumes tx: "tx B secs s" and ip: "icache s ! ip = i" "i_dev i = 1" "length (d_addrs (i_d i)) = 13"
    and blk: "inode_block_ok s (i_inum i)" "IBLOCK (i_inum i) \<notin> B" and room: "int (length secs) + 1 < log_size s" "card B \<le> 1"
  shows "\<exists>t. iupdate ip s = Ok () t \<and> tx B (logged (IBLOCK (i_inum i)) secs) t \<and> log_same s t \<and> held_same {} s t \<and>
    blk t = (blk s)(IBLOCK (i_inum i) := put_dinode (blk s (IBLOCK (i_inum i))) (unat (i_inum i mod 8)) (i_d i))"
proof -
  let ?b = "IBLOCK (i_inum i)"
  let ?d = "put_dinode (blk s ?b) (unat (i_inum i mod 8)) (i_d i)"
  have l: "?b < disksize s" "?b \<notin> log_area s" using blk(1) by (simp_all add: inode_block_ok_def)
  have c: "card (B \<union> set secs) < 30" using tx_card [OF tx room] .
  obtain b u t where t: "bread 1 ?b s = Ok b u" "b_data (bcache u ! b) = blk s ?b" "log_update b ?d u = Ok () t"
    "tx B (logged ?b secs) t" "blk t = (blk s)(?b := ?d)" "log_same s t" "held_same {?b} s t"
    using tx_update [OF tx blk(2) l c room(1), of ?d] by (elim exE conjE) (rule that; assumption)
  have "iupdate ip s = Ok () t" using t(1-3) ip by (simp add: iupdate_def getI_def getB_def bindK_run)
  then show ?thesis using t(4-6) held_same_free [OF tx t(7)] blk(2) by (intro exI [of _ t]) simp
qed

lemma inode_at_update:
  assumes "blk t = (blk s)(IBLOCK i := put_dinode (blk s (IBLOCK i)) (unat (i mod 8)) d)" "length (blk s (IBLOCK i)) = 512"
    "length (d_addrs d) = 13"
  shows "inode_at t j = (if j = i then d else inode_at s j)"
proof (cases "IBLOCK j = IBLOCK i")
  case True
  then show ?thesis using assms IBLOCK_mod [OF True] inode_slot [of i] inode_slot [of j]
      get_put_dinode [of "unat (i mod 8)" "blk s (IBLOCK i)" d] get_put_dinode_other [of "unat (i mod 8)" "blk s (IBLOCK i)" "unat (j mod 8)" d]
    by (auto simp: inode_at_def)
next
  case False
  then show ?thesis using assms(1) by (auto simp: inode_at_def)
qed

lemma ilock_valid:
  assumes "calm s" "icache s ! ip = i" "ip < length (icache s)" "1 \<le> i_ref i" "\<not> i_busy i" "i_valid i"
  shows "ilock ip s = Ok () (upd_ip ip (\<lambda>i. i\<lparr>i_busy := True\<rparr>) s)"
  using assms by (simp add: ilock_def ilock_loop_def getI_def setI_def run_simps acquire_ok release_acq calmD)

lemma ilock_load:
  assumes tx: "tx {} secs s" and ip: "icache s ! ip = i" "ip < length (icache s)" "1 \<le> i_ref i" "\<not> i_busy i" "\<not> i_valid i" "i_dev i = 1"
    and blk: "IBLOCK (i_inum i) < disksize s" and room: "int (length secs) + 1 < log_size s"
  shows "if d_type (inode_at s (i_inum i)) = 0 then ilock ip s = Panic ''ilock: no type''
    else \<exists>u. ilock ip s = Ok () u \<and> tx {} secs u \<and> blk u = blk s \<and> log_area u = log_area s \<and> disksize u = disksize s \<and> log_size u = log_size s \<and>
      icache u = (icache s)[ip := i\<lparr>i_busy := True, i_d := inode_at s (i_inum i), i_valid := True\<rparr>]"
proof -
  let ?b = "IBLOCK (i_inum i)" and ?d = "inode_at s (i_inum i)"
  let ?s = "upd_ip ip (\<lambda>i. i\<lparr>i_busy := True\<rparr>) s"
  have c: "card ({} \<union> set secs) < 30" using tx_card [OF tx room] by simp
  have "tx {} secs ?s" using tx by simp
  from tx_bread [OF this _ _ c, of ?b] obtain b u where u: "bread 1 ?b ?s = Ok b u" "tx {?b} secs u" "holding_buf u ?b b"
    "b_data (bcache u ! b) = blk s ?b" "blk u = blk s" "log_same ?s u" using blk by auto
  let ?v = "upd_ip ip (\<lambda>j. j\<lparr>i_d := ?d\<rparr>) u"
  have v: "tx {?b} secs ?v" "holding_buf ?v ?b b" using u(2,3) by simp_all
  obtain w where w: "brelse b ?v = Ok () w" "tx {} secs w" "blk w = blk s" "log_same ?v w"
    using tx_brelse [OF v] u(5) by auto
  have ic: "icache u = (icache s)[ip := i\<lparr>i_busy := True\<rparr>]" using log_same_icache [OF u(6)] ip(1) by simp
  have icw: "icache w = (icache s)[ip := i\<lparr>i_busy := True, i_d := ?d\<rparr>]" using log_same_icache [OF w(4)] ic ip(2) by simp
  have get: "get_dinode (blk s ?b) (unat (i_inum i mod 8)) = ?d" by (simp add: inode_at_def)
  have run: "ilock ip s = (if d_type ?d = 0 then Panic ''ilock: no type'' else Ok () (upd_ip ip (\<lambda>j. j\<lparr>i_valid := True\<rparr>) w))"
    using ip u(1,4) w(1) icw txD(1) [OF tx]
    by (simp add: ilock_def ilock_loop_def getI_def setI_def getB_def run_simps acquire_ok release_acq calmD get)
  show ?thesis
  proof (cases "d_type ?d = 0")
    case True
    then show ?thesis using run by simp
  next
    case False
    let ?t = "upd_ip ip (\<lambda>j. j\<lparr>i_valid := True\<rparr>) w"
    have "icache ?t = (icache s)[ip := i\<lparr>i_busy := True, i_d := ?d, i_valid := True\<rparr>]" using icw ip(2) by simp
    moreover have "log_area w = log_area s" "disksize w = disksize s" "log_size w = log_size s"
      using log_sameD [OF w(4)] log_sameD [OF u(6)] by simp_all
    ultimately show ?thesis unfolding if_not_P [OF False] using run False w(2,3) by (intro exI [of _ ?t]) simp
  qed
qed

text \<open>An inode has at most one entry in the cache.\<close>

definition icache_inv :: "inode list \<Rightarrow> bool" where
  "icache_inv ic = (length ic = NINODE \<and> (\<forall>i < length ic. 0 \<le> i_ref (ic ! i)) \<and>
     (\<forall>i < length ic. \<forall>j < length ic. 0 < i_ref (ic ! i) \<longrightarrow> 0 < i_ref (ic ! j) \<longrightarrow>
        i_dev (ic ! i) = i_dev (ic ! j) \<longrightarrow> i_inum (ic ! i) = i_inum (ic ! j) \<longrightarrow> i = j))"

definition icache_find :: "inode list \<Rightarrow> u32 \<Rightarrow> u32 \<Rightarrow> nat option" where
  "icache_find ic dev inum = find_index (\<lambda>i. i_ref i > 0 \<and> i_dev i = dev \<and> i_inum i = inum) ic"

lemma icache_invI:
  assumes "length ic = 50" "\<And>i. i < 50 \<Longrightarrow> 0 \<le> i_ref (ic ! i)"
    "\<And>i j. i < 50 \<Longrightarrow> j < 50 \<Longrightarrow> 0 < i_ref (ic ! i) \<Longrightarrow> 0 < i_ref (ic ! j) \<Longrightarrow> i_dev (ic ! i) = i_dev (ic ! j) \<Longrightarrow>
       i_inum (ic ! i) = i_inum (ic ! j) \<Longrightarrow> i = j"
  shows "icache_inv ic"
  using assms by (simp add: icache_inv_def)

lemma icache_invD:
  assumes "icache_inv ic"
  shows "length ic = 50" "i < 50 \<Longrightarrow> 0 \<le> i_ref (ic ! i)"
    "i < 50 \<Longrightarrow> j < 50 \<Longrightarrow> 0 < i_ref (ic ! i) \<Longrightarrow> 0 < i_ref (ic ! j) \<Longrightarrow> i_dev (ic ! i) = i_dev (ic ! j) \<Longrightarrow>
       i_inum (ic ! i) = i_inum (ic ! j) \<Longrightarrow> i = j"
  using assms unfolding icache_inv_def by auto

lemma icache_inv_ref:
  assumes "icache_inv ic" "ip < 50" "i_dev x = i_dev (ic ! ip)" "i_inum x = i_inum (ic ! ip)" "0 \<le> i_ref x" "0 < i_ref (ic ! ip)"
  shows "icache_inv (ic[ip := x])"
proof (rule icache_invI)
  note d = icache_invD [OF assms(1)]
  show "length (ic[ip := x]) = 50" using d(1) by simp
  show "0 \<le> i_ref (ic[ip := x] ! i)" if "i < 50" for i using d(1,2) that assms(5) by (cases "i = ip") simp_all
  have same: "i_dev (ic[ip := x] ! k) = i_dev (ic ! k)" "i_inum (ic[ip := x] ! k) = i_inum (ic ! k)"
    "0 < i_ref (ic[ip := x] ! k) \<Longrightarrow> 0 < i_ref (ic ! k)" for k
    using assms(3,4,6) d(1) assms(2) by (cases "k = ip"; simp)+
  fix i j assume "i < 50" "j < 50" "0 < i_ref (ic[ip := x] ! i)" "0 < i_ref (ic[ip := x] ! j)"
    "i_dev (ic[ip := x] ! i) = i_dev (ic[ip := x] ! j)" "i_inum (ic[ip := x] ! i) = i_inum (ic[ip := x] ! j)"
  then show "i = j" unfolding same(1,2) by (intro d(3) same(3))
qed

lemma icache_inv_new:
  assumes "icache_inv ic" "ip < 50" "icache_find ic dev inum = None" "i_dev x = dev" "i_inum x = inum" "0 \<le> i_ref x"
  shows "icache_inv (ic[ip := x])"
proof (rule icache_invI)
  note d = icache_invD [OF assms(1)]
  have none: "\<not> (0 < i_ref (ic ! j) \<and> i_dev (ic ! j) = dev \<and> i_inum (ic ! j) = inum)" if "j < 50" for j
    using assms(3) nth_mem [of j ic] that d(1) by (auto simp: icache_find_def find_index_None)
  show "length (ic[ip := x]) = 50" using d(1) by simp
  show "0 \<le> i_ref (ic[ip := x] ! i)" if "i < 50" for i using d(1,2) that assms(6) by (cases "i = ip") simp_all
  fix i j assume a: "i < 50" "j < 50" "0 < i_ref (ic[ip := x] ! i)" "0 < i_ref (ic[ip := x] ! j)"
    "i_dev (ic[ip := x] ! i) = i_dev (ic[ip := x] ! j)" "i_inum (ic[ip := x] ! i) = i_inum (ic[ip := x] ! j)"
  show "i = j"
  proof (cases "i = ip")
    case True
    then show ?thesis using a none [OF a(2)] d(1) assms(2,4,5) by (cases "j = ip") auto
  next
    case False
    then show ?thesis using a none [OF a(1)] d(1) d(3) [of i j] assms(2,4,5) by (cases "j = ip") auto
  qed
qed

lemma iget_run:
  assumes "calm s"
  shows "iget dev inum s = (case icache_find (icache s) dev inum of
      Some ip \<Rightarrow> Ok ip (upd_ip ip (\<lambda>i. i\<lparr>i_ref := i_ref i + 1\<rparr>) s)
    | None \<Rightarrow> (case find_index (\<lambda>i. i_ref i = 0) (icache s) of
        None \<Rightarrow> Panic ''iget: no inodes''
      | Some ip \<Rightarrow> Ok ip (upd_ip ip (\<lambda>i. i\<lparr>i_dev := dev, i_inum := inum, i_ref := 1, i_busy := False, i_valid := False\<rparr>) s)))"
  using assms by (simp add: iget_def icache_find_def setI_def run_simps acquire_ok release_acq calmD split: option.split)

lemma iunlock_run:
  assumes "calm s" "ip < length (icache s)" "i_busy (icache s ! ip)" "1 \<le> i_ref (icache s ! ip)"
  shows "iunlock ip s = Ok () (woken (Inode_chan ip) (upd_ip ip (\<lambda>i. i\<lparr>i_busy := False\<rparr>) s))"
proof -
  let ?t = "woken (Inode_chan ip) (upd_ip ip (\<lambda>i. i\<lparr>i_busy := False\<rparr>) s)"
  have "calm ?t" using assms(1) by simp
  then have "release Icache_lock (acq_st Icache_lock ?t) = Ok () ?t" by (intro release_acq calmD)
  then show ?thesis
    using assms by (simp add: iunlock_def getI_def setI_def run_simps acquire_ok calmD wakeup_ok lock_ok_acq_st)
qed

lemma iput_drop:
  assumes "calm s" "ip < length (icache s)"
    "i_ref (icache s ! ip) \<noteq> 1 \<or> \<not> i_valid (icache s ! ip) \<or> d_nlink (i_d (icache s ! ip)) \<noteq> 0"
  shows "iput ip s = Ok () (upd_ip ip (\<lambda>i. i\<lparr>i_ref := i_ref i - 1\<rparr>) s)"
  using assms by (auto simp: iput_def getI_def setI_def run_simps acquire_ok release_acq calmD)

lemma iunlockput_run:
  assumes "calm s" "ip < length (icache s)" "i_busy (icache s ! ip)" "1 \<le> i_ref (icache s ! ip)"
    "i_ref (icache s ! ip) \<noteq> 1 \<or> \<not> i_valid (icache s ! ip) \<or> d_nlink (i_d (icache s ! ip)) \<noteq> 0"
  shows "iunlockput ip s = Ok () (upd_ip ip (\<lambda>i. i\<lparr>i_ref := i_ref i - 1\<rparr>)
    (woken (Inode_chan ip) (upd_ip ip (\<lambda>i. i\<lparr>i_busy := False\<rparr>) s)))"
  using assms by (simp add: iunlockput_def seqK_run iunlock_run iput_drop)

text \<open>After the last reference is dropped, \<open>iget\<close> has to take an entry over.\<close>

lemma icache_find_dropped:
  assumes "icache_inv ic" "ip < 50" "0 < i_ref (ic ! ip)" "i_ref x = 0"
  shows "icache_find (ic[ip := x]) (i_dev (ic ! ip)) (i_inum (ic ! ip)) = None"
    "\<exists>jp < 50. find_index (\<lambda>i. i_ref i = 0) (ic[ip := x]) = Some jp"
proof -
  note d = icache_invD [OF assms(1)]
  have "\<not> (0 < i_ref (ic[ip := x] ! j) \<and> i_dev (ic[ip := x] ! j) = i_dev (ic ! ip) \<and> i_inum (ic[ip := x] ! j) = i_inum (ic ! ip))"
    if "j < 50" for j using d(3) [of j ip] d(1) that assms by (cases "j = ip") auto
  then show "icache_find (ic[ip := x]) (i_dev (ic ! ip)) (i_inum (ic ! ip)) = None"
    using d(1) by (auto simp: icache_find_def find_index_None in_set_conv_nth)
  have "x \<in> set (ic[ip := x])" using d(1) assms(2) by (simp add: set_update_memI)
  then have "find_index (\<lambda>i. i_ref i = 0) (ic[ip := x]) \<noteq> None" using assms(4) by (auto simp: find_index_None)
  then obtain jp where "find_index (\<lambda>i. i_ref i = 0) (ic[ip := x]) = Some jp" by blast
  then show "\<exists>jp < 50. find_index (\<lambda>i. i_ref i = 0) (ic[ip := x]) = Some jp"
    using find_index_less [of "\<lambda>i. i_ref i = 0" "ic[ip := x]" jp] d(1) by simp
qed

section \<open>Properties\<close>

text \<open>
  A small file system as \<open>src/mkfs.c\<close> lays it out: 1024 blocks, 200 inodes, the log in the
  last 30 blocks, which the bitmap does not mark. Inode 1 is the root directory in block
  29 with the entries \<open>.\<close>, \<open>..\<close> and \<open>a\<close>; inode 2 is the file \<open>a\<close> of five bytes in block 30.
\<close>

definition fs_bits :: "nat \<Rightarrow> bytes" where
  "fs_bits n = replicate (n div 8) 255 @ mask (n mod 8) # replicate (511 - n div 8) 0"

definition fs_img :: "u32 \<Rightarrow> bytes" where
  "fs_img = (\<lambda>_. replicate 512 0)(
     1 := le_bytes 1024 @ le_bytes 965 @ le_bytes 200 @ le_bytes 30 @ replicate 496 0,
     2 := put_dinode (put_dinode (replicate 512 0) 1
        \<lparr>d_type = 1, d_major = 0, d_minor = 0, d_nlink = 1, d_size = 48, d_addrs = 29 # replicate 12 0\<rparr>) 2
        \<lparr>d_type = 2, d_major = 0, d_minor = 0, d_nlink = 1, d_size = 5, d_addrs = 30 # replicate 12 0\<rparr>,
     28 := fs_bits 31,
     29 := ([1, 0, 46] @ replicate 13 0) @ ([1, 0, 46, 46] @ replicate 12 0) @ ([2, 0, 97] @ replicate 13 0) @ replicate 464 0,
     30 := [104, 101, 108, 108, 111] @ replicate 507 0)"

definition inode0 :: inode where
  "inode0 = \<lparr>i_dev = 0, i_inum = 0, i_ref = 0, i_busy = False, i_valid = False,
     i_d = \<lparr>d_type = 0, d_major = 0, d_minor = 0, d_nlink = 0, d_size = 0, d_addrs = replicate 13 0\<rparr>\<rparr>"

definition fssys0 :: fssys where
  "fssys0 = logsys.extend ((logsys0 [])\<lparr>disk := fs_img\<rparr>) (fssys.fields (replicate 50 inode0))"

lemma fssys0_simps [simp]:
  "bcache fssys0 = bcache bufsys0" "lru fssys0 = lru bufsys0" "locks fssys0 = locks bufsys0" "cpus fssys0 = cpus bufsys0"
  "mycpu fssys0 = mycpu bufsys0" "disk fssys0 = fs_img" "disksize fssys0 = 1024" "log_start fssys0 = 994" "log_size fssys0 = 30"
  "log_dev fssys0 = 1" "log_outstanding fssys0 = 1" "lh_n fssys0 = 0" "length (lh_sector fssys0) = 30" "icache fssys0 = replicate 50 inode0"
  by (simp_all add: fssys0_def logsys.defs fssys.defs logsys0_def bufsys.defs bufsys0_def pipesys.defs pipesys0_def)

lemma fssys0_tx: "tx {} [] fssys0" "blk fssys0 = fs_img"
  using fresh_cache [of fssys0] by (simp_all add: tx_def log_at_def log_geom_def)

lemma fs_img_sb: "sb_of (fs_img 1) = \<lparr>sb_size = 1024, sb_nblocks = 965, sb_ninodes = 200, sb_nlog = 30\<rparr>"
  by (simp add: sb_of_def fs_img_def get32_def)

lemma BBLOCK_small: "b < 1024 \<Longrightarrow> BBLOCK b 200 = 28"
proof -
  assume "b < 1024"
  then have "unat b < 4096" by (simp add: word_less_nat_alt)
  then have "b div 4096 = 0" by (simp add: word_unat_eq_iff unat_div)
  then show ?thesis by (simp add: BBLOCK_def)
qed

lemma fs_bits: "n < 4096 \<Longrightarrow> i < 4096 \<Longrightarrow> bit_of (fs_bits n) i = (i < n)" "n < 4096 \<Longrightarrow> length (fs_bits n) = 512"
proof -
  assume n: "n < 4096"
  show "length (fs_bits n) = 512" using n by (simp add: fs_bits_def)
  assume i: "i < 4096"
  have m: "(255 :: u8) = mask 8" by (simp add: mask_eq_exp_minus_1)
  consider "i div 8 < n div 8" | "i div 8 = n div 8" | "n div 8 < i div 8" by linarith
  then show "bit_of (fs_bits n) i = (i < n)"
  proof cases
    case 1
    then have "i < n" using div_le_mono [of n i 8] by linarith
    then show ?thesis using 1 by (simp add: bit_of_iff fs_bits_def nth_append m bit_simps)
  next
    case 2
    then have "i < n \<longleftrightarrow> i mod 8 < n mod 8" using mult_div_mod_eq [of 8 i] mult_div_mod_eq [of 8 n] by linarith
    then show ?thesis using 2 by (simp add: bit_of_iff fs_bits_def nth_append bit_simps)
  next
    case 3
    then have "\<not> i < n" using div_le_mono [of i n 8] by linarith
    moreover have "i div 8 - Suc (n div 8) < 511 - n div 8" using 3 i by simp
    ultimately show ?thesis using 3 by (simp add: bit_of_iff fs_bits_def nth_append nth_Cons')
  qed
qed

lemma bitmap_used:
  assumes "blk s 28 = fs_bits n" "n < 4096" "b < 1024"
  shows "used s (sb_of (fs_img 1)) b \<longleftrightarrow> unat b < n"
proof -
  have "unat (b mod 4096) = unat b" "unat b < 4096" using assms(3) by (simp_all add: unat_mod word_less_nat_alt)
  then show ?thesis using fs_bits(1) [OF assms(2), of "unat b"] assms by (simp add: used_def fs_img_sb BBLOCK_small)
qed

lemma fs_img_used: "b < 1024 \<Longrightarrow> used fssys0 (sb_of (fs_img 1)) b \<longleftrightarrow> b < 31"
  using bitmap_used [of fssys0 31 b] by (simp add: fssys0_tx fs_img_def word_less_nat_alt)

lemma fssys0_layout: "fs_layout fssys0 (sb_of (fs_img 1))" "bitmap_ok fssys0 (sb_of (fs_img 1))"
proof -
  have l: "length (fs_img 28) = 512" using fs_bits(2) [of 31] by (simp add: fs_img_def)
  have sz: "sb_size (sb_of (fs_img 1)) = 1024" "sb_ninodes (sb_of (fs_img 1)) = 200" by (simp_all add: fs_img_sb)
  have a: "28 \<notin> log_area fssys0" by (simp add: log_area_def)
  show "fs_layout fssys0 (sb_of (fs_img 1))"
    unfolding fs_layout_def sz fssys0_tx(2) using l a BBLOCK_small by auto
  have "used fssys0 (sb_of (fs_img 1)) 28" "used fssys0 (sb_of (fs_img 1)) 1" by (simp_all add: fs_img_used)
  then show "bitmap_ok fssys0 (sb_of (fs_img 1))" unfolding bitmap_ok_def sz using BBLOCK_small by auto
qed

lemma fssys0_balloc_ok: "balloc_ok {} [] (sb_of (fs_img 1)) fssys0"
proof -
  have "x \<notin> log_area fssys0" if "x < 1024" "\<not> used fssys0 (sb_of (fs_img 1)) x"
    "\<forall>y. y < x \<longrightarrow> used fssys0 (sb_of (fs_img 1)) y" for x
  proof -
    have "\<not> x < 31" using fs_img_used [OF that(1)] that(2) by simp
    moreover have "\<not> 31 < x" using that(3) fs_img_used [of 31] by auto
    ultimately have "x = 31" by simp
    then show ?thesis by (simp add: log_area_def)
  qed
  moreover have "sb_size (sb_of (fs_img 1)) = 1024" by (simp add: fs_img_sb)
  ultimately show ?thesis using fssys0_tx fssys0_layout(1) by (simp add: balloc_ok_def)
qed

text \<open>
  (C19) The block allocator. In a transaction with room for two more blocks, \<open>balloc\<close>
  returns the first block that is free in the bitmap, over all bitmap blocks; its bit and
  no other becomes set and the block reads as zeros; no other block changes. \<open>bfree\<close> of
  that block makes exactly it free again, so that the bitmap is as before.
\<close>

theorem balloc_correct:
  assumes "balloc_ok {} secs sb s" "bitmap_ok s sb" "z < sb_size sb" "\<not> used s sb z"
    "int (length secs) + 3 < log_size s"
  shows "\<exists>x t u. balloc 1 s = Ok x t \<and> x < sb_size sb \<and> \<not> used s sb x \<and> (\<forall>y. y < x \<longrightarrow> used s sb y) \<and>
    blk t x = replicate 512 0 \<and> (\<forall>y. y \<noteq> x \<and> y \<noteq> BBLOCK x (sb_ninodes sb) \<longrightarrow> blk t y = blk s y) \<and>
    (\<forall>y < sb_size sb. used t sb y = (y = x \<or> used s sb y)) \<and>
    bfree 1 x t = Ok () u \<and> (\<forall>y < sb_size sb. used u sb y = used s sb y)"
proof -
  have "(1 :: u32) \<notin> {}" by simp
  from balloc_spec [OF assms(1) this assms(3,4)] obtain x t
    where x: "balloc 1 s = Ok x t" and p: "balloc_post {} secs sb s x t" by blast
  have lay: "fs_layout s sb" using assms(1) by (simp add: balloc_ok_def)
  let ?bb = "BBLOCK x (sb_ninodes sb)"
  note px = balloc_postD [OF p]
  note ub = used_balloc [OF lay assms(2) p]
  have room: "int (length (logged x (logged ?bb secs))) + 1 < log_size t"
    using assms(5) length_logged [of x "logged ?bb secs"] length_logged [of ?bb secs] log_sameD(3) [OF px(5)] by simp
  have x1: "x \<noteq> 1" using assms(2) px(2) by (auto simp: bitmap_ok_def)
  have lay': "fs_layout t sb"
    unfolding fs_layout_def log_sameD [OF px(5)]
  proof (intro conjI allI impI)
    have "?bb \<noteq> 1" using lay px(1) by (auto simp: fs_layout_def)
    then show "sb = sb_of (blk t 1)" using lay px(6) x1 by (simp add: fs_layout_def)
    fix b assume "b < sb_size sb"
    then show "length (blk t (BBLOCK b (sb_ninodes sb))) = 512" by (rule ub(2))
  qed (use lay in \<open>auto simp: fs_layout_def\<close>)
  have "used t sb x" using ub(1) [OF px(1)] by simp
  then obtain u where u: "bfree 1 x t = Ok () u" "blk u = (blk t)(?bb := clear_bit (blk t ?bb) (unat (x mod 4096)))"
    using bfree_spec [OF px(4) lay' _ _ room px(1)] by (simp, elim exE conjE) (rule that; assumption)
  have r: "\<forall>y < sb_size sb. used u sb y = used s sb y"
  proof (intro allI impI)
    fix y assume y: "y < sb_size sb"
    show "used u sb y = used s sb y" using used_bfree [OF ub(2) u(2) y] ub(1) [OF y] px(2) by auto
  qed
  have "\<forall>y. y \<noteq> x \<and> y \<noteq> ?bb \<longrightarrow> blk t y = blk s y" "blk t x = replicate 512 0" using px(6) by simp_all
  moreover have "\<forall>y < sb_size sb. used t sb y = (y = x \<or> used s sb y)" using ub(1) by blast
  ultimately show ?thesis by (intro exI conjI) (rule x px(1-3) u(1) r | assumption)+
qed

theorem balloc_correct_witness:
  "\<exists>t u. balloc 1 fssys0 = Ok 31 t \<and> blk t 31 = replicate 512 0 \<and> used t (sb_of (fs_img 1)) 31 \<and>
     bfree 1 31 t = Ok () u \<and> \<not> used u (sb_of (fs_img 1)) 31"
proof -
  let ?sb = "sb_of (fs_img 1)"
  have sz: "sb_size ?sb = 1024" by (simp add: fs_img_sb)
  have p: "31 < sb_size ?sb" "int (length []) + 3 < log_size fssys0" by (simp_all add: sz)
  have free: "\<not> used fssys0 ?sb 31" using fs_img_used [of 31] by simp
  obtain x t u where x: "balloc 1 fssys0 = Ok x t" "x < sb_size ?sb" "\<not> used fssys0 ?sb x" "\<forall>y. y < x \<longrightarrow> used fssys0 ?sb y"
    "blk t x = replicate 512 0" "\<forall>y < sb_size ?sb. used t ?sb y = (y = x \<or> used fssys0 ?sb y)"
    "bfree 1 x t = Ok () u" "\<forall>y < sb_size ?sb. used u ?sb y = used fssys0 ?sb y"
    using balloc_correct [OF fssys0_balloc_ok fssys0_layout(2) p(1) free p(2)] by (elim exE conjE) (rule that; assumption)
  have "x = 31"
  proof -
    have "\<not> x < 31" using fs_img_used [of x] x(2,3) sz by simp
    moreover have "\<not> 31 < x" using x(4) free by blast
    ultimately show ?thesis by simp
  qed
  then have "used t ?sb 31" "\<not> used u ?sb 31" using x(6,8) free sz by simp_all
  then show ?thesis using x(1,5,7) \<open>x = 31\<close> by blast
qed

lemma find_uptI: "i < n \<Longrightarrow> P i \<Longrightarrow> (\<And>j. j < i \<Longrightarrow> \<not> P j) \<Longrightarrow> find P [0..<n] = Some i"
  by (auto simp: find_Some_iff intro!: exI [of _ i])

lemma bzero_any:
  assumes tx: "tx {} secs s" and "sec < disksize s" "int (length secs) + 1 < log_size s"
  shows "\<exists>t. bzero 1 sec s = Ok () t \<and> sec \<in> set (take (nat (lh_n t)) (lh_sector t))"
proof -
  have c: "card ({} \<union> set secs) < 30" using tx_card [OF tx assms(3)] by simp
  obtain b u where u: "bread 1 sec s = Ok b u" "tx {sec} secs u" "holding_buf u sec b" "log_same s u"
    using tx_bread [OF tx _ assms(2) c] by auto
  note p = txD [OF u(2)]
  have r: "int (length secs) + 1 < log_size u" using assms(3) log_sameD(3) [OF u(4)] by simp
  let ?d = "replicate 512 0 :: bytes"
  let ?v = "upd_buf b (\<lambda>f. f\<lparr>b_data := ?d, b_dirty := True\<rparr>) u"
  obtain y where y: "seqK (setB b (\<lambda>f. f\<lparr>b_data := ?d\<rparr>)) (log_write b) u =
      Ok () (?v\<lparr>lh_sector := y, lh_n := int (length (logged sec secs))\<rparr>)" "length y = 30"
    "\<forall>i < length (logged sec secs). y ! i = logged sec secs ! i"
    using log_write_run [OF p(1,2) u(3) p(4) r p(6), of ?d] by blast
  let ?w = "?v\<lparr>lh_sector := y, lh_n := int (length (logged sec secs))\<rparr>"
  have "calm ?w" "bio_inv ?w" "holding_buf ?w sec b" using pin_buf [OF p(2) u(3), of ?d] p(1) by simp_all
  from brelse_spec [OF this] obtain t where t: "brelse b ?w = Ok () t" "rest_same ?w t" by blast
  have "bzero 1 sec s = Ok () t" using u(1) y(1) t(1) by (simp add: bzero_def log_update_def bindK_run seqK_Ok)
  moreover have "take (length (logged sec secs)) y = logged sec secs"
    using y(2,3) r p(4) length_logged [of sec secs] by (intro nth_equalityI) (auto simp: log_at_def log_geom_def)
  moreover have "sec \<in> set (logged sec secs)" by (simp add: logged_def)
  ultimately show ?thesis using rest_same_log [OF t(2)] by (intro exI [of _ t]) simp
qed

text \<open>
  (C37) The image of \<open>src/mkfs.c\<close> leaves the bits of the log blocks clear in the free bitmap,
  and \<open>balloc\<close> goes up to \<open>sb.size\<close>. When all data blocks are in use, it does not panic:
  it hands out a block of the log as a file block and puts it into the very transaction
  that will use it to store its blocks.
\<close>

theorem balloc_hands_out_log_block:
  assumes tx: "tx {} secs s" and lay: "fs_layout s sb" and size: "sb_size sb \<le> 4096" and room: "int (length secs) + 2 < log_size s"
    and x: "x \<in> log_area s" "x < sb_size sb" "\<not> used s sb x" "\<forall>y. y < x \<longrightarrow> used s sb y"
  shows "\<exists>t. balloc 1 s = Ok x t \<and> x \<in> set (take (nat (lh_n t)) (lh_sector t))"
proof -
  let ?bb = "BBLOCK 0 (sb_ninodes sb)" and ?i = "unat x"
  have sb: "sb = sb_of (blk s 1)" "1 < disksize s" "sb_size sb \<le> disksize s" and z: "0 < sb_size sb"
    using lay le_less_trans [OF word_zero_le x(2)] by (auto simp: fs_layout_def)
  have bb: "?bb < disksize s" "?bb \<notin> log_area s" using lay z by (auto simp: fs_layout_def)
  have r: "int (length secs) + 1 < log_size s" using room by simp
  have c: "card ({} \<union> set secs) < 30" using tx_card [OF tx r] by simp
  have i: "?i < 4096" using x(2) size by (simp add: word_less_nat_alt word_le_nat_alt)
  obtain u where u: "readsb 1 s = Ok sb u" "tx {} secs u" "blk u = blk s" "log_same s u"
    using tx_readsb [OF tx _ sb(2) c] sb(1) by auto
  note same = log_sameD [OF u(4)]
  have dv: "4096 dvd unat (0 :: u32)" by simp
  have bits: "used s sb y = bit_of (blk s ?bb) (unat y)" if "unat y < 4096" for y
    using block_bits(2) [OF dv _ , of y] that by simp
  have find: "find (\<lambda>bi. 0 + of_nat bi < sb_size sb \<and> \<not> bit_of (blk s ?bb) bi) [0..<4096] = Some ?i"
  proof (rule find_uptI [OF i])
    show "0 + of_nat ?i < sb_size sb \<and> \<not> bit_of (blk s ?bb) ?i" using x(2,3) bits [OF i] by simp
    fix j assume j: "j < ?i"
    then have uj: "unat (of_nat j :: u32) = j" using i by (simp add: unat_of_nat)
    then have "of_nat j < x" using j by (simp add: word_less_nat_alt)
    then have "used s sb (of_nat j)" using x(4) by blast
    then show "\<not> (0 + of_nat j < sb_size sb \<and> \<not> bit_of (blk s ?bb) j)" using bits [of "of_nat j"] uj j i by simp
  qed
  let ?d = "mark_bit (blk s ?bb) ?i"
  obtain b v w where w: "bread 1 ?bb u = Ok b v" "b_data (bcache v ! b) = blk u ?bb" "log_update b ?d v = Ok () w"
    "tx {} (logged ?bb secs) w" "log_same u w"
    using tx_update [OF u(2) _ _ _ c, of ?bb ?d] bb r same by auto
  note same2 = log_sameD [OF w(5)]
  have x2: "x < disksize w" using x(2) sb(3) same same2 by simp
  have r2: "int (length (logged ?bb secs)) + 1 < log_size w" using room length_logged [of ?bb secs] same same2 by simp
  from bzero_any [OF w(4) x2 r2] obtain t where t: "bzero 1 x w = Ok () t" "x \<in> set (take (nat (lh_n t)) (lh_sector t))" by blast
  have "balloc_loop (Suc k) 1 sb 0 u = Ok x t" for k
    using z w(1-3) u(3) find t(1) by (simp add: getB_def run_simps)
  from this [of "2 ^ 20 - 1"] have "balloc_loop (2 ^ 20) 1 sb 0 u = Ok x t" by (simp del: balloc_loop.simps)
  then show ?thesis using u(1) t(2) by (intro exI [of _ t]) (simp add: balloc_def bindK_run)
qed

theorem balloc_hands_out_log_block_witness:
  "\<exists>t. balloc 1 (fssys0\<lparr>disk := fs_img(28 := fs_bits 994)\<rparr>) = Ok 994 t \<and> 994 \<in> set (take (nat (lh_n t)) (lh_sector t))"
proof -
  let ?s = "fssys0\<lparr>disk := fs_img(28 := fs_bits 994)\<rparr>" and ?sb = "sb_of (fs_img 1)"
  have f: "calm ?s" "bio_inv ?s" "busy_secs ?s = {}" "dirty_secs ?s = {}" "blk ?s = disk ?s"
    using fresh_cache [of ?s] by simp_all
  have u: "used ?s ?sb b \<longleftrightarrow> unat b < 994" if "b < 1024" for b using bitmap_used [of ?s 994 b] that f(5) by simp
  have sz: "sb_size ?sb = 1024" "sb_ninodes ?sb = 200" by (simp_all add: fs_img_sb)
  have lay: "fs_layout ?s ?sb"
    unfolding fs_layout_def sz f(5) using BBLOCK_small fs_bits(2) [of 994] by (auto simp: log_area_def)
  have at: "tx {} [] ?s" using f by (simp add: tx_def log_at_def log_geom_def)
  show ?thesis
  proof (rule balloc_hands_out_log_block [OF at lay])
    show "994 \<in> log_area ?s" by (simp add: log_area_def)
    show "\<forall>y. y < 994 \<longrightarrow> used ?s ?sb y"
    proof (intro allI impI)
      fix y :: u32 assume "y < 994"
      then show "used ?s ?sb y" using u [of y] by (simp add: word_less_nat_alt)
    qed
    show "\<not> used ?s ?sb 994" using u [of 994] by simp
  qed (simp_all add: sz)
qed

text \<open>
  (C20) The copy of an inode on the disk. \<open>iupdate\<close> of a locked inode changes exactly the one
  inode of its block, into the cached one. When the only holder then unlocks the inode and
  drops it (\<open>iunlockput\<close>; it still has a link, so it is not freed), a later \<open>iget\<close> of the
  same inode number takes an entry over whose contents are not valid, and \<open>ilock\<close> of that
  entry reads back from the block the very same type, device, link count, size and
  addresses.
\<close>

theorem iupdate_ilock_roundtrip:
  assumes "tx {} secs s" "icache_inv (icache s)" "ip < 50" "icache s ! ip = i" "i_dev i = 1"
    "length (d_addrs (i_d i)) = 13" "inode_block_ok s (i_inum i)" "int (length secs) + 2 < log_size s"
    "i_busy i" "i_ref i = 1" "d_nlink (i_d i) \<noteq> 0" "d_type (i_d i) \<noteq> 0"
  shows "\<exists>t u v w jp. iupdate ip s = Ok () t \<and> (\<forall>n. inode_at t n = (if n = i_inum i then i_d i else inode_at s n)) \<and>
    iunlockput ip t = Ok () u \<and> iget 1 (i_inum i) u = Ok jp v \<and> \<not> i_valid (icache v ! jp) \<and>
    ilock jp v = Ok () w \<and> i_valid (icache w ! jp) \<and> i_d (icache w ! jp) = i_d i"
proof -
  have room: "int (length secs) + 1 < log_size s" using assms(8) by simp
  have len: "length (icache s) = 50" using icache_invD(1) [OF assms(2)] .
  obtain t where t: "iupdate ip s = Ok () t" "tx {} (logged (IBLOCK (i_inum i)) secs) t" "log_same s t"
    "blk t = (blk s)(IBLOCK (i_inum i) := put_dinode (blk s (IBLOCK (i_inum i))) (unat (i_inum i mod 8)) (i_d i))"
    using iupdate_spec [OF assms(1,4,5,6,7) _ room] by auto
  have at: "inode_at t n = (if n = i_inum i then i_d i else inode_at s n)" for n
    using inode_at_update [OF t(4)] assms(6,7) by (simp add: inode_block_ok_def)
  note same = log_sameD [OF t(3)] log_same_icache [OF t(3)]
  let ?x = "i\<lparr>i_busy := False, i_ref := 0\<rparr>"
  obtain u where u: "iunlockput ip t = Ok () u" "tx {} (logged (IBLOCK (i_inum i)) secs) u"
    "icache u = (icache s)[ip := ?x]" "blk u = blk t" "disksize u = disksize t" "log_size u = log_size t"
  proof -
    have w: "disksize (woken ch x) = disksize x" "log_size (woken ch x) = log_size x" for ch and x :: "'a fssys_scheme"
      by (simp_all add: woken_def)
    show thesis
      using that iunlockput_run [OF txD(1) [OF t(2)], of ip] same assms(3,4,9-11) len t(2) by (simp add: w)
  qed
  obtain jp where jp: "jp < 50" "find_index (\<lambda>i. i_ref i = 0) (icache u) = Some jp" "icache_find (icache u) 1 (i_inum i) = None"
    using icache_find_dropped [OF assms(2,3), of ?x] assms(4,5,10) u(3) by auto
  let ?j = "(icache u ! jp)\<lparr>i_dev := 1, i_inum := i_inum i, i_ref := 1, i_busy := False, i_valid := False\<rparr>"
  let ?v = "upd_ip jp (\<lambda>i'. i'\<lparr>i_dev := 1, i_inum := i_inum i, i_ref := 1, i_busy := False, i_valid := False\<rparr>) u"
  have v: "iget 1 (i_inum i) u = Ok jp ?v" using iget_run [OF txD(1) [OF u(2)]] jp(2,3) by simp
  have vj: "icache ?v ! jp = ?j" "jp < length (icache ?v)" using jp(1) len u(3) by simp_all
  have r: "int (length (logged (IBLOCK (i_inum i)) secs)) + 1 < log_size ?v"
    using assms(8) length_logged [of "IBLOCK (i_inum i)" secs] same u(6) by (simp add: upd_ip_def)
  have l: "IBLOCK (i_inum i) < disksize ?v" using assms(7) same u(5) by (simp add: inode_block_ok_def upd_ip_def)
  have "inode_at ?v (i_inum i) = i_d i" using at [of "i_inum i"] u(4) by (simp add: inode_at_def)
  with ilock_load [of _ ?v jp ?j, OF _ vj] u(2) l r assms(12)
  obtain w where "ilock jp ?v = Ok () w" "icache w = (icache ?v)[jp := ?j\<lparr>i_busy := True, i_d := i_d i, i_valid := True\<rparr>]"
    by auto
  then show ?thesis using t(1) at u(1) v vj by (intro exI [of _ t] exI [of _ u] exI [of _ ?v] exI [of _ w] exI [of _ jp]) auto
qed

text \<open>Slot 0 holds the root inode, changed.\<close>

definition fssys1 :: fssys where
  "fssys1 = fssys0\<lparr>icache := (replicate 50 inode0)
     [0 := \<lparr>i_dev = 1, i_inum = 1, i_ref = 1, i_busy = True, i_valid = True,
        i_d = \<lparr>d_type = 1, d_major = 0, d_minor = 0, d_nlink = 2, d_size = 64, d_addrs = 29 # replicate 12 0\<rparr>\<rparr>]\<rparr>"

lemma fssys1_tx: "tx {} [] fssys1" "blk fssys1 = fs_img"
  using fresh_cache [of fssys1] by (simp_all add: fssys1_def tx_def log_at_def log_geom_def)

lemma fssys1_inv: "icache_inv (icache fssys1)"
  by (rule icache_invI) (auto simp: fssys1_def inode0_def nth_list_update split: if_splits)

theorem iupdate_ilock_roundtrip_witness:
  "\<exists>t u v w jp. iupdate 0 fssys1 = Ok () t \<and> d_nlink (inode_at t 1) = 2 \<and> inode_at t 2 = inode_at fssys1 2 \<and>
     iunlockput 0 t = Ok () u \<and> iget 1 1 u = Ok jp v \<and> ilock jp v = Ok () w \<and> d_size (i_d (icache w ! jp)) = 64"
proof -
  let ?i = "icache fssys1 ! 0"
  have ib: "IBLOCK 1 = 2" by (simp add: IBLOCK_def)
  have ok: "inode_block_ok fssys1 1" using fssys1_tx(2)
    by (simp add: inode_block_ok_def ib log_area_def) (simp add: fssys1_def fs_img_def)
  have i: "i_inum ?i = 1" "d_nlink (i_d ?i) = 2" "d_size (i_d ?i) = 64" by (simp_all add: fssys1_def)
  have "\<exists>t u v w jp. iupdate 0 fssys1 = Ok () t \<and> (\<forall>n. inode_at t n = (if n = i_inum ?i then i_d ?i else inode_at fssys1 n)) \<and>
    iunlockput 0 t = Ok () u \<and> iget 1 (i_inum ?i) u = Ok jp v \<and> \<not> i_valid (icache v ! jp) \<and>
    ilock jp v = Ok () w \<and> i_valid (icache w ! jp) \<and> i_d (icache w ! jp) = i_d ?i"
    by (rule iupdate_ilock_roundtrip [OF fssys1_tx(1) fssys1_inv _ refl]) (use ok in \<open>simp_all add: fssys1_def\<close>)
  then obtain t u v w jp where t: "iupdate 0 fssys1 = Ok () t"
    "\<And>n. inode_at t n = (if n = 1 then i_d ?i else inode_at fssys1 n)"
    "iunlockput 0 t = Ok () u" "iget 1 1 u = Ok jp v" "ilock jp v = Ok () w" "i_d (icache w ! jp) = i_d ?i"
    unfolding i(1) by blast
  have "inode_at t 1 = i_d ?i" "inode_at t 2 = inode_at fssys1 2" using t(2) [of 1] t(2) [of 2] by simp_all
  then show ?thesis using t(1,3-6) i(2,3) by (intro exI [of _ t] exI [of _ u] exI [of _ v] exI [of _ w] exI [of _ jp]) simp
qed

text \<open>
  (C21) The inode cache. \<open>iget\<close> returns an entry for the inode asked for. If the inode is in
  the cache, it is that entry with one more reference and otherwise as it was; if not, an
  entry without references is taken over, with one reference and its contents not valid.
  No other entry changes, an inode never gets two entries, and only when all entries are
  referenced does \<open>iget\<close> panic.
\<close>

theorem iget_correct:
  assumes "calm s" "icache_inv (icache s)"
  shows "(\<exists>ip t. iget dev inum s = Ok ip t \<and> icache_inv (icache t) \<and> ip < 50 \<and>
       i_dev (icache t ! ip) = dev \<and> i_inum (icache t ! ip) = inum \<and> (\<forall>j. j \<noteq> ip \<longrightarrow> icache t ! j = icache s ! j) \<and>
       (case icache_find (icache s) dev inum of
          Some jp \<Rightarrow> jp = ip \<and> icache t ! ip = (icache s ! ip)\<lparr>i_ref := i_ref (icache s ! ip) + 1\<rparr>
        | None \<Rightarrow> i_ref (icache s ! ip) = 0 \<and> i_ref (icache t ! ip) = 1 \<and> \<not> i_valid (icache t ! ip))) \<or>
     (iget dev inum s = Panic ''iget: no inodes'' \<and> (\<forall>j < 50. 0 < i_ref (icache s ! j)))"
proof (cases "icache_find (icache s) dev inum")
  note d = icache_invD [OF assms(2)]
  case (Some ip)
  then have ip: "ip < 50" "0 < i_ref (icache s ! ip)" "i_dev (icache s ! ip) = dev" "i_inum (icache s ! ip) = inum"
    using d(1) by (auto simp: icache_find_def find_index_Some)
  then have "icache_inv ((icache s)[ip := (icache s ! ip)\<lparr>i_ref := i_ref (icache s ! ip) + 1\<rparr>])"
    by (intro icache_inv_ref [OF assms(2)]) simp_all
  then show ?thesis using Some ip d(1) iget_run [OF assms(1), of dev inum] by simp
next
  note d = icache_invD [OF assms(2)]
  case None
  show ?thesis
  proof (cases "find_index (\<lambda>i. i_ref i = 0) (icache s)")
    case Nf: None
    have "0 < i_ref (icache s ! j)" if "j < 50" for j
    proof -
      have "icache s ! j \<in> set (icache s)" using that d(1) by simp
      then have "i_ref (icache s ! j) \<noteq> 0" using Nf by (auto simp: find_index_None)
      then show ?thesis using d(2) [OF that] by simp
    qed
    then show ?thesis using None Nf iget_run [OF assms(1), of dev inum] by simp
  next
    case (Some ip)
    then have ip: "ip < 50" "i_ref (icache s ! ip) = 0" using d(1) by (auto simp: find_index_Some)
    have "icache_inv ((icache s)[ip := (icache s ! ip)\<lparr>i_dev := dev, i_inum := inum, i_ref := 1, i_busy := False, i_valid := False\<rparr>])"
      by (rule icache_inv_new [OF assms(2) ip(1) None]) simp_all
    then show ?thesis using None Some ip d(1) iget_run [OF assms(1), of dev inum] by simp
  qed
qed

theorem iget_correct_witness:
  "\<exists>ip t. iget 1 7 fssys0 = Ok ip t \<and> icache_inv (icache t) \<and> i_inum (icache t ! ip) = 7 \<and> i_ref (icache t ! ip) = 1"
proof -
  have inv: "icache_inv (icache fssys0)" by (auto simp: icache_inv_def inode0_def)
  have none: "icache_find (icache fssys0) 1 7 = None" by (simp add: icache_find_def find_index_None inode0_def)
  have "\<not> (\<forall>j < 50. 0 < i_ref (icache fssys0 ! j))" by (auto simp: inode0_def intro: exI [of _ 0])
  then show ?thesis
    using iget_correct [OF txD(1) [OF fssys0_tx(1)] inv, of 1 7] unfolding none by auto
qed

end
