(* ===== verification/Console.thy ===== *)
theory Console
  imports Inode
begin

text \<open>
  The console (\<open>src/console.c\<close>), the serial port (\<open>src/uart.c\<close>), the keyboard
  (\<open>src/kbd.c\<close>, \<open>src/kbd.h\<close>), \<open>getcallerpcs\<close> of \<open>src/spinlock.c\<close> and the process
  listing of \<open>src/proc.c\<close>. The devices are part of the state: the port writes in order
  (\<open>outs\<close>), the registers of the CRT controller, the CGA memory, the bytes the serial
  port has received and the scan codes the keyboard has sent. Enabling interrupt lines
  (\<open>picenable\<close>, \<open>ioapicenable\<close>) has no effect on this state.
\<close>

unbundle bit_operations_syntax

section \<open>State\<close>

text \<open>The function pointers that the device table \<open>devsw\<close> can hold.\<close>

datatype devfn = Consoleread | Consolewrite

record devsw =
  dv_read :: "devfn option"
  dv_write :: "devfn option"

record input =
  in_buf :: bytes
  in_r :: u32
  in_w :: u32
  in_e :: u32

record consys = fssys +
  panicked :: bool
  cons_locking :: bool
  outs :: "(u16 \<times> u8) list"
  crt_index :: u8
  crt_regs :: "u8 \<Rightarrow> u8"
  crt :: "int \<Rightarrow> u16"
  uart :: bool
  com_status :: u8
  com_in :: bytes
  kbd_in :: bytes
  shift :: u32
  cinput :: input
  devsws :: "devsw list"

abbreviation (input) COM1 :: u16 where "COM1 \<equiv> 0x3f8"
abbreviation (input) CRTPORT :: u16 where "CRTPORT \<equiv> 0x3d4"
abbreviation (input) KBSTATP :: u16 where "KBSTATP \<equiv> 0x64"
abbreviation (input) KBDATAP :: u16 where "KBDATAP \<equiv> 0x60"
abbreviation (input) BACKSPACE :: int where "BACKSPACE \<equiv> 0x100"
abbreviation (input) INPUT_BUF :: nat where "INPUT_BUF \<equiv> 128"
abbreviation (input) CONSOLE :: nat where "CONSOLE \<equiv> 1"
abbreviation (input) NDEV :: nat where "NDEV \<equiv> 10"

definition str :: "string \<Rightarrow> bytes" where
  "str s = map (\<lambda>c. of_nat (of_char c)) s"

definition chr :: "string \<Rightarrow> int" where
  "chr s = of_char (hd s)"

section \<open>Ports\<close>

text \<open>
  A write to the data port of the CRT controller sets the register the index port names.
  Reading the data port of the serial port or of the keyboard takes the byte that waits
  there.
\<close>

definition outb :: "u16 \<Rightarrow> u8 \<Rightarrow> ('a consys_scheme, unit) kernel" where
  "outb p v =
     seqK (modifyK (\<lambda>s. s\<lparr>outs := outs s @ [(p, v)]\<rparr>))
     (if p = CRTPORT then modifyK (\<lambda>s. s\<lparr>crt_index := v\<rparr>)
      else if p = CRTPORT + 1 then modifyK (\<lambda>s. s\<lparr>crt_regs := (crt_regs s)(crt_index s := v)\<rparr>)
      else ret ())"

definition inb :: "u16 \<Rightarrow> ('a consys_scheme, u8) kernel" where
  "inb p =
     (if p = CRTPORT + 1 then getsK (\<lambda>s. crt_regs s (crt_index s))
      else if p = COM1 + 5 then getsK (\<lambda>s. if com_in s = [] then com_status s AND NOT 1 else com_status s OR 1)
      else if p = COM1 then
        bindK (getsK com_in) (\<lambda>q.
        seqK (modifyK (\<lambda>s. s\<lparr>com_in := tl q\<rparr>))
        (ret (if q = [] then 0 else hd q)))
      else if p = KBSTATP then getsK (\<lambda>s. if kbd_in s = [] then 0 else 1)
      else if p = KBDATAP then
        bindK (getsK kbd_in) (\<lambda>q.
        seqK (modifyK (\<lambda>s. s\<lparr>kbd_in := tl q\<rparr>))
        (ret (if q = [] then 0 else hd q)))
      else ret 0)"

section \<open>Serial port\<close>

text \<open>The wait for the transmitter, at most 128 rounds of reading the line status, has no
  effect on the state.\<close>

definition uartputc :: "int \<Rightarrow> ('a consys_scheme, unit) kernel" where
  "uartputc c =
     bindK (getsK uart) (\<lambda>u.
     if \<not> u then ret () else outb COM1 (of_int c))"

definition uartinit :: "('a consys_scheme, unit) kernel" where
  "uartinit =
     seqK (forK [(COM1 + 2, 0), (COM1 + 3, 0x80), (COM1, 12), (COM1 + 1, 0), (COM1 + 3, 3), (COM1 + 4, 0), (COM1 + 1, 1)]
       (\<lambda>(p, v). outb p v))
     (bindK (inb (COM1 + 5)) (\<lambda>st.
      if st = 0xFF then ret ()
      else
        seqK (modifyK (\<lambda>s. s\<lparr>uart := True\<rparr>))
        (seqK (inb (COM1 + 2))
        (seqK (inb COM1)
        (forK (str (''xv6...'' @ [CHR 0x0A])) (\<lambda>c. uartputc (uint c)))))))"

definition uartgetc :: "('a consys_scheme, int) kernel" where
  "uartgetc =
     bindK (getsK uart) (\<lambda>u.
     if \<not> u then ret (- 1)
     else bindK (inb (COM1 + 5)) (\<lambda>st.
       if st AND 1 = 0 then ret (- 1)
       else bindK (inb COM1) (\<lambda>c. ret (uint c))))"

section \<open>Screen\<close>

text \<open>
  The CGA memory is a map from the index of a cell, an \<open>int\<close> as in the source, so that a
  write before the first cell or behind the last one is seen.
\<close>

definition crt_set :: "int \<Rightarrow> u16 \<Rightarrow> ('a consys_scheme, unit) kernel" where
  "crt_set pos v = modifyK (\<lambda>s. s\<lparr>crt := (crt s)(pos := v)\<rparr>)"

text \<open>
  \<open>memmove(crt, crt+80, ...)\<close> of 23 rows and \<open>memset(crt+pos, 0, sizeof(crt[0])*(24*80 - pos))\<close>,
  whose size is an unsigned 32-bit product.
\<close>

definition scroll_move :: "(int \<Rightarrow> u16) \<Rightarrow> int \<Rightarrow> u16" where
  "scroll_move m = (\<lambda>i. if 0 \<le> i \<and> i < 23 * 80 then m (i + 80) else m i)"

definition scroll_clear :: "int \<Rightarrow> (int \<Rightarrow> u16) \<Rightarrow> int \<Rightarrow> u16" where
  "scroll_clear pos m = (\<lambda>i. if pos \<le> i \<and> i < pos + uint (2 * (1920 - of_int pos) :: u32) div 2 then 0 else m i)"

definition cgaputc :: "int \<Rightarrow> ('a consys_scheme, unit) kernel" where
  "cgaputc c =
     seqK (outb CRTPORT 14)
     (bindK (inb (CRTPORT + 1)) (\<lambda>hi.
      seqK (outb CRTPORT 15)
      (bindK (inb (CRTPORT + 1)) (\<lambda>lo.
       let pos = uint hi * 256 + uint lo in
       bindK
         (if c = 10 then ret (pos + (80 - pos mod 80))
          else if c = BACKSPACE then ret (if pos > 0 then pos - 1 else pos)
          else seqK (crt_set pos ((of_int c AND 0xff) OR 0x0700)) (ret (pos + 1))) (\<lambda>pos.
       bindK
         (if pos div 80 \<ge> 24 then
            seqK (modifyK (\<lambda>s. s\<lparr>crt := scroll_move (crt s)\<rparr>))
            (seqK (modifyK (\<lambda>s. s\<lparr>crt := scroll_clear (pos - 80) (crt s)\<rparr>))
            (ret (pos - 80)))
          else ret pos) (\<lambda>pos.
       seqK (outb CRTPORT 14)
       (seqK (outb (CRTPORT + 1) (of_int (pos div 256)))
       (seqK (outb CRTPORT 15)
       (seqK (outb (CRTPORT + 1) (of_int pos))
       (crt_set pos 0x0720))))))))))"

definition consputc :: "int \<Rightarrow> ('a consys_scheme, unit) kernel" where
  "consputc c =
     bindK (getsK panicked) (\<lambda>p.
     if p then seqK cli spin
     else
       seqK
         (if c = BACKSPACE then seqK (uartputc 8) (seqK (uartputc 32) (uartputc 8))
          else uartputc c)
       (cgaputc c))"

section \<open>Formatted output\<close>

definition digit_chars :: bytes where
  "digit_chars = str ''0123456789abcdef''"

text \<open>The digits of \<open>x\<close>, the last one first, as they are put into \<open>buf\<close>; a base is at
  least 2, so 32 rounds are enough.\<close>

fun printint_loop :: "nat \<Rightarrow> u32 \<Rightarrow> u32 \<Rightarrow> bytes" where
  "printint_loop 0 x base = []"
| "printint_loop (Suc k) x base =
     digit_chars ! unat (x mod base) # (if x div base \<noteq> 0 then printint_loop k (x div base) base else [])"

definition printint_buf :: "u32 \<Rightarrow> u32 \<Rightarrow> bool \<Rightarrow> bytes" where
  "printint_buf xx base sign =
     (let neg = (sign \<and> sint xx < 0);
          x = (if neg then - xx else xx)
      in printint_loop 32 x base @ (if neg then str ''-'' else []))"

definition printint :: "u32 \<Rightarrow> u32 \<Rightarrow> bool \<Rightarrow> ('a consys_scheme, unit) kernel" where
  "printint xx base sign = forK (rev (printint_buf xx base sign)) (\<lambda>c. consputc (uint c))"

text \<open>
  The variable arguments of \<open>cprintf\<close>: a word, or a pointer to a string (\<open>None\<close> is the
  null pointer). A call whose arguments do not fit the format is undefined in C; there
  is none in the kernel, and the model stops with \<open>va_arg\<close>. Strings end at the list's end
  or at a 0 byte.
\<close>

datatype carg = Num u32 | Ptr "bytes option"

definition puts :: "bytes \<Rightarrow> ('a consys_scheme, unit) kernel" where
  "puts t = forK (takeWhile (\<lambda>c. c \<noteq> 0) t) (\<lambda>c. consputc (sint c))"

fun cprintf_loop :: "bytes \<Rightarrow> carg list \<Rightarrow> ('a consys_scheme, unit) kernel" where
  "cprintf_loop [] args = ret ()"
| "cprintf_loop (c # fmt) args =
     (if c = 0 then ret ()
      else if c \<noteq> 37 then seqK (consputc (uint c)) (cprintf_loop fmt args)
      else
        (case fmt of
           [] \<Rightarrow> ret ()
         | d # fmt' \<Rightarrow>
             if d = 0 then ret ()
             else if d = 100 then
               (case args of Num w # as \<Rightarrow> seqK (printint w 10 True) (cprintf_loop fmt' as) | _ \<Rightarrow> panic ''va_arg'')
             else if d = 120 \<or> d = 112 then
               (case args of Num w # as \<Rightarrow> seqK (printint w 16 False) (cprintf_loop fmt' as) | _ \<Rightarrow> panic ''va_arg'')
             else if d = 115 then
               (case args of
                  Ptr p # as \<Rightarrow> seqK (puts (case p of None \<Rightarrow> str ''(null)'' | Some t \<Rightarrow> t)) (cprintf_loop fmt' as)
                | _ \<Rightarrow> panic ''va_arg'')
             else if d = 37 then seqK (consputc 37) (cprintf_loop fmt' args)
             else seqK (consputc 37) (seqK (consputc (uint d)) (cprintf_loop fmt' args))))"

definition cprintf_ptr :: "bytes option \<Rightarrow> carg list \<Rightarrow> ('a consys_scheme, unit) kernel" where
  "cprintf_ptr fmt args =
     bindK (getsK cons_locking) (\<lambda>locking.
     seqK (whenK locking (acquire Cons_lock))
     (seqK
       (case fmt of
          None \<Rightarrow> panic ''null fmt''
        | Some t \<Rightarrow> cprintf_loop t args)
     (whenK locking (release Cons_lock))))"

text \<open>The calls of the kernel, whose format is a string constant.\<close>

definition cprintf :: "string \<Rightarrow> carg list \<Rightarrow> ('a consys_scheme, unit) kernel" where
  "cprintf fmt = cprintf_ptr (Some (str fmt))"

section \<open>The call stack, panic and the process listing\<close>

fun getcallerpcs_loop :: "nat \<Rightarrow> mem \<Rightarrow> u32 \<Rightarrow> u32 list" where
  "getcallerpcs_loop 0 m ebp = []"
| "getcallerpcs_loop (Suc k) m ebp =
     (if ebp = 0 \<or> ebp < KERNBASE \<or> ebp = 0xffffffff then replicate (Suc k) 0
      else load32 m (ebp + 4) # getcallerpcs_loop k m (load32 m ebp))"

definition getcallerpcs :: "mem \<Rightarrow> u32 \<Rightarrow> u32 list" where
  "getcallerpcs m v = getcallerpcs_loop 10 m (v - 8)"

text \<open>\<open>panic\<close> up to its endless loop; \<open>v\<close> is the address of its argument on the stack. After
  it, \<open>consputc\<close> stops every CPU that prints.\<close>

definition newline :: string where
  "newline = [CHR 0x0A]"

definition panic_body :: "u32 \<Rightarrow> string \<Rightarrow> ('a consys_scheme, unit) kernel" where
  "panic_body v msg =
     seqK cli
     (seqK (modifyK (\<lambda>s. s\<lparr>cons_locking := False\<rparr>))
     (bindK (getsK mycpu) (\<lambda>id.
      seqK (cprintf ''cpu%d: panic: '' [Num (of_nat id)])
      (seqK (cprintf msg [])
      (seqK (cprintf newline [])
      (bindK (getsK (\<lambda>s. getcallerpcs (ram s) v)) (\<lambda>pcs.
       seqK (forK pcs (\<lambda>pc. cprintf '' %p'' [Num pc]))
       (modifyK (\<lambda>s. s\<lparr>panicked := True\<rparr>)))))))))"

primrec state_name :: "procstate \<Rightarrow> string" where
  "state_name UNUSED = ''unused''"
| "state_name EMBRYO = ''embryo''"
| "state_name SLEEPING = ''sleep ''"
| "state_name RUNNABLE = ''runble''"
| "state_name RUNNING = ''run   ''"
| "state_name ZOMBIE = ''zombie''"

definition procdump1 :: "nat \<Rightarrow> ('a consys_scheme, unit) kernel" where
  "procdump1 i =
     bindK (getP i id) (\<lambda>p.
     if p_state p = UNUSED then ret ()
     else
       seqK (cprintf ''%d %s %s'' [Num (of_int (p_pid p)), Ptr (Some (str (state_name (p_state p)))), Ptr (Some (p_name p))])
       (seqK
         (whenK (p_state p = SLEEPING)
           (bindK (getsK (\<lambda>s. getcallerpcs (ram s) (load32 (ram s) (p_context p + 12) + 8))) (\<lambda>pc.
            forK (takeWhile (\<lambda>w. w \<noteq> 0) pc) (\<lambda>w. cprintf '' %p'' [Num w]))))
       (cprintf newline [])))"

definition procdump :: "('a consys_scheme, unit) kernel" where
  "procdump = forK [0..<NPROC] procdump1"

section \<open>Keyboard\<close>

text \<open>Shift states are the bits \<open>SHIFT\<close> 1, \<open>CTL\<close> 2, \<open>ALT\<close> 4, \<open>CAPSLOCK\<close> 8, \<open>NUMLOCK\<close> 16,
  \<open>SCROLLLOCK\<close> 32 and \<open>E0ESC\<close> 64. The tables have 256 entries, those not given are 0.\<close>

definition shiftcode :: "nat \<Rightarrow> u32" where
  "shiftcode d = (case map_of [(0x1D, 2), (0x2A, 1), (0x36, 1), (0x38, 4), (0x9D, 2), (0xB8, 4)] d of Some w \<Rightarrow> w | None \<Rightarrow> 0)"

definition togglecode :: "nat \<Rightarrow> u32" where
  "togglecode d = (case map_of [(0x3A, 8), (0x45, 16), (0x46, 32)] d of Some w \<Rightarrow> w | None \<Rightarrow> 0)"

definition special_keys :: "(nat \<times> u8) list" where
  "special_keys = [(0xC8, 0xE2), (0xD0, 0xE3), (0xC9, 0xE6), (0xD1, 0xE7), (0xCB, 0xE4), (0xCD, 0xE5),
     (0x97, 0xE0), (0xCF, 0xE1), (0xD2, 0xE8), (0xD3, 0xE9)]"

definition keymap :: "bytes \<Rightarrow> (nat \<times> u8) list \<Rightarrow> nat \<Rightarrow> u8" where
  "keymap t sp d =
     (if d < length t then t ! d
      else case map_of (sp @ special_keys) d of Some c \<Rightarrow> c | None \<Rightarrow> 0)"

definition normalmap :: "nat \<Rightarrow> u8" where
  "normalmap = keymap
     (0 # 0x1B # str ''1234567890-='' @ [8, 9] @ str ''qwertyuiop[]'' @ [10, 0] @ str ''asdfghjkl;'' @ [39, 96, 0, 92]
      @ str ''zxcvbnm,./'' @ [0, 42, 0, 32, 0, 0, 0, 0, 0, 0, 0, 0, 0, 0, 0, 0, 0] @ str ''789-456+1230.'' @ [0, 0, 0, 0])
     [(0x9C, 10), (0xB5, 47)]"

definition shiftmap :: "nat \<Rightarrow> u8" where
  "shiftmap = keymap
     (0 # 0x1B # str ''!@#$%^&*()_+'' @ [8, 9] @ str ''QWERTYUIOP{}'' @ [10, 0] @ str ''ASDFGHJKL:'' @ [34, 126, 0, 124]
      @ str ''ZXCVBNM<>?'' @ [0, 42, 0, 32, 0, 0, 0, 0, 0, 0, 0, 0, 0, 0, 0, 0, 0] @ str ''789-456+1230.'' @ [0, 0, 0, 0])
     [(0x9C, 10), (0xB5, 47)]"

text \<open>\<open>C(x)\<close> is \<open>x - '@'\<close>, stored in an unsigned byte.\<close>

definition ctl :: "string \<Rightarrow> bytes" where
  "ctl s = map (\<lambda>c. c - 64) (str s)"

definition ctlmap :: "nat \<Rightarrow> u8" where
  "ctlmap = keymap
     (replicate 16 0 @ ctl ''QWERTYUIOP'' @ [0, 0, 13, 0] @ ctl ''ASDFGHJKL'' @ [0, 0, 0, 0, 92 - 64]
      @ ctl ''ZXCVBNM'' @ [0, 0, 47 - 64, 0, 0])
     [(0x9C, 13), (0xB5, 47 - 64)]"

definition charcode :: "u32 \<Rightarrow> nat \<Rightarrow> u8" where
  "charcode i = (if i = 0 then normalmap else if i = 1 then shiftmap else ctlmap)"

definition caps :: "u32 \<Rightarrow> u8 \<Rightarrow> u8" where
  "caps sh c =
     (if sh AND 8 \<noteq> 0 then
        if 97 \<le> c \<and> c \<le> 122 then c - 32 else if 65 \<le> c \<and> c \<le> 90 then c + 32 else c
      else c)"

definition kbdgetc :: "('a consys_scheme, int) kernel" where
  "kbdgetc =
     bindK (inb KBSTATP) (\<lambda>st.
     if st AND 1 = 0 then ret (- 1)
     else
       bindK (inb KBDATAP) (\<lambda>data.
       bindK (getsK shift) (\<lambda>sh.
       if data = 0xE0 then seqK (modifyK (\<lambda>s. s\<lparr>shift := sh OR 64\<rparr>)) (ret 0)
       else if data AND 0x80 \<noteq> 0 then
         (let data = (if sh AND 64 \<noteq> 0 then data else data AND 0x7F) in
          seqK (modifyK (\<lambda>s. s\<lparr>shift := sh AND NOT (shiftcode (unat data) OR 64)\<rparr>)) (ret 0))
       else
         (let data' = (if sh AND 64 \<noteq> 0 then data OR 0x80 else data);
              sh' = (if sh AND 64 \<noteq> 0 then sh AND NOT 64 else sh);
              sh'' = (sh' OR shiftcode (unat data')) XOR togglecode (unat data') in
          seqK (modifyK (\<lambda>s. s\<lparr>shift := sh''\<rparr>))
          (ret (uint (caps sh'' (charcode (sh'' AND 3) (unat data')))))))))"

section \<open>Input\<close>

definition modI :: "(input \<Rightarrow> input) \<Rightarrow> ('a consys_scheme, unit) kernel" where
  "modI f = modifyK (\<lambda>s. s\<lparr>cinput := f (cinput s)\<rparr>)"

definition in_at :: "input \<Rightarrow> u32 \<Rightarrow> u8" where
  "in_at q i = in_buf q ! unat (i mod 128)"

definition in_put :: "u8 \<Rightarrow> input \<Rightarrow> input" where
  "in_put c q = q\<lparr>in_buf := (in_buf q)[unat (in_e q mod 128) := c], in_e := in_e q + 1\<rparr>"

text \<open>The loop of \<open>^U\<close>: at most \<open>e - w\<close> characters are rubbed out.\<close>

fun kill_line :: "nat \<Rightarrow> ('a consys_scheme, unit) kernel" where
  "kill_line 0 = ret ()"
| "kill_line (Suc k) =
     bindK (getsK cinput) (\<lambda>q.
     if in_e q \<noteq> in_w q \<and> in_at q (in_e q - 1) \<noteq> 10 then
       seqK (modI (\<lambda>q. q\<lparr>in_e := in_e q - 1\<rparr>))
       (seqK (consputc BACKSPACE)
       (kill_line k))
     else ret ())"

definition consoleintr_char :: "int \<Rightarrow> ('a consys_scheme, unit) kernel" where
  "consoleintr_char c =
     (if c = 16 then procdump
      else if c = 21 then bindK (getsK cinput) (\<lambda>q. kill_line (unat (in_e q - in_w q)))
      else if c = 8 \<or> c = 127 then
        bindK (getsK cinput) (\<lambda>q.
        whenK (in_e q \<noteq> in_w q)
          (seqK (modI (\<lambda>q. q\<lparr>in_e := in_e q - 1\<rparr>))
          (consputc BACKSPACE)))
      else
        bindK (getsK cinput) (\<lambda>q.
        whenK (c \<noteq> 0 \<and> in_e q - in_r q < 128)
          (let c = (if c = 13 then 10 else c) in
           seqK (modI (in_put (of_int c)))
           (seqK (consputc c)
           (bindK (getsK cinput) (\<lambda>q.
            whenK (c = 10 \<or> c = 4 \<or> in_e q = in_r q + 128)
              (seqK (modI (\<lambda>q. q\<lparr>in_w := in_e q\<rparr>))
              (wakeup Input_chan))))))))"

text \<open>Each call of \<open>getc\<close> that returns a character takes a byte from a device, so the
  number of bytes waiting bounds the rounds.\<close>

fun consoleintr_loop :: "nat \<Rightarrow> ('a consys_scheme, int) kernel \<Rightarrow> ('a consys_scheme, unit) kernel" where
  "consoleintr_loop 0 getc = spin"
| "consoleintr_loop (Suc k) getc =
     bindK getc (\<lambda>c.
     if c \<ge> 0 then seqK (consoleintr_char c) (consoleintr_loop k getc)
     else ret ())"

definition consoleintr :: "('a consys_scheme, int) kernel \<Rightarrow> ('a consys_scheme, unit) kernel" where
  "consoleintr getc =
     seqK (acquire Input_lock)
     (bindK (getsK (\<lambda>s. length (com_in s) + length (kbd_in s))) (\<lambda>k.
      seqK (consoleintr_loop (Suc k) getc)
      (release Input_lock)))"

definition uartintr :: "('a consys_scheme, unit) kernel" where
  "uartintr = consoleintr uartgetc"

definition kbdintr :: "('a consys_scheme, unit) kernel" where
  "kbdintr = consoleintr kbdgetc"

section \<open>The console as a device\<close>

text \<open>
  Where a read puts its bytes: at an address of the running process, at an address of the
  kernel, or in a local variable of the caller, whose bytes the read then returns. Where
  a write takes them from.
\<close>

datatype place = Uva u32 | Kva u32 | Loc

datatype source = FromU u32 | FromK u32 | FromB bytes

definition put_place :: "place \<Rightarrow> u32 \<Rightarrow> bytes \<Rightarrow> ('a kmem_scheme, unit) kernel" where
  "put_place dst i bs =
     (case dst of
        Uva a \<Rightarrow> ustore_bytes (a + i) bs
      | Kva a \<Rightarrow> modifyK (\<lambda>s. s\<lparr>ram := put_bytes (ram s) (a + i) bs\<rparr>)
      | Loc \<Rightarrow> ret ())"

definition get_source :: "source \<Rightarrow> u32 \<Rightarrow> nat \<Rightarrow> ('a kmem_scheme, bytes) kernel" where
  "get_source src i n =
     (case src of
        FromU a \<Rightarrow> uload_bytes (a + i) n
      | FromK a \<Rightarrow> getsK (\<lambda>s. bytes_at (ram s) (a + i) n)
      | FromB bs \<Rightarrow> ret (take n (drop (unat i) bs)))"

text \<open>
  The loop of \<open>consoleread\<close> with \<open>n\<close> bytes wanted, \<open>k\<close> of them still to come and \<open>acc\<close>
  read so far. It continues after a sleep where it fell asleep (\<open>consoleread_resume\<close>);
  the value after \<open>sleep\<close> is never returned.
\<close>

fun consoleread_loop :: "nat \<Rightarrow> place \<Rightarrow> int \<Rightarrow> nat \<Rightarrow> bytes \<Rightarrow> ('a consys_scheme, int \<times> bytes) kernel" where
  "consoleread_loop ip dst n 0 acc =
     seqK (release Input_lock) (seqK (ilock ip) (ret (n, acc)))"
| "consoleread_loop ip dst n (Suc k) acc =
     bindK (getsK cinput) (\<lambda>q.
     if in_r q = in_w q then
       bindK myproc (\<lambda>cur.
       bindK (getP cur p_killed) (\<lambda>killed.
       if killed then seqK (release Input_lock) (seqK (ilock ip) (ret (- 1, acc)))
       else seqK (sleep Input_chan Input_lock) (ret (0, acc))))
     else
       (let c = in_at q (in_r q) in
        seqK (modI (\<lambda>q. q\<lparr>in_r := in_r q + 1\<rparr>))
        (if c = 4 then
           seqK (whenK (int (Suc k) < n) (modI (\<lambda>q. q\<lparr>in_r := in_r q - 1\<rparr>)))
           (seqK (release Input_lock)
           (seqK (ilock ip)
           (ret (n - int (Suc k), acc))))
         else
           seqK (put_place dst (of_int n - of_nat (Suc k)) [c])
           (if c = 10 then
              seqK (release Input_lock) (seqK (ilock ip) (ret (n - int k, acc @ [c])))
            else consoleread_loop ip dst n k (acc @ [c])))))"

definition consoleread :: "nat \<Rightarrow> place \<Rightarrow> int \<Rightarrow> ('a consys_scheme, int \<times> bytes) kernel" where
  "consoleread ip dst n =
     seqK (iunlock ip)
     (seqK (acquire Input_lock)
     (if n > 0 then consoleread_loop ip dst n (nat n) []
      else seqK (release Input_lock) (seqK (ilock ip) (ret (0, [])))))"

definition consoleread_resume :: "nat \<Rightarrow> place \<Rightarrow> int \<Rightarrow> nat \<Rightarrow> bytes \<Rightarrow> ('a consys_scheme, int \<times> bytes) kernel" where
  "consoleread_resume ip dst n k acc =
     seqK (sleep_resume Input_lock) (consoleread_loop ip dst n k acc)"

definition consolewrite :: "nat \<Rightarrow> source \<Rightarrow> int \<Rightarrow> ('a consys_scheme, int) kernel" where
  "consolewrite ip src n =
     seqK (iunlock ip)
     (seqK (acquire Cons_lock)
     (seqK (forK [0..<nat n] (\<lambda>i.
        bindK (get_source src (of_nat i) 1) (\<lambda>bs. consputc (uint (hd bs)))))
     (seqK (release Cons_lock)
     (seqK (ilock ip)
     (ret n)))))"

definition consoleinit :: "('a consys_scheme, unit) kernel" where
  "consoleinit =
     seqK (initlock Cons_lock ''console'')
     (seqK (initlock Input_lock ''input'')
     (seqK (modifyK (\<lambda>s. s\<lparr>devsws := (devsws s)[CONSOLE := \<lparr>dv_read = Some Consoleread, dv_write = Some Consolewrite\<rparr>]\<rparr>))
     (modifyK (\<lambda>s. s\<lparr>cons_locking := True\<rparr>))))"


section \<open>What printing does\<close>

text \<open>
  Printing changes the devices only. \<open>cursor\<close> is the position the CRT controller holds;
  while it is on the first 24 rows it stays there, and nothing before or behind them is
  written.
  \<open>prints L m\<close>: the operation \<open>m\<close> prints and returns, where \<open>L\<close> says whether it takes
  the console lock.
\<close>

definition cursor :: "'a consys_scheme \<Rightarrow> int" where
  "cursor s = uint (crt_regs s 14) * 256 + uint (crt_regs s 15)"

text \<open>The cells outside of the first 24 rows are the same.\<close>

definition off_screen_same :: "(int \<Rightarrow> u16) \<Rightarrow> (int \<Rightarrow> u16) \<Rightarrow> bool" where
  "off_screen_same m n = (\<forall>i. i < 0 \<or> 1920 \<le> i \<longrightarrow> n i = m i)"

definition scr_step :: "'a consys_scheme \<Rightarrow> 'a consys_scheme \<Rightarrow> bool" where
  "scr_step s t = ((\<exists>a b c d. t = s\<lparr>outs := a, crt_index := b, crt_regs := c, crt := d\<rparr>) \<and>
     (cursor s < 1920 \<longrightarrow> cursor t < 1920 \<and> off_screen_same (crt s) (crt t)))"

definition scr_ok :: "bool \<Rightarrow> 'a consys_scheme \<Rightarrow> bool" where
  "scr_ok L s = (\<not> panicked s \<and> cursor s < 1920 \<and> (L \<and> cons_locking s \<longrightarrow> lock_ok Cons_lock s))"

definition prints :: "bool \<Rightarrow> ('a consys_scheme, unit) kernel \<Rightarrow> bool" where
  "prints L m = (\<forall>s. scr_ok L s \<longrightarrow> (\<exists>t. m s = Ok () t \<and> scr_step s t))"

lemma acq_st_cons [simp]:
  "panicked (acq_st l s) = panicked s" "cons_locking (acq_st l s) = cons_locking s" "outs (acq_st l s) = outs s"
  "crt_index (acq_st l s) = crt_index s" "crt_regs (acq_st l s) = crt_regs s" "crt (acq_st l s) = crt s"
  "uart (acq_st l s) = uart s" "com_in (acq_st l s) = com_in s" "kbd_in (acq_st l s) = kbd_in s"
  "shift (acq_st l s) = shift s" "cinput (acq_st l s) = cinput s" "devsws (acq_st l s) = devsws s"
  "acq_st l s\<lparr>outs := a, crt_index := b, crt_regs := c, crt := d\<rparr> = acq_st l (s\<lparr>outs := a, crt_index := b, crt_regs := c, crt := d\<rparr>)"
  "acq_st l s\<lparr>cinput := q\<rparr> = acq_st l (s\<lparr>cinput := q\<rparr>)" "cursor (acq_st l s) = cursor s"
  by (simp_all add: acq_st_def upd_lock_def upd_cpu_def cursor_def)

lemma lock_ok_cons [simp]:
  "lock_ok l (s\<lparr>outs := a, crt_index := b, crt_regs := c, crt := d\<rparr>) = lock_ok l s"
  "lock_ok l (s\<lparr>cinput := q\<rparr>) = lock_ok l s" "lock_ok l (s\<lparr>com_in := z\<rparr>) = lock_ok l s"
  "lock_ok l (s\<lparr>kbd_in := z\<rparr>) = lock_ok l s" "lock_ok l (s\<lparr>shift := w\<rparr>) = lock_ok l s"
  by (simp_all add: lock_ok_def lock_free_def settled_def cur_cpu_def)

lemma scr_step_refl: "scr_step s s"
proof -
  have "s = s\<lparr>outs := outs s, crt_index := crt_index s, crt_regs := crt_regs s, crt := crt s\<rparr>" by simp
  then show ?thesis unfolding scr_step_def off_screen_same_def by blast
qed

lemma cursor_upd [simp]:
  "cursor (s\<lparr>outs := a, crt_index := b, crt_regs := r, crt := d\<rparr>) = uint (r 14) * 256 + uint (r 15)"
  by (simp add: cursor_def)

lemma cursor_nonneg [simp]: "0 \<le> cursor s"
  by (simp add: cursor_def)

lemma off_screen_same_refl [simp]: "off_screen_same m m"
  by (simp add: off_screen_same_def)

lemma off_screen_same_trans: "off_screen_same m n \<Longrightarrow> off_screen_same n k \<Longrightarrow> off_screen_same m k"
  by (simp add: off_screen_same_def)

lemma scr_stepI:
  assumes "cursor s < 1920 \<Longrightarrow> cursor (s\<lparr>outs := a, crt_index := b, crt_regs := c, crt := d\<rparr>) < 1920"
    and "cursor s < 1920 \<Longrightarrow> off_screen_same (crt s) d"
  shows "scr_step s (s\<lparr>outs := a, crt_index := b, crt_regs := c, crt := d\<rparr>)"
  unfolding scr_step_def using assms by (intro conjI exI [of _ a] exI [of _ b] exI [of _ c] exI [of _ d]) simp_all

lemma scr_step_trans:
  assumes "scr_step s t" "scr_step t u"
  shows "scr_step s u"
proof -
  obtain a b c d where t: "t = s\<lparr>outs := a, crt_index := b, crt_regs := c, crt := d\<rparr>"
    using assms(1) by (auto simp: scr_step_def)
  obtain a' b' c' d' where u: "u = t\<lparr>outs := a', crt_index := b', crt_regs := c', crt := d'\<rparr>"
    using assms(2) by (auto simp: scr_step_def)
  have "u = s\<lparr>outs := a', crt_index := b', crt_regs := c', crt := d'\<rparr>" by (simp add: t u)
  moreover have "cursor s < 1920 \<longrightarrow> cursor u < 1920 \<and> off_screen_same (crt s) (crt u)"
    using assms unfolding scr_step_def by (blast intro: off_screen_same_trans)
  ultimately show ?thesis unfolding scr_step_def by blast
qed

lemma scr_step_ok: "scr_step s t \<Longrightarrow> scr_ok L s \<Longrightarrow> scr_ok L t"
  by (auto simp: scr_step_def scr_ok_def)

lemma prints_ret [simp]: "prints L (ret ())" "prints L (Ok ())"
  by (simp_all add: prints_def scr_step_refl)

lemma prints_seq: "prints L m \<Longrightarrow> prints L n \<Longrightarrow> prints L (seqK m n)"
  unfolding prints_def by (metis seqK_Ok scr_step_ok scr_step_trans)

lemma prints_gets: "(\<And>x. prints L (f x)) \<Longrightarrow> prints L (bindK (getsK g) f)"
  by (simp add: prints_def bindK_def)

lemma prints_getP: "(\<And>x. prints L (f x)) \<Longrightarrow> prints L (bindK (getP i g) f)"
  unfolding getP_def by (rule prints_gets)

lemma prints_when: "(b \<Longrightarrow> prints L m) \<Longrightarrow> prints L (whenK b m)"
  by (cases b) simp_all

lemma prints_forK: "(\<And>x. x \<in> set xs \<Longrightarrow> prints L (f x)) \<Longrightarrow> prints L (forK xs f)"
  by (induction xs) (simp_all add: prints_seq)

lemma outb_run:
  "outb 0x3d4 v s = Ok () (s\<lparr>outs := outs s @ [(0x3d4, v)], crt_index := v\<rparr>)"
  "outb 0x3d5 v s = Ok () (s\<lparr>outs := outs s @ [(0x3d5, v)], crt_regs := (crt_regs s)(crt_index s := v)\<rparr>)"
  "outb 0x3f8 v s = Ok () (s\<lparr>outs := outs s @ [(0x3f8, v)]\<rparr>)"
  by (simp_all add: outb_def run_simps)

lemma inb_crt: "inb 0x3d5 s = Ok (crt_regs s (crt_index s)) s"
  by (simp add: inb_def)

text \<open>The cursor position after a character, before scrolling.\<close>

definition next_pos :: "int \<Rightarrow> int \<Rightarrow> int" where
  "next_pos c pos = (if c = 10 then pos + (80 - pos mod 80)
     else if c = 256 then (if pos > 0 then pos - 1 else pos) else pos + 1)"

definition shown :: "int \<Rightarrow> int \<Rightarrow> (int \<Rightarrow> u16) \<Rightarrow> int \<Rightarrow> u16" where
  "shown c pos m = (if c = 10 \<or> c = 256 then m else m(pos := (of_int c AND 0xff) OR 0x0700))"

lemma cursor_regs:
  assumes "0 \<le> p" "p < 65536"
  shows "uint (of_int (p div 256) :: u8) * 256 + uint (of_int p :: u8) = p"
proof -
  have "uint (of_int (p div 256) :: u8) = p div 256" using assms by (simp add: uint_word_of_int)
  moreover have "uint (of_int p :: u8) = p mod 256" by (simp add: uint_word_of_int)
  ultimately show ?thesis by simp
qed

lemma next_line: "(pos :: int) + (80 - pos mod 80) = 80 * (pos div 80 + 1)"
proof -
  have "80 * (pos div 80 + 1) = 80 * (pos div 80) + 80" by simp
  then show ?thesis using mult_div_mod_eq [of 80 pos] by linarith
qed

lemma next_pos_bounds:
  assumes "0 \<le> pos" "pos < 1920"
  shows "0 \<le> next_pos c pos" "next_pos c pos \<le> 1920"
proof -
  have "0 \<le> pos div 80" "pos div 80 < 24" using assms by simp_all
  then have "0 \<le> 80 * (pos div 80 + 1)" "80 * (pos div 80 + 1) \<le> 1920" by simp_all
  then show "0 \<le> next_pos c pos" "next_pos c pos \<le> 1920"
    using assms unfolding next_pos_def next_line by auto
qed

definition scrolled :: "int \<Rightarrow> (int \<Rightarrow> u16) \<Rightarrow> int \<Rightarrow> u16" where
  "scrolled p m = (if p < 1920 then m(p := 0x0720) else (scroll_clear (p - 80) (scroll_move m))(p - 80 := 0x0720))"

text \<open>The end of \<open>cgaputc\<close>: storing the new position and the blank under the cursor.\<close>

definition cga_store :: "int \<Rightarrow> ('a consys_scheme, unit) kernel" where
  "cga_store pos =
     seqK (outb CRTPORT 14)
     (seqK (outb (CRTPORT + 1) (of_int (pos div 256)))
     (seqK (outb CRTPORT 15)
     (seqK (outb (CRTPORT + 1) (of_int pos))
     (crt_set pos 0x0720))))"

lemma cga_store_run:
  assumes "0 \<le> pos" "pos < 65536"
  shows "\<exists>a b r. cga_store pos s = Ok () (s\<lparr>outs := a, crt_index := b, crt_regs := r, crt := (crt s)(pos := 0x0720)\<rparr>) \<and>
    uint (r 14) * 256 + uint (r 15) = pos"
proof -
  have "cga_store pos s = Ok () (s\<lparr>outs := outs s @ [(0x3d4, 14)] @ [(0x3d5, of_int (pos div 256))] @ [(0x3d4, 15)] @ [(0x3d5, of_int pos)],
      crt_index := 15, crt_regs := (crt_regs s)(14 := of_int (pos div 256), 15 := of_int pos), crt := (crt s)(pos := 0x0720)\<rparr>)"
    by (simp add: cga_store_def seqK_run outb_run crt_set_def)
  then show ?thesis using cursor_regs [OF assms]
    by (intro exI [of _ "outs s @ [(0x3d4, 14)] @ [(0x3d5, of_int (pos div 256))] @ [(0x3d4, 15)] @ [(0x3d5, of_int pos)]"]
        exI [of _ 15] exI [of _ "(crt_regs s)(14 := of_int (pos div 256), 15 := of_int pos)"] conjI) simp_all
qed

lemma cgaputc_steps:
  "cgaputc c s =
    (let p = next_pos c (cursor s); m = shown c (cursor s) (crt s);
         s1 = s\<lparr>outs := outs s @ [(0x3d4, 14)] @ [(0x3d4, 15)], crt_index := 15\<rparr> in
     if p div 80 \<ge> 24 then cga_store (p - 80) (s1\<lparr>crt := scroll_clear (p - 80) (scroll_move m)\<rparr>)
     else cga_store p (s1\<lparr>crt := m\<rparr>))"
proof -
  have pos: "uint (crt_regs s 14) * 256 + uint (crt_regs s 15) = cursor s" by (simp add: cursor_def)
  consider "c = 10" | "c = 256" | "c \<noteq> 10" "c \<noteq> 256" by blast
  then show ?thesis
    unfolding cgaputc_def cga_store_def [symmetric]
    by cases (simp_all add: bindK_run seqK_run outb_run inb_crt crt_set_def Let_def next_pos_def shown_def pos)
qed

lemma scroll_clear_out:
  assumes "0 \<le> p" "p \<le> 1920" "i < 0 \<or> 1920 \<le> i"
  shows "scroll_clear p m i = m i"
proof -
  have "2 * (1920 - of_int p) = (of_int (2 * (1920 - p)) :: u32)" by simp
  then have "uint (2 * (1920 - of_int p) :: u32) = 2 * (1920 - p)"
    using assms by (simp only: uint_word_of_int) simp
  with assms show ?thesis by (auto simp: scroll_clear_def)
qed

text \<open>One character on the screen: where the cursor goes, what the screen shows.\<close>

lemma cgaputc_run:
  assumes pos: "cursor s < 1920"
  shows "\<exists>a b r. cgaputc c s = Ok () (s\<lparr>outs := a, crt_index := b, crt_regs := r,
        crt := scrolled (next_pos c (cursor s)) (shown c (cursor s) (crt s))\<rparr>) \<and>
    uint (r 14) * 256 + uint (r 15) = (let p = next_pos c (cursor s) in if p < 1920 then p else p - 80)"
proof -
  let ?p = "next_pos c (cursor s)" and ?m = "shown c (cursor s) (crt s)"
  let ?s1 = "s\<lparr>outs := outs s @ [(0x3d4, 14)] @ [(0x3d4, 15)], crt_index := 15\<rparr>"
  have p: "0 \<le> ?p" "?p \<le> 1920" by (rule next_pos_bounds [OF cursor_nonneg pos])+
  have d: "?p div 80 \<ge> 24 \<longleftrightarrow> \<not> ?p < 1920" by linarith
  show ?thesis
  proof (cases "?p < 1920")
    case True
    then obtain a b r where "cga_store ?p (?s1\<lparr>crt := ?m\<rparr>) =
        Ok () (?s1\<lparr>crt := ?m\<rparr>\<lparr>outs := a, crt_index := b, crt_regs := r, crt := (crt (?s1\<lparr>crt := ?m\<rparr>))(?p := 0x0720)\<rparr>)"
      "uint (r 14) * 256 + uint (r 15) = ?p"
      using cga_store_run [OF p(1), of "?s1\<lparr>crt := ?m\<rparr>"] by auto
    with True d show ?thesis
      by (intro exI [of _ a] exI [of _ b] exI [of _ r]) (simp add: cgaputc_steps Let_def scrolled_def)
  next
    case False
    let ?m' = "scroll_clear (?p - 80) (scroll_move ?m)"
    have b: "0 \<le> ?p - 80" "?p - 80 < 65536" using p False by linarith+
    obtain a b r where "cga_store (?p - 80) (?s1\<lparr>crt := ?m'\<rparr>) =
        Ok () (?s1\<lparr>crt := ?m'\<rparr>\<lparr>outs := a, crt_index := b, crt_regs := r, crt := (crt (?s1\<lparr>crt := ?m'\<rparr>))(?p - 80 := 0x0720)\<rparr>)"
      "uint (r 14) * 256 + uint (r 15) = ?p - 80"
      using cga_store_run [OF b, of "?s1\<lparr>crt := ?m'\<rparr>"] by auto
    with False d show ?thesis
      by (intro exI [of _ a] exI [of _ b] exI [of _ r]) (simp add: cgaputc_steps Let_def scrolled_def)
  qed
qed

lemma scrolled_off:
  assumes "0 \<le> pos" "pos < 1920"
  shows "off_screen_same m (scrolled (next_pos c pos) (shown c pos m))"
  unfolding off_screen_same_def
proof (intro allI impI)
  fix i :: int
  assume i: "i < 0 \<or> 1920 \<le> i"
  let ?p = "next_pos c pos"
  have p: "0 \<le> ?p" "?p \<le> 1920" by (rule next_pos_bounds [OF assms])+
  have m: "shown c pos m i = m i" using i assms by (auto simp: shown_def)
  show "scrolled ?p (shown c pos m) i = m i"
  proof (cases "?p < 1920")
    case True
    with i m p show ?thesis by (auto simp: scrolled_def)
  next
    case False
    with i m p scroll_clear_out [of "?p - 80" i "scroll_move (shown c pos m)"] show ?thesis
      by (auto simp: scrolled_def scroll_move_def)
  qed
qed

lemma cgaputc_prints: "prints L (cgaputc c)"
  unfolding prints_def
proof (intro allI impI)
  fix s :: "'a consys_scheme"
  assume ok: "scr_ok L s"
  then have pos: "cursor s < 1920" by (simp add: scr_ok_def)
  let ?p = "next_pos c (cursor s)" and ?m = "shown c (cursor s) (crt s)"
  obtain a b r where t: "cgaputc c s = Ok () (s\<lparr>outs := a, crt_index := b, crt_regs := r, crt := scrolled ?p ?m\<rparr>)"
    and r: "uint (r 14) * 256 + uint (r 15) = (let p = ?p in if p < 1920 then p else p - 80)"
    using cgaputc_run [OF pos, of c] by auto
  have p: "0 \<le> ?p" "?p \<le> 1920" by (rule next_pos_bounds [OF cursor_nonneg pos])+
  have "off_screen_same (crt s) (scrolled ?p ?m)" by (rule scrolled_off [OF cursor_nonneg pos])
  moreover have "uint (r 14) * 256 + uint (r 15) < 1920" using r p by (auto simp: Let_def)
  ultimately have "scr_step s (s\<lparr>outs := a, crt_index := b, crt_regs := r, crt := scrolled ?p ?m\<rparr>)"
    by (intro scr_stepI) simp_all
  with t show "\<exists>t. cgaputc c s = Ok () t \<and> scr_step s t" by blast
qed

lemma uartputc_prints: "prints L (uartputc c)"
  unfolding prints_def
proof (intro allI impI)
  fix s :: "'a consys_scheme"
  have "scr_step s (s\<lparr>outs := a, crt_index := crt_index s, crt_regs := crt_regs s, crt := crt s\<rparr>)" for a
    by (rule scr_stepI) (simp_all add: cursor_def)
  then have "scr_step s (s\<lparr>outs := a\<rparr>)" for a by simp
  then show "\<exists>t. uartputc c s = Ok () t \<and> scr_step s t"
    by (cases "uart s") (auto simp: uartputc_def run_simps outb_run scr_step_refl)
qed

lemma consputc_prints: "prints L (consputc c)"
proof -
  let ?m = "seqK (if c = 256 then seqK (uartputc 8) (seqK (uartputc 32) (uartputc 8)) else uartputc c) (cgaputc c)"
  have "prints L ?m" by (auto intro!: prints_seq uartputc_prints cgaputc_prints)
  moreover have "consputc c s = ?m s" if "scr_ok L s" for s :: "'a consys_scheme"
    using that by (simp add: consputc_def bindK_run scr_ok_def)
  ultimately show ?thesis by (simp add: prints_def)
qed

lemma puts_prints: "prints L (puts t)"
  unfolding puts_def by (rule prints_forK) (rule consputc_prints)

lemma printint_prints: "prints L (printint xx base sign)"
  unfolding printint_def by (rule prints_forK) (rule consputc_prints)

text \<open>The arguments of a call fit its format.\<close>

fun fits :: "bytes \<Rightarrow> carg list \<Rightarrow> bool" where
  "fits [] args = True"
| "fits (c # fmt) args =
     (if c = 0 then True
      else if c \<noteq> 37 then fits fmt args
      else
        (case fmt of
           [] \<Rightarrow> True
         | d # fmt' \<Rightarrow>
             if d = 0 then True
             else if d = 100 \<or> d = 120 \<or> d = 112 then (case args of Num w # as \<Rightarrow> fits fmt' as | _ \<Rightarrow> False)
             else if d = 115 then (case args of Ptr p # as \<Rightarrow> fits fmt' as | _ \<Rightarrow> False)
             else fits fmt' args))"

lemma cprintf_loop_simps:
  "cprintf_loop (0 # fmt) args = ret ()" "cprintf_loop [37] args = ret ()" "cprintf_loop (37 # 0 # fmt) args = ret ()"
  "c \<noteq> 0 \<Longrightarrow> c \<noteq> 37 \<Longrightarrow> cprintf_loop (c # fmt) args = seqK (consputc (uint c)) (cprintf_loop fmt args)"
  by simp_all

lemma fits_cases:
  assumes "fits (37 # d # g) args" "d \<noteq> 0"
  shows "(\<exists>w as. args = Num w # as \<and> fits g as \<and> (d = 100 \<or> d = 120 \<or> d = 112)) \<or>
    (\<exists>p as. args = Ptr p # as \<and> fits g as \<and> d = 115) \<or> fits g args \<and> d \<noteq> 100 \<and> d \<noteq> 120 \<and> d \<noteq> 112 \<and> d \<noteq> 115"
  using assms by (simp split: if_splits list.splits carg.splits)

lemma cprintf_loop_prints: "fits fmt args \<Longrightarrow> prints L (cprintf_loop fmt args :: ('a consys_scheme, unit) kernel)"
proof (induction fmt arbitrary: args rule: measure_induct_rule [of length])
  case (less fmt)
  note P = prints_seq consputc_prints printint_prints puts_prints
  consider "fmt = []" | f where "fmt = 0 # f" | "fmt = [37]" | f where "fmt = 37 # 0 # f"
    | d g where "fmt = 37 # d # g" "d \<noteq> 0" | c f where "fmt = c # f" "c \<noteq> 0" "c \<noteq> 37"
    by (cases fmt; cases "tl fmt"; cases "hd fmt = 0"; cases "hd fmt = 37"; cases "hd (tl fmt) = 0") auto
  then show ?case
  proof cases
    case (5 d g)
    have IH: "fits g as \<Longrightarrow> prints L (cprintf_loop g as :: ('a consys_scheme, unit) kernel)" for as
      using less.IH [of g as] 5 by simp
    from fits_cases [of d g args] less.prems 5 consider
        w as where "args = Num w # as" "fits g as" "d = 100 \<or> d = 120 \<or> d = 112"
      | p as where "args = Ptr p # as" "fits g as" "d = 115"
      | "fits g args" "d \<noteq> 100" "d \<noteq> 120" "d \<noteq> 112" "d \<noteq> 115" by blast
    then show ?thesis
      by cases (use 5 IH in \<open>auto intro!: P\<close>)
  next
    case (6 c f)
    then show ?thesis using less.IH [of f args] less.prems by (simp add: P)
  qed (simp_all add: cprintf_loop_simps)
qed

lemma cprintf_prints:
  assumes "fits (str fmt) args"
  shows "prints True (cprintf fmt args)"
  unfolding prints_def
proof (intro allI impI)
  fix s :: "'a consys_scheme"
  assume ok: "scr_ok True s"
  note loop = cprintf_loop_prints [OF assms, unfolded prints_def, rule_format]
  show "\<exists>t. cprintf fmt args s = Ok () t \<and> scr_step s t"
  proof (cases "cons_locking s")
    case False
    obtain u where "cprintf_loop (str fmt) args s = Ok () u" "scr_step s u" using loop [OF ok] by blast
    with False show ?thesis by (simp add: cprintf_def cprintf_ptr_def run_simps)
  next
    case True
    with ok have lk: "lock_ok Cons_lock s" by (simp add: scr_ok_def)
    from ok have "scr_ok False (acq_st Cons_lock s)" by (simp add: scr_ok_def)
    from loop [OF this] obtain u where u: "cprintf_loop (str fmt) args (acq_st Cons_lock s) = Ok () u"
      "scr_step (acq_st Cons_lock s) u" by blast
    then obtain a b c d where eq: "u = acq_st Cons_lock (s\<lparr>outs := a, crt_index := b, crt_regs := c, crt := d\<rparr>)"
      by (auto simp: scr_step_def)
    let ?t = "s\<lparr>outs := a, crt_index := b, crt_regs := c, crt := d\<rparr>"
    have "release Cons_lock u = Ok () ?t" unfolding eq by (rule release_acq) (simp add: lk)
    then have "cprintf fmt args s = Ok () ?t"
      using True u(1) lk by (simp add: cprintf_def cprintf_ptr_def run_simps acquire_ok)
    moreover have "scr_step s ?t" using u(2) unfolding eq by (intro scr_stepI) (simp_all add: scr_step_def)
    ultimately show ?thesis by blast
  qed
qed

lemma procdump_prints: "prints True procdump"
proof -
  have "prints True (procdump1 i)" for i
  proof -
    have f: "fits (str ''%d %s %s'') [Num a, Ptr b, Ptr c]" "fits (str '' %p'') [Num a]" "fits (str newline) []" for a b c
      by (simp_all add: str_def newline_def)
    show ?thesis
      unfolding procdump1_def
      by (intro prints_getP) (auto intro!: prints_seq prints_when prints_gets prints_forK cprintf_prints f)
  qed
  then show ?thesis unfolding procdump_def by (intro prints_forK)
qed

lemma shown_char:
  assumes "0 \<le> pos" "pos < 1920" "c \<noteq> 10" "c \<noteq> 256"
  shows "scrolled (pos + 1) (shown c pos m) ((if pos + 1 < 1920 then pos + 1 else pos + 1 - 80) - 1) = (of_int c AND 0xff) OR 0x0700"
proof (cases "pos + 1 < 1920")
  case True
  with assms show ?thesis by (simp add: scrolled_def shown_def)
next
  case False
  with assms(2) have "pos = 1919" by simp
  with assms show ?thesis by (simp add: scrolled_def shown_def scroll_clear_def scroll_move_def)
qed

section \<open>Properties\<close>

text \<open>
  (C27) The console stays on the screen. With the cursor on the first 24 rows, \<open>cprintf\<close>
  with arguments that fit its format returns, leaves the cursor on those rows and writes
  no cell of the CGA memory before or behind them, however much it prints. The same holds
  of \<open>cgaputc\<close> with any character, which leaves a blank under the cursor: a newline moves
  the cursor to the start of a row, \<open>BACKSPACE\<close> one cell back but never before the first
  cell, and any other character is shown just before the new cursor position, also when
  the screen scrolls.
\<close>

theorem console_screen_bounds:
  assumes "\<not> panicked s" "cursor s < 1920" "cons_locking s \<Longrightarrow> lock_ok Cons_lock s" "fits (str fmt) args"
  shows "(\<exists>t. cprintf fmt args s = Ok () t \<and> cursor t < 1920 \<and> (\<forall>i. i < 0 \<or> 1920 \<le> i \<longrightarrow> crt t i = crt s i)) \<and>
    (\<exists>t. cgaputc c s = Ok () t \<and> cursor t < 1920 \<and> (\<forall>i. i < 0 \<or> 1920 \<le> i \<longrightarrow> crt t i = crt s i) \<and>
      crt t (cursor t) = 0x0720 \<and>
      (if c = 10 then cursor t mod 80 = 0
       else if c = 256 then cursor t = (if cursor s = 0 then 0 else cursor s - 1)
       else crt t (cursor t - 1) = (of_int c AND 0xff) OR 0x0700))"
proof
  have ok: "scr_ok True s" using assms by (simp add: scr_ok_def)
  show "\<exists>t. cprintf fmt args s = Ok () t \<and> cursor t < 1920 \<and> (\<forall>i. i < 0 \<or> 1920 \<le> i \<longrightarrow> crt t i = crt s i)"
    using cprintf_prints [OF assms(4), unfolded prints_def, rule_format, OF ok] assms(2)
    by (auto simp: scr_step_def off_screen_same_def)
  let ?p = "next_pos c (cursor s)" and ?m = "shown c (cursor s) (crt s)"
  let ?q = "if ?p < 1920 then ?p else ?p - 80"
  obtain a b r where t: "cgaputc c s = Ok () (s\<lparr>outs := a, crt_index := b, crt_regs := r, crt := scrolled ?p ?m\<rparr>)"
    and r: "uint (r 14) * 256 + uint (r 15) = ?q"
    using cgaputc_run [OF assms(2), of c] by (auto simp: Let_def)
  have off: "scrolled ?p ?m i = crt s i" if "i < 0 \<or> 1920 \<le> i" for i
    using scrolled_off [OF cursor_nonneg assms(2), of "crt s" c] that unfolding off_screen_same_def by blast
  have lt: "?q < 1920" using next_pos_bounds [OF cursor_nonneg assms(2), of c] by auto
  have bl: "scrolled ?p ?m ?q = 0x0720" by (simp add: scrolled_def)
  have k: "if c = 10 then ?q mod 80 = 0 else if c = 256 then ?q = (if cursor s = 0 then 0 else cursor s - 1)
      else scrolled ?p ?m (?q - 1) = (of_int c AND 0xff) OR 0x0700"
  proof -
    have "?q mod 80 = ?p mod 80" by simp
    moreover have "?p mod 80 = 0" if "c = 10" unfolding next_pos_def next_line if_P [OF that] by simp
    moreover have "?q = (if cursor s = 0 then 0 else cursor s - 1)" if "c = 256"
      using that assms(2) order_le_imp_less_or_eq [OF cursor_nonneg [of s]] by (auto simp: next_pos_def)
    moreover have "scrolled ?p ?m (?q - 1) = (of_int c AND 0xff) OR 0x0700" if "c \<noteq> 10" "c \<noteq> 256"
    proof -
      have "?p = cursor s + 1" using that by (simp add: next_pos_def)
      with shown_char [OF cursor_nonneg assms(2) that, of "crt s"] show ?thesis by (simp only:)
    qed
    ultimately show ?thesis by simp
  qed
  let ?t = "s\<lparr>outs := a, crt_index := b, crt_regs := r, crt := scrolled ?p ?m\<rparr>"
  have "cursor ?t = ?q" using r by (simp only: cursor_upd)
  moreover have "crt ?t = scrolled ?p ?m" by simp
  ultimately have cr: "cursor ?t = ?q" "crt ?t = scrolled ?p ?m" .
  show "\<exists>t. cgaputc c s = Ok () t \<and> cursor t < 1920 \<and> (\<forall>i. i < 0 \<or> 1920 \<le> i \<longrightarrow> crt t i = crt s i) \<and>
      crt t (cursor t) = 0x0720 \<and>
      (if c = 10 then cursor t mod 80 = 0
       else if c = 256 then cursor t = (if cursor s = 0 then 0 else cursor s - 1)
       else crt t (cursor t - 1) = (of_int c AND 0xff) OR 0x0700)"
    by (intro exI [of _ ?t] conjI allI impI t) (unfold cr, fact lt, erule off, fact bl, fact k)
qed

text \<open>A machine with the cursor at the top of an empty screen and a serial port that has
  received \<open>bs\<close>.\<close>

definition consys0 :: "bytes \<Rightarrow> consys" where
  "consys0 bs = fssys.extend fssys0 (consys.fields False True [] 0 (\<lambda>_. 0) (\<lambda>_. 0) True 0x60 bs [] 0
     \<lparr>in_buf = replicate 128 0, in_r = 0, in_w = 0, in_e = 0\<rparr>
     (replicate 10 \<lparr>dv_read = None, dv_write = None\<rparr>))"

lemma consys0_simps [simp]:
  "\<not> panicked (consys0 bs)" "cons_locking (consys0 bs)" "cursor (consys0 bs) = 0" "uart (consys0 bs)" "com_in (consys0 bs) = bs"
  "kbd_in (consys0 bs) = []" "cinput (consys0 bs) = \<lparr>in_buf = replicate 128 0, in_r = 0, in_w = 0, in_e = 0\<rparr>"
  "locks (consys0 bs) = locks bufsys0" "cpus (consys0 bs) = cpus bufsys0" "mycpu (consys0 bs) = mycpu bufsys0"
  "icache (consys0 bs) = replicate 50 inode0" "bcache (consys0 bs) = bcache bufsys0" "lru (consys0 bs) = lru bufsys0"
  by (simp_all add: consys0_def fssys.defs consys.defs fssys0_def logsys.defs logsys0_def bufsys.defs bufsys0_def
      pipesys.defs pipesys0_def cursor_def)

lemma consys0_lock_ok: "calm (consys0 bs)" "lock_ok l (consys0 bs)"
proof -
  show "calm (consys0 bs)" by (rule fresh_cache(3)) simp_all
  then show "lock_ok l (consys0 bs)" by (rule calmD)
qed

theorem console_screen_bounds_witness:
  "(\<exists>t. cprintf ''pid %d %s'' [Num 7, Ptr None] (consys0 []) = Ok () t \<and> cursor t < 1920 \<and>
      (\<forall>i. i < 0 \<or> 1920 \<le> i \<longrightarrow> crt t i = crt (consys0 []) i)) \<and>
    (\<exists>t. cgaputc 256 (consys0 []) = Ok () t \<and> cursor t = 0 \<and> crt t (- 1) = crt (consys0 []) (- 1)) \<and>
    (\<exists>t. cgaputc 65 (consys0 []) = Ok () t \<and> crt t (cursor t - 1) = (of_int 65 AND 0xff) OR 0x0700)"
proof -
  have f: "fits (str ''pid %d %s'') [Num 7, Ptr None]" by (simp add: str_def)
  have z: "cursor (consys0 []) < 1920" by simp
  note c = console_screen_bounds [OF consys0_simps(1) z consys0_lock_ok(2) f]
  from conjunct2 [OF c [of 256]] obtain t where t: "cgaputc 256 (consys0 []) = Ok () t"
    "\<forall>i. i < 0 \<or> 1920 \<le> i \<longrightarrow> crt t i = crt (consys0 []) i" "cursor t = 0"
    by (simp only: consys0_simps) auto
  moreover have "crt t (- 1) = crt (consys0 []) (- 1)" using t(2) [rule_format, of "- 1"] by simp
  moreover from conjunct2 [OF c [of 65]] obtain u where "cgaputc 65 (consys0 []) = Ok () u"
    "crt u (cursor u - 1) = (of_int 65 AND 0xff) OR 0x0700" by auto
  ultimately show ?thesis using conjunct1 [OF c [of 65]] by blast
qed

end
