(* ===== verification/Fs.thy ===== *)
theory Fs
  imports Console
begin

text \<open>
  Files, directories and paths (\<open>src/fs.c\<close>, second half): reading and writing the
  contents of an inode, directory entries, and the lookup of path names. A path is the
  list of its characters without the final 0; a directory entry name is a list of at most
  14 characters.
\<close>

unbundle bit_operations_syntax

abbreviation (input) DIRSIZ :: nat where "DIRSIZ \<equiv> 14"
abbreviation (input) ROOTDEV :: u32 where "ROOTDEV \<equiv> 1"
abbreviation (input) ROOTINO :: u32 where "ROOTINO \<equiv> 1"

section \<open>Reading and writing\<close>

text \<open>
  \<open>m = min(n - tot, BSIZE - off % BSIZE)\<close>. Every round moves at least one byte, so
  \<open>n - tot\<close> rounds are enough.
\<close>

definition chunk :: "u32 \<Rightarrow> u32 \<Rightarrow> u32" where
  "chunk rest off = min rest (512 - off mod 512)"

fun readi_loop :: "nat \<Rightarrow> nat \<Rightarrow> place \<Rightarrow> u32 \<Rightarrow> u32 \<Rightarrow> u32 \<Rightarrow> bytes \<Rightarrow> ('a fssys_scheme, bytes) kernel" where
  "readi_loop 0 ip dst off n tot acc = ret acc"
| "readi_loop (Suc k) ip dst off n tot acc =
     (if \<not> tot < n then ret acc
      else
        bindK (bmap ip (off div 512)) (\<lambda>a.
        bindK (getI ip i_dev) (\<lambda>dev.
        bindK (bread dev a) (\<lambda>bp.
        let m = chunk (n - tot) off in
        bindK (getB bp (\<lambda>f. take (unat m) (drop (unat (off mod 512)) (b_data f)))) (\<lambda>bs.
        seqK (put_place dst tot bs)
        (seqK (brelse bp)
        (readi_loop k ip dst (off + m) n (tot + m) (acc @ bs))))))))"

definition readi :: "nat \<Rightarrow> place \<Rightarrow> u32 \<Rightarrow> u32 \<Rightarrow> ('a consys_scheme, int \<times> bytes) kernel" where
  "readi ip dst off n =
     bindK (getI ip i_d) (\<lambda>d.
     if d_type d = T_DEV then
       bindK (getsK devsws) (\<lambda>dv.
       if sint (d_major d) < 0 \<or> sint (d_major d) \<ge> int NDEV then ret (- 1, [])
       else case dv_read (dv ! unat (d_major d)) of
         None \<Rightarrow> ret (- 1, [])
       | Some fn \<Rightarrow> consoleread ip dst (sint n))
     else if off > d_size d \<or> off + n < off then ret (- 1, [])
     else
       (let n = (if off + n > d_size d then d_size d - off else n) in
        bindK (readi_loop (unat n) ip dst off n 0 []) (\<lambda>bs.
        ret (sint n, bs))))"

fun writei_loop :: "nat \<Rightarrow> nat \<Rightarrow> source \<Rightarrow> u32 \<Rightarrow> u32 \<Rightarrow> u32 \<Rightarrow> ('a fssys_scheme, u32) kernel" where
  "writei_loop 0 ip src off n tot = ret off"
| "writei_loop (Suc k) ip src off n tot =
     (if \<not> tot < n then ret off
      else
        bindK (bmap ip (off div 512)) (\<lambda>a.
        bindK (getI ip i_dev) (\<lambda>dev.
        bindK (bread dev a) (\<lambda>bp.
        let m = chunk (n - tot) off; p = unat (off mod 512) in
        bindK (get_source src tot (unat m)) (\<lambda>bs.
        bindK (getB bp b_data) (\<lambda>d.
        seqK (log_update bp (take p d @ bs @ drop (p + unat m) d))
        (writei_loop k ip src (off + m) n (tot + m))))))))"

definition writei :: "nat \<Rightarrow> source \<Rightarrow> u32 \<Rightarrow> u32 \<Rightarrow> ('a consys_scheme, int) kernel" where
  "writei ip src off n =
     bindK (getI ip i_d) (\<lambda>d.
     if d_type d = T_DEV then
       bindK (getsK devsws) (\<lambda>dv.
       if sint (d_major d) < 0 \<or> sint (d_major d) \<ge> int NDEV then ret (- 1)
       else case dv_write (dv ! unat (d_major d)) of
         None \<Rightarrow> ret (- 1)
       | Some fn \<Rightarrow> consolewrite ip src (sint n))
     else if off > d_size d \<or> off + n < off then ret (- 1)
     else if off + n > 140 * 512 then ret (- 1)
     else
       bindK (writei_loop (unat n) ip src off n 0) (\<lambda>off.
       seqK (whenK (n > 0)
         (bindK (getI ip (\<lambda>i. d_size (i_d i))) (\<lambda>sz.
          whenK (off > sz)
            (seqK (setD ip (\<lambda>d. d\<lparr>d_size := off\<rparr>))
            (iupdate ip)))))
       (ret (sint n))))"

section \<open>Directories\<close>

record dirent =
  de_inum :: u16
  de_name :: bytes

definition get_dirent :: "bytes \<Rightarrow> dirent" where
  "get_dirent bs = \<lparr>de_inum = get16 bs 0, de_name = take DIRSIZ (drop 2 bs)\<rparr>"

definition put_dirent :: "dirent \<Rightarrow> bytes" where
  "put_dirent de = [ucast (de_inum de), ucast (drop_bit 8 (de_inum de))] @ de_name de"

definition namecmp :: "bytes \<Rightarrow> bytes \<Rightarrow> int" where
  "namecmp s t = strncmp_bytes s t DIRSIZ"

text \<open>
  The loop of \<open>dirlookup\<close> from \<open>off\<close> on; it returns the inode found and the offset of its
  entry. The offsets grow by 16, so a 32-bit size allows at most \<open>2 ^ 28\<close> rounds.
\<close>

fun dirlookup_loop :: "nat \<Rightarrow> nat \<Rightarrow> bytes \<Rightarrow> u32 \<Rightarrow> ('a consys_scheme, (nat \<times> u32) option) kernel" where
  "dirlookup_loop 0 dp name off = spin"
| "dirlookup_loop (Suc k) dp name off =
     bindK (getI dp (\<lambda>i. d_size (i_d i))) (\<lambda>sz.
     if \<not> off < sz then ret None
     else
       bindK (readi dp Loc off 16) (\<lambda>r.
       if fst r \<noteq> 16 then panic ''dirlink read''
       else
         (let de = get_dirent (snd r) in
          if de_inum de = 0 then dirlookup_loop k dp name (off + 16)
          else if namecmp name (de_name de) = 0 then
            bindK (getI dp i_dev) (\<lambda>dev.
            bindK (iget dev (ucast (de_inum de))) (\<lambda>ip.
            ret (Some (ip, off))))
          else dirlookup_loop k dp name (off + 16))))"

definition dirlookup :: "nat \<Rightarrow> bytes \<Rightarrow> ('a consys_scheme, (nat \<times> u32) option) kernel" where
  "dirlookup dp name =
     bindK (getI dp (\<lambda>i. d_type (i_d i))) (\<lambda>t.
     if t \<noteq> T_DIR then panic ''dirlookup not DIR''
     else dirlookup_loop (2 ^ 28 + 1) dp name 0)"

text \<open>The search for an empty entry: the loop compares \<open>off\<close>, an \<open>int\<close>, with the unsigned
  size, and stops at the first free entry or at the end of the directory.\<close>

fun dirlink_loop :: "nat \<Rightarrow> nat \<Rightarrow> u32 \<Rightarrow> ('a consys_scheme, u32) kernel" where
  "dirlink_loop 0 dp off = spin"
| "dirlink_loop (Suc k) dp off =
     bindK (getI dp (\<lambda>i. d_size (i_d i))) (\<lambda>sz.
     if \<not> off < sz then ret off
     else
       bindK (readi dp Loc off 16) (\<lambda>r.
       if fst r \<noteq> 16 then panic ''dirlink read''
       else if de_inum (get_dirent (snd r)) = 0 then ret off
       else dirlink_loop k dp (off + 16)))"

definition dirlink :: "nat \<Rightarrow> bytes \<Rightarrow> u32 \<Rightarrow> ('a consys_scheme, int) kernel" where
  "dirlink dp name inum =
     bindK (dirlookup dp name) (\<lambda>f.
     case f of
       Some (ip, _) \<Rightarrow> seqK (iput ip) (ret (- 1))
     | None \<Rightarrow>
         bindK (dirlink_loop (2 ^ 28 + 1) dp 0) (\<lambda>off.
         bindK (writei dp (FromB (put_dirent \<lparr>de_inum = ucast inum, de_name = strncpy_bytes name DIRSIZ\<rparr>)) off 16) (\<lambda>r.
         if r \<noteq> 16 then panic ''dirlink'' else ret 0)))"

section \<open>Paths\<close>

definition skipelem :: "bytes \<Rightarrow> (bytes \<times> bytes) option" where
  "skipelem path =
     (let s = dropWhile (\<lambda>c. c = 47) path in
      if s = [] then None
      else
        (let elem = takeWhile (\<lambda>c. c \<noteq> 47) s;
             name = (if length elem \<ge> DIRSIZ then take DIRSIZ elem else elem)
         in Some (name, dropWhile (\<lambda>c. c = 47) (dropWhile (\<lambda>c. c \<noteq> 47) s))))"

text \<open>
  The loop of \<open>namex\<close> at the inode \<open>ip\<close>. Every round removes a path element, so the
  length of the path bounds the rounds. The second component of the result is the content
  of \<open>name\<close>.
\<close>

fun namex_loop :: "nat \<Rightarrow> nat \<Rightarrow> bytes \<Rightarrow> bool \<Rightarrow> bytes \<Rightarrow> ('a consys_scheme, (nat \<times> bytes) option) kernel" where
  "namex_loop 0 ip path parent name = spin"
| "namex_loop (Suc k) ip path parent name =
     (case skipelem path of
        None \<Rightarrow> if parent then seqK (iput ip) (ret None) else ret (Some (ip, name))
      | Some (name, path) \<Rightarrow>
          seqK (ilock ip)
          (bindK (getI ip (\<lambda>i. d_type (i_d i))) (\<lambda>t.
           if t \<noteq> T_DIR then seqK (iunlockput ip) (ret None)
           else if parent \<and> path = [] then seqK (iunlock ip) (ret (Some (ip, name)))
           else
             bindK (dirlookup ip name) (\<lambda>f.
             case f of
               None \<Rightarrow> seqK (iunlockput ip) (ret None)
             | Some (nxt, _) \<Rightarrow> seqK (iunlockput ip) (namex_loop k nxt path parent name)))))"

definition namex :: "bytes \<Rightarrow> bool \<Rightarrow> ('a consys_scheme, (nat \<times> bytes) option) kernel" where
  "namex path parent =
     bindK
       (if path \<noteq> [] \<and> hd path = 47 then iget ROOTDEV ROOTINO
        else
          bindK myproc (\<lambda>cur.
          bindK (getP cur p_cwd) (\<lambda>cwd.
          case cwd of None \<Rightarrow> panic ''trap'' | Some ip \<Rightarrow> idup ip))) (\<lambda>ip.
     namex_loop (Suc (length path)) ip path parent [])"

definition namei :: "bytes \<Rightarrow> ('a consys_scheme, nat option) kernel" where
  "namei path = bindK (namex path False) (\<lambda>r. ret (map_option fst r))"

definition nameiparent :: "bytes \<Rightarrow> ('a consys_scheme, (nat \<times> bytes) option) kernel" where
  "nameiparent path = namex path True"

end
