(* ===== verification/File.thy ===== *)
theory File
  imports Fs
begin

text \<open>
  Open files (\<open>src/file.c\<close>, \<open>src/file.h\<close>) and the creation of pipes (\<open>pipealloc\<close> of
  \<open>src/pipe.c\<close>). A file is named by its index in \<open>ftable\<close>; the open files of a process
  are such indices.
\<close>

unbundle bit_operations_syntax

abbreviation (input) NFILE :: nat where "NFILE \<equiv> 100"
abbreviation (input) LOGSIZE :: int where "LOGSIZE \<equiv> 30"

datatype ftype = FD_NONE | FD_PIPE | FD_INODE

record ofile =
  f_type :: ftype
  f_ref :: int
  f_readable :: bool
  f_writable :: bool
  f_pipe :: u32
  f_ip :: nat
  f_off :: u32

record filesys = consys +
  ftable :: "ofile list"

definition upd_file :: "nat \<Rightarrow> (ofile \<Rightarrow> ofile) \<Rightarrow> 'a filesys_scheme \<Rightarrow> 'a filesys_scheme" where
  "upd_file f g s = s\<lparr>ftable := (ftable s)[f := g (ftable s ! f)]\<rparr>"

definition getF :: "nat \<Rightarrow> (ofile \<Rightarrow> 'b) \<Rightarrow> ('a filesys_scheme, 'b) kernel" where
  "getF f g = getsK (\<lambda>s. g (ftable s ! f))"

definition setF :: "nat \<Rightarrow> (ofile \<Rightarrow> ofile) \<Rightarrow> ('a filesys_scheme, unit) kernel" where
  "setF f g = modifyK (upd_file f g)"

definition fileinit :: "('a filesys_scheme, unit) kernel" where
  "fileinit = initlock Ftable_lock ''ftable''"

definition filealloc :: "('a filesys_scheme, nat option) kernel" where
  "filealloc =
     seqK (acquire Ftable_lock)
     (bindK (getsK (\<lambda>s. find_index (\<lambda>f. f_ref f = 0) (ftable s))) (\<lambda>r.
      case r of
        Some f \<Rightarrow>
          seqK (setF f (\<lambda>x. x\<lparr>f_ref := 1\<rparr>))
          (seqK (release Ftable_lock)
          (ret (Some f)))
      | None \<Rightarrow> seqK (release Ftable_lock) (ret None)))"

definition filedup :: "nat \<Rightarrow> ('a filesys_scheme, nat) kernel" where
  "filedup f =
     seqK (acquire Ftable_lock)
     (bindK (getF f f_ref) (\<lambda>r.
      if r < 1 then panic ''filedup''
      else
        seqK (setF f (\<lambda>x. x\<lparr>f_ref := f_ref x + 1\<rparr>))
        (seqK (release Ftable_lock)
        (ret f))))"

definition fileclose :: "nat \<Rightarrow> ('a filesys_scheme, unit) kernel" where
  "fileclose f =
     seqK (acquire Ftable_lock)
     (bindK (getF f f_ref) (\<lambda>r.
      if r < 1 then panic ''fileclose''
      else
        seqK (setF f (\<lambda>x. x\<lparr>f_ref := r - 1\<rparr>))
        (if r - 1 > 0 then release Ftable_lock
         else
           bindK (getF f id) (\<lambda>ff.
           seqK (setF f (\<lambda>x. x\<lparr>f_ref := 0, f_type := FD_NONE\<rparr>))
           (seqK (release Ftable_lock)
           (case f_type ff of
              FD_PIPE \<Rightarrow> pipeclose (f_pipe ff) (f_writable ff)
            | FD_INODE \<Rightarrow> seqK begin_op (seqK (iput (f_ip ff)) end_op)
            | FD_NONE \<Rightarrow> ret ()))))))"

text \<open>The fields of \<open>struct stat\<close> at their offsets: type 0, dev 4, ino 8, nlink 12, size 16;
  the two bytes after \<open>type\<close> and after \<open>nlink\<close> are padding and stay as they are.\<close>

definition ustore16 :: "u32 \<Rightarrow> u16 \<Rightarrow> ('a kmem_scheme, unit) kernel" where
  "ustore16 a w = ustore_bytes a [ucast w, ucast (drop_bit 8 w)]"

definition put_stat :: "u32 \<Rightarrow> stat \<Rightarrow> ('a kmem_scheme, unit) kernel" where
  "put_stat a st =
     seqK (ustore32 (a + 4) (st_dev st))
     (seqK (ustore32 (a + 8) (st_ino st))
     (seqK (ustore16 a (st_type st))
     (seqK (ustore16 (a + 12) (st_nlink st))
     (ustore32 (a + 16) (st_size st)))))"

definition filestat :: "nat \<Rightarrow> u32 \<Rightarrow> ('a filesys_scheme, int) kernel" where
  "filestat f st =
     bindK (getF f id) (\<lambda>x.
     if f_type x = FD_INODE then
       seqK (ilock (f_ip x))
       (seqK (bindK (stati (f_ip x)) (put_stat st))
       (seqK (iunlock (f_ip x))
       (ret 0)))
     else ret (- 1))"

definition fileread :: "nat \<Rightarrow> u32 \<Rightarrow> int \<Rightarrow> ('a filesys_scheme, int) kernel" where
  "fileread f addr n =
     bindK (getF f id) (\<lambda>x.
     if \<not> f_readable x then ret (- 1)
     else
       (case f_type x of
          FD_PIPE \<Rightarrow> piperead (f_pipe x) addr n
        | FD_INODE \<Rightarrow>
            seqK (ilock (f_ip x))
            (bindK (getF f f_off) (\<lambda>off.
             bindK (readi (f_ip x) (Uva addr) off (of_int n)) (\<lambda>(r, _).
             seqK (whenK (r > 0) (setF f (\<lambda>y. y\<lparr>f_off := f_off y + of_int r\<rparr>)))
             (seqK (iunlock (f_ip x))
             (ret r)))))
        | FD_NONE \<Rightarrow> panic ''fileread''))"

text \<open>
  The loop of \<open>filewrite\<close> with \<open>i\<close> bytes of \<open>n\<close> written; every round that goes on has
  written at least one byte, so \<open>n\<close> rounds are enough.
\<close>

definition filewrite_max :: int where
  "filewrite_max = ((LOGSIZE - 1 - 1 - 2) div 2) * 512"

fun filewrite_loop :: "nat \<Rightarrow> nat \<Rightarrow> u32 \<Rightarrow> int \<Rightarrow> int \<Rightarrow> ('a filesys_scheme, int) kernel" where
  "filewrite_loop 0 f addr n i = ret i"
| "filewrite_loop (Suc k) f addr n i =
     (if \<not> i < n then ret i
      else
        (let n1 = (if n - i > filewrite_max then filewrite_max else n - i) in
         seqK begin_op
         (bindK (getF f f_ip) (\<lambda>ip.
          seqK (ilock ip)
          (bindK (getF f f_off) (\<lambda>off.
           bindK (writei ip (FromU (addr + of_int i)) off (of_int n1)) (\<lambda>r.
           seqK (whenK (r > 0) (setF f (\<lambda>y. y\<lparr>f_off := f_off y + of_int r\<rparr>)))
           (seqK (iunlock ip)
           (seqK end_op
           (if r < 0 then ret i
            else if r \<noteq> n1 then panic ''short filewrite''
            else filewrite_loop k f addr n (i + r)))))))))))"

definition filewrite :: "nat \<Rightarrow> u32 \<Rightarrow> int \<Rightarrow> ('a filesys_scheme, int) kernel" where
  "filewrite f addr n =
     bindK (getF f id) (\<lambda>x.
     if \<not> f_writable x then ret (- 1)
     else
       (case f_type x of
          FD_PIPE \<Rightarrow> pipewrite (f_pipe x) addr n
        | FD_INODE \<Rightarrow>
            bindK (filewrite_loop (nat n) f addr n 0) (\<lambda>i.
            ret (if i = n then n else - 1))
        | FD_NONE \<Rightarrow> panic ''filewrite''))"

section \<open>Making a pipe\<close>

definition close_opt :: "nat option \<Rightarrow> ('a filesys_scheme, unit) kernel" where
  "close_opt fo = (case fo of None \<Rightarrow> ret () | Some f \<Rightarrow> fileclose f)"

text \<open>\<open>goto bad\<close> before the pipe's page is allocated.\<close>

definition pipealloc_bad :: "nat option \<Rightarrow> nat option \<Rightarrow> ('a filesys_scheme, (nat \<times> nat) option) kernel" where
  "pipealloc_bad f0 f1 = seqK (close_opt f0) (seqK (close_opt f1) (ret None))"

definition pipealloc :: "('a filesys_scheme, (nat \<times> nat) option) kernel" where
  "pipealloc =
     bindK filealloc (\<lambda>r0.
     case r0 of
       None \<Rightarrow> pipealloc_bad None None
     | Some f0 \<Rightarrow>
         bindK filealloc (\<lambda>r1.
         case r1 of
           None \<Rightarrow> pipealloc_bad (Some f0) None
         | Some f1 \<Rightarrow>
             bindK kalloc (\<lambda>p.
             if p = 0 then pipealloc_bad (Some f0) (Some f1)
             else
               seqK (modifyK (upd_pipe p (\<lambda>q. q\<lparr>readopen := True, writeopen := True, nwrite := 0, nread := 0\<rparr>)))
               (seqK (initlock (Pipe_lock p) ''pipe'')
               (seqK (setF f0 (\<lambda>x. x\<lparr>f_type := FD_PIPE, f_readable := True, f_writable := False, f_pipe := p\<rparr>))
               (seqK (setF f1 (\<lambda>x. x\<lparr>f_type := FD_PIPE, f_readable := False, f_writable := True, f_pipe := p\<rparr>))
               (ret (Some (f0, f1)))))))))"

end
