(* ===== verification/Life.thy ===== *)
theory Life
  imports File
begin

text \<open>
  The life of a process (\<open>userinit\<close>, \<open>fork\<close>, \<open>exit\<close> and \<open>forkret\<close> of \<open>src/proc.c\<close>). The
  trap frame of a process lies on its kernel stack, at the address \<open>p_tf\<close>; its fields are
  read and written at their offsets in \<open>struct trapframe\<close> (\<open>src/x86.h\<close>). The program image
  \<open>initcode\<close>, linked into the kernel, is given by its address and size, the code at
  \<open>EXIT_BEGIN\<close> (\<open>src/exit.S\<close>) by its address. \<open>elf_junk\<close> is what the kernel stack holds
  where \<open>exec\<close> puts its ELF header, \<open>cr2\<close> the fault address register of each CPU.
\<close>

unbundle bit_operations_syntax

section \<open>State\<close>

record lifesys = filesys +
  first :: bool
  initcode_start :: u32
  initcode_size :: u32
  k_exit_begin :: u32
  elf_junk :: bytes
  cr2 :: "nat \<Rightarrow> u32"

abbreviation (input) NOFILE :: nat where "NOFILE \<equiv> 16"

abbreviation (input) TF_EAX :: u32 where "TF_EAX \<equiv> 28"
abbreviation (input) TF_ES :: u32 where "TF_ES \<equiv> 40"
abbreviation (input) TF_DS :: u32 where "TF_DS \<equiv> 44"
abbreviation (input) TF_TRAPNO :: u32 where "TF_TRAPNO \<equiv> 48"
abbreviation (input) TF_ERR :: u32 where "TF_ERR \<equiv> 52"
abbreviation (input) TF_EIP :: u32 where "TF_EIP \<equiv> 56"
abbreviation (input) TF_CS :: u32 where "TF_CS \<equiv> 60"
abbreviation (input) TF_EFLAGS :: u32 where "TF_EFLAGS \<equiv> 64"
abbreviation (input) TF_ESP :: u32 where "TF_ESP \<equiv> 68"
abbreviation (input) TF_SS :: u32 where "TF_SS \<equiv> 72"

definition store16 :: "u32 \<Rightarrow> u16 \<Rightarrow> ('a kmem_scheme, unit) kernel" where
  "store16 a w = modifyK (\<lambda>s. s\<lparr>ram := put_bytes (ram s) a [ucast w, ucast (drop_bit 8 w)]\<rparr>)"

text \<open>\<open>safestrcpy(name, t, 16)\<close> over the old contents of the field.\<close>

definition set_name :: "bytes \<Rightarrow> bytes \<Rightarrow> bytes" where
  "set_name t old = (let bs = safestrcpy_bytes t 15 in bs @ drop (length bs) old)"

section \<open>The first process\<close>

text \<open>A null pointer that is dereferenced faults: \<open>allocproc\<close> without a free slot makes
  \<open>userinit\<close> trap.\<close>

definition userinit :: "('a lifesys_scheme, unit) kernel" where
  "userinit =
     bindK allocproc (\<lambda>r.
     seqK (modifyK (\<lambda>s. s\<lparr>initproc := r\<rparr>))
     (case r of
        None \<Rightarrow> panic ''trap''
      | Some p \<Rightarrow>
          bindK setupkvm (\<lambda>d.
          seqK (setP p (\<lambda>q. q\<lparr>p_pgdir := d\<rparr>))
          (if d = 0 then panic ''userinit: out of memory?''
           else
             bindK (getsK initcode_start) (\<lambda>start.
             bindK (getsK initcode_size) (\<lambda>sz.
             seqK (inituvm d start sz)
             (seqK (setP p (\<lambda>q. q\<lparr>p_sz := PGSIZE\<rparr>))
             (bindK (getP p p_tf) (\<lambda>tf.
              seqK (memsetK tf 0 TF_SIZE)
              (seqK (store16 (tf + TF_CS) 0x23)
              (seqK (store16 (tf + TF_DS) 0x2B)
              (seqK (store16 (tf + TF_ES) 0x2B)
              (seqK (store16 (tf + TF_SS) 0x2B)
              (seqK (store (tf + TF_EFLAGS) 0x200)
              (seqK (store (tf + TF_ESP) PGSIZE)
              (seqK (store (tf + TF_EIP) 0)
              (seqK (setP p (\<lambda>q. q\<lparr>p_name := set_name (str ''initcode'') (p_name q)\<rparr>))
              (bindK (namei (str ''/'')) (\<lambda>ip.
               seqK (setP p (\<lambda>q. q\<lparr>p_cwd := ip\<rparr>))
               (setP p (\<lambda>q. q\<lparr>p_state := RUNNABLE\<rparr>)))))))))))))))))))))"

section \<open>Fork\<close>

definition fork_ofile :: "nat \<Rightarrow> nat \<Rightarrow> nat \<Rightarrow> ('a filesys_scheme, unit) kernel" where
  "fork_ofile cur np i =
     bindK (getP cur (\<lambda>p. p_ofile p ! i)) (\<lambda>fo.
     case fo of
       None \<Rightarrow> ret ()
     | Some f \<Rightarrow>
         bindK (filedup f) (\<lambda>g.
         setP np (\<lambda>p. p\<lparr>p_ofile := (p_ofile p)[i := Some g]\<rparr>)))"

definition fork_cwd :: "nat \<Rightarrow> nat \<Rightarrow> ('a filesys_scheme, unit) kernel" where
  "fork_cwd cur np =
     bindK (getP cur p_cwd) (\<lambda>cwd.
     case cwd of
       None \<Rightarrow> panic ''trap''
     | Some ip \<Rightarrow> bindK (idup ip) (\<lambda>ip. setP np (\<lambda>p. p\<lparr>p_cwd := Some ip\<rparr>)))"

definition fork :: "('a filesys_scheme, int) kernel" where
  "fork =
     bindK allocproc (\<lambda>r.
     case r of
       None \<Rightarrow> ret (- 1)
     | Some np \<Rightarrow>
         bindK myproc (\<lambda>cur.
         bindK (getP cur id) (\<lambda>p.
         bindK (copyuvm (p_pgdir p) (p_sz p)) (\<lambda>d.
         seqK (setP np (\<lambda>q. q\<lparr>p_pgdir := d\<rparr>))
         (if d = 0 then
            bindK (getP np p_kstack) (\<lambda>ks.
            seqK (kfree ks)
            (seqK (setP np (\<lambda>q. q\<lparr>p_kstack := 0\<rparr>))
            (seqK (setP np (\<lambda>q. q\<lparr>p_state := UNUSED\<rparr>))
            (ret (- 1)))))
          else
            seqK (setP np (\<lambda>q. q\<lparr>p_sz := p_sz p\<rparr>))
            (seqK (setP np (\<lambda>q. q\<lparr>p_parent := Some cur\<rparr>))
            (bindK (getP np p_tf) (\<lambda>ntf.
             seqK (memmoveK ntf (p_tf p) TF_SIZE)
             (seqK (store (ntf + TF_EAX) 0)
             (seqK (forK [0..<NOFILE] (fork_ofile cur np))
             (seqK (fork_cwd cur np)
             (bindK (getP cur p_name) (\<lambda>name.
              seqK (setP np (\<lambda>q. q\<lparr>p_name := set_name name (p_name q)\<rparr>))
              (bindK (getP np p_pid) (\<lambda>pid.
               seqK (acquire Ptable_lock)
               (seqK (setP np (\<lambda>q. q\<lparr>p_state := RUNNABLE\<rparr>))
               (seqK (release Ptable_lock)
               (ret pid))))))))))))))))))"

section \<open>Exit\<close>

text \<open>\<open>wakeup1\<close> on a pointer to a process, which may be null.\<close>

definition wakeup1_ptr :: "nat option \<Rightarrow> ('a procs_scheme, unit) kernel" where
  "wakeup1_ptr po =
     (case po of
        Some i \<Rightarrow> wakeup1 (Proc_chan i)
      | None \<Rightarrow> modifyK (\<lambda>s. s\<lparr>ptable := map (\<lambda>p. if p_state p = SLEEPING \<and> p_chan p = None
           then p\<lparr>p_state := RUNNABLE\<rparr> else p) (ptable s)\<rparr>))"

definition exit_close :: "nat \<Rightarrow> nat \<Rightarrow> ('a filesys_scheme, unit) kernel" where
  "exit_close cur fd =
     bindK (getP cur (\<lambda>p. p_ofile p ! fd)) (\<lambda>fo.
     case fo of
       None \<Rightarrow> ret ()
     | Some f \<Rightarrow>
         seqK (fileclose f)
         (setP cur (\<lambda>p. p\<lparr>p_ofile := (p_ofile p)[fd := None]\<rparr>)))"

definition exit_orphan :: "nat \<Rightarrow> nat \<Rightarrow> ('a procs_scheme, unit) kernel" where
  "exit_orphan cur i =
     bindK (getP i id) (\<lambda>p.
     bindK (getsK initproc) (\<lambda>ini.
     whenK (p_parent p = Some cur)
       (seqK (setP i (\<lambda>q. q\<lparr>p_parent := ini\<rparr>))
       (whenK (p_state p = ZOMBIE) (wakeup1_ptr ini)))))"

text \<open>The part of \<open>exit\<close> under \<open>ptable.lock\<close>, which ends in the scheduler.\<close>

definition exit_sched :: "nat \<Rightarrow> ('a procs_scheme, 'b) kernel" where
  "exit_sched cur =
     seqK (acquire Ptable_lock)
     (seqK (bindK (getP cur p_parent) wakeup1_ptr)
     (seqK (forK [0..<NPROC] (exit_orphan cur))
     (seqK (setP cur (\<lambda>p. p\<lparr>p_state := ZOMBIE\<rparr>))
     (seqK sched
     (panic ''zombie exit'')))))"

definition exit :: "int \<Rightarrow> ('a filesys_scheme, 'b) kernel" where
  "exit status =
     bindK myproc (\<lambda>cur.
     bindK (getsK initproc) (\<lambda>ini.
     if ini = Some cur then panic ''init exiting''
     else
       seqK (forK [0..<NOFILE] (exit_close cur))
       (seqK begin_op
       (bindK (getP cur p_cwd) (\<lambda>cwd.
        seqK (case cwd of None \<Rightarrow> panic ''trap'' | Some ip \<Rightarrow> iput ip)
        (seqK end_op
        (seqK (setP cur (\<lambda>p. p\<lparr>p_cwd := None\<rparr>))
        (seqK (setP cur (\<lambda>p. p\<lparr>p_status := status\<rparr>))
        (exit_sched cur)))))))))"

section \<open>The first return to user space\<close>

definition forkret :: "('a lifesys_scheme, unit) kernel" where
  "forkret =
     seqK (release Ptable_lock)
     (bindK (getsK first) (\<lambda>fst.
      whenK fst
        (seqK (modifyK (\<lambda>s. s\<lparr>first := False\<rparr>))
        initlog)))"

end
