(* ===== verification/Exec.thy ===== *)
theory Exec
  imports Life
begin

text \<open>
  Running a program (\<open>src/exec.c\<close>, \<open>src/elf.h\<close> and \<open>loaduvm\<close> of \<open>src/vm.c\<close>). The path and
  the argument strings are passed by value: they lie in the memory of the calling process,
  which \<open>exec\<close> only reads until it frees it.
\<close>

unbundle bit_operations_syntax

abbreviation (input) ELF_MAGIC :: u32 where "ELF_MAGIC \<equiv> 0x464C457F"
abbreviation (input) ELF_PROG_LOAD :: u32 where "ELF_PROG_LOAD \<equiv> 1"
abbreviation (input) MAXARG :: nat where "MAXARG \<equiv> 32"

section \<open>ELF headers\<close>

text \<open>The fields of the two headers that the code reads.\<close>

record elfhdr =
  e_magic :: u32
  e_entry :: u32
  e_phoff :: u32
  e_phnum :: u16

definition get_elfhdr :: "bytes \<Rightarrow> elfhdr" where
  "get_elfhdr bs = \<lparr>e_magic = get32 bs 0, e_entry = get32 bs 24, e_phoff = get32 bs 28, e_phnum = get16 bs 44\<rparr>"

record proghdr =
  ph_type :: u32
  ph_off :: u32
  ph_vaddr :: u32
  ph_filesz :: u32
  ph_memsz :: u32

definition get_proghdr :: "bytes \<Rightarrow> proghdr" where
  "get_proghdr bs = \<lparr>ph_type = get32 bs 0, ph_off = get32 bs 4, ph_vaddr = get32 bs 8,
     ph_filesz = get32 bs 16, ph_memsz = get32 bs 20\<rparr>"

section \<open>Loading\<close>

fun loaduvm_loop :: "nat \<Rightarrow> u32 \<Rightarrow> u32 \<Rightarrow> nat \<Rightarrow> u32 \<Rightarrow> u32 \<Rightarrow> u32 \<Rightarrow> ('a consys_scheme, int) kernel" where
  "loaduvm_loop 0 pgdir addr ip offset sz i = spin"
| "loaduvm_loop (Suc k) pgdir addr ip offset sz i =
     (if \<not> i < sz then ret 0
      else
        bindK (walkpgdir pgdir (addr + i) False) (\<lambda>pte.
        if pte = 0 then panic ''loaduvm: address should exist''
        else
          bindK (load pte) (\<lambda>e.
          let n = (if sz - i < PGSIZE then sz - i else PGSIZE) in
          bindK (readi ip (Kva (p2v (PTE_ADDR e))) (offset + i) n) (\<lambda>r.
          if fst r \<noteq> uint n then ret (- 1)
          else loaduvm_loop k pgdir addr ip offset sz (i + PGSIZE)))))"

definition loaduvm :: "u32 \<Rightarrow> u32 \<Rightarrow> nat \<Rightarrow> u32 \<Rightarrow> u32 \<Rightarrow> ('a consys_scheme, int) kernel" where
  "loaduvm pgdir addr ip offset sz =
     (if addr mod PGSIZE \<noteq> 0 then panic ''loaduvm: addr must be page aligned''
      else loaduvm_loop (PGADDR_STEPS + 1) pgdir addr ip offset sz 0)"

text \<open>The loop over the program headers, \<open>k\<close> of them left. \<open>None\<close> is \<open>goto bad\<close>.\<close>

fun exec_load :: "nat \<Rightarrow> nat \<Rightarrow> u32 \<Rightarrow> u32 \<Rightarrow> u32 \<Rightarrow> ('a consys_scheme, u32 option) kernel" where
  "exec_load 0 ip pgdir off sz = ret (Some sz)"
| "exec_load (Suc k) ip pgdir off sz =
     bindK (readi ip Loc off 32) (\<lambda>r.
     if fst r \<noteq> 32 then ret None
     else
       (let ph = get_proghdr (snd r) in
        if ph_type ph \<noteq> ELF_PROG_LOAD then exec_load k ip pgdir (off + 32) sz
        else if ph_memsz ph < ph_filesz ph then ret None
        else
          bindK (allocuvm pgdir sz (ph_vaddr ph + ph_memsz ph)) (\<lambda>sz.
          if sz = 0 then ret None
          else
            bindK (loaduvm pgdir (ph_vaddr ph) ip (ph_off ph) (ph_filesz ph)) (\<lambda>l.
            if l < 0 then ret None
            else exec_load k ip pgdir (off + 32) sz))))"

section \<open>The user stack\<close>

text \<open>\<open>copyout\<close> with its source anywhere in the kernel: an address, or a local array.\<close>

fun copyout_src_loop :: "nat \<Rightarrow> u32 \<Rightarrow> u32 \<Rightarrow> source \<Rightarrow> u32 \<Rightarrow> u32 \<Rightarrow> ('a kmem_scheme, int) kernel" where
  "copyout_src_loop 0 pgdir va src i len = spin"
| "copyout_src_loop (Suc k) pgdir va src i len =
     (if len > 0 then
        (let va0 = PGROUNDDOWN va in
         bindK (uva2ka pgdir va0) (\<lambda>pa0.
         if pa0 = 0 then ret (- 1)
         else
           (let n = PGSIZE - (va - va0); n = (if n > len then len else n) in
            bindK (get_source src i (unat n)) (\<lambda>bs.
            seqK (modifyK (\<lambda>s. s\<lparr>ram := put_bytes (ram s) (pa0 + (va - va0)) bs\<rparr>))
            (copyout_src_loop k pgdir (va0 + PGSIZE) src (i + n) (len - n))))))
      else ret 0)"

definition copyout_src :: "u32 \<Rightarrow> u32 \<Rightarrow> source \<Rightarrow> u32 \<Rightarrow> ('a kmem_scheme, int) kernel" where
  "copyout_src pgdir va src len = copyout_src_loop (PGADDR_STEPS + 1) pgdir va src 0 len"

text \<open>Pushing the argument strings: the stack pointer and the addresses of the strings.\<close>

fun exec_args :: "u32 \<Rightarrow> bytes list \<Rightarrow> u32 \<Rightarrow> u32 list \<Rightarrow> ('a kmem_scheme, (u32 \<times> u32 list) option) kernel" where
  "exec_args pgdir [] sp us = ret (Some (sp, us))"
| "exec_args pgdir (a # argv) sp us =
     (if length us \<ge> MAXARG then ret None
      else
        (let n = of_nat (length a) + 1; sp = (sp - n) AND NOT 3 in
         bindK (copyout_src pgdir sp (FromB (a @ [0])) n) (\<lambda>r.
         if r < 0 then ret None
         else exec_args pgdir argv sp (us @ [sp]))))"

definition ustack_bytes :: "u32 list \<Rightarrow> bytes" where
  "ustack_bytes ws = concat (map le_bytes ws)"

text \<open>The rest of the stack: the code that calls \<open>exit\<close>, and \<open>ustack\<close> itself.\<close>

definition exec_stack :: "u32 \<Rightarrow> u32 \<Rightarrow> u32 list \<Rightarrow> ('a lifesys_scheme, u32 option) kernel" where
  "exec_stack pgdir sp us =
     (let argc = of_nat (length us); sp = sp - 16 in
      bindK (getsK k_exit_begin) (\<lambda>code.
      seqK (copyout_src pgdir sp (FromK code) 16)
      (let ustack = [sp, argc, sp - (argc + 1) * 4] @ us @ [0];
           sp = sp - (3 + argc + 1) * 4 in
       bindK (copyout_src pgdir sp (FromB (ustack_bytes ustack)) ((3 + argc + 1) * 4)) (\<lambda>r.
       if r < 0 then ret None else ret (Some sp)))))"

section \<open>exec\<close>

definition last_elem :: "bytes \<Rightarrow> bytes" where
  "last_elem path = rev (takeWhile (\<lambda>c. c \<noteq> 47) (rev path))"

definition exec_bad :: "u32 \<Rightarrow> nat option \<Rightarrow> ('a fssys_scheme, int) kernel" where
  "exec_bad pgdir ipo =
     seqK (whenK (pgdir \<noteq> 0) (freevm pgdir))
     (seqK (case ipo of None \<Rightarrow> ret () | Some ip \<Rightarrow> seqK (iunlockput ip) end_op)
     (ret (- 1)))"

definition exec_commit :: "bytes \<Rightarrow> u32 \<Rightarrow> u32 \<Rightarrow> u32 \<Rightarrow> u32 \<Rightarrow> ('a procs_scheme, int) kernel" where
  "exec_commit path pgdir sz sp entry =
     bindK myproc (\<lambda>cur.
     seqK (setP cur (\<lambda>p. p\<lparr>p_name := set_name (last_elem path) (p_name p)\<rparr>))
     (bindK (getP cur p_pgdir) (\<lambda>oldpgdir.
      seqK (setP cur (\<lambda>p. p\<lparr>p_pgdir := pgdir\<rparr>))
      (seqK (setP cur (\<lambda>p. p\<lparr>p_sz := sz\<rparr>))
      (bindK (getP cur p_tf) (\<lambda>tf.
       seqK (store (tf + TF_EIP) entry)
       (seqK (store (tf + TF_ESP) sp)
       (seqK (switchuvm cur)
       (seqK (freevm oldpgdir)
       (ret 0))))))))))"

definition exec_image :: "bytes \<Rightarrow> bytes list \<Rightarrow> elfhdr \<Rightarrow> u32 \<Rightarrow> u32 \<Rightarrow> ('a lifesys_scheme, int) kernel" where
  "exec_image path argv elf pgdir sz =
     bindK (allocuvm pgdir (PGROUNDUP sz) (PGROUNDUP sz + 2 * PGSIZE)) (\<lambda>sz.
     if sz = 0 then exec_bad pgdir None
     else
       seqK (clearpteu pgdir (sz - 2 * PGSIZE))
       (bindK (exec_args pgdir argv sz []) (\<lambda>r.
        case r of
          None \<Rightarrow> exec_bad pgdir None
        | Some (sp, us) \<Rightarrow>
            bindK (exec_stack pgdir sp us) (\<lambda>r.
            case r of
              None \<Rightarrow> exec_bad pgdir None
            | Some sp \<Rightarrow> exec_commit path pgdir sz sp (e_entry elf)))))"

text \<open>
  \<open>readi(...) < sizeof(elf)\<close> compares an \<open>int\<close> with an unsigned number, so the result -1 of
  \<open>readi\<close> is not below 52: the header is then what happens to be on the stack.
\<close>

definition exec :: "bytes \<Rightarrow> bytes list \<Rightarrow> ('a lifesys_scheme, int) kernel" where
  "exec path argv =
     seqK begin_op
     (bindK (namei path) (\<lambda>ipo.
      case ipo of
        None \<Rightarrow> seqK end_op (ret (- 1))
      | Some ip \<Rightarrow>
          seqK (ilock ip)
          (bindK (readi ip Loc 0 52) (\<lambda>r.
           if of_int (fst r) < (52 :: u32) then exec_bad 0 (Some ip)
           else
             bindK (getsK elf_junk) (\<lambda>junk.
             let elf = get_elfhdr (if fst r < 0 then junk else snd r) in
             if e_magic elf \<noteq> ELF_MAGIC then exec_bad 0 (Some ip)
             else
               bindK setupkvm (\<lambda>pgdir.
               if pgdir = 0 then exec_bad 0 (Some ip)
               else
                 bindK (exec_load (unat (e_phnum elf)) ip pgdir (e_phoff elf) 0) (\<lambda>szo.
                 case szo of
                   None \<Rightarrow> exec_bad pgdir (Some ip)
                 | Some sz \<Rightarrow>
                     seqK (iunlockput ip)
                     (seqK end_op
                     (exec_image path argv elf pgdir sz)))))))))"

end
