(* ===== verification/Sysproc.thy ===== *)
theory Sysproc
  imports Exec
begin

text \<open>
  System call arguments (\<open>src/syscall.c\<close>) and the system calls on processes
  (\<open>src/sysproc.c\<close>). The argument functions return \<open>None\<close> where the code returns -1. A
  string argument is passed on by value: nothing can change it while the call runs, as the
  comment on \<open>argstr\<close> says.
\<close>

unbundle bit_operations_syntax

section \<open>Arguments\<close>

definition proc_sz :: "('a procs_scheme, u32) kernel" where
  "proc_sz = bindK myproc (\<lambda>cur. getP cur p_sz)"

definition fetchint :: "u32 \<Rightarrow> ('a procs_scheme, u32 option) kernel" where
  "fetchint addr =
     bindK proc_sz (\<lambda>sz.
     if addr \<ge> sz \<or> addr + 4 > sz then ret None
     else bindK (uload32 addr) (\<lambda>w. ret (Some w)))"

text \<open>The scan of \<open>fetchstr\<close>, with \<open>k\<close> bytes left before \<open>ep\<close>.\<close>

fun fetchstr_loop :: "nat \<Rightarrow> u32 \<Rightarrow> ('a kmem_scheme, bytes option) kernel" where
  "fetchstr_loop 0 s = ret None"
| "fetchstr_loop (Suc k) s =
     bindK (uload8 s) (\<lambda>c.
     if c = 0 then ret (Some [])
     else bindK (fetchstr_loop k (s + 1)) (\<lambda>r. ret (map_option (\<lambda>t. c # t) r)))"

definition fetchstr :: "u32 \<Rightarrow> ('a procs_scheme, bytes option) kernel" where
  "fetchstr addr =
     bindK proc_sz (\<lambda>sz.
     if addr \<ge> sz then ret None else fetchstr_loop (unat (sz - addr)) addr)"

definition argint :: "u32 \<Rightarrow> ('a procs_scheme, u32 option) kernel" where
  "argint n =
     bindK myproc (\<lambda>cur.
     bindK (getP cur p_tf) (\<lambda>tf.
     bindK (load (tf + TF_ESP)) (\<lambda>esp.
     fetchint (esp + 4 + 4 * n))))"

definition argptr :: "u32 \<Rightarrow> u32 \<Rightarrow> ('a procs_scheme, u32 option) kernel" where
  "argptr n len =
     bindK (argint n) (\<lambda>r.
     case r of
       None \<Rightarrow> ret None
     | Some i \<Rightarrow>
         bindK proc_sz (\<lambda>sz.
         if i \<ge> sz \<or> i + len > sz then ret None else ret (Some i)))"

definition argstr :: "u32 \<Rightarrow> ('a procs_scheme, bytes option) kernel" where
  "argstr n =
     bindK (argint n) (\<lambda>r.
     case r of None \<Rightarrow> ret None | Some a \<Rightarrow> fetchstr a)"

text \<open>\<open>if(arg(...) < 0) return -1;\<close> and the rest of the function on the argument.\<close>

definition needK :: "('s, 'b option) kernel \<Rightarrow> ('b \<Rightarrow> ('s, int) kernel) \<Rightarrow> ('s, int) kernel" where
  "needK m f = bindK m (\<lambda>r. case r of None \<Rightarrow> ret (- 1) | Some x \<Rightarrow> f x)"

section \<open>Calls on processes\<close>

definition sys_fork :: "('a filesys_scheme, int) kernel" where
  "sys_fork = fork"

definition sys_exit :: "('a filesys_scheme, int) kernel" where
  "sys_exit = needK (argint 0) (\<lambda>st. exit (sint st))"

definition sys_wait :: "('a procs_scheme, int) kernel" where
  "sys_wait = needK (argptr 0 4) wait"

definition sys_kill :: "('a procs_scheme, int) kernel" where
  "sys_kill = needK (argint 0) (\<lambda>pid. kill (sint pid))"

definition sys_getpid :: "('a procs_scheme, int) kernel" where
  "sys_getpid = bindK myproc (\<lambda>cur. getP cur p_pid)"

definition sys_sbrk :: "('a procs_scheme, int) kernel" where
  "sys_sbrk =
     needK (argint 0) (\<lambda>n.
     bindK proc_sz (\<lambda>addr.
     bindK (growproc (sint n)) (\<lambda>r.
     ret (if r < 0 then - 1 else sint addr))))"

text \<open>The loop of \<open>sys_sleep\<close>; it compares unsigned numbers. A process that is woken goes
  on in \<open>sys_sleep_resume\<close>.\<close>

definition sys_sleep_loop :: "u32 \<Rightarrow> u32 \<Rightarrow> ('a procs_scheme, int) kernel" where
  "sys_sleep_loop n ticks0 =
     bindK (getsK ticks) (\<lambda>t.
     if t - ticks0 < n then
       bindK myproc (\<lambda>cur.
       bindK (getP cur p_killed) (\<lambda>killed.
       if killed then seqK (release Ticks_lock) (ret (- 1))
       else seqK (sleep Ticks_chan Ticks_lock) (ret 0)))
     else seqK (release Ticks_lock) (ret 0))"

definition sys_sleep :: "('a procs_scheme, int) kernel" where
  "sys_sleep =
     needK (argint 0) (\<lambda>n.
     seqK (acquire Ticks_lock)
     (bindK (getsK ticks) (\<lambda>ticks0.
      sys_sleep_loop n ticks0)))"

definition sys_sleep_resume :: "u32 \<Rightarrow> u32 \<Rightarrow> ('a procs_scheme, int) kernel" where
  "sys_sleep_resume n ticks0 = seqK (sleep_resume Ticks_lock) (sys_sleep_loop n ticks0)"

definition sys_uptime :: "('a procs_scheme, int) kernel" where
  "sys_uptime =
     seqK (acquire Ticks_lock)
     (bindK (getsK ticks) (\<lambda>xticks.
      seqK (release Ticks_lock)
      (ret (sint xticks))))"

text \<open>\<open>sizeof(stat)\<close> is the size of the pointer, 4, not of the structure, which has 28
  bytes.\<close>

definition sys_pstat :: "('a procs_scheme, int) kernel" where
  "sys_pstat =
     needK (argint 0) (\<lambda>pid.
     needK (argptr 1 4) (\<lambda>stat.
     pstat (sint pid) stat))"

end
