(* ===== verification/Sysfile.thy ===== *)
theory Sysfile
  imports Sysproc
begin

text \<open>
  The system calls on files (\<open>src/sysfile.c\<close>), each with its error paths: what is locked,
  counted or open at the point of failure is given back there.
\<close>

unbundle bit_operations_syntax

abbreviation (input) O_WRONLY :: u32 where "O_WRONLY \<equiv> 1"
abbreviation (input) O_RDWR :: u32 where "O_RDWR \<equiv> 2"
abbreviation (input) O_CREATE :: u32 where "O_CREATE \<equiv> 0x200"

section \<open>File descriptors\<close>

definition argfd :: "u32 \<Rightarrow> ('a procs_scheme, (nat \<times> nat) option) kernel" where
  "argfd n =
     bindK (argint n) (\<lambda>r.
     case r of
       None \<Rightarrow> ret None
     | Some fd \<Rightarrow>
         if sint fd < 0 \<or> sint fd \<ge> int NOFILE then ret None
         else
           bindK myproc (\<lambda>cur.
           bindK (getP cur (\<lambda>p. p_ofile p ! unat fd)) (\<lambda>fo.
           ret (map_option (\<lambda>f. (unat fd, f)) fo))))"

definition fdalloc :: "nat \<Rightarrow> ('a procs_scheme, nat option) kernel" where
  "fdalloc f =
     bindK myproc (\<lambda>cur.
     bindK (getP cur (\<lambda>p. find_index (\<lambda>x. x = None) (take NOFILE (p_ofile p)))) (\<lambda>r.
     case r of
       None \<Rightarrow> ret None
     | Some fd \<Rightarrow>
         seqK (setP cur (\<lambda>p. p\<lparr>p_ofile := (p_ofile p)[fd := Some f]\<rparr>))
         (ret (Some fd))))"

definition clear_fd :: "nat \<Rightarrow> ('a procs_scheme, unit) kernel" where
  "clear_fd fd = bindK myproc (\<lambda>cur. setP cur (\<lambda>p. p\<lparr>p_ofile := (p_ofile p)[fd := None]\<rparr>))"

definition sys_dup :: "('a filesys_scheme, int) kernel" where
  "sys_dup =
     needK (argfd 0) (\<lambda>(_, f).
     needK (fdalloc f) (\<lambda>fd.
     seqK (filedup f)
     (ret (int fd))))"

definition sys_read :: "('a filesys_scheme, int) kernel" where
  "sys_read =
     needK (argfd 0) (\<lambda>(_, f).
     needK (argint 2) (\<lambda>n.
     needK (argptr 1 n) (\<lambda>p.
     fileread f p (sint n))))"

definition sys_write :: "('a filesys_scheme, int) kernel" where
  "sys_write =
     needK (argfd 0) (\<lambda>(_, f).
     needK (argint 2) (\<lambda>n.
     needK (argptr 1 n) (\<lambda>p.
     filewrite f p (sint n))))"

definition sys_close :: "('a filesys_scheme, int) kernel" where
  "sys_close =
     needK (argfd 0) (\<lambda>(fd, f).
     seqK (clear_fd fd)
     (seqK (fileclose f)
     (ret 0)))"

definition sys_fstat :: "('a filesys_scheme, int) kernel" where
  "sys_fstat =
     needK (argfd 0) (\<lambda>(_, f).
     needK (argptr 1 20) (\<lambda>st.
     filestat f st))"

section \<open>Links\<close>

definition get_dt :: "nat \<Rightarrow> ('a fssys_scheme, u16) kernel" where
  "get_dt ip = getI ip (\<lambda>i. d_type (i_d i))"

definition add_nlink :: "nat \<Rightarrow> u16 \<Rightarrow> ('a fssys_scheme, unit) kernel" where
  "add_nlink ip k = seqK (setD ip (\<lambda>d. d\<lparr>d_nlink := d_nlink d + k\<rparr>)) (iupdate ip)"

definition link_bad :: "nat \<Rightarrow> ('a fssys_scheme, int) kernel" where
  "link_bad ip =
     seqK (ilock ip)
     (seqK (add_nlink ip (- 1))
     (seqK (iunlockput ip)
     (seqK end_op
     (ret (- 1)))))"

definition sys_link :: "('a consys_scheme, int) kernel" where
  "sys_link =
     needK (argstr 0) (\<lambda>old.
     needK (argstr 1) (\<lambda>new.
     seqK begin_op
     (bindK (namei old) (\<lambda>ipo.
      case ipo of
        None \<Rightarrow> seqK end_op (ret (- 1))
      | Some ip \<Rightarrow>
          seqK (ilock ip)
          (bindK (get_dt ip) (\<lambda>t.
           if t = T_DIR then seqK (iunlockput ip) (seqK end_op (ret (- 1)))
           else
             seqK (add_nlink ip 1)
             (seqK (iunlock ip)
             (bindK (nameiparent new) (\<lambda>dpo.
              case dpo of
                None \<Rightarrow> link_bad ip
              | Some (dp, name) \<Rightarrow>
                  seqK (ilock dp)
                  (bindK (getI dp i_dev) (\<lambda>ddev.
                   bindK (getI ip id) (\<lambda>i.
                   bindK (if ddev \<noteq> i_dev i then ret (- 1) else dirlink dp name (i_inum i)) (\<lambda>r.
                   if r < 0 then seqK (iunlockput dp) (link_bad ip)
                   else
                     seqK (iunlockput dp)
                     (seqK (iput ip)
                     (seqK end_op
                     (ret 0))))))))))))))))"

fun isdirempty_loop :: "nat \<Rightarrow> nat \<Rightarrow> u32 \<Rightarrow> ('a consys_scheme, bool) kernel" where
  "isdirempty_loop 0 dp off = spin"
| "isdirempty_loop (Suc k) dp off =
     bindK (getI dp (\<lambda>i. d_size (i_d i))) (\<lambda>sz.
     if \<not> off < sz then ret True
     else
       bindK (readi dp Loc off 16) (\<lambda>r.
       if fst r \<noteq> 16 then panic ''isdirempty: readi''
       else if de_inum (get_dirent (snd r)) \<noteq> 0 then ret False
       else isdirempty_loop k dp (off + 16)))"

definition isdirempty :: "nat \<Rightarrow> ('a consys_scheme, bool) kernel" where
  "isdirempty dp = isdirempty_loop (2 ^ 28 + 1) dp 32"

definition unlink_bad :: "nat \<Rightarrow> ('a fssys_scheme, int) kernel" where
  "unlink_bad dp = seqK (iunlockput dp) (seqK end_op (ret (- 1)))"

text \<open>\<open>sys_unlink\<close> once the entry of \<open>ip\<close> at \<open>off\<close> in \<open>dp\<close> has been found.\<close>

definition unlink_entry :: "nat \<Rightarrow> nat \<Rightarrow> u32 \<Rightarrow> ('a consys_scheme, int) kernel" where
  "unlink_entry dp ip off =
     seqK (ilock ip)
     (bindK (getI ip i_d) (\<lambda>d.
      if sint (d_nlink d) < 1 then panic ''unlink: nlink < 1''
      else
        bindK (if d_type d = T_DIR then isdirempty ip else ret True) (\<lambda>e.
        if \<not> e then seqK (iunlockput ip) (unlink_bad dp)
        else
          bindK (writei dp (FromB (replicate 16 0)) off 16) (\<lambda>r.
          if r \<noteq> 16 then panic ''unlink: writei''
          else
            bindK (get_dt ip) (\<lambda>t.
            seqK (whenK (t = T_DIR) (add_nlink dp (- 1)))
            (seqK (iunlockput dp)
            (seqK (add_nlink ip (- 1))
            (seqK (iunlockput ip)
            (seqK end_op
            (ret 0))))))))))"

definition sys_unlink :: "('a consys_scheme, int) kernel" where
  "sys_unlink =
     needK (argstr 0) (\<lambda>path.
     seqK begin_op
     (bindK (nameiparent path) (\<lambda>dpo.
      case dpo of
        None \<Rightarrow> seqK end_op (ret (- 1))
      | Some (dp, name) \<Rightarrow>
          seqK (ilock dp)
          (if namecmp name (str ''.'') = 0 \<or> namecmp name (str ''..'') = 0 then unlink_bad dp
           else
             bindK (dirlookup dp name) (\<lambda>f.
             case f of
               None \<Rightarrow> unlink_bad dp
             | Some (ip, off) \<Rightarrow> unlink_entry dp ip off)))))"

section \<open>Making and opening files\<close>

definition create :: "bytes \<Rightarrow> u16 \<Rightarrow> u16 \<Rightarrow> u16 \<Rightarrow> ('a consys_scheme, nat option) kernel" where
  "create path typ major minor =
     bindK (nameiparent path) (\<lambda>dpo.
     case dpo of
       None \<Rightarrow> ret None
     | Some (dp, name) \<Rightarrow>
         seqK (ilock dp)
         (bindK (dirlookup dp name) (\<lambda>f.
          case f of
            Some (ip, _) \<Rightarrow>
              seqK (iunlockput dp)
              (seqK (ilock ip)
              (bindK (get_dt ip) (\<lambda>t.
               if typ = T_FILE \<and> t = T_FILE then ret (Some ip)
               else seqK (iunlockput ip) (ret None))))
          | None \<Rightarrow>
              bindK (getI dp i_dev) (\<lambda>dev.
              bindK (ialloc dev typ) (\<lambda>ip.
              seqK (ilock ip)
              (seqK (setD ip (\<lambda>d. d\<lparr>d_major := major, d_minor := minor, d_nlink := 1\<rparr>))
              (seqK (iupdate ip)
              (bindK (getI ip i_inum) (\<lambda>inum.
               seqK (whenK (typ = T_DIR)
                 (seqK (add_nlink dp 1)
                 (bindK (dirlink ip (str ''.'') inum) (\<lambda>r.
                  bindK (getI dp i_inum) (\<lambda>dinum.
                  bindK (if r < 0 then ret (- 1) else dirlink ip (str ''..'') dinum) (\<lambda>r.
                  whenK (r < 0) (panic ''create dots'')))))))
               (bindK (dirlink dp name inum) (\<lambda>r.
                if r < 0 then panic ''create: dirlink''
                else
                  seqK (iunlockput dp)
                  (ret (Some ip)))))))))))))"

text \<open>The inode that \<open>sys_open\<close> opens, locked; \<open>None\<close> after \<open>end_op\<close> on failure.\<close>

definition open_inode :: "bytes \<Rightarrow> u32 \<Rightarrow> ('a consys_scheme, nat option) kernel" where
  "open_inode path omode =
     (if omode AND O_CREATE \<noteq> 0 then
        bindK (create path T_FILE 0 0) (\<lambda>r.
        case r of None \<Rightarrow> seqK end_op (ret None) | Some ip \<Rightarrow> ret (Some ip))
      else
        bindK (namei path) (\<lambda>r.
        case r of
          None \<Rightarrow> seqK end_op (ret None)
        | Some ip \<Rightarrow>
            seqK (ilock ip)
            (bindK (get_dt ip) (\<lambda>t.
             if t = T_DIR \<and> omode \<noteq> 0 then seqK (iunlockput ip) (seqK end_op (ret None))
             else ret (Some ip)))))"

definition open_fail :: "nat option \<Rightarrow> nat \<Rightarrow> ('a filesys_scheme, int) kernel" where
  "open_fail fo ip =
     seqK (close_opt fo)
     (seqK (iunlockput ip)
     (seqK end_op
     (ret (- 1))))"

definition sys_open :: "('a filesys_scheme, int) kernel" where
  "sys_open =
     needK (argstr 0) (\<lambda>path.
     needK (argint 1) (\<lambda>omode.
     seqK begin_op
     (needK (open_inode path omode) (\<lambda>ip.
      bindK filealloc (\<lambda>fo.
      case fo of
        None \<Rightarrow> open_fail None ip
      | Some f \<Rightarrow>
          bindK (fdalloc f) (\<lambda>fdo.
          case fdo of
            None \<Rightarrow> open_fail (Some f) ip
          | Some fd \<Rightarrow>
              seqK (iunlock ip)
              (seqK end_op
              (seqK (setF f (\<lambda>x. x\<lparr>f_type := FD_INODE, f_ip := ip, f_off := 0,
                  f_readable := (omode AND O_WRONLY = 0),
                  f_writable := (omode AND O_WRONLY \<noteq> 0 \<or> omode AND O_RDWR \<noteq> 0)\<rparr>))
              (ret (int fd))))))))))"

text \<open>\<open>iunlockput(ip); end_op(); return 0;\<close>, or \<open>end_op(); return -1;\<close>.\<close>

definition made :: "nat option \<Rightarrow> ('a fssys_scheme, int) kernel" where
  "made ipo =
     (case ipo of
        None \<Rightarrow> seqK end_op (ret (- 1))
      | Some ip \<Rightarrow> seqK (iunlockput ip) (seqK end_op (ret 0)))"

definition sys_mkdir :: "('a consys_scheme, int) kernel" where
  "sys_mkdir =
     seqK begin_op
     (bindK (argstr 0) (\<lambda>p.
      case p of
        None \<Rightarrow> made None
      | Some path \<Rightarrow> bindK (create path T_DIR 0 0) made))"

definition sys_mknod :: "('a consys_scheme, int) kernel" where
  "sys_mknod =
     seqK begin_op
     (bindK (argstr 0) (\<lambda>p.
      case p of
        None \<Rightarrow> made None
      | Some path \<Rightarrow>
          bindK (argint 1) (\<lambda>ma.
          case ma of
            None \<Rightarrow> made None
          | Some major \<Rightarrow>
              bindK (argint 2) (\<lambda>mi.
              case mi of
                None \<Rightarrow> made None
              | Some minor \<Rightarrow> bindK (create path T_DEV (ucast major) (ucast minor)) made))))"

definition sys_chdir :: "('a consys_scheme, int) kernel" where
  "sys_chdir =
     seqK begin_op
     (bindK (bindK (argstr 0) (\<lambda>p. case p of None \<Rightarrow> ret None | Some path \<Rightarrow> namei path)) (\<lambda>ipo.
      case ipo of
        None \<Rightarrow> seqK end_op (ret (- 1))
      | Some ip \<Rightarrow>
          seqK (ilock ip)
          (bindK (get_dt ip) (\<lambda>t.
           if t \<noteq> T_DIR then seqK (iunlockput ip) (seqK end_op (ret (- 1)))
           else
             seqK (iunlock ip)
             (bindK myproc (\<lambda>cur.
              bindK (getP cur p_cwd) (\<lambda>cwd.
              seqK (case cwd of None \<Rightarrow> panic ''trap'' | Some old \<Rightarrow> iput old)
              (seqK end_op
              (seqK (setP cur (\<lambda>p. p\<lparr>p_cwd := Some ip\<rparr>))
              (ret 0))))))))))"

section \<open>exec and pipe\<close>

text \<open>The loop of \<open>sys_exec\<close> over the argument vector, with \<open>k\<close> entries of \<open>argv\<close> left.\<close>

fun sys_exec_loop :: "nat \<Rightarrow> u32 \<Rightarrow> bytes list \<Rightarrow> ('a procs_scheme, bytes list option) kernel" where
  "sys_exec_loop 0 a argv = ret None"
| "sys_exec_loop (Suc k) a argv =
     bindK (fetchint a) (\<lambda>r.
     case r of
       None \<Rightarrow> ret None
     | Some uarg \<Rightarrow>
         if uarg = 0 then ret (Some argv)
         else
           bindK (fetchstr uarg) (\<lambda>t.
           case t of
             None \<Rightarrow> ret None
           | Some arg \<Rightarrow> sys_exec_loop k (a + 4) (argv @ [arg])))"

definition sys_exec :: "('a lifesys_scheme, int) kernel" where
  "sys_exec =
     needK (argstr 0) (\<lambda>path.
     needK (argint 1) (\<lambda>uargv.
     needK (sys_exec_loop MAXARG uargv []) (\<lambda>argv.
     exec path argv)))"

definition pipe_fail :: "nat option \<Rightarrow> nat \<Rightarrow> nat \<Rightarrow> ('a filesys_scheme, int) kernel" where
  "pipe_fail fd0 rfile wfile =
     seqK (case fd0 of None \<Rightarrow> ret () | Some fd \<Rightarrow> clear_fd fd)
     (seqK (fileclose rfile)
     (seqK (fileclose wfile)
     (ret (- 1))))"

definition sys_pipe :: "('a filesys_scheme, int) kernel" where
  "sys_pipe =
     needK (argptr 0 8) (\<lambda>fd.
     needK pipealloc (\<lambda>(rfile, wfile).
     bindK (fdalloc rfile) (\<lambda>r0.
     case r0 of
       None \<Rightarrow> pipe_fail None rfile wfile
     | Some fd0 \<Rightarrow>
         bindK (fdalloc wfile) (\<lambda>r1.
         case r1 of
           None \<Rightarrow> pipe_fail (Some fd0) rfile wfile
         | Some fd1 \<Rightarrow>
             seqK (ustore32 fd (of_nat fd0))
             (seqK (ustore32 (fd + 4) (of_nat fd1))
             (ret 0))))))"

end
