(* ===== verification/Trap.thy ===== *)
theory Trap
  imports Sysfile
begin

text \<open>
  The system call dispatcher (\<open>syscall\<close> of \<open>src/syscall.c\<close>, \<open>src/syscall.h\<close>) and the trap
  handler (\<open>src/trap.c\<close>, \<open>src/traps.h\<close>). Acknowledging an interrupt at the local APIC has
  no effect on the state; the disk of \<open>src/memide.c\<close> raises no interrupts and its handler
  does nothing.
\<close>

unbundle bit_operations_syntax

abbreviation (input) T_SYSCALL :: u32 where "T_SYSCALL \<equiv> 64"
abbreviation (input) T_IRQ0 :: u32 where "T_IRQ0 \<equiv> 32"
abbreviation (input) EXIT_STATUS_OK :: int where "EXIT_STATUS_OK \<equiv> 1"

section \<open>System calls\<close>

text \<open>The entries of \<open>syscalls\<close> from number 1 on.\<close>

definition syscalls :: "('a lifesys_scheme, int) kernel list" where
  "syscalls =
     [sys_fork, sys_exit, sys_wait, sys_pipe, sys_read, sys_kill, sys_exec, sys_fstat, sys_chdir,
      sys_dup, sys_getpid, sys_sbrk, sys_sleep, sys_uptime, sys_open, sys_write, sys_mknod,
      sys_unlink, sys_link, sys_mkdir, sys_close, sys_pstat]"

definition syscall :: "('a lifesys_scheme, unit) kernel" where
  "syscall =
     bindK myproc (\<lambda>cur.
     bindK (getP cur id) (\<lambda>p.
     bindK (load (p_tf p + TF_EAX)) (\<lambda>num.
     if 0 < sint num \<and> sint num < 23 then
       bindK (syscalls ! (unat num - 1)) (\<lambda>r.
       bindK (getP cur p_tf) (\<lambda>tf.
       store (tf + TF_EAX) (of_int r)))
     else
       seqK (cprintf (''%d %s: unknown sys call %d'' @ newline) [Num (of_int (p_pid p)), Ptr (Some (p_name p)), Num num])
       (store (p_tf p + TF_EAX) (- 1)))))"

section \<open>Traps\<close>

definition tvinit :: "('a base_scheme, unit) kernel" where
  "tvinit = initlock Ticks_lock ''time''"

definition load16 :: "u32 \<Rightarrow> ('a kmem_scheme, u16) kernel" where
  "load16 a = getsK (\<lambda>s. ucast (ram s a) OR push_bit 8 (ucast (ram s (a + 1))))"

definition trap_timer :: "('a procs_scheme, unit) kernel" where
  "trap_timer =
     bindK (getsK mycpu) (\<lambda>id.
     whenK (id = 0)
       (seqK (acquire Ticks_lock)
       (seqK (modifyK (\<lambda>s. s\<lparr>ticks := ticks s + 1\<rparr>))
       (seqK (wakeup Ticks_chan)
       (release Ticks_lock)))))"

text \<open>The running process, if there is one, has been killed.\<close>

definition killed_now :: "'a procs_scheme \<Rightarrow> bool" where
  "killed_now s = (case cproc (cur_cpu s) of None \<Rightarrow> False | Some i \<Rightarrow> p_killed (ptable s ! i))"

definition trap_default :: "u32 \<Rightarrow> ('a lifesys_scheme, unit) kernel" where
  "trap_default tf =
     bindK (load (tf + TF_TRAPNO)) (\<lambda>no.
     bindK (load (tf + TF_EIP)) (\<lambda>eip.
     bindK (load (tf + TF_ERR)) (\<lambda>err.
     bindK (load16 (tf + TF_CS)) (\<lambda>cs.
     bindK (getsK mycpu) (\<lambda>id.
     bindK (getsK (\<lambda>s. cr2 s (mycpu s))) (\<lambda>addr.
     bindK (getsK (\<lambda>s. cproc (cur_cpu s))) (\<lambda>pr.
     case pr of
       Some i \<Rightarrow>
         if cs AND 3 \<noteq> 0 then
           bindK (getP i p_pid) (\<lambda>pid.
           bindK (getP i p_name) (\<lambda>name.
           seqK (cprintf (''pid %d %s: trap %d err %d on cpu %d eip 0x%x addr 0x%x--kill proc'' @ newline)
             [Num (of_int pid), Ptr (Some name), Num no, Num err, Num (of_nat id), Num eip, Num addr])
           (setP i (\<lambda>p. p\<lparr>p_killed := True\<rparr>))))
         else
           seqK (cprintf (''unexpected trap %d from cpu %d eip %x (cr2=0x%x)'' @ newline) [Num no, Num (of_nat id), Num eip, Num addr])
           (panic ''trap'')
     | None \<Rightarrow>
         seqK (cprintf (''unexpected trap %d from cpu %d eip %x (cr2=0x%x)'' @ newline) [Num no, Num (of_nat id), Num eip, Num addr])
         (panic ''trap''))))))))"

definition trap_spurious :: "u32 \<Rightarrow> ('a consys_scheme, unit) kernel" where
  "trap_spurious tf =
     bindK (getsK mycpu) (\<lambda>id.
     bindK (load16 (tf + TF_CS)) (\<lambda>cs.
     bindK (load (tf + TF_EIP)) (\<lambda>eip.
     cprintf (''cpu%d: spurious interrupt at %x:%x'' @ newline) [Num (of_nat id), Num (ucast cs), Num eip])))"

definition trap_switch :: "u32 \<Rightarrow> u32 \<Rightarrow> ('a lifesys_scheme, unit) kernel" where
  "trap_switch tf no =
     (if no = T_IRQ0 then trap_timer
      else if no = T_IRQ0 + 14 then ret ()
      else if no = T_IRQ0 + 15 then ret ()
      else if no = T_IRQ0 + 1 then kbdintr
      else if no = T_IRQ0 + 4 then uartintr
      else if no = T_IRQ0 + 7 \<or> no = T_IRQ0 + 31 then trap_spurious tf
      else trap_default tf)"

definition exit_if_killed :: "u32 \<Rightarrow> ('a filesys_scheme, unit) kernel" where
  "exit_if_killed tf =
     bindK (getsK killed_now) (\<lambda>k.
     bindK (load16 (tf + TF_CS)) (\<lambda>cs.
     whenK (k \<and> cs AND 3 = 3) (exit EXIT_STATUS_OK)))"

definition trap_syscall :: "u32 \<Rightarrow> ('a lifesys_scheme, unit) kernel" where
  "trap_syscall tf =
     bindK myproc (\<lambda>cur.
     bindK (getP cur p_killed) (\<lambda>k.
     seqK (whenK k (exit EXIT_STATUS_OK))
     (seqK (setP cur (\<lambda>p. p\<lparr>p_tf := tf\<rparr>))
     (seqK syscall
     (bindK (getP cur p_killed) (\<lambda>k.
      whenK k (exit EXIT_STATUS_OK)))))))"

text \<open>\<open>yield\<close> ends in the scheduler; \<open>trap_resume\<close> is what follows when the process runs
  again.\<close>

definition trap :: "u32 \<Rightarrow> ('a lifesys_scheme, unit) kernel" where
  "trap tf =
     bindK (load (tf + TF_TRAPNO)) (\<lambda>no.
     if no = T_SYSCALL then trap_syscall tf
     else
       seqK (trap_switch tf no)
       (seqK (exit_if_killed tf)
       (bindK (getsK (\<lambda>s. case cproc (cur_cpu s) of None \<Rightarrow> False | Some i \<Rightarrow> p_state (ptable s ! i) = RUNNING)) (\<lambda>run.
        seqK (whenK (run \<and> no = T_IRQ0) yield)
        (exit_if_killed tf)))))"

definition trap_resume :: "u32 \<Rightarrow> ('a filesys_scheme, unit) kernel" where
  "trap_resume tf = seqK (release Ptable_lock) (exit_if_killed tf)"

end
