(* ===== verification/Tty.thy ===== *)
theory Tty
  imports Console
begin

text \<open>
  The line discipline of the console (\<open>consoleintr\<close> and \<open>consoleread\<close> of
  \<open>src/console.c\<close>). The ring buffer with its three free-running 32-bit indices holds two
  byte sequences: the input that readers may take, and the line being edited. The lemmas
  show that the interrupt handler implements an abstract line editor on them, and that a
  reader gets a line as it was edited.
\<close>

unbundle bit_operations_syntax

section \<open>The two sequences in the buffer\<close>

definition in_done :: "input \<Rightarrow> bytes" where
  "in_done q = ring (in_buf q) (unat (in_r q)) (unat (in_w q - in_r q))"

definition in_line :: "input \<Rightarrow> bytes" where
  "in_line q = ring (in_buf q) (unat (in_w q)) (unat (in_e q - in_w q))"

definition in_wf :: "input \<Rightarrow> bool" where
  "in_wf q = (length (in_buf q) = 128 \<and> length (in_done q) + length (in_line q) \<le> 128 \<and> 10 \<notin> set (in_line q))"

text \<open>The line editor: what a character does to the finished input and the line.\<close>

definition edit :: "int \<Rightarrow> bytes \<times> bytes \<Rightarrow> bytes \<times> bytes" where
  "edit c p = (case p of (done, line) \<Rightarrow>
     if c = 16 then (done, line)
     else if c = 21 then (done, [])
     else if c = 8 \<or> c = 127 then (done, butlast line)
     else if c = 0 \<or> 128 \<le> length done + length line then (done, line)
     else
       (let c = (if c = 13 then 10 else c); line' = line @ [of_int c] in
        if c = 10 \<or> c = 4 \<or> length done + length line' = 128 then (done @ line', []) else (done, line')))"

definition in_abs :: "input \<Rightarrow> bytes \<times> bytes" where
  "in_abs q = (in_done q, in_line q)"

lemma unat_span:
  fixes r w e :: u32
  assumes "unat (w - r) + unat (e - w) \<le> 128"
  shows "unat (e - r) = unat (w - r) + unat (e - w)"
proof -
  have small: "unat x + unat y \<le> 128 \<Longrightarrow> unat (x + y) = unat x + unat y" for x y :: u32
    by (simp add: unat_plus_if')
  have "unat ((w - r) + (e - w)) = unat (w - r) + unat (e - w)" by (rule small [OF assms])
  moreover have "(w - r) + (e - w) = e - r" by simp
  ultimately show ?thesis by (simp only:)
qed

lemma in_len:
  "length (in_done q) = unat (in_w q - in_r q)" "length (in_line q) = unat (in_e q - in_w q)"
  by (simp_all add: in_done_def in_line_def)

lemma in_lengths:
  assumes "in_wf q"
  shows "length (in_done q) = unat (in_w q - in_r q)" "length (in_line q) = unat (in_e q - in_w q)"
    "unat (in_e q - in_r q) = length (in_done q) + length (in_line q)"
proof -
  show 1: "length (in_done q) = unat (in_w q - in_r q)" "length (in_line q) = unat (in_e q - in_w q)"
    by (simp_all add: in_done_def in_line_def)
  show "unat (in_e q - in_r q) = length (in_done q) + length (in_line q)"
    using assms 1 unat_span [of "in_w q" "in_r q" "in_e q"] by (simp add: in_wf_def)
qed

lemma in_full: "in_wf q \<Longrightarrow> in_e q - in_r q < 128 \<longleftrightarrow> length (in_done q) + length (in_line q) < 128"
  using in_lengths(3) [of q] by (simp add: word_less_nat_alt)

lemma in_full_eq: "in_wf q \<Longrightarrow> in_e q = in_r q + 128 \<longleftrightarrow> length (in_done q) + length (in_line q) = 128"
proof -
  assume "in_wf q"
  have "in_e q = in_r q + 128 \<longleftrightarrow> in_e q - in_r q = 128" by (auto simp: algebra_simps)
  also have "\<dots> \<longleftrightarrow> unat (in_e q - in_r q) = 128" by (simp add: word_unat_eq_iff)
  finally show ?thesis using in_lengths(3) [OF \<open>in_wf q\<close>] by simp
qed

lemma in_line_empty: "in_e q = in_w q \<longleftrightarrow> in_line q = []"
  by (simp add: in_line_def ring_def unat_eq_0)

lemma in_done_empty: "in_r q = in_w q \<longleftrightarrow> in_done q = []"
  by (auto simp: in_done_def ring_def unat_eq_0)

text \<open>Slots are indices modulo 128, which divides \<open>2 ^ 32\<close>.\<close>

lemma in_slot: "unat ((x + of_nat j) mod 128) = (unat x + j) mod 128" for x :: u32
  by (simp add: unat_mod unat_plus_mod)

lemma in_rub:
  assumes "in_wf q" "in_line q \<noteq> []"
  shows "in_wf (q\<lparr>in_e := in_e q - 1\<rparr>)" "in_done (q\<lparr>in_e := in_e q - 1\<rparr>) = in_done q"
    "in_line (q\<lparr>in_e := in_e q - 1\<rparr>) = butlast (in_line q)" "in_at q (in_e q - 1) = last (in_line q)"
proof -
  let ?n = "unat (in_e q - in_w q)"
  have nz: "in_e q - in_w q \<noteq> 0" using assms(2) in_line_empty [of q] by auto
  then have n: "unat (in_e q - 1 - in_w q) = ?n - 1"
    using unat_minus_one [OF nz] by (simp add: algebra_simps)
  obtain m where m: "?n = Suc m" using nz by (cases ?n) (auto simp: unat_eq_0)
  have len: "length (in_buf q) = 128" using assms(1) by (simp add: in_wf_def)
  show d: "in_done (q\<lparr>in_e := in_e q - 1\<rparr>) = in_done q" by (simp add: in_done_def)
  show l: "in_line (q\<lparr>in_e := in_e q - 1\<rparr>) = butlast (in_line q)"
    using n m by (simp add: in_line_def ring_def)
  show "in_wf (q\<lparr>in_e := in_e q - 1\<rparr>)"
    using assms(1) d l by (auto simp: in_wf_def dest: in_set_butlastD)
  have "in_e q - 1 = in_w q + of_nat m"
  proof -
    have "in_e q - in_w q = of_nat ?n" by simp
    then have "in_e q - in_w q = of_nat m + 1" unfolding m by simp
    then show ?thesis by (simp add: algebra_simps)
  qed
  then show "in_at q (in_e q - 1) = last (in_line q)"
    using m len by (simp add: in_at_def in_slot in_line_def ring_def)
qed

lemma in_put_line:
  assumes wf: "in_wf q" and room: "length (in_done q) + length (in_line q) < 128"
  shows "length (in_buf (in_put c q)) = 128" "in_done (in_put c q) = in_done q" "in_line (in_put c q) = in_line q @ [c]"
proof -
  let ?d = "unat (in_w q - in_r q)" and ?n = "unat (in_e q - in_w q)"
  have len: "length (in_buf q) = 128" using wf by (simp add: in_wf_def)
  then show "length (in_buf (in_put c q)) = 128" by (simp add: in_put_def)
  have r: "?d + ?n < 128" using room in_lengths(1,2) [OF wf] by simp
  have t: "unat (in_e q - in_r q) = ?d + ?n" using in_lengths [OF wf] by simp
  have slot_w: "unat (in_e q mod 128) = (unat (in_w q) + ?n) mod 128"
    using in_slot [of "in_w q" ?n] by simp
  have slot_r: "unat (in_e q mod 128) = (unat (in_r q) + (?d + ?n)) mod 128"
    using in_slot [of "in_r q" "unat (in_e q - in_r q)"] by (simp add: t)
  have e: "in_e q + 1 - in_w q = (in_e q - in_w q) + 1" by simp
  have n: "unat (in_e q + 1 - in_w q) = Suc ?n" unfolding e using r by (simp add: unat_plus_if')
  show "in_done (in_put c q) = in_done q"
    using ring_keep [of ?d "?d + ?n" "in_buf q" "unat (in_r q)" c] r len slot_r by (simp add: in_done_def in_put_def)
  show "in_line (in_put c q) = in_line q @ [c]"
    using ring_put [of ?n "in_buf q" "unat (in_w q)" c] r len slot_w n by (simp add: in_line_def in_put_def)
qed

lemma in_commit:
  assumes "length (in_buf q) = 128" "length (in_done q) + length (in_line q) \<le> 128"
  shows "in_done (q\<lparr>in_w := in_e q\<rparr>) = in_done q @ in_line q" "in_line (q\<lparr>in_w := in_e q\<rparr>) = []"
    "in_wf (q\<lparr>in_w := in_e q\<rparr>)"
proof -
  let ?d = "unat (in_w q - in_r q)" and ?n = "unat (in_e q - in_w q)"
  have t: "unat (in_e q - in_r q) = ?d + ?n"
    using assms(2) by (intro unat_span) (simp add: in_done_def in_line_def)
  have "unat (in_w q) mod 128 = (unat (in_r q) + ?d) mod 128"
    using unat_plus_mod [of 128 "in_r q" ?d] by simp
  then have "ring (in_buf q) (unat (in_w q)) ?n = ring (in_buf q) (unat (in_r q) + ?d) ?n"
    using ring_mod [of "in_buf q"] assms(1) by metis
  then show d: "in_done (q\<lparr>in_w := in_e q\<rparr>) = in_done q @ in_line q"
    by (simp add: in_done_def in_line_def t ring_split)
  show l: "in_line (q\<lparr>in_w := in_e q\<rparr>) = []" by (simp add: in_line_def ring_def)
  show "in_wf (q\<lparr>in_w := in_e q\<rparr>)" using assms d l by (simp add: in_wf_def)
qed

lemma in_take:
  assumes wf: "in_wf q" and some: "in_done q \<noteq> []"
  shows "in_done q = in_at q (in_r q) # in_done (q\<lparr>in_r := in_r q + 1\<rparr>)"
    "in_line (q\<lparr>in_r := in_r q + 1\<rparr>) = in_line q" "in_wf (q\<lparr>in_r := in_r q + 1\<rparr>)"
proof -
  let ?d = "unat (in_w q - in_r q)"
  have nz: "in_w q - in_r q \<noteq> 0" using some in_done_empty [of q] by auto
  have e: "in_w q - (in_r q + 1) = (in_w q - in_r q) - 1" by (simp add: algebra_simps)
  have n: "unat (in_w q - (in_r q + 1)) = ?d - 1" unfolding e by (rule unat_minus_one [OF nz])
  obtain m where m: "?d = Suc m" using nz by (cases ?d) (auto simp: unat_eq_0)
  have len: "length (in_buf q) = 128" using wf by (simp add: in_wf_def)
  have "ring (in_buf q) (unat (in_r q + 1)) m = ring (in_buf q) (Suc (unat (in_r q))) m"
    using unat_plus_mod [of 128 "in_r q" 1] ring_mod [of "in_buf q" "unat (in_r q + 1)" m]
      ring_mod [of "in_buf q" "Suc (unat (in_r q))" m] len by simp
  then show d: "in_done q = in_at q (in_r q) # in_done (q\<lparr>in_r := in_r q + 1\<rparr>)"
    using n m len by (simp add: in_done_def ring_get in_at_def unat_mod)
  show l: "in_line (q\<lparr>in_r := in_r q + 1\<rparr>) = in_line q" by (simp add: in_line_def)
  show "in_wf (q\<lparr>in_r := in_r q + 1\<rparr>)" using wf d l by (simp add: in_wf_def)
qed

section \<open>What the interrupt handler changes\<close>

definition con_upd :: "proc list \<Rightarrow> (u16 \<times> u8) list \<Rightarrow> u8 \<Rightarrow> (u8 \<Rightarrow> u8) \<Rightarrow> (int \<Rightarrow> u16) \<Rightarrow> bytes \<Rightarrow> input \<Rightarrow>
    'a consys_scheme \<Rightarrow> 'a consys_scheme" where
  "con_upd pt a b c d z q s = s\<lparr>ptable := pt, outs := a, crt_index := b, crt_regs := c, crt := d, com_in := z, cinput := q\<rparr>"

definition con_step :: "'a consys_scheme \<Rightarrow> 'a consys_scheme \<Rightarrow> bool" where
  "con_step s t = ((\<exists>pt a b c d z q. t = con_upd pt a b c d z q s) \<and> (cursor s < 1920 \<longrightarrow> cursor t < 1920))"

definition con_ok :: "'a consys_scheme \<Rightarrow> bool" where
  "con_ok s = (scr_ok True s \<and> lock_ok Ptable_lock s)"

lemma con_upd_simps [simp]:
  "cinput (con_upd pt a b c d z q s) = q" "com_in (con_upd pt a b c d z q s) = z" "uart (con_upd pt a b c d z q s) = uart s"
  "kbd_in (con_upd pt a b c d z q s) = kbd_in s" "panicked (con_upd pt a b c d z q s) = panicked s"
  "cons_locking (con_upd pt a b c d z q s) = cons_locking s" "icache (con_upd pt a b c d z q s) = icache s"
  "lock_ok l (con_upd pt a b c d z q s) = lock_ok l s"
  "con_upd pt' a' b' c' d' z' q' (con_upd pt a b c d z q s) = con_upd pt' a' b' c' d' z' q' s"
  "con_upd pt a b c d z q (acq_st l s) = acq_st l (con_upd pt a b c d z q s)"
  by (simp_all add: con_upd_def lock_ok_def lock_free_def settled_def cur_cpu_def acq_st_def upd_lock_def upd_cpu_def)

lemma con_upd_views:
  "s = con_upd (ptable s) (outs s) (crt_index s) (crt_regs s) (crt s) (com_in s) (cinput s) s"
  "s\<lparr>cinput := q\<rparr> = con_upd (ptable s) (outs s) (crt_index s) (crt_regs s) (crt s) (com_in s) q s"
  "s\<lparr>com_in := z\<rparr> = con_upd (ptable s) (outs s) (crt_index s) (crt_regs s) (crt s) z (cinput s) s"
  "s\<lparr>outs := a, crt_index := b, crt_regs := c, crt := d\<rparr> = con_upd (ptable s) a b c d (com_in s) (cinput s) s"
  "woken ch s = con_upd (map (wake_proc ch) (ptable s)) (outs s) (crt_index s) (crt_regs s) (crt s) (com_in s) (cinput s) s"
  by (cases s; simp add: con_upd_def woken_def)+

lemma con_stepI:
  "(cursor s < 1920 \<Longrightarrow> cursor (con_upd pt a b c d z q s) < 1920) \<Longrightarrow> con_step s (con_upd pt a b c d z q s)"
  unfolding con_step_def by blast

lemma con_step_trans: "con_step s t \<Longrightarrow> con_step t u \<Longrightarrow> con_step s u"
  unfolding con_step_def by (elim conjE exE) (intro conjI exI, simp_all)

lemma con_step_ok: "con_step s t \<Longrightarrow> con_ok s \<Longrightarrow> con_ok t"
  by (auto simp: con_step_def con_ok_def scr_ok_def)

lemma con_step_basic: "con_step s s" "con_step s (s\<lparr>cinput := q\<rparr>)" "con_step s (s\<lparr>com_in := z\<rparr>)" "con_step s (woken ch s)"
proof -
  have c: "cursor (s\<lparr>cinput := q\<rparr>) = cursor s" "cursor (s\<lparr>com_in := z\<rparr>) = cursor s" "cursor (woken ch s) = cursor s"
    by (simp_all add: cursor_def woken_def)
  show "con_step s s" unfolding con_step_def using con_upd_views(1) by blast
  show "con_step s (s\<lparr>cinput := q\<rparr>)" unfolding con_step_def c using con_upd_views(2) by blast
  show "con_step s (s\<lparr>com_in := z\<rparr>)" unfolding con_step_def c using con_upd_views(3) by blast
  show "con_step s (woken ch s)" unfolding con_step_def c using con_upd_views(5) by blast
qed

lemma con_step_scr: "scr_step s t \<Longrightarrow> con_step s t"
  unfolding scr_step_def con_step_def using con_upd_views(4) by blast

text \<open>
  The processes waiting for input are woken if something has become readable, and if not,
  the process table is as it was.
\<close>

definition wakes :: "'a consys_scheme \<Rightarrow> 'a consys_scheme \<Rightarrow> bool" where
  "wakes s t = (\<exists>xs. in_done (cinput t) = in_done (cinput s) @ xs \<and>
     ptable t = (if xs = [] then ptable s else map (wake_proc Input_chan) (ptable s)))"

lemma wakes_same: "in_done (cinput t) = in_done (cinput s) \<Longrightarrow> ptable t = ptable s \<Longrightarrow> wakes s t"
  by (simp add: wakes_def)

lemma wake_proc_twice: "wake_proc ch (wake_proc ch p) = wake_proc ch p"
  by (simp add: wake_proc_def)

lemma wakes_trans:
  assumes "wakes s t" "wakes t u"
  shows "wakes s u"
proof -
  obtain xs ys where "in_done (cinput t) = in_done (cinput s) @ xs" "in_done (cinput u) = in_done (cinput t) @ ys"
    "ptable t = (if xs = [] then ptable s else map (wake_proc Input_chan) (ptable s))"
    "ptable u = (if ys = [] then ptable t else map (wake_proc Input_chan) (ptable t))"
    using assms unfolding wakes_def by blast
  then show ?thesis unfolding wakes_def by (intro exI [of _ "xs @ ys"]) (auto simp: wake_proc_twice)
qed

lemma wakes_scr: "scr_step s t \<Longrightarrow> wakes s t"
  by (rule wakes_same) (auto simp: scr_step_def)

text \<open>An operation that edits the input by \<open>f\<close> and otherwise changes only the console, and
  wakes the readers if it has to.\<close>

definition edits :: "('a consys_scheme, unit) kernel \<Rightarrow> (bytes \<times> bytes \<Rightarrow> bytes \<times> bytes) \<Rightarrow> 'a consys_scheme \<Rightarrow> bool" where
  "edits m f s = (\<exists>t. m s = Ok () t \<and> con_step s t \<and> wakes s t \<and> com_in t = com_in s \<and> in_wf (cinput t) \<and>
     in_abs (cinput t) = f (in_abs (cinput s)))"

lemma edits_print:
  assumes "prints True m" "con_ok s" "in_wf (cinput s)"
  shows "edits m id s"
proof -
  obtain t where t: "m s = Ok () t" "scr_step s t" using assms by (auto simp: prints_def con_ok_def)
  then have "com_in t = com_in s" "cinput t = cinput s" by (auto simp: scr_step_def)
  with t assms(3) con_step_scr [OF t(2)] wakes_scr [OF t(2)] show ?thesis unfolding edits_def by (intro exI [of _ t]) simp
qed

lemma edits_seq:
  assumes "edits m f s" "\<And>t. con_step s t \<Longrightarrow> in_wf (cinput t) \<Longrightarrow> in_abs (cinput t) = f (in_abs (cinput s)) \<Longrightarrow> edits n g t"
  shows "edits (seqK m n) (g \<circ> f) s"
proof -
  obtain t where t: "m s = Ok () t" "con_step s t" "com_in t = com_in s" "in_wf (cinput t)"
    "in_abs (cinput t) = f (in_abs (cinput s))" "wakes s t" using assms(1) by (auto simp: edits_def)
  obtain u where "n t = Ok () u" "con_step t u" "com_in u = com_in t" "in_wf (cinput u)"
    "in_abs (cinput u) = g (in_abs (cinput t))" "wakes t u" using assms(2) [OF t(2,4,5)] by (auto simp: edits_def)
  with t con_step_trans [OF t(2)] wakes_trans [OF t(6)] show ?thesis unfolding edits_def by (intro exI [of _ u]) (simp add: seqK_run)
qed

lemma edits_modI:
  assumes "in_wf (h (cinput s))" "in_abs (h (cinput s)) = f (in_abs (cinput s))" "in_done (h (cinput s)) = in_done (cinput s)"
  shows "edits (modI h) f s"
  unfolding edits_def modI_def
  using assms con_step_basic(2) [of s "h (cinput s)"] wakes_same [of "s\<lparr>cinput := h (cinput s)\<rparr>" s] by (intro exI [of _ "s\<lparr>cinput := h (cinput s)\<rparr>"]) simp

lemma kill_line_edits:
  "con_ok s \<Longrightarrow> in_wf (cinput s) \<Longrightarrow> length (in_line (cinput s)) \<le> k \<Longrightarrow> edits (kill_line k) (\<lambda>(d, l). (d, [])) s"
proof (induction k arbitrary: s)
  case 0
  then show ?case by (auto simp: edits_def in_abs_def con_step_basic wakes_same)
next
  case (Suc k)
  show ?case
  proof (cases "in_line (cinput s) = []")
    case True
    then have "in_e (cinput s) = in_w (cinput s)" by (simp add: in_line_empty)
    with True Suc.prems show ?thesis by (auto simp: edits_def in_abs_def run_simps con_step_basic wakes_same)
  next
    case False
    let ?rub = "\<lambda>q. q\<lparr>in_e := in_e q - 1\<rparr>"
    note rub = in_rub [OF Suc.prems(2) False]
    have "last (in_line (cinput s)) \<noteq> 10" using Suc.prems(2) False last_in_set by (fastforce simp: in_wf_def)
    then have run: "kill_line (Suc k) s = seqK (modI ?rub) (seqK (consputc 256) (kill_line k)) s"
      using False rub(4) in_line_empty [of "cinput s"] by (simp add: bindK_run)
    have "edits (seqK (modI ?rub) (seqK (consputc 256) (kill_line k))) (((\<lambda>(d, l). (d, [])) \<circ> id) \<circ> (\<lambda>(d, l). (d, butlast l))) s"
    proof (rule edits_seq)
      show "edits (modI ?rub) (\<lambda>(d, l). (d, butlast l)) s"
        by (rule edits_modI) (simp_all add: rub in_abs_def)
      fix t assume t: "con_step s t" "in_wf (cinput t)" "in_abs (cinput t) = (\<lambda>(d, l). (d, butlast l)) (in_abs (cinput s))"
      show "edits (seqK (consputc 256) (kill_line k)) ((\<lambda>(d, l). (d, [])) \<circ> id) t"
      proof (rule edits_seq)
        show "edits (consputc 256) id t"
          by (rule edits_print [OF consputc_prints con_step_ok [OF t(1) Suc.prems(1)] t(2)])
        fix u assume u: "con_step t u" "in_wf (cinput u)" "in_abs (cinput u) = id (in_abs (cinput t))"
        show "edits (kill_line k) (\<lambda>(d, l). (d, [])) u"
          using Suc.prems(3) t(3) u(3)
          by (intro Suc.IH con_step_ok [OF u(1)] con_step_ok [OF t(1)] Suc.prems(1) u(2)) (simp add: in_abs_def)
      qed
    qed
    then show ?thesis unfolding edits_def run by (simp add: split_beta)
  qed
qed

text \<open>The last part of the default case: a finished line becomes readable.\<close>

lemma commit_edits:
  assumes ok: "con_ok s" and q: "length (in_buf (cinput s)) = 128"
    "length (in_done (cinput s)) + length (in_line (cinput s)) \<le> 128" and ne: "in_line (cinput s) \<noteq> []"
  shows "edits (seqK (modI (\<lambda>q. q\<lparr>in_w := in_e q\<rparr>)) (wakeup Input_chan)) (\<lambda>(d, l). (d @ l, [])) s"
proof -
  let ?s = "s\<lparr>cinput := (cinput s)\<lparr>in_w := in_e (cinput s)\<rparr>\<rparr>"
  note c = in_commit [OF q]
  have "lock_ok Ptable_lock ?s" using ok by (simp add: con_ok_def)
  then have "seqK (modI (\<lambda>q. q\<lparr>in_w := in_e q\<rparr>)) (wakeup Input_chan) s = Ok () (woken Input_chan ?s)"
    by (simp add: modI_def seqK_run wakeup_ok)
  moreover have "con_step s (woken Input_chan ?s)" by (rule con_step_trans [OF con_step_basic(2) con_step_basic(4)])
  moreover have "wakes s (woken Input_chan ?s)"
    unfolding wakes_def using c ne by (intro exI [of _ "in_line (cinput s)"]) (simp add: woken_def)
  ultimately show ?thesis
    unfolding edits_def using c by (intro exI [of _ "woken Input_chan ?s"]) (simp add: woken_def in_abs_def)
qed

lemma of_int_byte: "0 \<le> c \<Longrightarrow> c < 256 \<Longrightarrow> (of_int c :: u8) = 10 \<longleftrightarrow> c = 10"
  by (simp add: word_uint_eq_iff uint_word_of_int)

lemma char_edits:
  assumes ok: "con_ok s" and wf: "in_wf (cinput s)" and c: "0 < c" "c < 256"
    and room: "length (in_done (cinput s)) + length (in_line (cinput s)) < 128"
  shows "edits
    (seqK (modI (in_put (of_int c))) (seqK (consputc c) (bindK (getsK cinput) (\<lambda>q.
       whenK (c = 10 \<or> c = 4 \<or> in_e q = in_r q + 128) (seqK (modI (\<lambda>q. q\<lparr>in_w := in_e q\<rparr>)) (wakeup Input_chan))))))
    (\<lambda>(d, l). if c = 10 \<or> c = 4 \<or> length d + Suc (length l) = 128 then (d @ l @ [of_int c], []) else (d, l @ [of_int c])) s"
    (is "edits (seqK _ (seqK _ ?fin)) _ s")
proof -
  let ?q = "cinput s"
  let ?s1 = "s\<lparr>cinput := in_put (of_int c) ?q\<rparr>"
  note put = in_put_line [OF wf room, of "of_int c"]
  have ok1: "con_ok ?s1" by (rule con_step_ok [OF con_step_basic(2) ok])
  obtain t where t: "consputc c ?s1 = Ok () t" "scr_step ?s1 t"
    using consputc_prints [of True c] ok1 by (auto simp: prints_def con_ok_def)
  then have q: "cinput t = in_put (of_int c) ?q" "com_in t = com_in s" "ptable t = ptable s" by (auto simp: scr_step_def)
  have wk: "wakes s t" using put q by (intro wakes_same) simp_all
  have st: "con_step s t" by (rule con_step_trans [OF con_step_basic(2) con_step_scr [OF t(2)]])
  have run: "seqK (modI (in_put (of_int c))) (seqK (consputc c) m) s = m t" for m :: "('a consys_scheme, unit) kernel"
    using t(1) by (simp add: modI_def seqK_run)
  have len: "length (in_done ?q) + length (in_line ?q @ [of_int c :: u8]) \<le> 128" using room by simp
  have full: "in_e (cinput t) = in_r (cinput t) + 128 \<longleftrightarrow> length (in_done ?q) + Suc (length (in_line ?q)) = 128"
  proof -
    let ?p = "in_put (of_int c) ?q"
    have l: "unat (in_w ?p - in_r ?p) = length (in_done ?q)" "unat (in_e ?p - in_w ?p) = Suc (length (in_line ?q))"
      using in_len [of ?p] put(2,3) by simp_all
    have "unat (in_w ?p - in_r ?p) + unat (in_e ?p - in_w ?p) \<le> 128" using l room by linarith
    from unat_span [OF this] l
    have "unat (in_e (cinput t) - in_r (cinput t)) = length (in_done ?q) + Suc (length (in_line ?q))"
      unfolding q(1) by linarith
    moreover have "in_e (cinput t) = in_r (cinput t) + 128 \<longleftrightarrow> in_e (cinput t) - in_r (cinput t) = 128" by (auto simp: algebra_simps)
    ultimately show ?thesis by (simp add: word_unat_eq_iff)
  qed
  show ?thesis
  proof (cases "c = 10 \<or> c = 4 \<or> length (in_done ?q) + Suc (length (in_line ?q)) = 128")
    case True
    have "edits (seqK (modI (\<lambda>q. q\<lparr>in_w := in_e q\<rparr>)) (wakeup Input_chan)) (\<lambda>(d, l). (d @ l, [])) t"
      using put len by (intro commit_edits con_step_ok [OF st ok]) (simp_all add: q)
    then obtain u where u: "seqK (modI (\<lambda>q. q\<lparr>in_w := in_e q\<rparr>)) (wakeup Input_chan) t = Ok () u" "con_step t u" "com_in u = com_in t"
      "in_wf (cinput u)" "in_abs (cinput u) = (\<lambda>(d, l). (d @ l, [])) (in_abs (cinput t))" "wakes t u" by (auto simp: edits_def)
    have "in_abs (cinput u) = (in_done ?q @ in_line ?q @ [of_int c], [])" using u(5) put q by (simp add: in_abs_def)
    with True full u(1,3,4) q con_step_trans [OF st u(2)] wakes_trans [OF wk u(6)] show ?thesis
      unfolding edits_def run by (intro exI [of _ u]) (simp add: bindK_run in_abs_def)
  next
    case False
    have "in_wf (cinput t)" unfolding q using put wf len False of_int_byte [of c] c by (simp add: in_wf_def)
    with False full put q st wk show ?thesis
      unfolding edits_def run by (intro exI [of _ t]) (simp add: bindK_run in_abs_def)
  qed
qed

lemma consoleintr_char_edits:
  assumes ok: "con_ok s" and wf: "in_wf (cinput s)" and c: "0 \<le> c" "c < 256"
  shows "edits (consoleintr_char c) (edit c) s"
proof -
  let ?q = "cinput s"
  have keep: "edits (ret ()) (edit c) s" if "edit c (in_abs ?q) = in_abs ?q"
    using that wf by (simp add: edits_def con_step_basic wakes_same)
  consider "c = 16" | "c = 21" | "c = 8 \<or> c = 127" | "c \<noteq> 16" "c \<noteq> 21" "c \<noteq> 8" "c \<noteq> 127" by blast
  then show ?thesis
  proof cases
    case 1
    then show ?thesis
      using edits_print [OF procdump_prints ok wf] by (simp add: consoleintr_char_def edits_def edit_def split_beta)
  next
    case 2
    have "edits (kill_line (unat (in_e ?q - in_w ?q))) (\<lambda>(d, l). (d, [])) s"
      using in_lengths(2) [OF wf] by (intro kill_line_edits ok wf) simp
    then show ?thesis using 2 by (simp add: consoleintr_char_def edits_def edit_def split_beta bindK_run)
  next
    case 3
    show ?thesis
    proof (cases "in_line ?q = []")
      case True
      then have "consoleintr_char c s = Ok () s" using 3 in_line_empty [of ?q] by (auto simp: consoleintr_char_def bindK_run)
      with True 3 wf show ?thesis unfolding edits_def by (auto simp: edit_def in_abs_def con_step_basic wakes_same)
    next
      case False
      let ?rub = "\<lambda>q. q\<lparr>in_e := in_e q - 1\<rparr>"
      note rub = in_rub [OF wf False]
      have "edits (seqK (modI ?rub) (consputc 256)) (id \<circ> (\<lambda>(d, l). (d, butlast l))) s"
      proof (rule edits_seq)
        show "edits (modI ?rub) (\<lambda>(d, l). (d, butlast l)) s" by (rule edits_modI) (simp_all add: rub in_abs_def)
      qed (intro edits_print consputc_prints con_step_ok [OF _ ok])
      moreover have "consoleintr_char c s = seqK (modI ?rub) (consputc 256) s"
        using 3 False in_line_empty [of ?q] by (auto simp: consoleintr_char_def bindK_run)
      ultimately show ?thesis using 3 unfolding edits_def by (auto simp: edit_def split_beta)
    qed
  next
    case 4
    show ?thesis
    proof (cases "c = 0 \<or> 128 \<le> length (in_done ?q) + length (in_line ?q)")
      case True
      then have "consoleintr_char c s = Ok () s" using 4 in_full [OF wf] by (auto simp: consoleintr_char_def bindK_run)
      with True 4 wf show ?thesis unfolding edits_def by (auto simp: edit_def in_abs_def con_step_basic wakes_same)
    next
      case False
      let ?c = "if c = 13 then 10 else c"
      have c': "0 < ?c" "?c < 256" and room: "length (in_done ?q) + length (in_line ?q) < 128" using c False by auto
      note e = char_edits [OF ok wf c' room]
      have "consoleintr_char c s = seqK (modI (in_put (of_int ?c))) (seqK (consputc ?c) (bindK (getsK cinput) (\<lambda>q.
         whenK (?c = 10 \<or> ?c = 4 \<or> in_e q = in_r q + 128) (seqK (modI (\<lambda>q. q\<lparr>in_w := in_e q\<rparr>)) (wakeup Input_chan))))) s"
        using 4 False in_full [OF wf] by (simp add: consoleintr_char_def bindK_run Let_def)
      with e False 4 show ?thesis unfolding edits_def by (simp add: edit_def in_abs_def Let_def)
    qed
  qed
qed

section \<open>The interrupt of the serial port\<close>

lemma uartgetc_run:
  "uart s \<Longrightarrow> com_in s = [] \<Longrightarrow> uartgetc s = Ok (- 1) s"
  "uart s \<Longrightarrow> com_in s = b # bs \<Longrightarrow> uartgetc s = Ok (uint b) (s\<lparr>com_in := bs\<rparr>)"
proof -
  have "(x AND NOT 1) AND 1 = 0" "(x OR 1) AND 1 = 1" for x :: u8
    by (rule bit_word_eqI; auto simp: bit_simps bit_1_iff)+
  then show "uart s \<Longrightarrow> com_in s = [] \<Longrightarrow> uartgetc s = Ok (- 1) s"
    "uart s \<Longrightarrow> com_in s = b # bs \<Longrightarrow> uartgetc s = Ok (uint b) (s\<lparr>com_in := bs\<rparr>)"
    by (simp_all add: uartgetc_def run_simps inb_def)
qed

lemma consoleintr_loop_edits:
  "con_ok s \<Longrightarrow> in_wf (cinput s) \<Longrightarrow> uart s \<Longrightarrow> com_in s = bs \<Longrightarrow> length bs < k \<Longrightarrow>
   \<exists>t. consoleintr_loop k uartgetc s = Ok () t \<and> con_step s t \<and> wakes s t \<and> com_in t = [] \<and> in_wf (cinput t) \<and>
     in_abs (cinput t) = fold edit (map uint bs) (in_abs (cinput s))"
proof (induction bs arbitrary: s k)
  case Nil
  then obtain j where "k = Suc j" by (cases k) auto
  with Nil uartgetc_run(1) [of s] show ?case by (intro exI [of _ s]) (simp add: bindK_run con_step_basic wakes_same)
next
  case (Cons b bs)
  then obtain j where k: "k = Suc j" by (cases k) auto
  let ?s = "s\<lparr>com_in := bs\<rparr>"
  have st: "con_step s ?s" by (rule con_step_basic)
  have ok: "con_ok ?s" by (rule con_step_ok [OF st Cons.prems(1)])
  have "0 \<le> uint b" "uint b < 256" using uint_lt2p [of b] by simp_all
  then have "edits (consoleintr_char (uint b)) (edit (uint b)) ?s"
    using Cons.prems(2) by (intro consoleintr_char_edits ok) simp_all
  then obtain t where t: "consoleintr_char (uint b) ?s = Ok () t" "con_step ?s t" "com_in t = bs" "in_wf (cinput t)"
    "in_abs (cinput t) = edit (uint b) (in_abs (cinput s))" "wakes ?s t" by (auto simp: edits_def)
  have "uart t" using t(2) Cons.prems(3) by (auto simp: con_step_def)
  then obtain u where u: "consoleintr_loop j uartgetc t = Ok () u" "con_step t u" "com_in u = []" "in_wf (cinput u)"
    "in_abs (cinput u) = fold edit (map uint bs) (in_abs (cinput t))" "wakes t u"
    using Cons.IH [of t j] con_step_ok [OF t(2) ok] t(3,4) Cons.prems(5) k by auto
  have "consoleintr_loop k uartgetc s = Ok () u"
    using k uartgetc_run(2) [OF Cons.prems(3,4)] t(1) u(1) by (simp add: bindK_run seqK_run)
  moreover have "wakes s ?s" by (rule wakes_same) simp_all
  ultimately show ?case using u t(5) con_step_trans [OF st con_step_trans [OF t(2) u(2)]] wakes_trans [OF _ wakes_trans [OF t(6) u(6)]] by (intro exI [of _ u]) simp
qed

lemma uartintr_run:
  assumes ok: "con_ok s" "lock_ok Input_lock s" and wf: "in_wf (cinput s)" and u: "uart s"
  shows "\<exists>t. uartintr s = Ok () t \<and> con_step s t \<and> wakes s t \<and> com_in t = [] \<and> in_wf (cinput t) \<and>
    in_abs (cinput t) = fold edit (map uint (com_in s)) (in_abs (cinput s))"
proof -
  let ?s = "acq_st Input_lock s"
  have "con_ok ?s" using ok by (simp add: con_ok_def scr_ok_def lock_ok_acq_st)
  then obtain t where t: "consoleintr_loop (Suc (length (com_in s) + length (kbd_in s))) uartgetc ?s = Ok () t" "con_step ?s t"
    "com_in t = []" "in_wf (cinput t)" "in_abs (cinput t) = fold edit (map uint (com_in s)) (in_abs (cinput s))" "wakes ?s t"
    using consoleintr_loop_edits [of ?s "com_in s" "Suc (length (com_in s) + length (kbd_in s))"] wf u by auto
  obtain pt a b c d z q where eq: "t = acq_st Input_lock (con_upd pt a b c d z q s)" using t(2) by (auto simp: con_step_def)
  let ?t = "con_upd pt a b c d z q s"
  have "release Input_lock t = Ok () ?t" unfolding eq using ok(2) by (intro release_acq) simp
  then have run: "uartintr s = Ok () ?t"
    using t(1) ok(2) by (simp add: uartintr_def consoleintr_def seqK_run bindK_run acquire_ok)
  have "con_step s ?t" using t(2) unfolding eq by (intro con_stepI) (simp add: con_step_def)
  moreover have "wakes s ?t" using t(6) unfolding eq wakes_def by (simp only: acq_st_cons ptable_acq_st con_upd_simps)
  ultimately show ?thesis using run t(3-5) unfolding eq by (intro exI [of _ ?t]) simp
qed

section \<open>Reading a line\<close>

lemma calm_cons [simp]: "calm (s\<lparr>cinput := q\<rparr>) = calm s" "calm (con_upd pt a b c d z p s) = calm s"
  by (simp_all add: calm_def cur_cpu_def con_upd_def lock_ok_def lock_free_def settled_def)

text \<open>The inode of the console, not locked, which \<open>consoleread\<close> locks again at its end.\<close>

definition free_inode :: "nat \<Rightarrow> 'a fssys_scheme \<Rightarrow> bool" where
  "free_inode ip s = (ip < length (icache s) \<and> \<not> i_busy (icache s ! ip) \<and> 1 \<le> i_ref (icache s ! ip) \<and> i_valid (icache s ! ip))"

lemma consoleread_end:
  assumes "calm s" "free_inode ip s"
  shows "seqK (release Input_lock) (seqK (ilock ip) (ret x)) (acq_st Input_lock s) = Ok x (upd_ip ip (\<lambda>i. i\<lparr>i_busy := True\<rparr>) s)"
  using assms ilock_valid [of s ip] by (simp add: seqK_run release_acq calmD free_inode_def)

lemma consoleread_loop_line:
  "calm s \<Longrightarrow> free_inode ip s \<Longrightarrow> in_wf (cinput s) \<Longrightarrow> in_done (cinput s) = l @ 10 # rest \<Longrightarrow> 4 \<notin> set l \<Longrightarrow> 10 \<notin> set l \<Longrightarrow>
   length l < k \<Longrightarrow>
   \<exists>q. consoleread_loop ip Loc n k acc (acq_st Input_lock s) =
       Ok (n - int k + int (length l) + 1, acc @ l @ [10]) (upd_ip ip (\<lambda>i. i\<lparr>i_busy := True\<rparr>) (s\<lparr>cinput := q\<rparr>)) \<and>
     in_wf q \<and> in_done q = rest \<and> in_line q = in_line (cinput s)"
proof (induction l arbitrary: s k acc)
  case Nil
  let ?q = "(cinput s)\<lparr>in_r := in_r (cinput s) + 1\<rparr>"
  obtain j where k: "k = Suc j" using Nil.prems(7) by (cases k) auto
  have ne: "in_done (cinput s) \<noteq> []" using Nil.prems(4) by simp
  note tk = in_take [OF Nil.prems(3) ne]
  have at: "in_at (cinput s) (in_r (cinput s)) = 10" "in_done ?q = rest" using tk(1) Nil.prems(4) by simp_all
  have "free_inode ip (s\<lparr>cinput := ?q\<rparr>)" "calm (s\<lparr>cinput := ?q\<rparr>)" using Nil.prems(1,2) by (simp_all add: free_inode_def)
  note fin = consoleread_end [OF this(2,1)]
  have "consoleread_loop ip Loc n k acc (acq_st Input_lock s) = Ok (n - int j, acc @ [10]) (upd_ip ip (\<lambda>i. i\<lparr>i_busy := True\<rparr>) (s\<lparr>cinput := ?q\<rparr>))"
    using k ne in_done_empty [of "cinput s"] at fin by (simp add: bindK_run seqK_run Let_def modI_def put_place_def)
  with at tk(2,3) k show ?case by (intro exI [of _ ?q]) simp
next
  case (Cons c l)
  let ?q = "(cinput s)\<lparr>in_r := in_r (cinput s) + 1\<rparr>"
  obtain j where k: "k = Suc j" using Cons.prems(7) by (cases k) auto
  have ne: "in_done (cinput s) \<noteq> []" using Cons.prems(4) by simp
  note tk = in_take [OF Cons.prems(3) ne]
  have at: "in_at (cinput s) (in_r (cinput s)) = c" "in_done ?q = l @ 10 # rest" using tk(1) Cons.prems(4) by simp_all
  let ?s = "s\<lparr>cinput := ?q\<rparr>"
  have "free_inode ip ?s" "calm ?s" using Cons.prems(1,2) by (simp_all add: free_inode_def)
  then obtain q where q: "consoleread_loop ip Loc n j (acc @ [c]) (acq_st Input_lock ?s) =
      Ok (n - int j + int (length l) + 1, (acc @ [c]) @ l @ [10]) (upd_ip ip (\<lambda>i. i\<lparr>i_busy := True\<rparr>) (?s\<lparr>cinput := q\<rparr>))"
    "in_wf q" "in_done q = rest" "in_line q = in_line (cinput s)"
    using Cons.IH [of ?s j "acc @ [c]"] tk at Cons.prems(5-7) k by auto
  have "consoleread_loop ip Loc n k acc (acq_st Input_lock s) = consoleread_loop ip Loc n j (acc @ [c]) (acq_st Input_lock ?s)"
    using k ne in_done_empty [of "cinput s"] at Cons.prems(5,6) by (simp add: bindK_run seqK_run Let_def modI_def put_place_def)
  with q k show ?case by (intro exI [of _ q]) simp
qed

lemma fold_edit_plain:
  "\<forall>b \<in> set bs. 32 \<le> b \<and> b < 127 \<Longrightarrow> length line + length bs < 128 \<Longrightarrow>
   fold edit (map uint bs) ([], line) = ([], line @ bs)"
proof (induction bs arbitrary: line)
  case (Cons b bs)
  then have "32 \<le> b" "b < 127" by simp_all
  then have "32 \<le> uint b" "uint b < 127" by (simp_all add: word_le_def word_less_def)
  then have "edit (uint b) ([], line) = ([], line @ [b])" using Cons.prems(2) by (simp add: edit_def Let_def)
  with Cons show ?case by simp
qed simp

section \<open>Properties\<close>

text \<open>
  (C9) The serial interrupt implements the line editor. With the input buffer well formed
  and the locks free, \<open>uartintr\<close> returns after it has taken every byte received, and the
  readable input and the line being edited are what the abstract editor makes of them:
  control-U and backspace change only the unfinished line, a newline, control-D or a full
  buffer finishes it, and characters that do not fit are dropped. If a line has been
  finished, so that there is more to read than before, exactly the processes sleeping on
  the input are made runnable; if not, no process is touched.
\<close>

theorem uartintr_edits:
  assumes "\<not> panicked s" "cursor s < 1920" "calm s" "in_wf (cinput s)" "uart s"
  shows "\<exists>t. uartintr s = Ok () t \<and> com_in t = [] \<and> in_wf (cinput t) \<and>
    in_abs (cinput t) = fold edit (map uint (com_in s)) (in_abs (cinput s)) \<and>
    ptable t = (if fst (in_abs (cinput t)) = fst (in_abs (cinput s)) then ptable s
      else map (wake_proc Input_chan) (ptable s))"
proof -
  have "con_ok s" "lock_ok Input_lock s" using assms by (simp_all add: con_ok_def scr_ok_def calmD)
  from uartintr_run [OF this assms(4,5)] obtain t where t: "uartintr s = Ok () t" "com_in t = []" "in_wf (cinput t)"
    "in_abs (cinput t) = fold edit (map uint (com_in s)) (in_abs (cinput s))" "wakes s t" by blast
  moreover have "ptable t = (if fst (in_abs (cinput t)) = fst (in_abs (cinput s)) then ptable s
      else map (wake_proc Input_chan) (ptable s))"
    using t(5) unfolding wakes_def in_abs_def by auto
  ultimately show ?thesis by blast
qed

text \<open>
  (C22) What is typed is what is read. When the serial port has received a line of at most
  127 printable characters and a carriage return on an empty buffer, the interrupt handler
  followed by \<open>consoleread\<close> for enough bytes returns exactly that line with a newline at
  its end, and leaves the buffer empty.
\<close>

theorem console_line_roundtrip:
  assumes "\<not> panicked s" "cursor s < 1920" "calm s" "in_wf (cinput s)" "uart s" "in_abs (cinput s) = ([], [])"
    and bs: "com_in s = bs @ [13]" "\<forall>b \<in> set bs. 32 \<le> b \<and> b < 127" "length bs < 128" "int (length bs) < n"
    and ip: "ip < length (icache s)" "i_busy (icache s ! ip)" "i_valid (icache s ! ip)" "1 \<le> i_ref (icache s ! ip)"
  shows "\<exists>t u. uartintr s = Ok () t \<and> consoleread ip Loc n t = Ok (int (length bs) + 1, bs @ [10]) u \<and>
    in_abs (cinput u) = ([], [])"
proof -
  have "con_ok s" "lock_ok Input_lock s" using assms by (simp_all add: con_ok_def scr_ok_def calmD)
  from uartintr_run [OF this assms(4,5)] obtain t where t: "uartintr s = Ok () t" "con_step s t" "in_wf (cinput t)"
    "in_abs (cinput t) = fold edit (map uint (bs @ [13])) ([], [])" using bs(1) assms(6) by auto
  have "in_abs (cinput t) = (bs @ [10], [])" using t(4) fold_edit_plain [OF bs(2), of "[]"] bs(3) by (simp add: edit_def Let_def)
  then have d: "in_done (cinput t) = bs @ 10 # []" "in_line (cinput t) = []" by (simp_all add: in_abs_def)
  have ct: "calm t" "icache t = icache s" using t(2) assms(3) by (auto simp: con_step_def)
  let ?v = "woken (Inode_chan ip) (upd_ip ip (\<lambda>i. i\<lparr>i_busy := False\<rparr>) t)"
  have v: "iunlock ip t = Ok () ?v" using ip ct by (intro iunlock_run) simp_all
  have cin: "cinput ?v = cinput t" by (simp add: woken_def upd_ip_def)
  have "calm ?v" "free_inode ip ?v" using ct ip by (simp_all add: free_inode_def)
  moreover have "4 \<notin> set bs" "10 \<notin> set bs" "length bs < nat n" using bs(2,4) by auto
  ultimately obtain q where q: "consoleread_loop ip Loc n (nat n) [] (acq_st Input_lock ?v) =
      Ok (n - int (nat n) + int (length bs) + 1, [] @ bs @ [10]) (upd_ip ip (\<lambda>i. i\<lparr>i_busy := True\<rparr>) (?v\<lparr>cinput := q\<rparr>))"
    "in_done q = []" "in_line q = []"
    using consoleread_loop_line [of ?v ip bs "[]" "nat n" n "[]"] t(3) d cin bs(4) by auto
  have "consoleread ip Loc n t = Ok (int (length bs) + 1, bs @ [10]) (upd_ip ip (\<lambda>i. i\<lparr>i_busy := True\<rparr>) (?v\<lparr>cinput := q\<rparr>))"
    using v q(1) bs(4) \<open>calm ?v\<close> by (simp add: consoleread_def seqK_run acquire_ok calmD)
  with t(1) q(2,3) show ?thesis by (intro exI conjI) (assumption | simp add: in_abs_def upd_ip_def)+
qed

theorem uartintr_edits_witness:
  "\<exists>t. uartintr (consys0 [97, 98, 8, 99, 13, 100]) = Ok () t \<and> com_in t = [] \<and> in_wf (cinput t) \<and>
    in_abs (cinput t) = ([97, 99, 10], [100]) \<and>
    ptable t = map (wake_proc Input_chan) (ptable (consys0 [97, 98, 8, 99, 13, 100]))"
proof -
  have "in_wf (cinput (consys0 bs))" "in_abs (cinput (consys0 bs)) = ([], [])" for bs
    by (simp_all add: in_wf_def in_done_def in_line_def in_abs_def ring_def)
  then show ?thesis
    using uartintr_edits [of "consys0 [97, 98, 8, 99, 13, 100]"] consys0_lock_ok(1) by (force simp: edit_def)
qed

theorem console_line_roundtrip_witness:
  "\<exists>t u. uartintr ((consys0 [108, 115, 13])\<lparr>icache := [inode0\<lparr>i_busy := True, i_valid := True, i_ref := 1\<rparr>]\<rparr>) = Ok () t \<and>
    consoleread 0 Loc 100 t = Ok (3, [108, 115, 10]) u \<and> in_abs (cinput u) = ([], [])"
proof -
  let ?s = "(consys0 ([108, 115] @ [13]))\<lparr>icache := [inode0\<lparr>i_busy := True, i_valid := True, i_ref := 1\<rparr>]\<rparr>"
  have "in_wf (cinput ?s)" "in_abs (cinput ?s) = ([], [])"
    by (simp_all add: in_wf_def in_done_def in_line_def in_abs_def ring_def)
  moreover have "calm ?s" by (rule fresh_cache(3)) simp_all
  moreover have "cursor ?s = 0" using consys0_simps(3) by (simp add: cursor_def)
  ultimately show ?thesis using console_line_roundtrip [of ?s "[108, 115]" 100 0] by simp
qed

end
