(* ===== verification/Fsdata.thy ===== *)
theory Fsdata
  imports Fs
begin

text \<open>
  The contents of files: reading and writing an inode (\<open>readi\<close>, \<open>writei\<close> of \<open>src/fs.c\<close>) seen
  as operations on a sequence of bytes. \<open>fslice\<close> is the part of a file that its block
  addresses give; the lemmas show that \<open>readi\<close> delivers it and \<open>writei\<close> replaces it.
\<close>

unbundle bit_operations_syntax

section \<open>Looking at a block\<close>

text \<open>
  \<open>readable X s\<close>: the blocks \<open>X\<close> can be read, one at a time. \<open>peeked s t\<close>: what such reads,
  and stores into memory in between, leave alone.
\<close>

definition readable :: "u32 set \<Rightarrow> 'a bufsys_scheme \<Rightarrow> bool" where
  "readable X s = (calm s \<and> bio_inv s \<and> (\<forall>x \<in> X. x < disksize s \<and> x \<notin> busy_secs s) \<and> card (busy_secs s \<union> dirty_secs s) < 30)"

definition peeked :: "'a bufsys_scheme \<Rightarrow> 'a bufsys_scheme \<Rightarrow> bool" where
  "peeked s t = (bufsys.more t = bufsys.more s \<and> disksize t = disksize s \<and> cur_cpu t = cur_cpu s \<and> blk t = blk s \<and>
     busy_secs t = busy_secs s \<and> dirty_secs t = dirty_secs s \<and> calm t \<and> bio_inv t)"

lemma peeked_trans: "peeked s t \<Longrightarrow> peeked t u \<Longrightarrow> peeked s u"
  by (simp add: peeked_def)

lemma peeked_readable: "peeked s t \<Longrightarrow> readable X s \<Longrightarrow> readable X t"
  by (simp add: peeked_def readable_def)

lemma readable_peeked: "readable X s \<Longrightarrow> peeked s s"
  by (simp add: readable_def peeked_def)

lemma more_icache: "bufsys.more t = bufsys.more s \<Longrightarrow> icache t = icache s"
  for s t :: "'a fssys_scheme"
  by (cases s, cases t) simp

lemma peeked_icache: "peeked s t \<Longrightarrow> icache t = icache s" for s t :: "'a fssys_scheme"
  unfolding peeked_def by (elim conjE) (rule more_icache)

lemma bufs_ram [simp]:
  "calm (s\<lparr>ram := m\<rparr>) = calm s" "holds (s\<lparr>ram := m\<rparr>) x i = holds s x i" "holding_buf (s\<lparr>ram := m\<rparr>) x i = holding_buf s x i"
  "blk (s\<lparr>ram := m\<rparr>) = blk s" "busy_secs (s\<lparr>ram := m\<rparr>) = busy_secs s" "dirty_secs (s\<lparr>ram := m\<rparr>) = dirty_secs s"
  "bio_inv (s\<lparr>ram := m\<rparr>) = bio_inv s" "cur_cpu (s\<lparr>ram := m\<rparr>) = cur_cpu s" "bufsys.more (s\<lparr>ram := m\<rparr>) = bufsys.more s"
proof -
  show h: "holds (s\<lparr>ram := m\<rparr>) x i = holds s x i" for x i by (simp add: holds_def)
  show "cur_cpu (s\<lparr>ram := m\<rparr>) = cur_cpu s" by (simp add: cur_cpu_def)
  show "calm (s\<lparr>ram := m\<rparr>) = calm s" by (simp add: calm_def lock_ok_def lock_free_def settled_def cur_cpu_def)
  show "holding_buf (s\<lparr>ram := m\<rparr>) x i = holding_buf s x i" by (simp add: holding_buf_def h)
  show "blk (s\<lparr>ram := m\<rparr>) = blk s" by (auto simp: blk_def cached_def fun_eq_iff split: option.split)
  show "busy_secs (s\<lparr>ram := m\<rparr>) = busy_secs s" "dirty_secs (s\<lparr>ram := m\<rparr>) = dirty_secs s"
    by (simp_all add: busy_secs_def dirty_secs_def h)
  show "bio_inv (s\<lparr>ram := m\<rparr>) = bio_inv s" by (simp add: bio_inv_def h)
  show "bufsys.more (s\<lparr>ram := m\<rparr>) = bufsys.more s" by (cases s) simp
qed

lemma with_block:
  assumes r: "readable X s" and x: "x \<in> X"
  shows "\<exists>b u. bread 1 x s = Ok b u \<and> b_data (bcache u ! b) = blk s x \<and> ram u = ram s \<and> cur_cpu u = cur_cpu s \<and>
    bufsys.more u = bufsys.more s \<and> (\<forall>m. \<exists>v. brelse b (u\<lparr>ram := m\<rparr>) = Ok () v \<and> ram v = m \<and> peeked s v)"
proof -
  have c: "calm s" "bio_inv s" "x < disksize s" "x \<notin> busy_secs s" and n: "card (busy_secs s \<union> dirty_secs s) < 30"
    using assms unfolding readable_def by blast+
  have ok: "bread_ok s x" unfolding bread_ok_def using c(3,4) clean_nonempty [OF c(2) n] by blast
  obtain b u where u: "bread 1 x s = Ok b u" "bio_inv u" "calm u" "rest_same s u" "holding_buf u x b"
    "b_data (bcache u ! b) = blk s x" "blk u = blk s" "dirty_secs u = dirty_secs s" "busy_secs u = insert x (busy_secs s)"
    using bread_spec [OF c(1,2) ok] by (elim exE conjE) (rule that; assumption)
  have "\<exists>v. brelse b (u\<lparr>ram := m\<rparr>) = Ok () v \<and> ram v = m \<and> peeked s v" for m
  proof -
    let ?u = "u\<lparr>ram := m\<rparr>"
    have cu: "calm ?u" "bio_inv ?u" "holding_buf ?u x b" using u by simp_all
    obtain v where v: "brelse b ?u = Ok () v" "bio_inv v" "calm v" "rest_same ?u v" "blk v = blk ?u"
      "dirty_secs v = dirty_secs ?u" "busy_secs v = busy_secs ?u - {x}"
      using brelse_spec [OF cu] by (elim exE conjE) (rule that; assumption)
    then have "peeked s v" using u c(4) by (simp add: peeked_def rest_same_def)
    with v(1,4) show ?thesis by (intro exI [of _ v]) (simp add: rest_same_def)
  qed
  with u(1,4,6) show ?thesis by (intro exI [of _ b] exI [of _ u]) (simp add: rest_same_def)
qed

section \<open>The blocks of a file\<close>

definition baddr :: "'a bufsys_scheme \<Rightarrow> dinode \<Rightarrow> nat \<Rightarrow> u32" where
  "baddr s d bn = (if bn < 12 then d_addrs d ! bn else get32 (blk s (d_addrs d ! 12)) (4 * (bn - 12)))"

definition file_ok :: "'a bufsys_scheme \<Rightarrow> dinode \<Rightarrow> nat \<Rightarrow> bool" where
  "file_ok s d nb = (nb \<le> 140 \<and> (12 < nb \<longrightarrow> d_addrs d ! 12 \<noteq> 0) \<and> (\<forall>bn < nb. baddr s d bn \<noteq> 0))"

definition file_blocks :: "'a bufsys_scheme \<Rightarrow> dinode \<Rightarrow> nat \<Rightarrow> u32 set" where
  "file_blocks s d nb = baddr s d ` {..<nb} \<union> (if 12 < nb then {d_addrs d ! 12} else {})"

lemma peeked_baddr: "peeked s t \<Longrightarrow> baddr t d = baddr s d"
  by (simp add: peeked_def baddr_def fun_eq_iff)

lemma of_nat_small: "n < 2 ^ 32 \<Longrightarrow> unat (of_nat n :: u32) = n"
  by (rule unat_of_nat32)

lemma bmap_run:
  assumes r: "readable X s" and X: "file_blocks s d nb \<subseteq> X" and ip: "i_d (icache s ! ip) = d" "i_dev (icache s ! ip) = 1"
    and bn: "bn < nb" "file_ok s d nb"
  shows "\<exists>t. bmap ip (of_nat bn) s = Ok (baddr s d bn) t \<and> peeked s t \<and> ram t = ram s"
proof (cases "bn < 12")
  case True
  then have "(of_nat bn :: u32) < 12" by (simp add: word_less_nat_alt of_nat_small)
  moreover have "d_addrs d ! bn \<noteq> 0" using bn True by (auto simp: file_ok_def baddr_def)
  ultimately show ?thesis
    using True ip readable_peeked [OF r] by (intro exI [of _ s]) (simp add: bmap_def getI_def bindK_run of_nat_small baddr_def)
next
  case False
  then have f: "12 < nb" "bn < 140" "d_addrs d ! 12 \<noteq> 0" "d_addrs d ! 12 \<in> X" "baddr s d bn \<noteq> 0"
    using bn X by (auto simp: file_ok_def file_blocks_def)
  have w: "(of_nat bn :: u32) - 12 = of_nat (bn - 12)" using False by (simp add: of_nat_diff)
  have n12: "\<not> (of_nat bn :: u32) < 12" using False f(2) by (simp add: word_less_nat_alt of_nat_small)
  have n128: "(of_nat (bn - 12) :: u32) < 128" "unat (of_nat (bn - 12) :: u32) = bn - 12"
    using f(2) by (simp_all add: word_less_nat_alt of_nat_small)
  obtain b u where u: "bread 1 (d_addrs d ! 12) s = Ok b u" "b_data (bcache u ! b) = blk s (d_addrs d ! 12)" "ram u = ram s"
    "\<forall>m. \<exists>v. brelse b (u\<lparr>ram := m\<rparr>) = Ok () v \<and> ram v = m \<and> peeked s v" using with_block [OF r f(4)] by auto
  have "u\<lparr>ram := ram s\<rparr> = u" using u(3) [symmetric] by simp
  then obtain v where v: "brelse b u = Ok () v" "ram v = ram s" "peeked s v" using u(4) [rule_format, of "ram s"] by auto
  have a: "get32 (b_data (bcache u ! b)) (4 * (bn - 12)) = baddr s d bn" using False u(2) by (simp add: baddr_def)
  show ?thesis
    using n12 n128 w ip u(1) v f(3,5) a
    by (intro exI [of _ v]) (simp add: bmap_def getI_def getB_def bindK_run seqK_run Let_def)
qed

section \<open>Slices\<close>

definition fslice :: "'a bufsys_scheme \<Rightarrow> dinode \<Rightarrow> nat \<Rightarrow> nat \<Rightarrow> bytes" where
  "fslice s d off n = map (\<lambda>i. blk s (baddr s d (i div 512)) ! (i mod 512)) [off..<off + n]"

definition blocks512 :: "'a bufsys_scheme \<Rightarrow> bool" where
  "blocks512 s = (\<forall>x. length (blk s x) = 512)"

lemma length_slice [simp]: "length (fslice s d off n) = n"
  by (simp add: fslice_def)

lemma slice_split: "fslice s d off (m + n) = fslice s d off m @ fslice s d (off + m) n"
  using upt_add_eq_append [of off "off + m" n] by (simp add: fslice_def add.assoc)

lemma block_pos:
  assumes "off mod 512 + i < (512 :: nat)"
  shows "(off + i) div 512 = off div 512" "(off + i) mod 512 = off mod 512 + i"
proof -
  define q x where "q = off div 512" and "x = off mod 512 + i"
  have e: "off + i = 512 * q + x" by (simp add: q_def x_def)
  have x: "x < 512" using assms by (simp add: x_def)
  show "(off + i) div 512 = off div 512" unfolding e using x by (simp add: q_def)
  show "(off + i) mod 512 = off mod 512 + i" unfolding e using x by (simp add: x_def)
qed

lemma slice_block:
  assumes "blocks512 s" "off mod 512 + m \<le> 512"
  shows "fslice s d off m = take m (drop (off mod 512) (blk s (baddr s d (off div 512))))"
proof (rule nth_equalityI)
  show "length (fslice s d off m) = length (take m (drop (off mod 512) (blk s (baddr s d (off div 512)))))"
    using assms by (simp add: blocks512_def)
  fix i assume i: "i < length (fslice s d off m)"
  then have "off mod 512 + i < 512" using assms(2) by simp
  from block_pos [OF this] i assms show "fslice s d off m ! i = take m (drop (off mod 512) (blk s (baddr s d (off div 512)))) ! i"
    by (simp add: fslice_def blocks512_def)
qed

section \<open>Where a read puts its bytes\<close>

definition place_put :: "mem \<Rightarrow> u32 \<Rightarrow> place \<Rightarrow> u32 \<Rightarrow> bytes \<Rightarrow> mem option" where
  "place_put m c dst i bs =
     (case dst of Uva a \<Rightarrow> uput m c (a + i) bs | Kva a \<Rightarrow> Some (put_bytes m (a + i) bs) | Loc \<Rightarrow> Some m)"

lemma cur_cpu_ram [simp]: "cur_cpu (s\<lparr>ram := m\<rparr>) = cur_cpu s" for s :: "'a kmem_scheme"
  by (simp add: cur_cpu_def)

lemma ustore_bytes_run:
  "uput (ram s) (cr3 (cur_cpu s)) va bs = Some m \<Longrightarrow> ustore_bytes va bs s = Ok () (s\<lparr>ram := m\<rparr>)"
proof (induction bs arbitrary: s va)
  case (Cons b bs)
  from Cons.prems obtain a where a: "uwaddr (ram s) (cr3 (cur_cpu s)) va = Some a"
    "uput ((ram s)(a := b)) (cr3 (cur_cpu s)) (va + 1) bs = Some m" by (auto split: option.splits)
  let ?t = "s\<lparr>ram := (ram s)(a := b)\<rparr>"
  have "ustore_bytes (va + 1) bs ?t = Ok () (?t\<lparr>ram := m\<rparr>)" by (rule Cons.IH) (use a(2) in \<open>simp add: fun_upd_def\<close>)
  with a(1) show ?case by (simp add: seqK_run ustore8_run)
qed simp

lemma put_place_run: "place_put (ram s) (cr3 (cur_cpu s)) dst i bs = Some m \<Longrightarrow> put_place dst i bs s = Ok () (s\<lparr>ram := m\<rparr>)"
  by (cases dst) (auto simp: place_put_def put_place_def ustore_bytes_run)

lemma uput_append:
  "uput m c va (xs @ ys) = Option.bind (uput m c va xs) (\<lambda>m. uput m c (va + of_nat (length xs)) ys)"
  by (induction xs arbitrary: m va) (auto simp: algebra_simps split: option.split)

lemma put_bytes_append:
  assumes "length xs + length ys < 2 ^ 32"
  shows "put_bytes m a (xs @ ys) = put_bytes (put_bytes m a xs) (a + of_nat (length xs)) ys"
proof (rule ext)
  fix x
  let ?n = "of_nat (length xs) :: u32" and ?d = "x - a"
  have n: "unat ?n = length xs" using assms by (intro unat_of_nat32) simp
  have e: "x - (a + ?n) = ?d - ?n" by (simp add: algebra_simps)
  show "put_bytes m a (xs @ ys) x = put_bytes (put_bytes m a xs) (a + ?n) ys x"
  proof (cases "unat ?d < length xs")
    case True
    then have "unat (?d - ?n) = 2 ^ 32 + unat ?d - length xs"
      using n assms by (simp add: unat_sub_if')
    then have "\<not> unat (?d - ?n) < length ys" using assms by linarith
    with True show ?thesis unfolding put_bytes_def e by (simp add: nth_append)
  next
    case False
    then have "unat (?d - ?n) = unat ?d - length xs" using n by (simp add: unat_sub_if')
    with False show ?thesis unfolding put_bytes_def e by (auto simp: nth_append)
  qed
qed

lemma place_put_append:
  assumes "place_put m c dst i (xs @ ys) = Some m'" "length xs + length ys < 2 ^ 32"
  shows "\<exists>m1. place_put m c dst i xs = Some m1 \<and> place_put m1 c dst (i + of_nat (length xs)) ys = Some m'"
  using assms
  by (cases dst) (auto simp: place_put_def uput_append put_bytes_append algebra_simps bind_eq_Some_conv)

section \<open>Reading\<close>

lemma chunk_nat:
  assumes "n < 2 ^ 32" "off < 2 ^ 32"
  shows "chunk (of_nat n) (of_nat off) = of_nat (min n (512 - off mod 512))"
    and "(of_nat off :: u32) mod 512 = of_nat (off mod 512)" and "(of_nat off :: u32) div 512 = of_nat (off div 512)"
proof -
  show m: "(of_nat off :: u32) mod 512 = of_nat (off mod 512)"
    using assms(2) by (simp add: word_unat_eq_iff unat_mod unat_of_nat32 unat_of_nat)
  show "(of_nat off :: u32) div 512 = of_nat (off div 512)"
    using assms(2) by (simp add: word_unat_eq_iff unat_div unat_of_nat32 unat_of_nat)
  define z where "z = 512 - off mod 512"
  have z: "512 - (of_nat (off mod 512) :: u32) = of_nat z"
    unfolding z_def by (simp add: of_nat_diff less_imp_le)
  have "z < 2 ^ 32" by (simp add: z_def)
  then have "(of_nat n :: u32) \<le> of_nat z \<longleftrightarrow> n \<le> z"
    using assms(1) by (simp add: word_le_nat_alt unat_of_nat32)
  then show "chunk (of_nat n) (of_nat off) = of_nat (min n (512 - off mod 512))"
    unfolding chunk_def m z z_def [symmetric] by (simp add: min_def)
qed

lemma readi_loop_spec:
  "n \<le> k \<Longrightarrow> readable X s \<Longrightarrow> file_blocks s d nb \<subseteq> X \<Longrightarrow> file_ok s d nb \<Longrightarrow> blocks512 s \<Longrightarrow>
   i_d (icache s ! ip) = d \<Longrightarrow> i_dev (icache s ! ip) = 1 \<Longrightarrow> off + n \<le> 512 * nb \<Longrightarrow> tot + n < 2 ^ 32 \<Longrightarrow>
   place_put (ram s) (cr3 (cur_cpu s)) dst (of_nat tot) (fslice s d off n) = Some m \<Longrightarrow>
   \<exists>t. readi_loop k ip dst (of_nat off) (of_nat (tot + n)) (of_nat tot) acc s = Ok (acc @ fslice s d off n) t \<and>
     peeked s t \<and> ram t = m"
proof (induction k arbitrary: n off tot acc s)
  case 0
  then have "n = 0" "m = ram s" by (auto simp: place_put_def fslice_def put_bytes_def split: place.splits)
  then show ?case using readable_peeked [OF "0.prems"(2)] by (intro exI [of _ s]) (simp add: fslice_def)
next
  case (Suc k)
  have nb: "nb \<le> 140" using Suc.prems(4) by (simp add: file_ok_def)
  have less: "(of_nat tot :: u32) < of_nat (tot + n) \<longleftrightarrow> 0 < n"
    using Suc.prems(9) by (simp add: word_less_nat_alt unat_of_nat32 del: of_nat_add)
  show ?case
  proof (cases "n = 0")
    case True
    then have "m = ram s" using Suc.prems(10) by (auto simp: place_put_def fslice_def put_bytes_def split: place.splits)
    with True less show ?thesis using readable_peeked [OF Suc.prems(2)] by (intro exI [of _ s]) (simp add: fslice_def)
  next
    case False
    let ?bn = "off div 512"
    define cc where "cc = min n (512 - off mod 512)"
    have c: "0 < cc" "off mod 512 + cc \<le> 512" "cc \<le> n" using False by (auto simp: cc_def)
    have lt: "off < 2 ^ 32" "?bn < nb" using Suc.prems(8) nb False by auto
    have rest: "(of_nat (tot + n) :: u32) - of_nat tot = of_nat n" by simp
    have ch: "chunk (of_nat (tot + n) - of_nat tot) (of_nat off) = of_nat cc"
      and dm: "(of_nat off :: u32) mod 512 = of_nat (off mod 512)" "(of_nat off :: u32) div 512 = of_nat ?bn"
      unfolding rest using chunk_nat [of n off] lt(1) Suc.prems(9) by (simp_all add: cc_def)
    have sp: "fslice s d off n = fslice s d off cc @ fslice s d (off + cc) (n - cc)"
      using slice_split [of s d off cc "n - cc"] c(3) by simp
    obtain m1 where m1: "place_put (ram s) (cr3 (cur_cpu s)) dst (of_nat tot) (fslice s d off cc) = Some m1"
      "place_put m1 (cr3 (cur_cpu s)) dst (of_nat tot + of_nat cc) (fslice s d (off + cc) (n - cc)) = Some m"
      using place_put_append [of "ram s" _ dst _ "fslice s d off cc" "fslice s d (off + cc) (n - cc)" m] Suc.prems(9,10) c(3)
      unfolding sp by auto
    obtain t where t: "bmap ip (of_nat ?bn) s = Ok (baddr s d ?bn) t" "peeked s t" "ram t = ram s"
      using bmap_run [OF Suc.prems(2,3,6,7) lt(2) Suc.prems(4)] by blast
    have "baddr s d ?bn \<in> X" using Suc.prems(3) lt(2) by (auto simp: file_blocks_def)
    from with_block [OF peeked_readable [OF t(2) Suc.prems(2)] this]
    obtain b u where u: "bread 1 (baddr s d ?bn) t = Ok b u" "b_data (bcache u ! b) = blk t (baddr s d ?bn)" "ram u = ram t"
      "cur_cpu u = cur_cpu t" "\<forall>m. \<exists>v. brelse b (u\<lparr>ram := m\<rparr>) = Ok () v \<and> ram v = m \<and> peeked t v" by auto
    obtain v where v: "brelse b (u\<lparr>ram := m1\<rparr>) = Ok () v" "ram v = m1" "peeked t v" using u(5) by blast
    have pv: "peeked s v" by (rule peeked_trans [OF t(2) v(3)])
    have same: "fslice v d = fslice s d" "cur_cpu v = cur_cpu s" "icache v = icache s" "cur_cpu t = cur_cpu s" "icache t = icache s" "blk t = blk s"
      using pv t(2) peeked_baddr [OF pv] peeked_icache [OF pv] peeked_icache [OF t(2)] by (simp_all add: peeked_def fslice_def fun_eq_iff)
    have data: "take cc (drop (off mod 512) (b_data (bcache u ! b))) = fslice s d off cc"
      using slice_block [OF Suc.prems(5) c(2), of d] u(2) same by simp
    have put: "put_place dst (of_nat tot) (fslice s d off cc) u = Ok () (u\<lparr>ram := m1\<rparr>)"
      using m1(1) u(3,4) t(3) same by (intro put_place_run) simp
    have sums: "(of_nat off :: u32) + of_nat cc = of_nat (off + cc)" "(of_nat tot :: u32) + of_nat cc = of_nat (tot + cc)"
      "(of_nat (tot + n) :: u32) = of_nat (tot + cc + (n - cc))"
      using c(3) by simp_all
    have un: "unat (of_nat cc :: u32) = cc" "unat (of_nat (off mod 512) :: u32) = off mod 512"
      using Suc.prems(9) c(3) by (intro unat_of_nat32; simp)+
    have fb: "file_blocks v d nb \<subseteq> X" "file_ok v d nb" "blocks512 v"
      using Suc.prems(3-5) peeked_baddr [OF pv] pv by (simp_all add: file_blocks_def file_ok_def blocks512_def peeked_def)
    have ar: "n - cc \<le> k" "off + cc + (n - cc) \<le> 512 * nb" "tot + cc + (n - cc) < 2 ^ 32"
      using Suc.prems(1,8,9) c by linarith+
    have "place_put (ram v) (cr3 (cur_cpu v)) dst (of_nat (tot + cc)) (fslice v d (off + cc) (n - cc)) = Some m"
      using m1(2) unfolding sums(2) by (simp only: v(2) same(1,2))
    from Suc.IH [OF ar(1) peeked_readable [OF pv Suc.prems(2)] fb _ _ ar(2,3) this, of "acc @ fslice s d off cc"] same Suc.prems(6,7)
    have ih: "\<exists>z. readi_loop k ip dst (of_nat (off + cc)) (of_nat (tot + cc + (n - cc))) (of_nat (tot + cc)) (acc @ fslice s d off cc) v =
        Ok ((acc @ fslice s d off cc) @ fslice v d (off + cc) (n - cc)) z \<and> peeked v z \<and> ram z = m"
      by (simp only:)
    then obtain z where z: "readi_loop k ip dst (of_nat (off + cc)) (of_nat (tot + n)) (of_nat (tot + cc)) (acc @ fslice s d off cc) v =
        Ok (acc @ fslice s d off n) z" "peeked v z" "ram z = m" unfolding sums(3) [symmetric] same(1) sp by auto
    have "readi_loop (Suc k) ip dst (of_nat off) (of_nat (tot + n)) (of_nat tot) acc s = Ok (acc @ fslice s d off n) z"
      using less False Suc.prems(7) t(1) u(1) v(1) data put same(5) z(1) un
      by (simp add: ch dm sums(1,2) getI_def getB_def bindK_run seqK_run Let_def del: of_nat_add)
    with z peeked_trans [OF pv z(2)] show ?thesis by blast
  qed
qed

lemma sint_small: "n < 2 ^ 31 \<Longrightarrow> sint (of_nat n :: u32) = int n"
  by (simp add: sint_uint signed_take_bit_eq_if_positive not_bit_length uint_nat unat_of_nat32 bit_simps
      signed_take_bit_int_eq_self unat_of_nat)

lemma readi_run:
  fixes s :: "'a consys_scheme"
  assumes r: "readable X s" "file_blocks s d nb \<subseteq> X" "file_ok s d nb" "blocks512 s"
    and ip: "i_d (icache s ! ip) = d" "i_dev (icache s ! ip) = 1" "d_type d \<noteq> 3" "unat (d_size d) \<le> 512 * nb"
    and off: "off \<le> d_size d" "\<not> off + n < off"
    and m: "m = min (unat n) (unat (d_size d) - unat off)"
    and mem: "place_put (ram s) (cr3 (cur_cpu s)) dst 0 (fslice s d (unat off) m) = Some mm"
  shows "\<exists>t. readi ip dst off n s = Ok (int m, fslice s d (unat off) m) t \<and> peeked s t \<and> ram t = mm"
proof -
  have le: "unat off \<le> unat (d_size d)" using off(1) by (simp add: word_le_nat_alt)
  have nb: "nb \<le> 140" using r(3) by (simp add: file_ok_def)
  have sz: "unat (d_size d) \<le> 71680" using ip(4) nb by linarith
  have sum: "unat (off + n) = unat off + unat n" using off(2) unat32_lt [of n] by (auto simp: word_less_nat_alt unat_plus_if' split: if_splits)
  have n': "(if off + n > d_size d then d_size d - off else n) = of_nat m"
  proof (cases "off + n > d_size d")
    case True
    then have "unat (d_size d) < unat off + unat n" using sum by (simp add: word_less_nat_alt)
    then have "m = unat (d_size d) - unat off" using m by linarith
    then have "(of_nat m :: u32) = d_size d - off" using le by (simp add: of_nat_diff)
    with True show ?thesis by simp
  next
    case False
    then have "unat off + unat n \<le> unat (d_size d)" using sum by (simp add: word_less_nat_alt not_less)
    then have "m = unat n" using m by linarith
    with False show ?thesis by simp
  qed
  have ms: "unat off + m \<le> 512 * nb" "0 + m < 2 ^ 32" "m < 2 ^ 31" "unat (of_nat m :: u32) = m"
    using m le ip(4) sz by (auto simp: unat_of_nat32)
  have mem0: "place_put (ram s) (cr3 (cur_cpu s)) dst (of_nat 0) (fslice s d (unat off) m) = Some mm" using mem by simp
  obtain t where t: "readi_loop m ip dst (of_nat (unat off)) (of_nat (0 + m)) (of_nat 0) [] s = Ok ([] @ fslice s d (unat off) m) t"
    "peeked s t" "ram t = mm"
    using readi_loop_spec [OF order_refl r ip(1,2) ms(1,2) mem0, of "[]"] by blast
  have "readi ip dst off n s = Ok (int m, fslice s d (unat off) m) t"
    using ip(1,3) off t(1) ms sint_small [OF ms(3)]
    by (simp add: readi_def getI_def bindK_run Let_def n' not_less)
  with t show ?thesis by blast
qed

section \<open>Where a write takes its bytes\<close>

definition source_get :: "mem \<Rightarrow> u32 \<Rightarrow> source \<Rightarrow> u32 \<Rightarrow> nat \<Rightarrow> bytes option" where
  "source_get m c src i n =
     (case src of FromU a \<Rightarrow> ubytes m c (a + i) n | FromK a \<Rightarrow> Some (bytes_at m (a + i) n)
      | FromB bs \<Rightarrow> Some (take n (drop (unat i) bs)))"

text \<open>The source holds the bytes \<open>bs\<close>.\<close>

definition source_is :: "mem \<Rightarrow> u32 \<Rightarrow> source \<Rightarrow> bytes \<Rightarrow> bool" where
  "source_is m c src bs = (\<forall>i k. i + k \<le> length bs \<longrightarrow> source_get m c src (of_nat i) k = Some (take k (drop i bs)))"

lemma uload_bytes_run: "ubytes (ram s) (cr3 (cur_cpu s)) va n = Some bs \<Longrightarrow> uload_bytes va n s = Ok bs s"
proof (induction n arbitrary: va bs)
  case (Suc n)
  then show ?case by (auto simp: bindK_run uload8_run split: option.splits)
qed simp

lemma get_source_run: "source_get (ram s) (cr3 (cur_cpu s)) src i n = Some bs \<Longrightarrow> get_source src i n s = Ok bs s"
  by (cases src) (auto simp: source_get_def get_source_def uload_bytes_run)

lemma source_is_local: "length bs < 2 ^ 32 \<Longrightarrow> source_is m c (FromB bs) bs"
  by (simp add: source_is_def source_get_def unat_of_nat32)

section \<open>Writing\<close>

definition fbyte :: "'a bufsys_scheme \<Rightarrow> dinode \<Rightarrow> nat \<Rightarrow> u8" where
  "fbyte s d i = blk s (baddr s d (i div 512)) ! (i mod 512)"

lemma fslice_fbyte: "fslice s d off n = map (fbyte s d) [off..<off + n]"
  by (simp add: fslice_def fbyte_def)

text \<open>
  The blocks of a file that is written to: on the disk outside of the log, no two the
  same, and none of them the indirect block.
\<close>

definition own_blocks :: "'a logsys_scheme \<Rightarrow> dinode \<Rightarrow> nat \<Rightarrow> bool" where
  "own_blocks s d nb = (file_ok s d nb \<and> inj_on (baddr s d) {..<nb} \<and> (12 < nb \<longrightarrow> d_addrs d ! 12 \<notin> baddr s d ` {..<nb}) \<and>
     (\<forall>x \<in> file_blocks s d nb. x < disksize s \<and> x \<notin> log_area s))"

definition patch :: "nat \<Rightarrow> bytes \<Rightarrow> bytes \<Rightarrow> bytes" where
  "patch p bs dd = take p dd @ bs @ drop (p + length bs) dd"

lemma patch_nth:
  "p + length bs \<le> length dd \<Longrightarrow> j < length dd \<Longrightarrow> patch p bs dd ! j = (if p \<le> j \<and> j < p + length bs then bs ! (j - p) else dd ! j)"
  "p + length bs \<le> length dd \<Longrightarrow> length (patch p bs dd) = length dd"
  by (auto simp: patch_def nth_append)

lemma baddr_upd:
  assumes "own_blocks s d nb" "bn < nb" "blk t = (blk s)(baddr s d bn := x)" "j < nb"
  shows "baddr t d j = baddr s d j"
proof (cases "j < 12")
  case False
  then have "12 < nb" using assms(4) by simp
  then have "d_addrs d ! 12 \<noteq> baddr s d bn" using assms(1,2) by (auto simp: own_blocks_def)
  with False assms(3) show ?thesis by (simp add: baddr_def)
qed (simp add: baddr_def)

lemma fbyte_upd:
  assumes own: "own_blocks s d nb" and b512: "blocks512 s" and off: "off mod 512 + length bs \<le> 512" "off div 512 < nb" "i < 512 * nb"
    and t: "blk t = (blk s)(baddr s d (off div 512) := patch (off mod 512) bs (blk s (baddr s d (off div 512))))"
  shows "fbyte t d i = (if off \<le> i \<and> i < off + length bs then bs ! (i - off) else fbyte s d i)"
proof -
  let ?bn = "off div 512" and ?p = "off mod 512" and ?j = "i mod 512"
  have i: "i div 512 < nb" using off(3) by (simp add: less_mult_imp_div_less mult.commute)
  have ba: "baddr t d (i div 512) = baddr s d (i div 512)" by (rule baddr_upd [OF own off(2) t i])
  have len: "length (blk s x) = 512" for x using b512 by (simp add: blocks512_def)
  show ?thesis
  proof (cases "i div 512 = ?bn")
    case True
    have e: "i = 512 * ?bn + ?j" "off = 512 * ?bn + ?p" using True mult_div_mod_eq [of 512 i] mult_div_mod_eq [of 512 off] by simp_all
    have "?p \<le> ?j \<and> ?j < ?p + length bs \<longleftrightarrow> off \<le> i \<and> i < off + length bs" "?j - ?p = i - off" using e by linarith+
    then show ?thesis using True ba patch_nth(1) [of ?p bs "blk s (baddr s d ?bn)" ?j] off(1) len t by (simp add: fbyte_def)
  next
    case False
    then have "baddr s d (i div 512) \<noteq> baddr s d ?bn"
      using own i off(2) unfolding own_blocks_def by (meson inj_onD lessThan_iff)
    moreover have "\<not> (off \<le> i \<and> i < off + length bs)"
    proof
      assume a: "off \<le> i \<and> i < off + length bs"
      then have "?p + (i - off) < 512" using off(1) by linarith
      from block_pos(1) [OF this] a False show False by simp
    qed
    ultimately show ?thesis using ba t by (auto simp: fbyte_def)
  qed
qed

lemma peeked_log:
  assumes "peeked s t"
  shows "tx B secs s \<Longrightarrow> tx B secs t" "log_size t = log_size s" "log_area t = log_area s"
  using assms by (cases s, cases t, simp add: peeked_def tx_def log_at_def log_geom_def log_area_def)+

lemma tx_readable:
  assumes "tx {} secs s" "\<forall>x \<in> X. x < disksize s"
  shows "readable X s"
proof -
  note d = txD [OF assms(1)]
  have "card (set secs) < 30" using d(4) card_length [of secs] by (simp add: log_at_def log_geom_def)
  with d assms(2) show ?thesis by (simp add: readable_def)
qed

text \<open>
  \<open>kept s t\<close>: the inodes, the memory and the log's place are those of \<open>s\<close>. \<open>wrote s t d nb off
  bs\<close>: in the file of \<open>nb\<close> blocks, the bytes from \<open>off\<close> on are now \<open>bs\<close> and all others, with
  all blocks that are not the file's, are as before.
\<close>

definition kept :: "'a logsys_scheme \<Rightarrow> 'a logsys_scheme \<Rightarrow> bool" where
  "kept s t = (logsys.more t = logsys.more s \<and> disksize t = disksize s \<and> ram t = ram s \<and> cur_cpu t = cur_cpu s \<and>
     log_size t = log_size s \<and> log_area t = log_area s)"

definition wrote :: "'a logsys_scheme \<Rightarrow> 'a logsys_scheme \<Rightarrow> dinode \<Rightarrow> nat \<Rightarrow> nat \<Rightarrow> bytes \<Rightarrow> bool" where
  "wrote s t d nb off bs = (kept s t \<and> blocks512 t \<and> (\<forall>j < nb. baddr t d j = baddr s d j) \<and>
     (\<forall>x. x \<notin> baddr s d ` {..<nb} \<longrightarrow> blk t x = blk s x) \<and>
     (\<forall>i < 512 * nb. fbyte t d i = (if off \<le> i \<and> i < off + length bs then bs ! (i - off) else fbyte s d i)))"

lemma kept_trans: "kept s t \<Longrightarrow> kept t u \<Longrightarrow> kept s u"
  by (simp add: kept_def)

lemma log_same_kept: "log_same s t \<Longrightarrow> kept s t"
  by (simp add: log_same_def kept_def log_area_def)

lemma kept_icache: "kept s t \<Longrightarrow> icache t = icache s"
  by (cases s, cases t) (simp add: kept_def)

lemma peeked_kept: "peeked s t \<Longrightarrow> ram t = ram s \<Longrightarrow> kept s t" for s t :: "'a logsys_scheme"
  using peeked_log [of s t] by (cases s, cases t) (simp add: kept_def peeked_def)

lemma own_kept:
  assumes "own_blocks s d nb" "kept s t" "\<forall>j < nb. baddr t d j = baddr s d j"
  shows "own_blocks t d nb"
proof -
  have im: "baddr t d ` {..<nb} = baddr s d ` {..<nb}" using assms(3) by simp
  have "inj_on (baddr t d) {..<nb} = inj_on (baddr s d) {..<nb}" using assms(3) by (intro inj_on_cong) simp
  with assms im show ?thesis by (simp add: own_blocks_def kept_def file_ok_def file_blocks_def)
qed

lemma wrote_nil: "blocks512 s \<Longrightarrow> wrote s s d nb off []"
  by (auto simp: wrote_def kept_def)

lemma wroteD:
  assumes "wrote s t d nb off bs"
  shows "kept s t" "blocks512 t" "\<forall>j < nb. baddr t d j = baddr s d j" "x \<notin> baddr s d ` {..<nb} \<Longrightarrow> blk t x = blk s x"
    "i < 512 * nb \<Longrightarrow> fbyte t d i = (if off \<le> i \<and> i < off + length bs then bs ! (i - off) else fbyte s d i)"
  using assms by (simp_all add: wrote_def)

lemma wrote_append:
  assumes "wrote s t d nb off xs" "wrote t u d nb (off + length xs) ys"
  shows "wrote s u d nb off (xs @ ys)"
proof -
  note s = wroteD [OF assms(1)] and t = wroteD [OF assms(2)]
  have im: "baddr t d ` {..<nb} = baddr s d ` {..<nb}" using s(3) by simp
  have "fbyte u d i = (if off \<le> i \<and> i < off + length (xs @ ys) then (xs @ ys) ! (i - off) else fbyte s d i)" if "i < 512 * nb" for i
    using s(5) [OF that] t(5) [OF that] by (auto simp: nth_append)
  moreover have "kept s u" by (rule kept_trans [OF s(1) t(1)])
  moreover have "blk u x = blk s x" if "x \<notin> baddr s d ` {..<nb}" for x using s(4) t(4) that unfolding im by simp
  ultimately show ?thesis using s(3) t(2,3) unfolding wrote_def by simp
qed

lemma writei_chunk:
  fixes s :: "'a fssys_scheme"
  assumes tx: "tx {} secs s" and own: "own_blocks s d nb" and b512: "blocks512 s"
    and ip: "i_d (icache s ! ip) = d" "i_dev (icache s ! ip) = 1"
    and off: "off div 512 < nb" "off mod 512 + length bs \<le> 512"
    and src: "source_get (ram s) (cr3 (cur_cpu s)) src i (length bs) = Some bs"
    and room: "int (length secs) + 1 < log_size s"
  shows "\<exists>t secs'. tx {} secs' t \<and> length secs' \<le> length secs + 1 \<and> wrote s t d nb off bs \<and>
    (\<forall>K. bindK (bmap ip (of_nat (off div 512))) (\<lambda>a. bindK (getI ip i_dev) (\<lambda>dev. bindK (bread dev a) (\<lambda>bp.
        bindK (get_source src i (length bs)) (\<lambda>xs. bindK (getB bp b_data) (\<lambda>dd.
        seqK (log_update bp (take (off mod 512) dd @ xs @ drop (off mod 512 + length bs) dd)) K))))) s = K t)"
proof -
  let ?bn = "off div 512" and ?p = "off mod 512"
  let ?a = "baddr s d ?bn"
  have X: "\<forall>x \<in> file_blocks s d nb. x < disksize s" and fok: "file_ok s d nb" and la: "?a < disksize s" "?a \<notin> log_area s"
    using own off(1) by (auto simp: own_blocks_def file_blocks_def)
  obtain t where t: "bmap ip (of_nat ?bn) s = Ok ?a t" "peeked s t" "ram t = ram s"
    using bmap_run [OF tx_readable [OF tx X] order_refl ip off(1) fok] by blast
  have kt: "kept s t" by (rule peeked_kept [OF t(2,3)])
  have tt: "tx {} secs t" by (rule peeked_log(1) [OF t(2) tx])
  have bt: "blk t = blk s" using t(2) by (simp add: peeked_def)
  have c: "card ({} \<union> set secs) < 30" by (rule tx_card [OF tx room]) simp
  define dd where "dd = patch ?p bs (blk s ?a)"
  obtain b v u where u: "bread 1 ?a t = Ok b v" "b_data (bcache v ! b) = blk t ?a" "log_update b dd v = Ok () u"
    "tx {} (logged ?a secs) u" "blk u = (blk t)(?a := dd)" "log_same t u" "log_same t v"
    using tx_update [OF tt _ _ _ c, of ?a dd] la room kt by (auto simp: kept_def)
  have ku: "kept s u" by (rule kept_trans [OF kt log_same_kept [OF u(6)]])
  have bu: "blk u = (blk s)(?a := patch ?p bs (blk s ?a))" using u(5) bt by (simp add: dd_def)
  have b5: "blocks512 u" using b512 off(2) by (simp add: bu blocks512_def patch_nth(2))
  have "wrote s u d nb off bs" unfolding wrote_def
    using ku b5 baddr_upd [OF own off(1) bu] fbyte_upd [OF own b512 off(2,1) _ bu] off(1) bu by auto
  moreover have "get_source src i (length bs) v = Ok bs v"
    using src kt log_same_kept [OF u(7)] by (intro get_source_run) (simp add: kept_def)
  moreover have "length (logged ?a secs) \<le> length secs + 1" using length_logged [of ?a secs] by simp
  ultimately show ?thesis
    using t(1) u(1-4) ip kept_icache [OF kt] bt
    by (intro exI [of _ u] exI [of _ "logged ?a secs"]) (simp add: bindK_run seqK_run getI_def getB_def dd_def patch_def)
qed

definition spans :: "nat \<Rightarrow> nat \<Rightarrow> nat" where
  "spans off n = (if n = 0 then 0 else (off + n - 1) div 512 - off div 512 + 1)"

lemma next_block: "off + (512 - off mod 512) = 512 * (off div 512 + 1)" for off :: nat
proof -
  define q r where "q = off div 512" and "r = off mod 512"
  then have "off = 512 * q + r" "r < 512" by simp_all
  then show ?thesis unfolding q_def [symmetric] r_def [symmetric] by simp
qed

lemma spans_step:
  assumes "0 < n" and c_def: "c = min n (512 - off mod 512)"
  shows "spans off n = 1 + spans (off + c) (n - c)"
proof (cases "c = n")
  case True
  then have "off mod 512 + (n - 1) < 512" using assms by (auto simp: c_def min_def split: if_splits)
  from block_pos(1) [OF this] have "(off + n - 1) div 512 = off div 512" using assms(1) by simp
  with True assms(1) show ?thesis by (simp add: spans_def)
next
  case False
  then have c: "c = 512 - off mod 512" "c < n" by (auto simp: c_def min_def split: if_splits)
  have "off + c = 512 * (off div 512 + 1)" unfolding c(1) by (rule next_block)
  then have "(off + c) div 512 = off div 512 + 1" by simp
  moreover have "(off + c) div 512 \<le> (off + n - 1) div 512" using c(2) by (intro div_le_mono) linarith
  ultimately show ?thesis using c(2) assms(1) by (simp add: spans_def Suc_diff_Suc)
qed

lemma writei_loop_spec:
  fixes s :: "'a fssys_scheme"
  shows "n \<le> k \<Longrightarrow> tx {} secs s \<Longrightarrow> own_blocks s d nb \<Longrightarrow> blocks512 s \<Longrightarrow>
   i_d (icache s ! ip) = d \<Longrightarrow> i_dev (icache s ! ip) = 1 \<Longrightarrow> off + n \<le> 512 * nb \<Longrightarrow> tot + n = length bs \<Longrightarrow> length bs < 2 ^ 32 \<Longrightarrow>
   source_is (ram s) (cr3 (cur_cpu s)) src bs \<Longrightarrow> int (length secs) + int (spans off n) < log_size s \<Longrightarrow>
   \<exists>t secs'. writei_loop k ip src (of_nat off) (of_nat (tot + n)) (of_nat tot) s = Ok (of_nat (off + n)) t \<and>
     tx {} secs' t \<and> length secs' \<le> length secs + spans off n \<and> wrote s t d nb off (drop tot bs)"
proof (induction k arbitrary: n off tot s secs)
  case 0
  then show ?case using wrote_nil [OF "0.prems"(4)] by (intro exI [of _ s] exI [of _ secs]) simp
next
  case (Suc k)
  have nb: "nb \<le> 140" using Suc.prems(3) by (simp add: own_blocks_def file_ok_def)
  have t32: "tot + n < 2 ^ 32" using Suc.prems(8,9) by simp
  have less: "(of_nat tot :: u32) < of_nat (tot + n) \<longleftrightarrow> 0 < n"
    using t32 by (simp add: word_less_nat_alt unat_of_nat32 del: of_nat_add)
  show ?case
  proof (cases "n = 0")
    case True
    with less Suc.prems(8) show ?thesis using wrote_nil [OF Suc.prems(4)] Suc.prems(2)
      by (intro exI [of _ s] exI [of _ secs]) simp
  next
    case False
    let ?bn = "off div 512"
    define cc where "cc = min n (512 - off mod 512)"
    define xs where "xs = take cc (drop tot bs)"
    have c: "0 < cc" "off mod 512 + cc \<le> 512" "cc \<le> n" "length xs = cc" "drop tot bs = xs @ drop (tot + cc) bs"
      using False Suc.prems(8) by (auto simp: cc_def xs_def add.commute [of tot] simp flip: drop_drop)
    have lt: "off < 2 ^ 32" "?bn < nb" using Suc.prems(7) nb False by auto
    have sp: "spans off n = 1 + spans (off + cc) (n - cc)" by (rule spans_step [OF _ cc_def]) (use False in simp)
    have rest: "(of_nat (tot + n) :: u32) - of_nat tot = of_nat n" by simp
    have ch: "chunk (of_nat (tot + n) - of_nat tot) (of_nat off) = of_nat cc"
      and dm: "(of_nat off :: u32) mod 512 = of_nat (off mod 512)" "(of_nat off :: u32) div 512 = of_nat ?bn"
      unfolding rest using chunk_nat [of n off] lt(1) t32 by (simp_all add: cc_def)
    have src: "source_get (ram s) (cr3 (cur_cpu s)) src (of_nat tot) (length xs) = Some xs"
      using Suc.prems(8,10) c(3) unfolding source_is_def c(4) xs_def by simp
    obtain v secs1 where v: "tx {} secs1 v" "length secs1 \<le> length secs + 1" "wrote s v d nb off xs"
      and run: "\<forall>K :: ('a fssys_scheme, u32) kernel. bindK (bmap ip (of_nat ?bn)) (\<lambda>a. bindK (getI ip i_dev) (\<lambda>dev. bindK (bread dev a) (\<lambda>bp.
        bindK (get_source src (of_nat tot) cc) (\<lambda>bs. bindK (getB bp b_data) (\<lambda>dd.
        seqK (log_update bp (take (off mod 512) dd @ bs @ drop (off mod 512 + cc) dd)) K))))) s = K v"
      using writei_chunk [OF Suc.prems(2-6) lt(2) _ src] c(2,4) Suc.prems(11) sp by (auto simp del: of_nat_add)
    note w = wroteD [OF v(3)]
    have same: "icache v = icache s" "ram v = ram s" "cur_cpu v = cur_cpu s" "log_size v = log_size s"
      using w(1) kept_icache [OF w(1)] by (simp_all add: kept_def)
    have sums: "(of_nat off :: u32) + of_nat cc = of_nat (off + cc)" "(of_nat tot :: u32) + of_nat cc = of_nat (tot + cc)"
      "(of_nat (tot + n) :: u32) = of_nat (tot + cc + (n - cc))" "(of_nat (off + n) :: u32) = of_nat (off + cc + (n - cc))"
      using c(3) by simp_all
    have un: "unat (of_nat cc :: u32) = cc" "unat (of_nat (off mod 512) :: u32) = off mod 512"
      using t32 c(3) by (intro unat_of_nat32; simp)+
    have ar: "n - cc \<le> k" "off + cc + (n - cc) \<le> 512 * nb" "tot + cc + (n - cc) = length bs"
      "int (length secs1) + int (spans (off + cc) (n - cc)) < log_size v"
      using Suc.prems(1,7,8,11) c sp v(2) same(4) by auto
    have ip: "i_d (icache v ! ip) = d" "i_dev (icache v ! ip) = 1" and sv: "source_is (ram v) (cr3 (cur_cpu v)) src bs"
      using Suc.prems(5,6,10) same by simp_all
    obtain z secs2 where z: "writei_loop k ip src (of_nat (off + cc)) (of_nat (tot + cc + (n - cc))) (of_nat (tot + cc)) v = Ok (of_nat (off + cc + (n - cc))) z"
      "tx {} secs2 z" "length secs2 \<le> length secs1 + spans (off + cc) (n - cc)" "wrote v z d nb (off + cc) (drop (tot + cc) bs)"
      using Suc.IH [OF ar(1) v(1) own_kept [OF Suc.prems(3) w(1,3)] w(2) ip ar(2,3) Suc.prems(9) sv ar(4)] by blast
    have "writei_loop (Suc k) ip src (of_nat off) (of_nat (tot + n)) (of_nat tot) s = Ok (of_nat (off + n)) z"
      using less False run z(1) un unfolding sums(3,4) [symmetric]
      by (simp add: ch dm sums(1,2) Let_def del: of_nat_add)
    moreover have "wrote s z d nb off (drop tot bs)" unfolding c(5) by (rule wrote_append [OF v(3)]) (use z(4) c(4) in simp)
    ultimately show ?thesis using z(2,3) v(2) sp by (intro exI [of _ z] exI [of _ secs2]) simp
  qed
qed

lemma ram_upd_ip [simp]: "ram (upd_ip ip f s) = ram s"
  by (simp add: upd_ip_def)

lemma baddr_size [simp]:
  "baddr s (d\<lparr>d_size := z\<rparr>) = baddr s d" "fbyte s (d\<lparr>d_size := z\<rparr>) = fbyte s d" "file_ok s (d\<lparr>d_size := z\<rparr>) = file_ok s d"
  "file_blocks s (d\<lparr>d_size := z\<rparr>) = file_blocks s d"
  by (simp_all add: baddr_def fbyte_def file_ok_def file_blocks_def fun_eq_iff)

lemma baddr_other:
  assumes "blk t = (blk s)(x := y)" "x \<notin> file_blocks s d nb"
  shows "j < nb \<Longrightarrow> baddr t d j = baddr s d j" "i < 512 * nb \<Longrightarrow> fbyte t d i = fbyte s d i"
proof -
  show b: "baddr t d j = baddr s d j" if "j < nb" for j
    using assms that by (auto simp: baddr_def file_blocks_def split: if_splits)
  assume "i < 512 * nb"
  then have i: "i div 512 < nb" by (simp add: less_mult_imp_div_less mult.commute)
  then have "baddr s d (i div 512) \<noteq> x" using assms(2) by (auto simp: file_blocks_def)
  with b [OF i] assms(1) show "fbyte t d i = fbyte s d i" by (simp add: fbyte_def)
qed

text \<open>
  The end of a successful write: the file has the bytes \<open>bs\<close> at \<open>off\<close>, the inode in memory has the
  size \<open>z\<close>, the one on the disk equals it when the file grew, and all other blocks are unchanged.
\<close>

definition written :: "nat \<Rightarrow> nat \<Rightarrow> nat \<Rightarrow> bytes \<Rightarrow> 'a fssys_scheme \<Rightarrow> 'a fssys_scheme \<Rightarrow> bool" where
  "written ip nb off bs s t =
     (let d = i_d (icache s ! ip); d' = d\<lparr>d_size := max (d_size d) (if bs = [] then 0 else of_nat (off + length bs))\<rparr>; inum = i_inum (icache s ! ip) in
      icache t = (icache s)[ip := (icache s ! ip)\<lparr>i_d := d'\<rparr>] \<and> ram t = ram s \<and> cur_cpu t = cur_cpu s \<and> disksize t = disksize s \<and>
      log_area t = log_area s \<and> blocks512 t \<and> (\<forall>j < nb. baddr t d j = baddr s d j) \<and>
      (d' \<noteq> d \<longrightarrow> inode_at t inum = d') \<and> (\<forall>j. j \<noteq> inum \<longrightarrow> IBLOCK j \<notin> file_blocks s d nb \<longrightarrow> inode_at t j = inode_at s j) \<and>
      (\<forall>x. x \<notin> file_blocks s d nb \<longrightarrow> x \<noteq> IBLOCK inum \<longrightarrow> blk t x = blk s x) \<and>
      (\<forall>i < 512 * nb. fbyte t d i = (if off \<le> i \<and> i < off + length bs then bs ! (i - off) else fbyte s d i)))"

lemma written_same:
  fixes s u :: "'a fssys_scheme"
  assumes "wrote s u (i_d (icache s ! ip)) nb off bs" "bs = [] \<or> of_nat (off + length bs) \<le> d_size (i_d (icache s ! ip))"
  shows "written ip nb off bs s u"
proof -
  let ?d = "i_d (icache s ! ip)"
  note w = wroteD [OF assms(1)]
  have z: "max (d_size ?d) (if bs = [] then 0 else of_nat (off + length bs)) = d_size ?d"
    using assms(2) by (auto simp: max_def)
  have "kept s u" by (rule w(1))
  then have "icache u = (icache s)[ip := (icache s ! ip)\<lparr>i_d := ?d\<lparr>d_size := d_size ?d\<rparr>\<rparr>]" "ram u = ram s" "cur_cpu u = cur_cpu s"
    "disksize u = disksize s" "log_area u = log_area s" using kept_icache [of s u] by (simp_all add: kept_def)
  moreover have b: "blk u x = blk s x" if "x \<notin> file_blocks s ?d nb" for x using w(4) that by (auto simp: file_blocks_def)
  moreover have "inode_at u j = inode_at s j" if "IBLOCK j \<notin> file_blocks s ?d nb" for j using b [OF that] by (simp add: inode_at_def)
  ultimately show ?thesis using w(2,3,5) unfolding written_def Let_def z by simp
qed

lemma written_grow:
  fixes s u :: "'a fssys_scheme"
  assumes w: "wrote s u (i_d (icache s ! ip)) nb off bs" and g: "bs \<noteq> []" "d_size (i_d (icache s ! ip)) < of_nat (off + length bs)"
    and ip: "ip < length (icache s)" "icache t = (icache u)[ip := (icache u ! ip)\<lparr>i_d := d'\<rparr>]" "d' = (i_d (icache s ! ip))\<lparr>d_size := of_nat (off + length bs)\<rparr>"
    and t: "log_same (upd_ip ip f u) t" "inum = i_inum (icache s ! ip)"
      "blk t = (blk u)(IBLOCK inum := put_dinode (blk u (IBLOCK inum)) (unat (inum mod 8)) d')"
    and no: "IBLOCK inum \<notin> file_blocks s (i_d (icache s ! ip)) nb" "length (d_addrs d') = 13"
  shows "written ip nb off bs s t"
proof -
  let ?d = "i_d (icache s ! ip)"
  note w = wroteD [OF w]
  have z: "max (d_size ?d) (if bs = [] then 0 else of_nat (off + length bs)) = of_nat (off + length bs)"
    using g by (auto simp: max_def)
  have no': "IBLOCK inum \<notin> file_blocks u ?d nb" using no(1) w(3) by (simp add: file_blocks_def)
  have len: "length (blk u x) = 512" for x using w(2) by (simp add: blocks512_def)
  have same: "ram t = ram s" "cur_cpu t = cur_cpu s" "disksize t = disksize s" "log_area t = log_area s" "icache u = icache s"
    using log_same_kept [OF t(1)] w(1) kept_icache [OF w(1)] by (simp_all add: kept_def)
  have b: "blk t x = blk s x" if "x \<notin> file_blocks s ?d nb" "x \<noteq> IBLOCK inum" for x
    using w(4) [of x] that t(3) by (auto simp: file_blocks_def)
  have at: "inode_at t j = (if j = inum then d' else inode_at u j)" for j
    by (rule inode_at_update [OF t(3) len no(2)])
  have "inode_at t j = inode_at s j" if "j \<noteq> inum" "IBLOCK j \<notin> file_blocks s ?d nb" for j
    using at [of j] w(4) [of "IBLOCK j"] that by (auto simp: inode_at_def file_blocks_def)
  moreover have "blocks512 t" using len inode_slot [of inum] by (simp add: blocks512_def t(3))
  moreover have "baddr t ?d j = baddr s ?d j" if "j < nb" for j using baddr_other(1) [OF t(3) no' that] w(3) that by simp
  moreover have "fbyte t ?d i = (if off \<le> i \<and> i < off + length bs then bs ! (i - off) else fbyte s ?d i)" if "i < 512 * nb" for i
    using baddr_other(2) [OF t(3) no' that] w(5) [OF that] by simp
  ultimately show ?thesis using same ip at [of inum] b t(2) unfolding written_def Let_def z by simp
qed

lemma writei_run:
  fixes s :: "'a consys_scheme"
  assumes tx: "tx {} secs s" and own: "own_blocks s (i_d (icache s ! ip)) nb" and b512: "blocks512 s"
    and ip: "ip < length (icache s)" "i_dev (icache s ! ip) = 1" "d_type (i_d (icache s ! ip)) \<noteq> 3" "length (d_addrs (i_d (icache s ! ip))) = 13"
    and off: "off \<le> unat (d_size (i_d (icache s ! ip)))" "off + length bs \<le> 512 * nb"
    and src: "source_is (ram s) (cr3 (cur_cpu s)) src bs"
    and iblk: "inode_block_ok s (i_inum (icache s ! ip))" "IBLOCK (i_inum (icache s ! ip)) \<notin> file_blocks s (i_d (icache s ! ip)) nb"
    and room: "int (length secs) + int (spans off (length bs)) + 1 < log_size s"
  shows "\<exists>t secs'. writei ip src (of_nat off) (of_nat (length bs)) s = Ok (int (length bs)) t \<and>
    tx {} secs' t \<and> length secs' \<le> length secs + spans off (length bs) + 1 \<and> written ip nb off bs s t"
proof -
  let ?d = "i_d (icache s ! ip)" and ?n = "of_nat (length bs) :: u32" and ?i = "icache s ! ip"
  have nb: "nb \<le> 140" using own by (simp add: own_blocks_def file_ok_def)
  have lt: "off < 2 ^ 31" "length bs < 2 ^ 31" "off + length bs < 2 ^ 31" "off + length bs \<le> 71680" using nb off by auto
  have sum: "of_nat off + ?n = of_nat (off + length bs)" by simp
  have guards: "\<not> of_nat off > d_size ?d" "\<not> of_nat off + ?n < of_nat off" "\<not> of_nat off + ?n > 71680" "(?n > 0) = (bs \<noteq> [])"
    unfolding sum using lt off(1) by (simp_all add: word_less_nat_alt unat_of_nat32 del: of_nat_add)
  have un: "unat ?n = length bs" "sint ?n = int (length bs)" using lt(2) by (simp_all add: unat_of_nat32 sint_small)
  have r: "int (length secs) + int (spans off (length bs)) < log_size s" "0 + length bs = length bs" "length bs < 2 ^ 32" using room lt by simp_all
  obtain u secs1 where u: "writei_loop (length bs) ip src (of_nat off) (of_nat (0 + length bs)) (of_nat 0) s = Ok (of_nat (off + length bs)) u"
    "tx {} secs1 u" "length secs1 \<le> length secs + spans off (length bs)" "wrote s u ?d nb off (drop 0 bs)"
    using writei_loop_spec [OF order_refl tx own b512 refl ip(2) off(2) r(2,3) src r(1)] by blast
  have w: "wrote s u ?d nb off bs" using u(4) by simp
  have k: "kept s u" "icache u = icache s" using wroteD(1) [OF w] kept_icache by blast+
  let ?z = "of_nat (off + length bs) :: u32"
  show ?thesis
  proof (cases "bs \<noteq> [] \<and> d_size ?d < ?z")
    case False
    then have "writei ip src (of_nat off) ?n s = Ok (int (length bs)) u"
      using u(1) guards ip(3) un k(2) by (auto simp: writei_def getI_def bindK_run seqK_run whenK_def simp del: of_nat_add)
    moreover have "written ip nb off bs s u" by (rule written_same [OF w]) (use False in auto)
    ultimately show ?thesis using u(2,3) by (intro exI [of _ u] exI [of _ secs1]) simp
  next
    case True
    define d' where "d' = ?d\<lparr>d_size := ?z\<rparr>"
    define v where "v = upd_ip ip (\<lambda>i. i\<lparr>i_d := (i_d i)\<lparr>d_size := ?z\<rparr>\<rparr>) u"
    have v: "icache v ! ip = ?i\<lparr>i_d := d'\<rparr>" using ip(1) k(2) by (simp add: v_def d'_def)
    have vi: "tx {} secs1 v" "inode_block_ok v (i_inum ?i)" "int (length secs1) + 1 < log_size v" "blk v = blk u"
      using u(2,3) iblk(1) k(1) room wroteD(2) [OF w] by (auto simp: v_def inode_block_ok_def kept_def blocks512_def)
    obtain t where t: "iupdate ip v = Ok () t" "tx {} (logged (IBLOCK (i_inum ?i)) secs1) t" "log_same v t"
      "blk t = (blk v)(IBLOCK (i_inum ?i) := put_dinode (blk v (IBLOCK (i_inum ?i))) (unat (i_inum ?i mod 8)) d')"
      using iupdate_spec [OF vi(1) v] ip(2,4) vi(2,3) by (auto simp: d'_def)
    have "writei ip src (of_nat off) ?n s = Ok (int (length bs)) t"
      using True u(1) guards ip(3) un k(2) t(1)
      by (simp add: writei_def getI_def setD_def setI_def bindK_run seqK_run whenK_def v_def del: of_nat_add)
    moreover have "written ip nb off bs s t"
      using True log_same_icache [OF t(3)] t(3,4) vi(4) ip(1,4) iblk(2) k(2)
      by (intro written_grow [OF w _ _ _ _ d'_def]) (auto simp: v_def d'_def)
    ultimately show ?thesis using t(2) u(3) length_logged [of "IBLOCK (i_inum ?i)" secs1]
      by (intro exI [of _ t] exI [of _ "logged (IBLOCK (i_inum ?i)) secs1"]) simp
  qed
qed

section \<open>Properties\<close>

text \<open>
  A file as a sequence of bytes, and what a locked inode of a regular file or a directory is
  like whose first \<open>nb\<close> blocks are allocated.
\<close>

definition contents :: "'a fssys_scheme \<Rightarrow> nat \<Rightarrow> bytes" where
  "contents s ip = map (fbyte s (i_d (icache s ! ip))) [0..<unat (d_size (i_d (icache s ! ip)))]"

definition regular :: "'a fssys_scheme \<Rightarrow> nat \<Rightarrow> nat \<Rightarrow> bool" where
  "regular s ip nb =
     (let i = icache s ! ip; d = i_d i in
      ip < length (icache s) \<and> i_dev i = 1 \<and> d_type d \<noteq> 3 \<and> length (d_addrs d) = 13 \<and> unat (d_size d) \<le> 512 * nb \<and>
      own_blocks s d nb \<and> blocks512 s \<and> inode_block_ok s (i_inum i) \<and> IBLOCK (i_inum i) \<notin> file_blocks s d nb)"

lemma regularD:
  assumes "regular s ip nb"
  shows "ip < length (icache s)" "i_dev (icache s ! ip) = 1" "d_type (i_d (icache s ! ip)) \<noteq> 3" "length (d_addrs (i_d (icache s ! ip))) = 13"
    "unat (d_size (i_d (icache s ! ip))) \<le> 512 * nb" "own_blocks s (i_d (icache s ! ip)) nb" "blocks512 s"
    "inode_block_ok s (i_inum (icache s ! ip))" "IBLOCK (i_inum (icache s ! ip)) \<notin> file_blocks s (i_d (icache s ! ip)) nb"
    "file_ok s (i_d (icache s ! ip)) nb" "nb \<le> 140"
  using assms by (simp_all add: regular_def Let_def own_blocks_def file_ok_def)

lemma contents_slice:
  "fslice s (i_d (icache s ! ip)) off (min n (unat (d_size (i_d (icache s ! ip))) - off)) = take n (drop off (contents s ip))"
  by (rule nth_equalityI) (auto simp: fslice_fbyte contents_def)

lemma written_regular:
  fixes s t :: "'a fssys_scheme"
  assumes w: "written ip nb off bs s t" and r: "regular s ip nb" and off: "off + length bs \<le> 512 * nb"
    "off \<le> unat (d_size (i_d (icache s ! ip)))"
  shows "regular t ip nb" "contents t ip = take off (contents s ip) @ bs @ drop (off + length bs) (contents s ip)"
proof -
  let ?d = "i_d (icache s ! ip)"
  define z where "z = max (d_size ?d) (if bs = [] then 0 else of_nat (off + length bs))"
  note r = regularD [OF r]
  have w: "icache t = (icache s)[ip := (icache s ! ip)\<lparr>i_d := ?d\<lparr>d_size := z\<rparr>\<rparr>]" "disksize t = disksize s" "log_area t = log_area s"
    "blocks512 t" "\<forall>j < nb. baddr t ?d j = baddr s ?d j"
    "\<forall>i < 512 * nb. fbyte t ?d i = (if off \<le> i \<and> i < off + length bs then bs ! (i - off) else fbyte s ?d i)"
    using w by (simp_all add: written_def Let_def z_def)
  have d: "icache t ! ip = (icache s ! ip)\<lparr>i_d := ?d\<lparr>d_size := z\<rparr>\<rparr>" using w(1) r(1) by simp
  have zn: "unat z = max (unat (d_size ?d)) (off + length bs)"
    using off r(11) by (auto simp: z_def max_def word_le_nat_alt unat_of_nat32 simp del: of_nat_add)
  have fb: "file_blocks t ?d nb = file_blocks s ?d nb" using w(5) by (simp add: file_blocks_def)
  have im: "baddr t ?d ` {..<nb} = baddr s ?d ` {..<nb}" "inj_on (baddr t ?d) {..<nb} = inj_on (baddr s ?d) {..<nb}"
    using w(5) by (simp, intro inj_on_cong) simp
  have "own_blocks t ?d nb" using r(6) w(2,3,5) im fb by (simp add: own_blocks_def file_ok_def)
  then have "own_blocks t (?d\<lparr>d_size := z\<rparr>) nb" by (simp add: own_blocks_def)
  then show "regular t ip nb" using r w(1-4) d zn off fb by (simp add: regular_def Let_def inode_block_ok_def blocks512_def)
  show "contents t ip = take off (contents s ip) @ bs @ drop (off + length bs) (contents s ip)"
  proof (rule nth_equalityI)
    show "length (contents t ip) = length (take off (contents s ip) @ bs @ drop (off + length bs) (contents s ip))"
      using off zn d by (simp add: contents_def)
    fix i assume "i < length (contents t ip)"
    then have "i < unat z" using d by (simp add: contents_def)
    moreover have "i < 512 * nb" using calculation zn off(1) r(5) by simp
    ultimately show "contents t ip ! i = (take off (contents s ip) @ bs @ drop (off + length bs) (contents s ip)) ! i"
      using w(6) d zn off(2) by (auto simp: contents_def nth_append)
  qed
qed

lemma readi_ok:
  fixes s :: "'a consys_scheme"
  assumes "regular s ip nb" "readable (file_blocks s (i_d (icache s ! ip)) nb) s"
    "bs = take (unat n) (drop (unat off) (contents s ip))" "place_put (ram s) (cr3 (cur_cpu s)) dst 0 bs = Some m"
    "unat off \<le> length (contents s ip)" "unat off + unat n < 2 ^ 32"
  shows "\<exists>t. readi ip dst off n s = Ok (int (length bs), bs) t \<and> ram t = m \<and> peeked s t \<and> contents t = contents s"
proof -
  let ?d = "i_d (icache s ! ip)"
  note r = regularD [OF assms(1)]
  have g: "off \<le> d_size ?d" "\<not> off + n < off"
    using assms(5,6) by (auto simp: word_le_nat_alt word_less_nat_alt contents_def unat_plus_if' split: if_splits)
  have len: "length bs = min (unat n) (unat (d_size ?d) - unat off)" by (simp add: assms(3) contents_def)
  have bs: "fslice s ?d (unat off) (length bs) = bs" using contents_slice [of s ip "unat off" "unat n"] by (simp add: len assms(3) [symmetric])
  have "place_put (ram s) (cr3 (cur_cpu s)) dst 0 (fslice s ?d (unat off) (length bs)) = Some m" unfolding bs by (rule assms(4))
  from readi_run [OF assms(2) order_refl r(10,7) refl r(2,3,5) g len this]
  obtain t where t: "readi ip dst off n s = Ok (int (length bs), bs) t" "peeked s t" "ram t = m" unfolding bs by blast
  have "contents t = contents s"
    using t(2) peeked_baddr [OF t(2)] peeked_icache [OF t(2)] by (simp add: contents_def fbyte_def peeked_def fun_eq_iff)
  with t show ?thesis by auto
qed

text \<open>
  (C15) Reading a file. Of a regular file or directory, \<open>readi\<close> delivers the part of its contents
  from \<open>off\<close> on, at most \<open>n\<close> bytes and cut at the end of the file; these bytes go to the
  destination and are counted in the result, while blocks, inodes and log stay as they
  are. An offset behind the end, or a range that wraps around, gives -1 and does nothing.
\<close>

theorem readi_contents:
  fixes s :: "'a consys_scheme"
  assumes "regular s ip nb" "readable (file_blocks s (i_d (icache s ! ip)) nb) s"
    "bs = take (unat n) (drop (unat off) (contents s ip))" "place_put (ram s) (cr3 (cur_cpu s)) dst 0 bs = Some m"
  shows "if unat off \<le> length (contents s ip) \<and> unat off + unat n < 2 ^ 32
    then \<exists>t. readi ip dst off n s = Ok (int (length bs), bs) t \<and> ram t = m \<and> peeked s t \<and> contents t = contents s
    else readi ip dst off n s = Ok (- 1, []) s"
proof -
  let ?d = "i_d (icache s ! ip)"
  note r = regularD [OF assms(1)]
  have wrap: "off + n < off \<longleftrightarrow> \<not> unat off + unat n < 2 ^ 32"
    using unat32_lt [of n] unat32_lt [of off] by (auto simp: word_less_nat_alt unat_plus_if' split: if_splits)
  have le: "off \<le> d_size ?d \<longleftrightarrow> unat off \<le> length (contents s ip)" by (simp add: word_le_nat_alt contents_def)
  show ?thesis
  proof (cases "unat off \<le> length (contents s ip) \<and> unat off + unat n < 2 ^ 32")
    case True
    then show ?thesis using readi_ok [OF assms] by auto
  next
    case False
    then have "\<not> off \<le> d_size ?d \<or> off + n < off" unfolding le wrap by blast
    then have "d_size ?d < off \<or> off + n < off" by (simp only: not_le)
    with False r(3) show ?thesis by (auto simp: readi_def getI_def bindK_run)
  qed
qed

text \<open>
  The file \<open>a\<close> of the small file system, locked in slot 0 of the inode cache, within a transaction.
\<close>

definition consys1 :: consys where
  "consys1 = (consys0 [])\<lparr>icache := (replicate 50 inode0)
     [0 := \<lparr>i_dev = 1, i_inum = 2, i_ref = 1, i_busy = True, i_valid = True,
        i_d = \<lparr>d_type = 2, d_major = 0, d_minor = 0, d_nlink = 1, d_size = 5, d_addrs = 30 # replicate 12 0\<rparr>\<rparr>]\<rparr>"

lemma consys1_simps:
  "bcache consys1 = bcache bufsys0" "lru consys1 = lru bufsys0" "locks consys1 = locks bufsys0" "cpus consys1 = cpus bufsys0"
  "mycpu consys1 = mycpu bufsys0" "disk consys1 = fs_img" "disksize consys1 = 1024" "log_start consys1 = 994" "log_size consys1 = 30"
  "log_dev consys1 = 1" "log_outstanding consys1 = 1" "lh_n consys1 = 0" "length (lh_sector consys1) = 30"
  by (simp_all add: consys1_def consys0_def fssys.defs consys.defs fssys0_def logsys.defs logsys0_def bufsys.defs bufsys0_def
      pipesys.defs pipesys0_def)

lemma consys1_tx: "tx {} [] consys1" "blk consys1 = fs_img"
  using fresh_cache [of consys1] by (simp_all add: tx_def log_at_def log_geom_def consys1_simps)

lemma fs_img_512: "length (fs_img x) = 512"
  by (simp add: fs_img_def fs_bits(2))

lemma consys1_ip: "icache consys1 ! 0 = \<lparr>i_dev = 1, i_inum = 2, i_ref = 1, i_busy = True, i_valid = True,
    i_d = \<lparr>d_type = 2, d_major = 0, d_minor = 0, d_nlink = 1, d_size = 5, d_addrs = 30 # replicate 12 0\<rparr>\<rparr>" "length (icache consys1) = 50"
  by (simp_all add: consys1_def)

lemma consys1_file:
  "regular consys1 0 1" "readable (file_blocks consys1 (i_d (icache consys1 ! 0)) 1) consys1"
  "contents consys1 0 = [104, 101, 108, 108, 111]"
proof -
  let ?d = "i_d (icache consys1 ! 0)"
  have ba: "baddr consys1 ?d 0 = 30" by (simp add: baddr_def consys1_ip)
  have fb: "file_blocks consys1 ?d 1 = {30}" by (simp add: file_blocks_def ba lessThan_Suc)
  have own: "own_blocks consys1 ?d 1" unfolding own_blocks_def fb
    by (simp add: file_ok_def ba log_area_def consys1_simps lessThan_Suc)
  then show "regular consys1 0 1" unfolding regular_def Let_def fb
    by (simp add: consys1_ip consys1_tx(2) blocks512_def fs_img_512 inode_block_ok_def consys1_simps log_area_def IBLOCK_def)
  show "readable (file_blocks consys1 ?d 1) consys1" unfolding fb by (rule tx_readable [OF consys1_tx(1)]) (simp add: consys1_simps)
  have "fs_img 30 = [104, 101, 108, 108, 111] @ replicate 507 0" by (simp add: fs_img_def)
  then show "contents consys1 0 = [104, 101, 108, 108, 111]"
    by (simp add: contents_def fbyte_def ba consys1_tx(2) upt_rec) (simp add: consys1_ip baddr_def)
qed

theorem readi_contents_witness:
  "(\<exists>t. readi 0 Loc 1 20 consys1 = Ok (4, [101, 108, 108, 111]) t) \<and> readi 0 Loc 6 1 consys1 = Ok (- 1, []) consys1"
  using readi_contents [OF consys1_file(1,2) refl, where n = 20 and off = 1 and dst = Loc and m = "ram consys1"] readi_contents [OF consys1_file(1,2) refl, where n = 1 and off = 6 and dst = Loc and m = "ram consys1"]
  by (auto simp: consys1_file(3) place_put_def)

text \<open>
  (C2) Writing a file. In a transaction with room in the log, \<open>writei\<close> into the allocated blocks
  of a regular file or directory replaces the bytes from \<open>off\<close> on by those of the source,
  extends the file when they reach past its end, in memory and on the disk, and leaves
  every block alone that is neither one of the file nor the one of its inode, and every other
  inode. A \<open>readi\<close> of the same range then returns the bytes written.
\<close>

theorem writei_contents:
  fixes s :: "'a consys_scheme"
  assumes "regular s ip nb" "tx {} secs s" "off \<le> length (contents s ip)" "off + length bs \<le> 512 * nb"
    "source_is (ram s) (cr3 (cur_cpu s)) src bs" "int (length secs) + int (spans off (length bs)) + 1 < log_size s"
  shows "\<exists>t secs'. writei ip src (of_nat off) (of_nat (length bs)) s = Ok (int (length bs)) t \<and>
    regular t ip nb \<and> tx {} secs' t \<and> length secs' \<le> length secs + spans off (length bs) + 1 \<and>
    contents t ip = take off (contents s ip) @ bs @ drop (off + length bs) (contents s ip) \<and>
    (length (contents t ip) \<noteq> length (contents s ip) \<longrightarrow> inode_at t (i_inum (icache s ! ip)) = i_d (icache t ! ip)) \<and>
    (\<forall>j. j \<noteq> i_inum (icache s ! ip) \<longrightarrow> IBLOCK j \<notin> file_blocks s (i_d (icache s ! ip)) nb \<longrightarrow> inode_at t j = inode_at s j) \<and>
    (\<forall>x. x \<notin> file_blocks s (i_d (icache s ! ip)) nb \<longrightarrow> x \<noteq> IBLOCK (i_inum (icache s ! ip)) \<longrightarrow> blk t x = blk s x) \<and>
    (\<exists>u. readi ip Loc (of_nat off) (of_nat (length bs)) t = Ok (int (length bs), bs) u)"
proof -
  let ?d = "i_d (icache s ! ip)"
  note r = regularD [OF assms(1)]
  have off: "off \<le> unat (d_size ?d)" using assms(3) by (simp add: contents_def)
  obtain t secs' where t: "writei ip src (of_nat off) (of_nat (length bs)) s = Ok (int (length bs)) t" "tx {} secs' t"
    "length secs' \<le> length secs + spans off (length bs) + 1" and w: "written ip nb off bs s t"
    using writei_run [OF assms(2) r(6,7,1-4) off assms(4,5) r(8,9) assms(6)] by blast
  note wr = written_regular [OF w assms(1,4) off]
  note rt = regularD [OF wr(1)]
  have fr: "readable (file_blocks t (i_d (icache t ! ip)) nb) t"
    using tx_readable [OF t(2)] rt(6) by (simp add: own_blocks_def)
  have sm: "off < 2 ^ 32" "length bs < 2 ^ 32" "off + length bs < 2 ^ 32" using assms(4) r(11) by simp_all
  have u: "\<exists>u. readi ip Loc (of_nat off) (of_nat (length bs)) t = Ok (int (length bs), bs) u"
    using readi_ok [OF wr(1) fr _ _ _, where bs = bs and n = "of_nat (length bs)" and off = "of_nat off" and dst = Loc and m = "ram t"] sm assms(3)
    by (auto simp: unat_of_nat32 wr(2) place_put_def)
  have "i_d (icache t ! ip) \<noteq> ?d \<longrightarrow> inode_at t (i_inum (icache s ! ip)) = i_d (icache t ! ip)"
    using w r(1) by (simp add: written_def Let_def)
  then have "length (contents t ip) \<noteq> length (contents s ip) \<longrightarrow> inode_at t (i_inum (icache s ! ip)) = i_d (icache t ! ip)"
    by (auto simp: contents_def)
  then show ?thesis using t wr u w unfolding written_def Let_def by blast
qed

theorem writei_contents_witness:
  "\<exists>t u. writei 0 (FromB [112, 33, 33]) 3 3 consys1 = Ok 3 t \<and> contents t 0 = [104, 101, 108, 112, 33, 33] \<and>
     d_size (inode_at t 2) = 6 \<and> readi 0 Loc 3 3 t = Ok (3, [112, 33, 33]) u"
proof -
  have src: "source_is (ram consys1) (cr3 (cur_cpu consys1)) (FromB [112, 33, 33]) [112, 33, 33]" by (rule source_is_local) simp
  have len: "int (length ([] :: u32 list)) + int (spans 3 (length ([112, 33, 33] :: bytes))) + 1 < log_size consys1"
    by (simp add: spans_def consys1_simps)
  obtain t u where t: "writei 0 (FromB [112, 33, 33]) (of_nat 3) (of_nat (length ([112, 33, 33] :: bytes))) consys1 = Ok 3 t"
    "contents t 0 = [104, 101, 108, 112, 33, 33]" "inode_at t 2 = i_d (icache t ! 0)" "readi 0 Loc 3 3 t = Ok (3, [112, 33, 33]) u"
    using writei_contents [OF consys1_file(1) consys1_tx(1) _ _ src len] by (auto simp: consys1_file(3) consys1_ip)
  have "unat (d_size (i_d (icache t ! 0))) = length (contents t 0)" by (simp add: contents_def)
  then have "d_size (inode_at t 2) = 6" using t(2,3) by (simp add: word_unat_eq_iff)
  with t show ?thesis by auto
qed

end
