(* ===== verification/Mkfs.thy ===== *)
theory Mkfs
  imports Fsdata
begin

text \<open>
  The program that builds the file system image (\<open>src/mkfs.c\<close>), and that the image is what the
  kernel expects: its inodes, directory, bitmap and superblock read with the functions of the
  kernel's model. The image is the list of its sectors. The conversions \<open>xshort\<close> and \<open>xint\<close> to
  Intel byte order are the byte order of \<open>put16\<close> and \<open>put32\<close>. Block and inode numbers count up
  from small values and stay far below the range of their types, so they are natural numbers
  here; they are stored as 32-bit words.
\<close>

section \<open>State\<close>

record mkfs =
  m_secs :: "bytes list"
  freeblock :: nat
  usedblocks :: nat
  freeinode :: nat

text \<open>The program ends with the message of \<open>perror\<close> or \<open>assert\<close> (\<open>Inl\<close>), or goes on.\<close>

type_synonym 'a mk = "mkfs \<Rightarrow> string + 'a \<times> mkfs"

definition retM :: "'a \<Rightarrow> 'a mk" where
  "retM a = (\<lambda>m. Inr (a, m))"

definition failM :: "string \<Rightarrow> 'a mk" where
  "failM e = (\<lambda>m. Inl e)"

definition bindM :: "'a mk \<Rightarrow> ('a \<Rightarrow> 'b mk) \<Rightarrow> 'b mk" where
  "bindM p f = (\<lambda>m. case p m of Inl e \<Rightarrow> Inl e | Inr (a, m') \<Rightarrow> f a m')"

definition seqM :: "'a mk \<Rightarrow> 'b mk \<Rightarrow> 'b mk" where
  "seqM p q = bindM p (\<lambda>_. q)"

fun forM :: "'a list \<Rightarrow> ('a \<Rightarrow> unit mk) \<Rightarrow> unit mk" where
  "forM [] f = retM ()"
| "forM (x # xs) f = seqM (f x) (forM xs f)"

section \<open>Sectors and inodes\<close>

abbreviation (input) zeroes :: bytes where "zeroes \<equiv> replicate 512 0"

definition wsect :: "nat \<Rightarrow> bytes \<Rightarrow> unit mk" where
  "wsect sec buf = (\<lambda>m. let n = length (m_secs m) in
     Inr ((), m\<lparr>m_secs := (if sec < n then (m_secs m)[sec := buf] else m_secs m @ replicate (sec - n) zeroes @ [buf])\<rparr>))"

definition rsect :: "nat \<Rightarrow> bytes mk" where
  "rsect sec = (\<lambda>m. if sec < length (m_secs m) then Inr (m_secs m ! sec, m) else Inl ''read'')"

definition i2b :: "nat \<Rightarrow> nat" where
  "i2b inum = inum div 8 + 2"

definition winode :: "nat \<Rightarrow> dinode \<Rightarrow> unit mk" where
  "winode inum ip =
     bindM (rsect (i2b inum)) (\<lambda>buf.
     wsect (i2b inum) (put_dinode buf (inum mod 8) ip))"

definition rinode :: "nat \<Rightarrow> dinode mk" where
  "rinode inum = bindM (rsect (i2b inum)) (\<lambda>buf. retM (get_dinode buf (inum mod 8)))"

definition new_dinode :: "u16 \<Rightarrow> dinode" where
  "new_dinode type = \<lparr>d_type = type, d_major = 0, d_minor = 0, d_nlink = 1, d_size = 0, d_addrs = replicate 13 0\<rparr>"

definition mk_ialloc :: "u16 \<Rightarrow> nat mk" where
  "mk_ialloc type =
     bindM (\<lambda>m. Inr (freeinode m, m\<lparr>freeinode := freeinode m + 1\<rparr>)) (\<lambda>inum.
     seqM (winode inum (new_dinode type))
     (retM inum))"

definition mk_balloc :: "nat \<Rightarrow> unit mk" where
  "mk_balloc n =
     (if \<not> n < 512 * 8 then failM ''used < 512*8''
      else wsect (200 div 8 + 3) (fold (\<lambda>i buf. mark_bit buf i) [0..<n] zeroes))"

section \<open>Appending to a file\<close>

text \<open>\<open>freeblock++\<close> with \<open>usedblocks++\<close>\<close>

definition new_block :: "nat mk" where
  "new_block = (\<lambda>m. Inr (freeblock m, m\<lparr>freeblock := freeblock m + 1, usedblocks := usedblocks m + 1\<rparr>))"

definition new_addr :: "dinode \<Rightarrow> nat \<Rightarrow> dinode mk" where
  "new_addr din k =
     (if d_addrs din ! k = 0 then
        bindM new_block (\<lambda>b. retM (din\<lparr>d_addrs := (d_addrs din)[k := of_nat b]\<rparr>))
      else retM din)"

text \<open>The first part of the loop: the inode with its new addresses and the block for \<open>fbn\<close>.\<close>

definition iappend_block :: "dinode \<Rightarrow> nat \<Rightarrow> (dinode \<times> nat) mk" where
  "iappend_block din fbn =
     (if \<not> fbn < 12 + 128 then failM ''fbn < MAXFILE''
      else if fbn < 12 then
        bindM (new_addr din fbn) (\<lambda>din.
        retM (din, unat (d_addrs din ! fbn)))
      else
        bindM (new_addr din 12) (\<lambda>din.
        let ind = unat (d_addrs din ! 12); pos = 4 * (fbn - 12) in
        bindM (rsect ind) (\<lambda>indirect.
        if get32 indirect pos = 0 then
          bindM new_block (\<lambda>b.
          let indirect = put32 indirect pos (of_nat b) in
          seqM (wsect ind indirect)
          (retM (din, unat (get32 indirect pos))))
        else retM (din, unat (get32 indirect pos)))))"

text \<open>Every round takes at least one byte, so the number of bytes bounds the rounds.\<close>

fun iappend_loop :: "nat \<Rightarrow> dinode \<Rightarrow> nat \<Rightarrow> bytes \<Rightarrow> (dinode \<times> nat) mk" where
  "iappend_loop 0 din off p = retM (din, off)"
| "iappend_loop (Suc k) din off p =
     (if length p = 0 then retM (din, off)
      else
        let fbn = off div 512 in
        bindM (iappend_block din fbn) (\<lambda>(din, x).
        let n1 = min (length p) ((fbn + 1) * 512 - off); at = off - fbn * 512 in
        bindM (rsect x) (\<lambda>buf.
        seqM (wsect x (take at buf @ take n1 p @ drop (at + n1) buf))
        (iappend_loop k din (off + n1) (drop n1 p)))))"

definition iappend :: "nat \<Rightarrow> bytes \<Rightarrow> unit mk" where
  "iappend inum p =
     bindM (rinode inum) (\<lambda>din.
     bindM (iappend_loop (length p) din (unat (d_size din)) p) (\<lambda>(din, off).
     winode inum (din\<lparr>d_size := of_nat off\<rparr>)))"

section \<open>The main program\<close>

text \<open>
  An argument is the name of a file with what the calls of \<open>read\<close> return for it one after the
  other until the end of the file, or \<open>None\<close> if the file cannot be opened.
\<close>

type_synonym host_file = "bytes \<times> bytes list option"

definition dir_name :: "bytes \<Rightarrow> bytes" where
  "dir_name nm = take 14 (nm @ replicate 14 0)"

definition add_entry :: "nat \<Rightarrow> bytes \<Rightarrow> unit mk" where
  "add_entry inum nm = iappend 1 (put_dirent \<lparr>de_inum = of_nat inum, de_name = dir_name nm\<rparr>)"

definition skip_underscore :: "bytes \<Rightarrow> bytes" where
  "skip_underscore nm = (if nm \<noteq> [] \<and> hd nm = 95 then tl nm else nm)"

definition add_file :: "host_file \<Rightarrow> unit mk" where
  "add_file f =
     (case f of (nm, rd) \<Rightarrow>
      if 47 \<in> set nm then failM ''index''
      else case rd of
        None \<Rightarrow> failM ''open''
      | Some reads \<Rightarrow>
          bindM (mk_ialloc 2) (\<lambda>inum.
          seqM (add_entry inum (skip_underscore nm))
          (forM reads (iappend inum))))"

definition mk_superblock :: bytes where
  "mk_superblock = le_bytes 1024 @ le_bytes 965 @ le_bytes 200 @ le_bytes 30 @ replicate 496 0"

definition fix_root_size :: "unit mk" where
  "fix_root_size =
     bindM (rinode 1) (\<lambda>din.
     let off = (unat (d_size din) div 512 + 1) * 512 in
     winode 1 (din\<lparr>d_size := of_nat off\<rparr>))"

definition mkfs_main :: "host_file list \<Rightarrow> string + mkfs" where
  "mkfs_main files =
     (let n = 200 div 8 + 3 + (1024 div (512 * 8) + 1) in
      if 965 + n + 30 \<noteq> 1024 then Inl ''nblocks + usedblocks + nlog == size''
      else case
        seqM (forM [0..<965 + n + 30] (\<lambda>i. wsect i zeroes))
        (seqM (wsect 1 mk_superblock)
        (bindM (mk_ialloc 1) (\<lambda>rootino.
         if rootino \<noteq> 1 then failM ''rootino == ROOTINO''
         else
           seqM (add_entry rootino [46])
           (seqM (add_entry rootino [46, 46])
           (seqM (forM files add_file)
           (seqM fix_root_size
           (bindM (\<lambda>m. Inr (usedblocks m, m)) mk_balloc)))))))
        \<lparr>m_secs = [], freeblock = n, usedblocks = n, freeinode = 1\<rparr>
      of Inl e \<Rightarrow> Inl e | Inr (_, m) \<Rightarrow> Inr m)"

section \<open>Lemmas: the blocks of a file in the image\<close>

lemmas mk_simps = bindM_def seqM_def retM_def failM_def

text \<open>The address of block \<open>j\<close> of a file, 0 if it has none, and all blocks of a file of \<open>nb\<close> blocks.\<close>

definition slot :: "bytes list \<Rightarrow> dinode \<Rightarrow> nat \<Rightarrow> u32" where
  "slot img d j =
     (if j < 12 then d_addrs d ! j
      else if d_addrs d ! 12 = 0 then 0 else get32 (img ! unat (d_addrs d ! 12)) (4 * (j - 12)))"

abbreviation faddr :: "bytes list \<Rightarrow> dinode \<Rightarrow> nat \<Rightarrow> nat" where
  "faddr img d j \<equiv> unat (slot img d j)"

definition fblocks :: "bytes list \<Rightarrow> dinode \<Rightarrow> nat \<Rightarrow> nat set" where
  "fblocks img d nb = faddr img d ` {..<nb} \<union> (if 12 < nb then {unat (d_addrs d ! 12)} else {})"

definition good :: "bytes list \<Rightarrow> dinode \<Rightarrow> nat \<Rightarrow> bool" where
  "good img d nb = (length (d_addrs d) = 13 \<and> nb \<le> 140 \<and> (\<forall>j < 140. slot img d j = 0 \<longleftrightarrow> nb \<le> j) \<and>
     (d_addrs d ! 12 = 0 \<longleftrightarrow> nb \<le> 12) \<and> inj_on (faddr img d) {..<nb} \<and>
     (12 < nb \<longrightarrow> unat (d_addrs d ! 12) \<notin> faddr img d ` {..<nb}))"

definition fbytes :: "bytes list \<Rightarrow> dinode \<Rightarrow> nat \<Rightarrow> bytes" where
  "fbytes img d n = map (\<lambda>i. img ! faddr img d (i div 512) ! (i mod 512)) [0..<n]"

text \<open>
  The image with the files \<open>I\<close>, whose inodes are \<open>D\<close> and which have \<open>N\<close> blocks: the blocks of
  different files are different, all below \<open>fb\<close>, and the blocks from there on are zero.
\<close>

definition img_inv :: "bytes list \<Rightarrow> nat \<Rightarrow> (nat \<Rightarrow> dinode) \<Rightarrow> (nat \<Rightarrow> nat) \<Rightarrow> nat set \<Rightarrow> bool" where
  "img_inv img fb D N I =
     (length img = 1024 \<and> (\<forall>x < 1024. length (img ! x) = 512) \<and> 29 \<le> fb \<and> fb \<le> 1024 \<and>
      (\<forall>x. fb \<le> x \<longrightarrow> x < 1024 \<longrightarrow> img ! x = zeroes) \<and>
      (\<forall>i \<in> I. good img (D i) (N i) \<and> fblocks img (D i) (N i) \<subseteq> {29..<fb}) \<and>
      (\<forall>i \<in> I. \<forall>j \<in> I. i \<noteq> j \<longrightarrow> fblocks img (D i) (N i) \<inter> fblocks img (D j) (N j) = {}))"

lemma slot_frame:
  assumes "\<forall>x \<in> fblocks img d nb. img' ! x = img ! x" "good img d nb"
  shows "slot img' d j = slot img d j"
  using assms by (cases "12 < nb") (auto simp: slot_def fblocks_def good_def)

lemma file_frame:
  assumes "\<forall>x \<in> fblocks img d nb. img' ! x = img ! x" "good img d nb"
  shows "good img' d nb" "fblocks img' d nb = fblocks img d nb" "n \<le> 512 * nb \<Longrightarrow> fbytes img' d n = fbytes img d n"
proof -
  note s = slot_frame [OF assms]
  show "good img' d nb" using assms(2) by (simp add: good_def s)
  show "fblocks img' d nb = fblocks img d nb" by (simp add: fblocks_def s)
  show "fbytes img' d n = fbytes img d n" if "n \<le> 512 * nb"
  proof -
    have "i div 512 < nb" if "i < n" for i using that \<open>n \<le> 512 * nb\<close> by (simp add: less_mult_imp_div_less)
    then show ?thesis using assms(1) by (auto simp: fbytes_def s fblocks_def)
  qed
qed

lemma img_inv_update:
  assumes inv: "img_inv img fb D N I" and i: "inum \<in> I" and X: "X \<subseteq> fblocks img (D inum) (N inum)"
    and img': "length img' = 1024" "\<forall>x < 1024. length (img' ! x) = 512" "\<forall>x < fb. x \<notin> X \<longrightarrow> img' ! x = img ! x"
    and fb': "fb \<le> fb'" "fb' \<le> 1024" "\<forall>x. fb' \<le> x \<longrightarrow> x < 1024 \<longrightarrow> img' ! x = zeroes"
    and d': "good img' d' nb'" "fblocks img' d' nb' \<subseteq> fblocks img (D inum) (N inum) \<union> {fb..<fb'}"
  shows "img_inv img' fb' (D(inum := d')) (N(inum := nb')) I"
    "\<forall>i \<in> I. i \<noteq> inum \<longrightarrow> (\<forall>x \<in> fblocks img (D i) (N i). img' ! x = img ! x)"
proof -
  have sub: "\<And>j. j \<in> I \<Longrightarrow> fblocks img (D j) (N j) \<subseteq> {29..<fb}" "29 \<le> fb"
    and g: "\<And>j. j \<in> I \<Longrightarrow> good img (D j) (N j)"
    and dj: "\<And>j k. j \<in> I \<Longrightarrow> k \<in> I \<Longrightarrow> j \<noteq> k \<Longrightarrow> fblocks img (D j) (N j) \<inter> fblocks img (D k) (N k) = {}"
    using inv unfolding img_inv_def by blast+
  have fr: "\<forall>x \<in> fblocks img (D j) (N j). img' ! x = img ! x" if "j \<in> I" "j \<noteq> inum" for j
  proof
    fix x assume x: "x \<in> fblocks img (D j) (N j)"
    then have "x \<notin> X" "x < fb" using dj [OF that(1) i that(2)] X sub(1) [OF that(1)] by auto
    then show "img' ! x = img ! x" using img'(3) by blast
  qed
  then show "\<forall>i \<in> I. i \<noteq> inum \<longrightarrow> (\<forall>x \<in> fblocks img (D i) (N i). img' ! x = img ! x)" by blast
  have o: "good img' (D j) (N j)" "fblocks img' (D j) (N j) = fblocks img (D j) (N j)" if "j \<in> I" "j \<noteq> inum" for j
    using file_frame [OF fr [OF that] g [OF that(1)]] by auto
  have n: "fblocks img' d' nb' \<inter> fblocks img (D j) (N j) = {}" if "j \<in> I" "j \<noteq> inum" for j
    using d'(2) dj [OF that(1) i that(2)] sub(1) [OF that(1)] by fastforce
  show "img_inv img' fb' (D(inum := d')) (N(inum := nb')) I"
    unfolding img_inv_def
  proof (intro conjI ballI impI)
    fix j assume j: "j \<in> I"
    show "good img' ((D(inum := d')) j) ((N(inum := nb')) j)" using d'(1) o(1) [OF j] by simp
    show "fblocks img' ((D(inum := d')) j) ((N(inum := nb')) j) \<subseteq> {29..<fb'}"
      using d'(2) sub(1) [OF i] sub(1) [OF j] sub(2) o(2) [OF j] fb'(1) by (cases "j = inum") (auto, fastforce+)
    fix k assume k: "k \<in> I" and "j \<noteq> k"
    then show "fblocks img' ((D(inum := d')) j) ((N(inum := nb')) j) \<inter> fblocks img' ((D(inum := d')) k) ((N(inum := nb')) k) = {}"
      using n [OF j] n [OF k] dj [OF j k] o(2) [OF j] o(2) [OF k] by (cases "j = inum"; cases "k = inum") auto
  qed (use img' fb' sub(2) in auto)
qed

lemma good_extend:
  assumes g: "good img d nb" "nb < 140" and l: "length (d_addrs d') = 13"
    and s: "\<forall>j < 140. slot img' d' j = (if j = nb then of_nat x else slot img d j)"
    and a: "d_addrs d' ! 12 = (if nb = 12 then of_nat y else d_addrs d ! 12)"
    and xy: "0 < x" "x < 1024" "0 < y" "y < 1024" "x \<notin> fblocks img d nb" "nb = 12 \<longrightarrow> y \<notin> fblocks img d nb \<and> y \<noteq> x"
  shows "good img' d' (nb + 1)" "fblocks img' d' (nb + 1) \<subseteq> fblocks img d nb \<union> {x} \<union> (if nb = 12 then {y} else {})"
proof -
  have u: "unat (of_nat x :: u32) = x" "unat (of_nat y :: u32) = y" using xy by (simp_all add: unat_of_nat32)
  then have z: "(of_nat x :: u32) \<noteq> 0" "(of_nat y :: u32) \<noteq> 0" using xy(1,3) by (metis neq0_conv unat_0)+
  have f: "faddr img' d' j = (if j = nb then x else faddr img d j)" if "j < nb + 1" for j using s g that u by simp
  have im: "faddr img' d' ` {..<nb + 1} = insert x (faddr img d ` {..<nb})"
    by (auto simp: f image_iff less_Suc_eq) 
  have inj: "inj_on (faddr img' d') {..<nb + 1}"
    using g(1) xy(5) f by (auto simp: good_def fblocks_def inj_on_def less_Suc_eq)
  show "fblocks img' d' (nb + 1) \<subseteq> fblocks img d nb \<union> {x} \<union> (if nb = 12 then {y} else {})"
    using im a u by (auto simp: fblocks_def)
  have gs: "\<And>j. j < 140 \<Longrightarrow> slot img d j = 0 \<longleftrightarrow> nb \<le> j" "d_addrs d ! 12 = 0 \<longleftrightarrow> nb \<le> 12"
    "12 < nb \<Longrightarrow> unat (d_addrs d ! 12) \<notin> faddr img d ` {..<nb}"
    using g(1) by (simp_all add: good_def)
  show "good img' d' (nb + 1)" unfolding good_def
  proof (intro conjI allI impI)
    show "nb + 1 \<le> 140" using g(2) by simp
  next
    fix j :: nat assume "j < 140"
    then show "slot img' d' j = 0 \<longleftrightarrow> nb + 1 \<le> j" using s [rule_format, of j] gs(1) [of j] z(1) by (cases "j = nb") auto
  next
    show "d_addrs d' ! 12 = 0 \<longleftrightarrow> nb + 1 \<le> 12" using gs(2) z(2) by (cases "nb = 12") (simp_all add: a, linarith)
  next
    assume n: "12 < nb + 1"
    show "unat (d_addrs d' ! 12) \<notin> faddr img' d' ` {..<nb + 1}"
    proof (cases "nb = 12")
      case True
      have "faddr img d ` {..<nb} \<subseteq> fblocks img d nb" by (simp add: fblocks_def)
      then have "y \<notin> faddr img d ` {..<nb}" "y \<noteq> x" using xy(6) True by blast+
      moreover have "unat (d_addrs d' ! 12) = y" unfolding a using True u(2) by simp
      ultimately show ?thesis unfolding im by simp
    next
      case False
      then have n: "12 < nb" using n by simp
      have e: "d_addrs d' ! 12 = d_addrs d ! 12" unfolding a using False by simp
      have "unat (d_addrs d ! 12) \<in> fblocks img d nb" unfolding fblocks_def using n by simp
      then have "unat (d_addrs d ! 12) \<noteq> x" using xy(5) by metis
      then show ?thesis unfolding im e using gs(3) [OF n] by simp
    qed
  qed (fact l, fact inj)
qed

section \<open>Lemmas: appending to a file\<close>

text \<open>The number of blocks of a file of \<open>n\<close> bytes, without and with its indirect block.\<close>

definition nbs :: "nat \<Rightarrow> nat" where
  "nbs n = (n + 511) div 512"

definition nblk :: "nat \<Rightarrow> nat" where
  "nblk nb = nb + (if 12 < nb then 1 else 0)"

lemma img_invD:
  assumes "img_inv img fb D N I"
  shows "length img = 1024" "\<And>x. x < 1024 \<Longrightarrow> length (img ! x) = 512" "29 \<le> fb" "fb \<le> 1024"
    "\<And>x. fb \<le> x \<Longrightarrow> x < 1024 \<Longrightarrow> img ! x = zeroes" "\<And>i. i \<in> I \<Longrightarrow> good img (D i) (N i)"
    "\<And>i. i \<in> I \<Longrightarrow> fblocks img (D i) (N i) \<subseteq> {29..<fb}"
  using assms unfolding img_inv_def by blast+

text \<open>
  \<open>kept_files\<close>: what appending to the file \<open>inum\<close> leaves alone, namely the blocks in front of the
  file blocks and those of the other files.
\<close>

definition kept_files :: "(nat \<Rightarrow> dinode) \<Rightarrow> (nat \<Rightarrow> nat) \<Rightarrow> nat set \<Rightarrow> nat \<Rightarrow> mkfs \<Rightarrow> mkfs \<Rightarrow> bool" where
  "kept_files D N I inum m m' = (freeinode m' = freeinode m \<and> (\<forall>x < 29. m_secs m' ! x = m_secs m ! x) \<and>
     (\<forall>i \<in> I. i \<noteq> inum \<longrightarrow> (\<forall>x \<in> fblocks (m_secs m) (D i) (N i). m_secs m' ! x = m_secs m ! x)))"

text \<open>The block \<open>bn\<close> that the loop works on: the file has it, or it becomes the last one.\<close>

definition got_block :: "(nat \<Rightarrow> dinode) \<Rightarrow> (nat \<Rightarrow> nat) \<Rightarrow> nat set \<Rightarrow> nat \<Rightarrow> nat \<Rightarrow> mkfs \<Rightarrow> dinode \<Rightarrow> mkfs \<Rightarrow> bool" where
  "got_block D N I inum bn m d' m' =
     (img_inv (m_secs m') (freeblock m') (D(inum := d')) (N(inum := bn + 1)) I \<and> kept_files D N I inum m m' \<and>
      freeblock m' = freeblock m + (nblk (bn + 1) - nblk (N inum)) \<and> usedblocks m' = usedblocks m + (nblk (bn + 1) - nblk (N inum)) \<and>
      d' = (D inum)\<lparr>d_addrs := d_addrs d'\<rparr> \<and>
      (\<forall>j < N inum. slot (m_secs m') d' j = slot (m_secs m) (D inum) j \<and> m_secs m' ! faddr (m_secs m') d' j = m_secs m ! faddr (m_secs m) (D inum) j) \<and>
      (N inum = bn \<longrightarrow> m_secs m' ! faddr (m_secs m') d' bn = zeroes))"

lemma of_nat_1024: "x < 1024 \<Longrightarrow> unat (of_nat x :: u32) = x" "0 < x \<Longrightarrow> x < 1024 \<Longrightarrow> (of_nat x :: u32) \<noteq> 0"
proof -
  show u: "unat (of_nat x :: u32) = x" if "x < 1024" using that by (simp add: unat_of_nat32)
  show "(of_nat x :: u32) \<noteq> 0" if "0 < x" "x < 1024" using u [OF that(2)] that(1) by (metis less_irrefl unat_0)
qed

lemma got_blockI:
  assumes inv: "img_inv (m_secs m) fb D N I" and i: "inum \<in> I" and bn: "N inum = bn" "bn < 140"
    and m': "m' = m\<lparr>m_secs := img', freeblock := fb', usedblocks := usedblocks m + (fb' - fb)\<rparr>" and fb: "freeblock m = fb"
    and img': "length img' = 1024" "\<forall>x < 1024. length (img' ! x) = 512" "\<forall>x < fb. x \<notin> X \<longrightarrow> img' ! x = m_secs m ! x"
    and X: "X \<subseteq> (if 12 < bn then {unat (d_addrs (D inum) ! 12)} else {})"
    and fb': "fb' = fb + (if bn = 12 then 2 else 1)" "fb' \<le> 1024" "\<forall>x. fb' \<le> x \<longrightarrow> x < 1024 \<longrightarrow> img' ! x = zeroes"
    and d': "d' = (D inum)\<lparr>d_addrs := as\<rparr>" "length as = 13" "as ! 12 = (if bn = 12 then of_nat fb else d_addrs (D inum) ! 12)"
    and s: "\<forall>j < 140. slot img' d' j = (if j = bn then of_nat (fb' - 1) else slot (m_secs m) (D inum) j)"
    and z: "img' ! (fb' - 1) = zeroes"
  shows "got_block D N I inum bn m d' m'"
proof -
  note v = img_invD [OF inv]
  have g: "good (m_secs m) (D inum) bn" and b: "fblocks (m_secs m) (D inum) bn \<subseteq> {29..<fb}" using v(6,7) [OF i] bn(1) by auto
  have x: "x \<notin> fblocks (m_secs m) (D inum) bn" if "fb \<le> x" for x using that b by auto
  have pos: "0 < fb' - 1" "fb' - 1 < 1024" "0 < fb" "fb < 1024" "fb \<le> fb' - 1" "bn = 12 \<longrightarrow> fb \<noteq> fb' - 1"
    using fb'(1,2) v(3) by (simp_all split: if_splits)
  have dd: "length (d_addrs d') = 13" "d_addrs d' ! 12 = (if bn = 12 then of_nat fb else d_addrs (D inum) ! 12)" using d' by simp_all
  note ge = good_extend [OF g bn(2) dd(1) s dd(2) pos(1-4) x [OF pos(5)]]
  have ge1: "good img' d' (bn + 1)" and ge2: "fblocks img' d' (bn + 1) \<subseteq> fblocks (m_secs m) (D inum) bn \<union> {fb' - 1} \<union> (if bn = 12 then {fb} else {})"
    using ge x [of fb] pos(6) by blast+
  have sub: "fblocks img' d' (bn + 1) \<subseteq> fblocks (m_secs m) (D inum) (N inum) \<union> {fb..<fb'}"
    using ge2 bn(1) fb'(1) by (auto split: if_splits)
  have X': "X \<subseteq> fblocks (m_secs m) (D inum) (N inum)" using X bn(1) by (auto simp: fblocks_def split: if_splits)
  have le: "fb \<le> fb'" using fb'(1) by simp
  note u = img_inv_update [OF inv i X' img' le fb'(2,3) ge1 sub]
  have X29: "x \<notin> X" if "x < 29" for x using X' v(7) [OF i] that by auto
  have k: "kept_files D N I inum m m'" using u(2) m' img'(3) v(3) X29 by (auto simp: kept_files_def)
  have data: "img' ! faddr img' d' j = m_secs m ! faddr (m_secs m) (D inum) j" if "j < bn" for j
  proof -
    have e: "slot img' d' j = slot (m_secs m) (D inum) j" using s that bn(2) by simp
    have "faddr (m_secs m) (D inum) j \<in> fblocks (m_secs m) (D inum) bn" using that by (simp add: fblocks_def)
    moreover have "faddr (m_secs m) (D inum) j \<notin> X"
    proof
      assume "faddr (m_secs m) (D inum) j \<in> X"
      then have "12 < bn" "faddr (m_secs m) (D inum) j = unat (d_addrs (D inum) ! 12)" using X by (auto split: if_splits)
      moreover have "faddr (m_secs m) (D inum) j \<in> faddr (m_secs m) (D inum) ` {..<bn}" using that by simp
      ultimately show False using g unfolding good_def by metis
    qed
    ultimately show ?thesis unfolding e using b img'(3) by auto
  qed
  have "img' ! faddr img' d' bn = zeroes" using s bn(2) z of_nat_1024(1) [OF pos(2)] by simp
  then show ?thesis unfolding got_block_def
    using u(1) k d' s bn fb m' fb'(1) data by (simp add: nblk_def)
qed

lemma get32_zeroes: "pos + 4 \<le> 512 \<Longrightarrow> get32 zeroes pos = 0"
  by (simp add: get32_nth)

lemma block_present:
  assumes inv: "img_inv (m_secs m) (freeblock m) D N I" and i: "inum \<in> I" and bn: "N inum = bn + 1"
  shows "iappend_block (D inum) bn m = Inr ((D inum, faddr (m_secs m) (D inum) bn), m)" "got_block D N I inum bn m (D inum) m"
proof -
  note v = img_invD [OF inv]
  have g: "good (m_secs m) (D inum) (bn + 1)" using v(6) [OF i] bn by simp
  then have b: "bn < 140" "slot (m_secs m) (D inum) bn \<noteq> 0" "12 \<le> bn \<Longrightarrow> d_addrs (D inum) ! 12 \<noteq> 0" by (auto simp: good_def)
  have "unat (d_addrs (D inum) ! 12) < 1024" if "12 \<le> bn"
    using v(4) v(7) [OF i] bn that by (auto simp: fblocks_def)
  then show "iappend_block (D inum) bn m = Inr ((D inum, faddr (m_secs m) (D inum) bn), m)"
    using b v(1) by (auto simp: iappend_block_def mk_simps new_addr_def rsect_def Let_def slot_def)
  have "D(inum := D inum) = D" "N(inum := bn + 1) = N" using bn by auto
  then show "got_block D N I inum bn m (D inum) m" using inv bn by (simp add: got_block_def kept_files_def)
qed

lemma block_direct:
  assumes inv: "img_inv (m_secs m) (freeblock m) D N I" and i: "inum \<in> I" and bn: "N inum = bn" "bn < 12" "freeblock m < 1024"
  shows "\<exists>d' m'. iappend_block (D inum) bn m = Inr ((d', faddr (m_secs m') d' bn), m') \<and> got_block D N I inum bn m d' m'"
proof -
  note v = img_invD [OF inv]
  let ?d = "D inum" and ?fb = "freeblock m"
  let ?as = "(d_addrs ?d)[bn := of_nat ?fb]"
  let ?d' = "?d\<lparr>d_addrs := ?as\<rparr>" and ?m' = "m\<lparr>freeblock := ?fb + 1, usedblocks := usedblocks m + 1\<rparr>"
  have g: "good (m_secs m) ?d bn" using v(6) [OF i] bn(1) by simp
  then have a: "length (d_addrs ?d) = 13" "slot (m_secs m) ?d bn = 0" using bn(2) by (simp_all add: good_def)
  then have a: "length (d_addrs ?d) = 13" "d_addrs ?d ! bn = 0" using bn(2) by (simp_all add: slot_def)
  have s: "slot (m_secs m) ?d' j = (if j = bn then of_nat ?fb else slot (m_secs m) ?d j)" for j
    using bn(2) a(1) by (simp add: slot_def)
  have "iappend_block ?d bn m = Inr ((?d', faddr (m_secs ?m') ?d' bn), ?m')"
    using bn(2) a by (simp add: iappend_block_def mk_simps new_addr_def new_block_def slot_def)
  moreover have "got_block D N I inum bn m ?d' ?m'"
    by (rule got_blockI [OF inv i bn(1), where as = ?as and X = "{}" and fb' = "?fb + 1" and img' = "m_secs m"])
      (use v a bn s in \<open>auto simp: nth_list_update\<close>)
  ultimately show ?thesis by blast
qed

lemma block_first_indirect:
  assumes inv: "img_inv (m_secs m) (freeblock m) D N I" and i: "inum \<in> I" and bn: "N inum = 12" "freeblock m + 1 < 1024"
  shows "\<exists>d' m'. iappend_block (D inum) 12 m = Inr ((d', faddr (m_secs m') d' 12), m') \<and> got_block D N I inum 12 m d' m'"
proof -
  note v = img_invD [OF inv]
  let ?d = "D inum" and ?fb = "freeblock m"
  let ?as = "(d_addrs ?d)[12 := of_nat ?fb]" and ?ib = "put32 zeroes 0 (of_nat (?fb + 1)) :: bytes"
  let ?d' = "?d\<lparr>d_addrs := ?as\<rparr>" and ?img' = "(m_secs m)[?fb := ?ib]"
  let ?m' = "m\<lparr>m_secs := ?img', freeblock := ?fb + 2, usedblocks := usedblocks m + 2\<rparr>"
  have g: "good (m_secs m) ?d 12" using v(6) [OF i] bn(1) by simp
  then have a: "length (d_addrs ?d) = 13" "d_addrs ?d ! 12 = 0" "\<And>j. 12 \<le> j \<Longrightarrow> j < 140 \<Longrightarrow> slot (m_secs m) ?d j = 0"
    by (simp_all add: good_def)
  have fb: "unat (of_nat ?fb :: u32) = ?fb" "(of_nat ?fb :: u32) \<noteq> 0" "unat (of_nat (?fb + 1) :: u32) = ?fb + 1"
    using bn(2) v(3) of_nat_1024 [of ?fb] of_nat_1024(1) [of "?fb + 1"] by simp_all
  have z: "m_secs m ! ?fb = zeroes" using v(5) [of ?fb] bn(2) by simp
  have ib: "length ?ib = 512" "get32 ?ib 0 = of_nat (?fb + 1)" by simp_all
  have ib': "get32 ?ib (4 * (j - 12)) = 0" if "12 < j" "j < 140" for j
    using that get32_put32_other [of 0 zeroes "4 * (j - 12)"] get32_zeroes [of "4 * (j - 12)"] by simp
  have s: "slot ?img' ?d' j = (if j = 12 then of_nat (?fb + 1) else slot (m_secs m) ?d j)" if "j < 140" for j
  proof (cases "j < 12")
    case False
    then show ?thesis using that a(1) a(3) [of j] fb v(1) bn(2) ib(2) ib' [of j] by (auto simp: slot_def)
  qed (simp add: slot_def)
  have "iappend_block ?d 12 m = Inr ((?d', faddr (m_secs ?m') ?d' 12), ?m')"
    using a fb v(1) bn(2) z get32_zeroes [of 0]
    by (simp add: iappend_block_def mk_simps new_addr_def new_block_def rsect_def wsect_def Let_def slot_def)
  moreover have "got_block D N I inum 12 m ?d' ?m'"
    by (rule got_blockI [OF inv i bn(1), where as = ?as and X = "{}" and fb' = "?fb + 2" and img' = ?img'])
      (use v a bn s in \<open>auto simp: nth_list_update\<close>)
  ultimately show ?thesis by blast
qed

lemma block_indirect:
  assumes inv: "img_inv (m_secs m) (freeblock m) D N I" and i: "inum \<in> I"
    and bn: "N inum = bn" "12 < bn" "bn < 140" "freeblock m < 1024"
  shows "\<exists>d' m'. iappend_block (D inum) bn m = Inr ((d', faddr (m_secs m') d' bn), m') \<and> got_block D N I inum bn m d' m'"
proof -
  note v = img_invD [OF inv]
  let ?d = "D inum" and ?fb = "freeblock m"
  let ?ind = "unat (d_addrs ?d ! 12)" and ?pos = "4 * (bn - 12)"
  let ?ib = "put32 (m_secs m ! ?ind) ?pos (of_nat ?fb)"
  let ?img' = "(m_secs m)[?ind := ?ib]"
  let ?m' = "m\<lparr>m_secs := ?img', freeblock := ?fb + 1, usedblocks := usedblocks m + 1\<rparr>"
  have g: "good (m_secs m) ?d bn" using v(6) [OF i] bn(1) by simp
  then have a: "length (d_addrs ?d) = 13" "d_addrs ?d ! 12 \<noteq> 0" "slot (m_secs m) ?d bn = 0" using bn by (simp_all add: good_def)
  have ind: "?ind \<in> fblocks (m_secs m) ?d bn" using bn(2) by (simp add: fblocks_def)
  then have ind: "29 \<le> ?ind" "?ind < ?fb" "?ind < 1024" using v(4) v(7) [OF i] bn(1) by auto
  have l: "length (m_secs m ! ?ind) = 512" "?pos + 4 \<le> 512" using v(2) [OF ind(3)] bn by auto
  have ib: "length ?ib = 512" "get32 ?ib ?pos = of_nat ?fb" using l by simp_all
  have ib': "get32 ?ib (4 * (j - 12)) = get32 (m_secs m ! ?ind) (4 * (j - 12))" if "12 \<le> j" "j < 140" "j \<noteq> bn" for j
    using that bn l by (intro get32_put32_other) auto
  have s: "slot ?img' ?d j = (if j = bn then of_nat ?fb else slot (m_secs m) ?d j)" if "j < 140" for j
  proof (cases "j < 12")
    case False
    then show ?thesis using that a(2) ind v(1) bn(2) ib(2) ib' [of j] by (auto simp: slot_def)
  qed (use bn(2) in \<open>simp add: slot_def\<close>)
  have z: "get32 (m_secs m ! ?ind) ?pos = 0" using a(2,3) bn(2) by (simp add: slot_def)
  have "iappend_block ?d bn m = Inr ((?d, faddr (m_secs ?m') ?d bn), ?m')"
    using a(1,2) v(1) bn(2,3) ind(3) z ib(2) s [of bn]
    by (simp add: iappend_block_def mk_simps new_addr_def new_block_def rsect_def wsect_def Let_def)
  moreover have "got_block D N I inum bn m ?d ?m'"
    by (rule got_blockI [OF inv i bn(1), where as = "d_addrs ?d" and X = "{?ind}" and fb' = "?fb + 1" and img' = ?img'])
      (use v a bn s ib(1) ind in \<open>auto simp: nth_list_update\<close>)
  ultimately show ?thesis by blast
qed

lemma iappend_block_spec:
  assumes inv: "img_inv (m_secs m) (freeblock m) D N I" and i: "inum \<in> I" and bn: "N inum = bn \<or> N inum = bn + 1" "bn < 140"
    and room: "freeblock m + (nblk (bn + 1) - nblk (N inum)) \<le> 1024"
  shows "\<exists>d' m'. iappend_block (D inum) bn m = Inr ((d', faddr (m_secs m') d' bn), m') \<and> got_block D N I inum bn m d' m'"
proof (cases "N inum = bn + 1")
  case True
  then show ?thesis using block_present [OF inv i] by blast
next
  case False
  then have N: "N inum = bn" using bn(1) by simp
  consider "bn < 12" | "bn = 12" | "12 < bn" by linarith
  then show ?thesis
  proof cases
    case 1
    then show ?thesis using block_direct [OF inv i N] room N by (simp add: nblk_def)
  next
    case 2
    then show ?thesis using block_first_indirect [OF inv i] room N by (simp add: nblk_def)
  next
    case 3
    then show ?thesis using block_indirect [OF inv i N _ bn(2)] room N by (simp add: nblk_def)
  qed
qed

text \<open>The rest of the last block of a file is zero.\<close>

definition padded :: "bytes list \<Rightarrow> dinode \<Rightarrow> nat \<Rightarrow> bool" where
  "padded img d n = (\<forall>i. n \<le> i \<longrightarrow> i < 512 * nbs n \<longrightarrow> img ! faddr img d (i div 512) ! (i mod 512) = 0)"

definition appended :: "(nat \<Rightarrow> dinode) \<Rightarrow> (nat \<Rightarrow> nat) \<Rightarrow> nat set \<Rightarrow> nat \<Rightarrow> mkfs \<Rightarrow> nat \<Rightarrow> bytes \<Rightarrow> dinode \<Rightarrow> mkfs \<Rightarrow> bool" where
  "appended D N I inum m off bs d' m' =
     (img_inv (m_secs m') (freeblock m') (D(inum := d')) (N(inum := nbs (off + length bs))) I \<and> kept_files D N I inum m m' \<and>
      freeblock m' = freeblock m + (nblk (nbs (off + length bs)) - nblk (nbs off)) \<and>
      usedblocks m' = usedblocks m + (nblk (nbs (off + length bs)) - nblk (nbs off)) \<and>
      d' = (D inum)\<lparr>d_addrs := d_addrs d'\<rparr> \<and>
      fbytes (m_secs m') d' (off + length bs) = fbytes (m_secs m) (D inum) off @ bs \<and>
      (padded (m_secs m) (D inum) off \<longrightarrow> padded (m_secs m') d' (off + length bs)))"

lemma appendedD:
  assumes "appended D N I inum m off bs d' m'"
  shows "img_inv (m_secs m') (freeblock m') (D(inum := d')) (N(inum := nbs (off + length bs))) I" "kept_files D N I inum m m'"
    "freeblock m' = freeblock m + (nblk (nbs (off + length bs)) - nblk (nbs off))"
    "usedblocks m' = usedblocks m + (nblk (nbs (off + length bs)) - nblk (nbs off))"
    "d' = (D inum)\<lparr>d_addrs := d_addrs d'\<rparr>" "fbytes (m_secs m') d' (off + length bs) = fbytes (m_secs m) (D inum) off @ bs"
    "padded (m_secs m) (D inum) off \<Longrightarrow> padded (m_secs m') d' (off + length bs)"
  using assms unfolding appended_def by blast+

lemma nblk_mono: "a \<le> b \<Longrightarrow> nblk a \<le> nblk b" "a \<le> b \<Longrightarrow> nbs a \<le> nbs b"
  by (simp_all add: nblk_def nbs_def div_le_mono)

lemma kept_files_trans:
  assumes "kept_files D N I inum m m1" "kept_files (D(inum := d)) (N(inum := n)) I inum m1 m2" "img_inv (m_secs m) fb D N I"
  shows "kept_files D N I inum m m2"
  unfolding kept_files_def
proof (intro conjI ballI impI)
  fix i x assume i: "i \<in> I" "i \<noteq> inum" and x: "x \<in> fblocks (m_secs m) (D i) (N i)"
  have e: "\<forall>x \<in> fblocks (m_secs m) (D i) (N i). m_secs m1 ! x = m_secs m ! x" using assms(1) i by (auto simp: kept_files_def)
  have "fblocks (m_secs m1) (D i) (N i) = fblocks (m_secs m) (D i) (N i)"
    by (rule file_frame [OF e]) (rule img_invD(6) [OF assms(3) i(1)])
  then have "m_secs m2 ! x = m_secs m1 ! x" using assms(2) i x by (auto simp: kept_files_def)
  then show "m_secs m2 ! x = m_secs m ! x" using e x by simp
qed (use assms(1,2) in \<open>auto simp: kept_files_def\<close>)

lemma appended_trans:
  assumes a: "appended D N I inum m off bs d1 m1"
    and b: "appended (D(inum := d1)) (N(inum := nbs (off + length bs))) I inum m1 (off + length bs) cs d2 m2"
    and inv: "img_inv (m_secs m) fb D N I"
  shows "appended D N I inum m off (bs @ cs) d2 m2"
proof -
  note A = appendedD [OF a] and B = appendedD [OF b]
  have k: "kept_files D N I inum m m2" by (rule kept_files_trans [OF A(2) B(2) inv])
  have d: "d2 = (D inum)\<lparr>d_addrs := d_addrs d2\<rparr>"
    using A(5) B(5) by (metis dinode.surjective dinode.update_convs(6) fun_upd_same)
  have mono: "nblk (nbs off) \<le> nblk (nbs (off + length bs))" "nblk (nbs (off + length bs)) \<le> nblk (nbs (off + length bs + length cs))"
    by (simp_all add: nblk_mono)
  show ?thesis unfolding appended_def length_append add.assoc [symmetric]
    by (intro conjI, use B(1) in simp, fact k, use A(3) B(3) mono in simp, use A(4) B(4) mono in simp, fact d, use A(6) B(6) in simp, use A(7) B(7) in simp)
qed

lemma appended_nil:
  assumes "img_inv (m_secs m) (freeblock m) D N I" "N inum = nbs off"
  shows "appended D N I inum m off [] (D inum) m"
proof -
  have "N(inum := nbs off) = N" using assms(2) by auto
  then show ?thesis using assms(1) by (simp add: appended_def kept_files_def)
qed

lemma data_write:
  assumes inv: "img_inv img fb D N I" and i: "inum \<in> I" and bn: "N inum = bn + 1" and b: "length b = 512"
  defines "x \<equiv> faddr img (D inum) bn"
  defines "img' \<equiv> img[x := b]"
  shows "img_inv img' fb D N I" "slot img' (D inum) j = slot img (D inum) j" "x < 1024" "29 \<le> x"
    "j < bn \<Longrightarrow> img' ! faddr img (D inum) j = img ! faddr img (D inum) j" "img' ! x = b"
    "\<forall>j \<in> I. j \<noteq> inum \<longrightarrow> (\<forall>y \<in> fblocks img (D j) (N j). img' ! y = img ! y)"
proof -
  note v = img_invD [OF inv]
  have g: "good img (D inum) (bn + 1)" using v(6) [OF i] bn by simp
  have xb: "x \<in> fblocks img (D inum) (N inum)" by (simp add: bn x_def fblocks_def)
  then have xx: "29 \<le> x" "x < fb" using v(7) [OF i] by auto
  then show x: "x < 1024" "29 \<le> x" using v(4) by auto
  have ne: "12 < bn + 1 \<Longrightarrow> unat (d_addrs (D inum) ! 12) \<noteq> x" using g unfolding good_def x_def by (metis image_eqI lessI lessThan_iff Suc_eq_plus1)
  have s: "slot img' (D inum) j = slot img (D inum) j" for j
    using ne g by (auto simp: slot_def img'_def good_def)
  then show "slot img' (D inum) j = slot img (D inum) j" .
  have f: "fblocks img' (D inum) (bn + 1) = fblocks img (D inum) (bn + 1)" by (simp add: fblocks_def s)
  have g': "good img' (D inum) (N inum)" using g bn by (simp add: good_def s)
  have sub: "{x} \<subseteq> fblocks img (D inum) (N inum)" using xb by simp
  have "fblocks img' (D inum) (N inum) \<subseteq> fblocks img (D inum) (N inum) \<union> {fb..<fb}" using f bn by simp
  note u = img_inv_update [OF inv i sub _ _ _ order.refl v(4) _ g' this]
  have c: "length img' = 1024" "\<forall>y < 1024. length (img' ! y) = 512" "\<forall>y < fb. y \<notin> {x} \<longrightarrow> img' ! y = img ! y"
    "\<forall>y. fb \<le> y \<longrightarrow> y < 1024 \<longrightarrow> img' ! y = zeroes"
    using v(1,2,5) b xx(2) x(1) by (simp_all add: img'_def nth_list_update)
  show "img_inv img' fb D N I" using u(1) [OF c] by simp
  show "\<forall>j \<in> I. j \<noteq> inum \<longrightarrow> (\<forall>y \<in> fblocks img (D j) (N j). img' ! y = img ! y)" using u(2) [OF c] .
  show "img' ! x = b" using x(1) v(1) by (simp add: img'_def)
  show "img' ! faddr img (D inum) j = img ! faddr img (D inum) j" if "j < bn"
  proof -
    have "faddr img (D inum) j \<noteq> x" using g that unfolding good_def x_def inj_on_def by fastforce
    then show ?thesis by (simp add: img'_def)
  qed
qed

lemma nbs_split:
  assumes "r < 512"
  shows "nbs (512 * q + r) = (if r = 0 then q else q + 1)"
proof (cases "r = 0")
  case False
  then have "512 * q + r + 511 = (r - 1) + (q + 1) * 512" by simp
  then have "nbs (512 * q + r) = (r - 1) div 512 + (q + 1)" unfolding nbs_def by (simp only: div_mult_self1 [of 512] zero_neq_numeral not_False_eq_True)
  then show ?thesis using False assms by simp
qed (simp add: nbs_def)

lemma nbs_in_block:
  assumes "0 < n" "off mod 512 + n \<le> 512"
  shows "nbs (off + n) = off div 512 + 1" "nbs off = off div 512 \<or> nbs off = off div 512 + 1"
    "0 < off mod 512 \<Longrightarrow> nbs off = off div 512 + 1"
proof -
  define q r where "q = off div 512" and "r = off mod 512"
  have e: "off = 512 * q + r" "r < 512" by (simp_all add: q_def r_def)
  have "nbs off = (if r = 0 then q else q + 1)" unfolding e(1) by (rule nbs_split [OF e(2)])
  then show "0 < off mod 512 \<Longrightarrow> nbs off = off div 512 + 1" "nbs off = off div 512 \<or> nbs off = off div 512 + 1"
    by (simp_all add: q_def r_def)
  have "nbs (off + n) = q + 1"
  proof (cases "r + n = 512")
    case True
    then have "off + n = 512 * (q + 1) + 0" using e(1) by simp
    then show ?thesis using nbs_split [of 0 "q + 1"] by simp
  next
    case False
    moreover have "r + n \<le> 512" using assms(2) by (simp add: r_def)
    ultimately have "off + n = 512 * q + (r + n)" "r + n < 512" using e(1) by simp_all
    then show ?thesis using nbs_split [of "r + n" q] assms(1) by (simp add: add.assoc)
  qed
  then show "nbs (off + n) = off div 512 + 1" by (simp add: q_def)
qed

lemma same_block:
  assumes "off + n \<le> q" "q < 512 * (off div 512 + 1)"
  shows "q div 512 = off div (512 :: nat)" "off mod 512 + n \<le> q mod (512 :: nat)"
proof -
  have "off div 512 \<le> q div 512" using assms(1) by (intro div_le_mono) simp
  moreover have "q div 512 < off div 512 + 1" using assms(2) by (intro less_mult_imp_div_less) (simp only: mult.commute)
  ultimately show e: "q div 512 = off div 512" by simp
  have "off = off div 512 * 512 + off mod 512" by (rule div_mult_mod_eq [symmetric])
  moreover have "q = off div 512 * 512 + q mod 512" unfolding e [symmetric] by (rule div_mult_mod_eq [symmetric])
  ultimately have "off div 512 * 512 + (off mod 512 + n) \<le> off div 512 * 512 + q mod 512"
    using assms(1) by (simp only: add.assoc [symmetric])
  then show "off mod 512 + n \<le> q mod 512" by (rule add_le_imp_le_left)
qed

lemma append_round:
  assumes inv: "img_inv (m_secs m) (freeblock m) D N I" and i: "inum \<in> I" and N: "N inum = nbs off"
    and bs: "bs \<noteq> []" "off mod 512 + length bs \<le> 512" "off div 512 < 140"
    and room: "freeblock m + (nblk (nbs (off + length bs)) - nblk (nbs off)) \<le> 1024"
  shows "\<exists>d' x m1. iappend_block (D inum) (off div 512) m = Inr ((d', x), m1) \<and> x < length (m_secs m1) \<and>
    appended D N I inum m off bs d' (m1\<lparr>m_secs := (m_secs m1)[x := patch (off mod 512) bs (m_secs m1 ! x)]\<rparr>)"
proof -
  let ?bn = "off div 512" and ?at = "off mod 512"
  have l: "0 < length bs" using bs(1) by simp
  note nb = nbs_in_block [OF l bs(2)]
  obtain d' m1 where r: "iappend_block (D inum) ?bn m = Inr ((d', faddr (m_secs m1) d' ?bn), m1)" and g: "got_block D N I inum ?bn m d' m1"
    using iappend_block_spec [OF inv i _ bs(3)] nb(1,2) N room by auto
  let ?img = "m_secs m1" and ?D = "D(inum := d')" and ?N = "N(inum := ?bn + 1)"
  let ?x = "faddr ?img d' ?bn"
  have inv1: "img_inv ?img (freeblock m1) ?D ?N I" and k1: "kept_files D N I inum m m1"
    and fb1: "freeblock m1 = freeblock m + (nblk (?bn + 1) - nblk (N inum))" "usedblocks m1 = usedblocks m + (nblk (?bn + 1) - nblk (N inum))"
    and d': "d' = (D inum)\<lparr>d_addrs := d_addrs d'\<rparr>"
    and old: "\<And>j. j < N inum \<Longrightarrow> ?img ! faddr ?img d' j = m_secs m ! faddr (m_secs m) (D inum) j"
    and fresh: "N inum = ?bn \<Longrightarrow> ?img ! ?x = zeroes"
    using g unfolding got_block_def by blast+
  note v = img_invD [OF inv1]
  have x: "?x < 1024" "29 \<le> ?x" using data_write(3,4) [OF inv1 i, of ?bn zeroes] by simp_all
  let ?b = "patch ?at bs (?img ! ?x)"
  have lb: "length (?img ! ?x) = 512" using v(2) [OF x(1)] .
  have b: "length ?b = 512" using lb bs(2) by (simp add: patch_nth)
  let ?img' = "?img[?x := ?b]" and ?m' = "m1\<lparr>m_secs := ?img[?x := ?b]\<rparr>"
  note w = data_write [OF inv1 i _ b, of ?bn, simplified]
  have slot': "slot ?img' d' j = slot ?img d' j" for j using w(2) .
  have k2: "kept_files ?D ?N I inum m1 ?m'" using w(7) x(2) by (simp add: kept_files_def)
  have k: "kept_files D N I inum m ?m'" by (rule kept_files_trans [OF k1 k2 inv])
  have byte: "?img' ! faddr ?img' d' (q div 512) ! (q mod 512) = (fbytes (m_secs m) (D inum) off @ bs) ! q" if q: "q < off + length bs" for q
  proof (cases "q < off")
    case True
    then have le: "q div 512 \<le> ?bn" by (simp add: div_le_mono)
    have f: "(fbytes (m_secs m) (D inum) off @ bs) ! q = m_secs m ! faddr (m_secs m) (D inum) (q div 512) ! (q mod 512)"
      using True by (simp add: nth_append fbytes_def)
    show ?thesis
    proof (cases "q div 512 = ?bn")
      case True
      then have at: "q mod 512 < ?at" using \<open>q < off\<close> by (metis div_mult_mod_eq nat_add_left_cancel_less)
      then have "?bn < N inum" using nb(3) N by simp
      then have "?img ! ?x = m_secs m ! faddr (m_secs m) (D inum) ?bn" by (rule old)
      then show ?thesis unfolding f slot' True using w(6) at lb bs(2) by (simp add: patch_nth)
    next
      case False
      then have lt: "q div 512 < ?bn" using le by simp
      then have "q div 512 < N inum" using nb(2) N by auto
      then show ?thesis unfolding f slot' w(5) [OF lt] by (simp add: old)
    qed
  next
    case False
    then obtain r where r: "q = off + r" "r < length bs" using q by (metis le_add_diff_inverse nat_add_left_cancel_less not_less)
    have "off + r = 512 * ?bn + (?at + r)" "?at + r < 512" using r(2) bs(2) by simp_all
    then have qd: "q div 512 = ?bn" "q mod 512 = ?at + r" unfolding r(1) by (metis add.commute div_mult_self4 div_less add_0 zero_neq_numeral mod_mult_self2 mod_less)+
    show ?thesis unfolding qd slot' w(6) using r lb bs(2) by (simp add: patch_nth nth_append fbytes_def)
  qed
  have "fbytes ?img' d' (off + length bs) = fbytes (m_secs m) (D inum) off @ bs"
    by (rule nth_equalityI) (use byte in \<open>simp_all add: fbytes_def\<close>)
  moreover have "padded ?img' d' (off + length bs)" if pad: "padded (m_secs m) (D inum) off"
    unfolding padded_def
  proof (intro allI impI)
    fix q assume q: "off + length bs \<le> q" "q < 512 * nbs (off + length bs)"
    have qd: "q div 512 = ?bn" and qm: "?at + length bs \<le> q mod 512" by (rule same_block [OF q [unfolded nb(1)]])+
    have "?img ! ?x ! (q mod 512) = 0"
    proof (cases "N inum = ?bn")
      case False
      then have "N inum = ?bn + 1" using nb(2) N by auto
      then have "?img ! ?x = m_secs m ! faddr (m_secs m) (D inum) ?bn" "nbs off = nbs (off + length bs)" using old [of ?bn] nb(1) N by simp_all
      then show ?thesis using pad [unfolded padded_def, rule_format, of q] q qd by simp
    qed (simp add: fresh)
    then show "?img' ! faddr ?img' d' (q div 512) ! (q mod 512) = 0" unfolding qd slot' w(6) using qm lb bs(2) by (simp add: patch_nth)
  qed
  ultimately have "appended D N I inum m off bs d' ?m'"
    unfolding appended_def using w(1) k fb1 d' nb(1) N by simp
  then show ?thesis using r x(1) v(1) by auto
qed

lemma block_rest: "(off div 512 + 1) * 512 - off = 512 - off mod 512" "off - off div 512 * 512 = off mod (512 :: nat)"
proof -
  have "(off div 512 + 1) * 512 - (off div 512 * 512 + off mod 512) = 512 - off mod 512" by (simp only: add_mult_distrib diff_cancel2)
  then show "(off div 512 + 1) * 512 - off = 512 - off mod 512" by simp
  show "off - off div 512 * 512 = off mod 512" by (rule minus_div_mult_eq_mod)
qed

lemma iappend_loop_spec:
  assumes "img_inv (m_secs m) (freeblock m) D N I" "inum \<in> I" "N inum = nbs off" "length p \<le> k" "off + length p \<le> 140 * 512"
    "freeblock m + (nblk (nbs (off + length p)) - nblk (nbs off)) \<le> 1024"
  shows "\<exists>d' m'. iappend_loop k (D inum) off p m = Inr ((d', off + length p), m') \<and> appended D N I inum m off p d' m'"
  using assms
proof (induction k arbitrary: D N off p m)
  case 0
  then show ?case using appended_nil [of m D N I inum off] by (simp add: mk_simps)
next
  case (Suc k)
  note inv = Suc.prems(1) and N = Suc.prems(3)
  show ?case
  proof (cases "p = []")
    case True
    then show ?thesis using appended_nil [of m D N I inum off] Suc.prems by (simp add: mk_simps)
  next
    case False
    let ?bn = "off div 512" and ?at = "off mod 512"
    define n1 where "n1 = min (length p) (512 - ?at)"
    have lt: "?at < 512" by simp
    have e: "(?bn + 1) * 512 - off = 512 - ?at" "off - ?bn * 512 = ?at"
      by (rule block_rest)+
    let ?bs = "take n1 p" and ?ps = "drop n1 p"
    have l: "length ?bs = n1" "0 < n1" "n1 \<le> length p" "?at + n1 \<le> 512" using False lt by (auto simp: n1_def)
    then have l': "?bs \<noteq> []" "?at + length ?bs \<le> 512" "length ?ps \<le> k" "off + length ?bs + length ?ps = off + length p" using Suc.prems(4) by auto
    have bn: "?bn < 140" using Suc.prems(5) l(2,3) by (simp add: less_mult_imp_div_less)
    have mono: "nblk (nbs off) \<le> nblk (nbs (off + n1))" "nblk (nbs (off + n1)) \<le> nblk (nbs (off + length p))"
      using l(3) by (simp_all add: nblk_mono)
    have room: "freeblock m + (nblk (nbs (off + length ?bs)) - nblk (nbs off)) \<le> 1024" using Suc.prems(6) mono l(1) by simp
    from append_round [OF inv Suc.prems(2) N l'(1,2) bn room]
    obtain d1 x m1 where r: "iappend_block (D inum) ?bn m = Inr ((d1, x), m1)" "x < length (m_secs m1)"
      and a: "appended D N I inum m off ?bs d1 (m1\<lparr>m_secs := (m_secs m1)[x := patch ?at ?bs (m_secs m1 ! x)]\<rparr>)" (is "appended _ _ _ _ _ _ _ _ ?m1") by blast
    note A = appendedD [OF a]
    let ?D = "D(inum := d1)" and ?N = "N(inum := nbs (off + length ?bs))"
    have "\<exists>d' m'. iappend_loop k (?D inum) (off + length ?bs) ?ps ?m1 = Inr ((d', off + length ?bs + length ?ps), m') \<and>
        appended ?D ?N I inum ?m1 (off + length ?bs) ?ps d' m'"
      by (rule Suc.IH [OF A(1) Suc.prems(2) _ l'(3)]) (use Suc.prems(5,6) l l'(4) A(3) mono in auto)
    then obtain d2 m2 where i: "iappend_loop k d1 (off + n1) ?ps ?m1 = Inr ((d2, off + length p), m2)"
      and b: "appended ?D ?N I inum ?m1 (off + length ?bs) ?ps d2 m2" using l(1) l'(4) by auto
    have "iappend_loop (Suc k) (D inum) off p m = Inr ((d2, off + length p), m2)"
      unfolding iappend_loop.simps Let_def e n1_def [symmetric]
      using False r i l(1) by (simp add: mk_simps rsect_def wsect_def patch_def)
    moreover have "appended D N I inum m off p d2 m2" using appended_trans [OF a b inv] by simp
    ultimately show ?thesis by blast
  qed
qed

end
