(* ===== verification/Mkinode.thy ===== *)
theory Mkinode
  imports Mkfs
begin

text \<open>
  Lemmas on \<open>mkfs\<close> (\<open>src/mkfs.c\<close>): the inodes of the image, and what appending to a file does
  to it.
\<close>

section \<open>Lemmas: inodes of the image\<close>

definition inode_of :: "mkfs \<Rightarrow> nat \<Rightarrow> dinode" where
  "inode_of m i = get_dinode (m_secs m ! i2b i) (i mod 8)"

abbreviation fsz :: "mkfs \<Rightarrow> nat \<Rightarrow> nat" where
  "fsz m i \<equiv> unat (d_size (inode_of m i))"

definition fdata :: "mkfs \<Rightarrow> nat \<Rightarrow> bytes" where
  "fdata m i = fbytes (m_secs m) (inode_of m i) (fsz m i)"

text \<open>The invariant of the program between two calls: the inodes are those below \<open>freeinode\<close>.\<close>

definition mk_inv :: "mkfs \<Rightarrow> bool" where
  "mk_inv m = (img_inv (m_secs m) (freeblock m) (inode_of m) (\<lambda>i. nbs (fsz m i)) {1..<freeinode m} \<and>
     usedblocks m = freeblock m \<and> 1 \<le> freeinode m \<and> freeinode m \<le> 208 \<and>
     freeblock m = 29 + (\<Sum>i = 1..<freeinode m. nblk (nbs (fsz m i))) \<and>
     (\<forall>i \<in> {1..<freeinode m}. padded (m_secs m) (inode_of m i) (fsz m i)))"

lemma mk_invD:
  assumes "mk_inv m"
  shows "img_inv (m_secs m) (freeblock m) (inode_of m) (\<lambda>i. nbs (fsz m i)) {1..<freeinode m}"
    "usedblocks m = freeblock m" "1 \<le> freeinode m" "freeinode m \<le> 208"
    "freeblock m = 29 + (\<Sum>i = 1..<freeinode m. nblk (nbs (fsz m i)))"
    "length (m_secs m) = 1024" "\<And>x. x < 1024 \<Longrightarrow> length (m_secs m ! x) = 512"
    "\<And>i. i \<in> {1..<freeinode m} \<Longrightarrow> padded (m_secs m) (inode_of m i) (fsz m i)"
  using assms unfolding mk_inv_def img_inv_def by blast+

definition put_inode :: "nat \<Rightarrow> dinode \<Rightarrow> mkfs \<Rightarrow> mkfs" where
  "put_inode inum d m = m\<lparr>m_secs := (m_secs m)[i2b inum := put_dinode (m_secs m ! i2b inum) (inum mod 8) d]\<rparr>"

lemma i2b_low: "inum < 208 \<Longrightarrow> 2 \<le> i2b inum \<and> i2b inum < 28"
proof -
  assume "inum < 208"
  then have "inum div 8 < 26" by (simp add: less_mult_imp_div_less)
  then show ?thesis by (simp add: i2b_def)
qed

lemma inode_slot_nat: "64 * (i mod 8) + 64 \<le> (512 :: nat)"
proof -
  have "i mod 8 < 8" by simp
  then show ?thesis by linarith
qed

lemma winode_run: "inum < 208 \<Longrightarrow> length (m_secs m) = 1024 \<Longrightarrow> winode inum d m = Inr ((), put_inode inum d m)"
  using i2b_low [of inum] by (simp add: winode_def mk_simps rsect_def wsect_def put_inode_def)

lemma rinode_run: "inum < 208 \<Longrightarrow> length (m_secs m) = 1024 \<Longrightarrow> rinode inum m = Inr (inode_of m inum, m)"
  using i2b_low [of inum] by (simp add: rinode_def mk_simps rsect_def inode_of_def)

lemma put_inode:
  fixes m :: mkfs and d :: dinode
  assumes "inum < 208" "length (m_secs m) = 1024" "\<forall>x < 1024. length (m_secs m ! x) = 512"
  defines "m' \<equiv> put_inode inum d m"
  shows "length (d_addrs d) = 13 \<Longrightarrow> inode_of m' inum = d" "j \<noteq> inum \<Longrightarrow> inode_of m' j = inode_of m j"
    "length (m_secs m') = 1024" "\<forall>x < 1024. length (m_secs m' ! x) = 512" "x \<noteq> i2b inum \<Longrightarrow> m_secs m' ! x = m_secs m ! x"
    "freeblock m' = freeblock m" "usedblocks m' = usedblocks m" "freeinode m' = freeinode m"
proof -
  have b: "i2b inum < 1024" using i2b_low [OF assms(1)] by simp
  then have l: "length (m_secs m ! i2b inum) = 512" using assms(3) by simp
  then have l': "64 * (j mod 8) + 64 \<le> length (m_secs m ! i2b inum)" for j using inode_slot_nat [of j] by simp
  show "inode_of m' inum = d" if "length (d_addrs d) = 13"
    using b assms(2) get_put_dinode [OF l' that] by (simp add: inode_of_def m'_def put_inode_def)
  show "inode_of m' j = inode_of m j" if "j \<noteq> inum"
  proof (cases "i2b j = i2b inum")
    case True
    then have "j mod 8 \<noteq> inum mod 8" using that by (metis add_right_cancel div_mod_decomp i2b_def)
    then show ?thesis using True b assms(2) get_put_dinode_other [OF l' l'] by (simp add: inode_of_def m'_def put_inode_def)
  qed (simp add: inode_of_def m'_def put_inode_def)
  show "\<forall>x < 1024. length (m_secs m' ! x) = 512"
    using assms(2,3) b l l' by (simp add: m'_def put_inode_def nth_list_update)
qed (use assms(2) in \<open>simp_all add: m'_def put_inode_def\<close>)

lemma img_inv_low:
  assumes inv: "img_inv img fb D N I" and img': "length img' = 1024" "\<forall>x < 1024. length (img' ! x) = 512" "\<forall>x. 29 \<le> x \<longrightarrow> img' ! x = img ! x"
  shows "img_inv img' fb D N I"
proof -
  note v = img_invD [OF inv]
  have f: "\<forall>x \<in> fblocks img (D i) (N i). img' ! x = img ! x" if "i \<in> I" for i using v(7) [OF that] img'(3) by auto
  have "good img' (D i) (N i)" "fblocks img' (D i) (N i) = fblocks img (D i) (N i)" if "i \<in> I" for i
    using file_frame [OF f [OF that] v(6) [OF that]] by auto
  then show ?thesis using inv img' v(3) by (auto simp: img_inv_def)
qed

lemma slot_addrs: "d_addrs d' = d_addrs d \<Longrightarrow> slot img d' = slot img d"
  by (simp add: slot_def fun_eq_iff)

lemma file_addrs:
  assumes "d_addrs d' = d_addrs d"
  shows "good img d' nb = good img d nb" "fblocks img d' nb = fblocks img d nb" "fbytes img d' n = fbytes img d n"
    "padded img d' n = padded img d n"
  using assms by (simp_all add: good_def fblocks_def fbytes_def padded_def slot_addrs [OF assms])

lemma padded_frame:
  assumes "\<forall>x \<in> fblocks img d (nbs n). img' ! x = img ! x" "good img d (nbs n)"
  shows "padded img' d n = padded img d n"
proof -
  have "img' ! faddr img d (i div 512) = img ! faddr img d (i div 512)" if "i < 512 * nbs n" for i
    using assms(1) that by (auto simp: fblocks_def less_mult_imp_div_less)
  then show ?thesis by (auto simp: padded_def slot_frame [OF assms])
qed

lemma img_inv_cong:
  assumes "img_inv img fb D N I" "\<And>i. i \<in> I \<Longrightarrow> d_addrs (D' i) = d_addrs (D i) \<and> N' i = N i"
  shows "img_inv img fb D' N' I"
proof -
  have "good img (D' i) (N' i) = good img (D i) (N i)" "fblocks img (D' i) (N' i) = fblocks img (D i) (N i)" if "i \<in> I" for i
    using assms(2) [OF that] file_addrs [of "D' i" "D i"] by auto
  then show ?thesis using assms(1) by (simp add: img_inv_def)
qed

lemma length_fdata [simp]: "length (fdata m i) = fsz m i"
  by (simp add: fdata_def fbytes_def)

text \<open>What \<open>iappend\<close> does to the image: the file \<open>inum\<close> is longer, all others are the same.\<close>

definition grew :: "nat \<Rightarrow> bytes \<Rightarrow> mkfs \<Rightarrow> mkfs \<Rightarrow> bool" where
  "grew inum p m m' = (mk_inv m' \<and> freeinode m' = freeinode m \<and> fdata m' inum = fdata m inum @ p \<and>
     d_type (inode_of m' inum) = d_type (inode_of m inum) \<and> d_nlink (inode_of m' inum) = d_nlink (inode_of m inum) \<and>
     (\<forall>j \<in> {1..<freeinode m}. j \<noteq> inum \<longrightarrow> inode_of m' j = inode_of m j \<and> fdata m' j = fdata m j) \<and>
     (\<forall>x < 2. m_secs m' ! x = m_secs m ! x))"

lemma nbs_div: "n \<le> 512 * nbs n"
  using dividend_less_times_div [of 512 "n + 511"] by (simp add: nbs_def)

lemma sum_update:
  fixes f g :: "nat \<Rightarrow> nat"
  assumes "inum \<in> I" "finite I" "\<And>j. j \<in> I \<Longrightarrow> j \<noteq> inum \<Longrightarrow> g j = f j" "f inum \<le> g inum"
  shows "sum g I = sum f I + (g inum - f inum)"
proof -
  have "sum g (I - {inum}) = sum f (I - {inum})" using assms(3) by (intro sum.cong) auto
  then show ?thesis using assms(1,2,4) by (simp add: sum.remove)
qed

text \<open>Writing the inode completes the work of the loop.\<close>

lemma appended_grew:
  assumes inv: "mk_inv m" and i: "1 \<le> inum" "inum < freeinode m" and sz: "fsz m inum + length p \<le> 140 * 512"
    and a: "appended (inode_of m) (\<lambda>i. nbs (fsz m i)) {1..<freeinode m} inum m (fsz m inum) p d' m1"
  shows "length (m_secs m1) = 1024" "grew inum p m (put_inode inum (d'\<lparr>d_size := of_nat (fsz m inum + length p)\<rparr>) m1)"
proof -
  note v = mk_invD [OF inv]
  let ?I = "{1..<freeinode m}" and ?D = "inode_of m" and ?N = "\<lambda>i. nbs (fsz m i)" and ?off = "fsz m inum"
  have I: "inum \<in> ?I" "inum < 208" using i v(4) by auto
  note A = appendedD [OF a] and w = img_invD [OF appendedD(1) [OF a]]
  have k: "freeinode m1 = freeinode m" "\<And>x. x < 29 \<Longrightarrow> m_secs m1 ! x = m_secs m ! x"
    "\<And>j x. j \<in> ?I \<Longrightarrow> j \<noteq> inum \<Longrightarrow> x \<in> fblocks (m_secs m) (?D j) (?N j) \<Longrightarrow> m_secs m1 ! x = m_secs m ! x"
    using A(2) unfolding kept_files_def by blast+
  have same1: "inode_of m1 j = inode_of m j" if "j < 208" for j using i2b_low [OF that] k(2) [of "i2b j"] by (simp add: inode_of_def)
  define d2 where "d2 = d'\<lparr>d_size := of_nat (?off + length p)\<rparr>"
  have ad: "d_addrs d2 = d_addrs d'" by (simp add: d2_def)
  define m' where "m' = put_inode inum d2 m1"
  have len: "length (d_addrs d') = 13" using w(6) [OF I(1)] by (simp add: good_def)
  have all512: "\<forall>x < 1024. length (m_secs m1 ! x) = 512" using w(2) by blast
  note pi = put_inode [OF I(2) w(1) all512, where d = d2, folded m'_def]
  have size2: "unat (d_size d2) = ?off + length p" using sz unat_of_nat32 [of "?off + length p"] by (simp add: d2_def del: of_nat_add)
  have in': "inode_of m' inum = d2" "\<And>j. j \<in> ?I \<Longrightarrow> j \<noteq> inum \<Longrightarrow> inode_of m' j = inode_of m j"
    using pi(1,2) len same1 v(4) by (simp_all add: d2_def)
  have up: "inode_of m' j = ((?D(inum := d')) j)\<lparr>d_size := d_size (inode_of m' j)\<rparr>" if "j \<in> ?I" for j
    using in' that by (cases "j = inum") (simp_all add: d2_def)
  have N': "nbs (fsz m' j) = (?N(inum := nbs (?off + length p))) j" if "j \<in> ?I" for j
    using in' that size2 by (cases "j = inum") simp_all
  have hi: "\<forall>x. 29 \<le> x \<longrightarrow> m_secs m' ! x = m_secs m1 ! x" using pi(5) i2b_low [OF I(2)] by auto
  have "img_inv (m_secs m') (freeblock m1) (?D(inum := d')) (?N(inum := nbs (?off + length p))) ?I"
    by (rule img_inv_low [OF A(1) pi(3,4) hi])
  then have img: "img_inv (m_secs m') (freeblock m') (inode_of m') (\<lambda>i. nbs (fsz m' i)) {1..<freeinode m'}"
    unfolding pi(6,8) k(1)
  proof (rule img_inv_cong)
    fix j assume "j \<in> {1..<freeinode m}"
    then show "d_addrs (inode_of m' j) = d_addrs ((?D(inum := d')) j) \<and> nbs (fsz m' j) = (?N(inum := nbs (?off + length p))) j"
      using up [of j] N' [of j] by (metis dinode.select_convs(6) dinode.surjective dinode.update_convs(5))
  qed
  have fr: "fdata m' j = fdata m j" "padded (m_secs m') (inode_of m' j) (fsz m' j)" if j: "j \<in> ?I" "j \<noteq> inum" for j
  proof -
    have "\<forall>x \<in> fblocks (m_secs m) (?D j) (?N j). m_secs m' ! x = m_secs m ! x"
      using img_invD(7) [OF v(1) j(1)] k(3) [OF j] hi by auto
    note s = this img_invD(6) [OF v(1) j(1)]
    have "fbytes (m_secs m') (?D j) (fsz m j) = fbytes (m_secs m) (?D j) (fsz m j)" by (rule file_frame(3) [OF s nbs_div])
    then show "fdata m' j = fdata m j" using in'(2) [OF j] by (simp add: fdata_def)
    show "padded (m_secs m') (inode_of m' j) (fsz m' j)" using padded_frame [OF s] v(8) [OF j(1)] in'(2) [OF j] by simp
  qed
  have "\<forall>x \<in> fblocks (m_secs m1) d' (nbs (?off + length p)). m_secs m' ! x = m_secs m1 ! x"
    using w(7) [OF I(1)] hi by auto
  note s = this
  have g1: "good (m_secs m1) d' (nbs (?off + length p))" using w(6) [OF I(1)] by simp
  have pad: "padded (m_secs m') d2 (?off + length p)"
    using padded_frame [OF s g1] A(7) v(8) [OF I(1)] by (simp add: file_addrs(4) [OF ad])
  have "fbytes (m_secs m') d' (?off + length p) = fbytes (m_secs m1) d' (?off + length p)"
    by (rule file_frame(3) [OF s g1 nbs_div])
  then have new: "fdata m' inum = fdata m inum @ p"
    using A(6) in'(1) size2 by (simp add: fdata_def file_addrs(3) [OF ad])
  have "(\<Sum>j \<in> ?I. nblk (nbs (fsz m' j))) = (\<Sum>j \<in> ?I. nblk (nbs (fsz m j))) + (nblk (nbs (fsz m' inum)) - nblk (nbs ?off))"
    by (rule sum_update [OF I(1)]) (use in' size2 in \<open>simp_all add: nblk_mono\<close>)
  moreover have "\<forall>i \<in> ?I. padded (m_secs m') (inode_of m' i) (fsz m' i)"
  proof
    fix j assume "j \<in> ?I"
    then show "padded (m_secs m') (inode_of m' j) (fsz m' j)" using fr(2) pad in'(1) size2 by (cases "j = inum") simp_all
  qed
  ultimately have "mk_inv m'" unfolding mk_inv_def using img v(2,3,4,5) A(3,4) pi(6,7,8) k(1) in'(1) size2 by simp
  moreover have "d_type d2 = d_type (?D inum)" "d_nlink d2 = d_nlink (?D inum)"
    unfolding d2_def by (subst A(5), simp)+
  moreover have "\<forall>x < 2. m_secs m' ! x = m_secs m ! x" using k(2) pi(5) i2b_low [OF I(2)] by auto
  ultimately show "grew inum p m (put_inode inum (d'\<lparr>d_size := of_nat (fsz m inum + length p)\<rparr>) m1)"
    unfolding grew_def m'_def [symmetric] d2_def [symmetric] using new in' fr(1) pi(8) k(1) by auto
qed (rule img_invD(1) [OF appendedD(1) [OF a]])

lemma iappend_spec:
  assumes inv: "mk_inv m" and i: "1 \<le> inum" "inum < freeinode m" and sz: "fsz m inum + length p \<le> 140 * 512"
    and room: "freeblock m + (nblk (nbs (fsz m inum + length p)) - nblk (nbs (fsz m inum))) \<le> 1024"
  shows "\<exists>m'. iappend inum p m = Inr ((), m') \<and> grew inum p m m'"
proof -
  note v = mk_invD [OF inv]
  let ?I = "{1..<freeinode m}" and ?D = "inode_of m" and ?N = "\<lambda>i. nbs (fsz m i)" and ?off = "fsz m inum"
  have I: "inum \<in> ?I" "inum < 208" using i v(4) by auto
  have "\<exists>d' m'. iappend_loop (length p) (?D inum) ?off p m = Inr ((d', ?off + length p), m') \<and> appended ?D ?N ?I inum m ?off p d' m'"
    by (rule iappend_loop_spec [OF v(1) I(1) refl _ sz room]) simp
  then obtain d' m1 where r: "iappend_loop (length p) (?D inum) ?off p m = Inr ((d', ?off + length p), m1)"
    and a: "appended ?D ?N ?I inum m ?off p d' m1" by blast
  note g = appended_grew [OF inv i sz a]
  show ?thesis
    using r I(2) v(6) g by (simp add: iappend_def mk_simps rinode_run winode_run)
qed

lemma grewD:
  assumes "grew inum p m m'"
  shows "mk_inv m'" "freeinode m' = freeinode m" "fdata m' inum = fdata m inum @ p"
    "d_type (inode_of m' inum) = d_type (inode_of m inum)" "d_nlink (inode_of m' inum) = d_nlink (inode_of m inum)"
    "\<And>j. j \<in> {1..<freeinode m} \<Longrightarrow> j \<noteq> inum \<Longrightarrow> inode_of m' j = inode_of m j \<and> fdata m' j = fdata m j"
    "\<And>x. x < 2 \<Longrightarrow> m_secs m' ! x = m_secs m ! x"
  using assms unfolding grew_def by blast+

lemma grew_size: "grew inum p m m' \<Longrightarrow> fsz m' inum = fsz m inum + length p"
  using grewD(3) [of inum p m m'] by (metis length_append length_fdata)

lemma grew_trans: "grew inum p m m1 \<Longrightarrow> grew inum q m1 m2 \<Longrightarrow> grew inum (p @ q) m m2"
  by (simp add: grew_def)

lemma grew_nil: "mk_inv m \<Longrightarrow> grew inum [] m m"
  by (simp add: grew_def)

lemma grew_freeblock:
  assumes "mk_inv m" "inum \<in> {1..<freeinode m}" "grew inum p m m'"
  shows "freeblock m' = freeblock m + (nblk (nbs (fsz m inum + length p)) - nblk (nbs (fsz m inum)))"
proof -
  note g = grewD [OF assms(3)]
  have "(\<Sum>j = 1..<freeinode m. nblk (nbs (fsz m' j))) = (\<Sum>j = 1..<freeinode m. nblk (nbs (fsz m j))) + (nblk (nbs (fsz m' inum)) - nblk (nbs (fsz m inum)))"
    by (rule sum_update [OF assms(2)]) (use g(6) grew_size [OF assms(3)] in \<open>simp_all add: nblk_mono\<close>)
  then show ?thesis using mk_invD(5) [OF g(1)] mk_invD(5) [OF assms(1)] g(2) grew_size [OF assms(3)] by simp
qed

lemma forM_iappend:
  assumes "mk_inv m" "inum \<in> {1..<freeinode m}" "fsz m inum + length (concat cs) \<le> 140 * 512"
    "freeblock m + (nblk (nbs (fsz m inum + length (concat cs))) - nblk (nbs (fsz m inum))) \<le> 1024"
  shows "\<exists>m'. forM cs (iappend inum) m = Inr ((), m') \<and> grew inum (concat cs) m m'"
  using assms
proof (induction cs arbitrary: m)
  case Nil
  then show ?case by (auto simp: mk_simps grew_nil)
next
  case (Cons c cs)
  have mono: "nblk (nbs (fsz m inum)) \<le> nblk (nbs (fsz m inum + length c))"
    "nblk (nbs (fsz m inum + length c)) \<le> nblk (nbs (fsz m inum + length c + length (concat cs)))" by (simp_all add: nblk_mono)
  have "\<exists>m'. iappend inum c m = Inr ((), m') \<and> grew inum c m m'"
    by (rule iappend_spec) (use Cons.prems mono in \<open>simp_all add: add.assoc\<close>)
  then obtain m1 where m1: "iappend inum c m = Inr ((), m1)" "grew inum c m m1" by blast
  note g = grewD [OF m1(2)] and fb = grew_freeblock [OF Cons.prems(1,2) m1(2)] and sz = grew_size [OF m1(2)]
  have "\<exists>m'. forM cs (iappend inum) m1 = Inr ((), m') \<and> grew inum (concat cs) m1 m'"
    by (rule Cons.IH) (use Cons.prems g fb sz mono in \<open>simp_all add: add.assoc\<close>)
  then show ?case using m1 grew_trans [OF m1(2)] by (auto simp: mk_simps)
qed

lemma new_file [simp]: "good img (new_dinode ty) 0" "fblocks img (new_dinode ty) 0 = {}" "nbs 0 = 0" "nblk 0 = 0" "unat (d_size (new_dinode ty)) = 0"
  "padded img (new_dinode ty) 0" "length (d_addrs (new_dinode ty)) = 13"
  by (simp_all add: good_def fblocks_def new_dinode_def nbs_def nblk_def padded_def slot_def)

lemma img_inv_insert:
  assumes "img_inv img fb D N I" "N n = 0" "good img (D n) 0"
  shows "img_inv img fb D N (insert n I)"
proof -
  have e: "fblocks img (D n) (N n) = {}" using assms(2) by (simp add: fblocks_def)
  have g: "good img (D n) (N n)" using assms(2,3) by simp
  show ?thesis unfolding img_inv_def
  proof (intro conjI ballI impI)
    fix i assume "i \<in> insert n I"
    then show "good img (D i) (N i)" "fblocks img (D i) (N i) \<subseteq> {29..<fb}" using g e img_invD(6,7) [OF assms(1)] by auto
    fix j assume "j \<in> insert n I" "i \<noteq> j"
    then show "fblocks img (D i) (N i) \<inter> fblocks img (D j) (N j) = {}"
      using \<open>i \<in> insert n I\<close> e assms(1) unfolding img_inv_def by blast
  qed (use assms(1) in \<open>simp_all add: img_inv_def\<close>)
qed

end
