(* ===== verification/Mkimage.thy ===== *)
theory Mkimage
  imports Mkinode
begin

text \<open>
  The image that \<open>mkfs\<close> (\<open>src/mkfs.c\<close>) leaves: what the kernel reads from it is what was put
  into it.
\<close>

section \<open>Lemmas: creating a file\<close>

lemma ialloc_spec:
  assumes inv: "mk_inv m" and n: "freeinode m < 208"
  shows "\<exists>m'. mk_ialloc ty m = Inr (freeinode m, m') \<and> mk_inv m' \<and> freeinode m' = freeinode m + 1 \<and>
    freeblock m' = freeblock m \<and> inode_of m' (freeinode m) = new_dinode ty \<and> fdata m' (freeinode m) = [] \<and>
    (\<forall>j \<in> {1..<freeinode m}. inode_of m' j = inode_of m j \<and> fdata m' j = fdata m j) \<and> (\<forall>x < 2. m_secs m' ! x = m_secs m ! x)"
proof -
  note v = mk_invD [OF inv]
  let ?n = "freeinode m" and ?m = "m\<lparr>freeinode := freeinode m + 1\<rparr>"
  define m' where "m' = put_inode ?n (new_dinode ty) ?m"
  have s512: "\<forall>x < 1024. length (m_secs ?m ! x) = 512" using v(7) by simp
  have io: "inode_of ?m j = inode_of m j" for j by (simp add: inode_of_def)
  note pi = put_inode [OF n _ s512, where d = "new_dinode ty", folded m'_def, unfolded io]
  have len: "length (m_secs ?m) = 1024" using v(6) by simp
  note pi = pi [OF len]
  have run: "mk_ialloc ty m = Inr (?n, m')" using winode_run [OF n len] by (simp add: mk_ialloc_def mk_simps m'_def)
  have hi: "m_secs m' ! x = m_secs m ! x" if "29 \<le> x \<or> x < 2" for x using pi(5) [of x] i2b_low [OF n] that by auto
  have new: "inode_of m' ?n = new_dinode ty" and old: "\<And>j. j \<in> {1..<?n} \<Longrightarrow> inode_of m' j = inode_of m j" using pi(1,2) by auto
  have inv0: "img_inv (m_secs m') (freeblock m) (inode_of m) (\<lambda>i. nbs (fsz m i)) {1..<?n}"
    by (rule img_inv_low [OF v(1) pi(3,4)]) (use hi in blast)
  then have inv1: "img_inv (m_secs m') (freeblock m) (inode_of m') (\<lambda>i. nbs (fsz m' i)) {1..<?n}"
    by (rule img_inv_cong) (use old in simp)
  have I: "{1..<freeinode m'} = insert ?n {1..<?n}" using pi(8) v(3) by auto
  have e: "nbs (fsz m' ?n) = 0" using new by simp
  have img: "img_inv (m_secs m') (freeblock m') (inode_of m') (\<lambda>i. nbs (fsz m' i)) {1..<freeinode m'}"
    unfolding I pi(6) by (rule img_inv_insert) (use inv1 e new in simp_all)
  have fr: "fdata m' j = fdata m j" "padded (m_secs m') (inode_of m' j) (fsz m' j)" if j: "j \<in> {1..<?n}" for j
  proof -
    have "\<forall>x \<in> fblocks (m_secs m) (inode_of m j) (nbs (fsz m j)). m_secs m' ! x = m_secs m ! x"
      using img_invD(7) [OF v(1) j] hi by auto
    note s = this img_invD(6) [OF v(1) j]
    show "fdata m' j = fdata m j" using file_frame(3) [OF s nbs_div] old [OF j] by (simp add: fdata_def)
    show "padded (m_secs m') (inode_of m' j) (fsz m' j)" using padded_frame [OF s] v(8) [OF j] old [OF j] by simp
  qed
  have sum: "(\<Sum>j = 1..<freeinode m'. nblk (nbs (fsz m' j))) = (\<Sum>j = 1..<?n. nblk (nbs (fsz m j)))"
  proof -
    have "(\<Sum>j = 1..<?n. nblk (nbs (fsz m' j))) = (\<Sum>j = 1..<?n. nblk (nbs (fsz m j)))" by (rule sum.cong) (use old in simp_all)
    then show ?thesis unfolding I using e by simp
  qed
  have "\<forall>i \<in> {1..<freeinode m'}. padded (m_secs m') (inode_of m' i) (fsz m' i)"
    unfolding I
  proof
    fix i assume "i \<in> insert ?n {1..<?n}"
    then consider "i = ?n" | "i \<in> {1..<?n}" by blast
    then show "padded (m_secs m') (inode_of m' i) (fsz m' i)" by cases (use new in simp, rule fr(2))
  qed
  then have "mk_inv m'" unfolding mk_inv_def using img sum v(2,3,4,5) pi(6,7,8) n by simp
  moreover have "fdata m' ?n = []" using new by (simp add: fdata_def fbytes_def)
  ultimately show ?thesis using run pi(6,8) new old fr(1) hi by (intro exI [of _ m'] conjI ballI allI impI) simp_all
qed

section \<open>Lemmas: the files of the image\<close>

text \<open>
  The files are the list \<open>fs\<close> of their names and contents. Their directory entries follow those
  of \<open>.\<close> and \<open>..\<close> in the root directory.
\<close>

definition entry :: "nat \<Rightarrow> bytes \<Rightarrow> bytes" where
  "entry inum nm = put_dirent \<lparr>de_inum = of_nat inum, de_name = dir_name nm\<rparr>"

definition dir_bytes :: "(bytes \<times> bytes) list \<Rightarrow> bytes" where
  "dir_bytes fs = entry 1 [46] @ entry 1 [46, 46] @ concat (map (\<lambda>k. entry (k + 2) (fst (fs ! k))) [0..<length fs])"

text \<open>The blocks that the files and the root directory take.\<close>

definition blocks_of :: "(bytes \<times> bytes) list \<Rightarrow> nat" where
  "blocks_of fs = nblk (nbs (16 * (length fs + 2))) + (\<Sum>f \<leftarrow> fs. nblk (nbs (length (snd f))))"

definition stores :: "mkfs \<Rightarrow> (bytes \<times> bytes) list \<Rightarrow> bool" where
  "stores m fs = (mk_inv m \<and> freeinode m = length fs + 2 \<and> m_secs m ! 1 = mk_superblock \<and>
     fdata m 1 = dir_bytes fs \<and> d_type (inode_of m 1) = 1 \<and> d_nlink (inode_of m 1) = 1 \<and>
     (\<forall>k < length fs. fdata m (k + 2) = snd (fs ! k) \<and> d_type (inode_of m (k + 2)) = 2 \<and> d_nlink (inode_of m (k + 2)) = 1))"

lemma length_entry [simp]: "length (entry inum nm) = 16"
  by (simp add: entry_def put_dirent_def dir_name_def)

lemma length_dir_bytes [simp]: "length (dir_bytes fs) = 16 * (length fs + 2)"
  by (simp add: dir_bytes_def length_concat o_def sum_list_triv)

lemma dir_bytes_snoc: "dir_bytes (fs @ [f]) = dir_bytes fs @ entry (length fs + 2) (fst f)"
proof -
  have e: "map (\<lambda>k. entry (k + 2) (fst ((fs @ [f]) ! k))) [0..<length fs] = map (\<lambda>k. entry (k + 2) (fst (fs ! k))) [0..<length fs]"
    by (rule map_cong) (simp_all add: nth_append)
  show ?thesis unfolding dir_bytes_def length_append_singleton upt_Suc_append [OF le0] map_append concat_append e by simp
qed

lemma storesD:
  assumes "stores m fs"
  shows "mk_inv m" "freeinode m = length fs + 2" "m_secs m ! 1 = mk_superblock" "fdata m 1 = dir_bytes fs"
    "d_type (inode_of m 1) = 1" "d_nlink (inode_of m 1) = 1"
    "\<And>k. k < length fs \<Longrightarrow> fdata m (k + 2) = snd (fs ! k) \<and> d_type (inode_of m (k + 2)) = 2 \<and> d_nlink (inode_of m (k + 2)) = 1"
  using assms unfolding stores_def by blast+

lemma stores_size: "stores m fs \<Longrightarrow> fsz m 1 = 16 * (length fs + 2)" "stores m fs \<Longrightarrow> k < length fs \<Longrightarrow> fsz m (k + 2) = length (snd (fs ! k))"
  using storesD(4,7) [of m fs] by (metis length_fdata length_dir_bytes, metis length_fdata)

text \<open>The length of file \<open>i\<close>, the root directory being the first one.\<close>

definition file_len :: "(bytes \<times> bytes) list \<Rightarrow> nat \<Rightarrow> nat" where
  "file_len fs i = (if i = 1 then 16 * (length fs + 2) else length (snd (fs ! (i - 2))))"

lemma stores_len:
  assumes "stores m fs" "i \<in> {1..<length fs + 2}"
  shows "fsz m i = file_len fs i"
proof (cases "i = 1")
  case False
  then have "i = (i - 2) + 2" "i - 2 < length fs" using assms(2) by auto
  then show ?thesis using stores_size(2) [OF assms(1), of "i - 2"] False by (simp add: file_len_def)
qed (use stores_size(1) [OF assms(1)] in \<open>simp add: file_len_def\<close>)

lemma blocks_of_sum: "(\<Sum>i = 1..<length fs + 2. nblk (nbs (file_len fs i))) = blocks_of fs"
proof -
  have "(\<Sum>i = 1..<length fs + 2. nblk (nbs (file_len fs i))) = nblk (nbs (file_len fs 1)) + (\<Sum>i = 0 + 2..<length fs + 2. nblk (nbs (file_len fs i)))"
    by (subst sum.atLeast_Suc_lessThan) (simp_all add: numeral_2_eq_2)
  also have "(\<Sum>i = 0 + 2..<length fs + 2. nblk (nbs (file_len fs i))) = (\<Sum>k = 0..<length fs. nblk (nbs (file_len fs (k + 2))))"
    by (rule sum.shift_bounds_nat_ivl)
  also have "\<dots> = (\<Sum>f \<leftarrow> fs. nblk (nbs (length (snd f))))" by (simp add: sum_list_sum_nth file_len_def)
  finally show ?thesis by (simp add: blocks_of_def file_len_def)
qed

lemma stores_freeblock:
  assumes "stores m fs"
  shows "freeblock m = 29 + blocks_of fs"
proof -
  note h = storesD [OF assms]
  have "(\<Sum>i = 1..<length fs + 2. nblk (nbs (fsz m i))) = (\<Sum>i = 1..<length fs + 2. nblk (nbs (file_len fs i)))"
    by (rule sum.cong) (use stores_len [OF assms] in simp_all)
  then show ?thesis using mk_invD(5) [OF h(1)] h(2) blocks_of_sum [of fs] by simp
qed

lemma blocks_of_snoc:
  "blocks_of (fs @ [f]) = blocks_of fs + (nblk (nbs (16 * (length fs + 2) + 16)) - nblk (nbs (16 * (length fs + 2)))) + nblk (nbs (length (snd f)))"
  using nblk_mono(1) [OF nblk_mono(2), of "16 * (length fs + 2)" "16 * (length fs + 2) + 16"] by (simp add: blocks_of_def algebra_simps)

lemma blocks_of_mono: "blocks_of fs \<le> blocks_of (fs @ gs)"
  by (induction gs rule: rev_induct) (simp_all add: blocks_of_snoc flip: append_assoc)

definition host_data :: "host_file \<Rightarrow> bytes \<times> bytes" where
  "host_data f = (skip_underscore (fst f), concat (the (snd f)))"

definition readable_file :: "host_file \<Rightarrow> bool" where
  "readable_file f = (47 \<notin> set (fst f) \<and> snd f \<noteq> None \<and> length (snd (host_data f)) \<le> 140 * 512)"

lemma add_file_spec:
  assumes h: "stores m fs" and f: "readable_file f" and n: "length fs < 206" and room: "29 + blocks_of (fs @ [host_data f]) \<le> 1024"
  shows "\<exists>m'. add_file f m = Inr ((), m') \<and> stores m' (fs @ [host_data f])"
proof -
  obtain nm reads where fe: "f = (nm, Some reads)" "47 \<notin> set nm" "length (concat reads) \<le> 140 * 512" and hd: "host_data f = (skip_underscore nm, concat reads)"
    using f by (cases f) (auto simp: readable_file_def host_data_def)
  note v = storesD [OF h] and fb = stores_freeblock [OF h] and sz = stores_size [OF h]
  note bs = blocks_of_snoc [of fs "host_data f"]
  let ?n = "length fs + 2" and ?e = "entry (length fs + 2) (skip_underscore nm)"
  obtain m1 where m1: "mk_ialloc 2 m = Inr (?n, m1)" "mk_inv m1" "freeinode m1 = ?n + 1" "freeblock m1 = freeblock m"
    "inode_of m1 ?n = new_dinode 2" "fdata m1 ?n = []" "\<And>j. j \<in> {1..<?n} \<Longrightarrow> inode_of m1 j = inode_of m j \<and> fdata m1 j = fdata m j"
    "\<And>x. x < 2 \<Longrightarrow> m_secs m1 ! x = m_secs m ! x"
    using ialloc_spec [OF v(1), of 2] n v(2) by auto
  have i1: "1 \<in> {1..<freeinode m1}" "?n \<in> {1..<freeinode m1}" using m1(3) by auto
  have s1: "fsz m1 1 = 16 * (length fs + 2)" using m1(7) [of 1] sz(1) by simp
  have "\<exists>m'. iappend 1 ?e m1 = Inr ((), m') \<and> grew 1 ?e m1 m'"
    by (rule iappend_spec [OF m1(2)]) (use i1 s1 n room bs fb m1(4) in auto)
  then obtain m2 where m2: "iappend 1 ?e m1 = Inr ((), m2)" "grew 1 ?e m1 m2" by blast
  note g2 = grewD [OF m2(2)]
  have fb2: "freeblock m2 = freeblock m1 + (nblk (nbs (16 * (length fs + 2) + 16)) - nblk (nbs (16 * (length fs + 2))))"
    using grew_freeblock [OF m1(2) i1(1) m2(2)] s1 by simp
  have i2: "?n \<in> {1..<freeinode m2}" "fsz m2 ?n = 0" using g2(2) g2(6) [OF i1(2)] m1(3,5) by auto
  have "\<exists>m'. forM reads (iappend ?n) m2 = Inr ((), m') \<and> grew ?n (concat reads) m2 m'"
    by (rule forM_iappend [OF g2(1) i2(1)]) (use i2(2) fe(3) room bs hd fb m1(4) fb2 in auto)
  then obtain m3 where m3: "forM reads (iappend ?n) m2 = Inr ((), m3)" "grew ?n (concat reads) m2 m3" by blast
  note g3 = grewD [OF m3(2)]
  have run: "add_file f m = Inr ((), m3)"
    using fe m1(1) m2(1) m3(1) by (simp add: add_file_def add_entry_def entry_def mk_simps)
  have root: "fdata m3 1 = dir_bytes (fs @ [host_data f])" "d_type (inode_of m3 1) = 1" "d_nlink (inode_of m3 1) = 1"
    using g3(6) [of 1] g2(2,3,4,5) m1(3) m1(7) [of 1] v(4,5,6) hd by (simp_all add: dir_bytes_snoc)
  have new: "fdata m3 ?n = concat reads" "d_type (inode_of m3 ?n) = 2" "d_nlink (inode_of m3 ?n) = 1"
    using g3(3,4,5) g2(6) [OF i1(2)] m1(5,6) by (simp_all add: new_dinode_def)
  have old: "fdata m3 (k + 2) = snd (fs ! k) \<and> d_type (inode_of m3 (k + 2)) = 2 \<and> d_nlink (inode_of m3 (k + 2)) = 1" if "k < length fs" for k
    using g3(6) [of "k + 2"] g2(2) g2(6) [of "k + 2"] m1(3) m1(7) [of "k + 2"] v(7) [OF that] that by simp
  have "\<forall>k < length (fs @ [host_data f]). fdata m3 (k + 2) = snd ((fs @ [host_data f]) ! k) \<and> d_type (inode_of m3 (k + 2)) = 2 \<and> d_nlink (inode_of m3 (k + 2)) = 1"
    using old new hd by (auto simp: nth_append less_Suc_eq)
  then have "stores m3 (fs @ [host_data f])"
    unfolding stores_def using root g3(1,2) g2(2) m1(3) g3(7) [of 1] g2(7) [of 1] m1(8) [of 1] v(3) by simp
  then show ?thesis using run by blast
qed

lemma forM_append: "forM (xs @ ys) f = seqM (forM xs f) (forM ys f)"
  by (induction xs) (auto simp: mk_simps fun_eq_iff split: sum.splits)

lemma forM_add_file:
  assumes "stores m fs" "\<forall>f \<in> set gs. readable_file f" "length fs + length gs \<le> 206" "29 + blocks_of (fs @ map host_data gs) \<le> 1024"
  shows "\<exists>m'. forM gs add_file m = Inr ((), m') \<and> stores m' (fs @ map host_data gs)"
  using assms
proof (induction gs rule: rev_induct)
  case Nil
  then show ?case by (simp add: mk_simps)
next
  case (snoc g gs)
  let ?fs = "fs @ map host_data gs"
  have "blocks_of ?fs \<le> blocks_of (?fs @ [host_data g])" by (rule blocks_of_mono)
  then obtain m1 where m1: "forM gs add_file m = Inr ((), m1)" "stores m1 ?fs" using snoc by auto
  have "\<exists>m'. add_file g m1 = Inr ((), m') \<and> stores m' (?fs @ [host_data g])"
    by (rule add_file_spec [OF m1(2)]) (use snoc.prems in auto)
  then show ?case using m1(1) by (auto simp: forM_append mk_simps)
qed

lemma forM_wsect: "m_secs m = [] \<Longrightarrow> forM [0..<n] (\<lambda>i. wsect i zeroes) m = Inr ((), m\<lparr>m_secs := replicate n zeroes\<rparr>)"
  by (induction n) (simp_all add: mk_simps forM_append wsect_def replicate_append_same)

text \<open>The state after the root directory has been made.\<close>

definition mk_start :: mkfs where
  "mk_start = \<lparr>m_secs = (replicate 1024 zeroes)[1 := mk_superblock], freeblock = 29, usedblocks = 29, freeinode = 1\<rparr>"

lemma mk_start_inv: "mk_inv mk_start"
  by (simp add: mk_inv_def mk_start_def img_inv_def nth_list_update mk_superblock_def)

lemma root_spec:
  "\<exists>m1 m2 m3. mk_ialloc 1 mk_start = Inr (1, m1) \<and> add_entry 1 [46] m1 = Inr ((), m2) \<and> add_entry 1 [46, 46] m2 = Inr ((), m3) \<and> stores m3 []"
proof -
  obtain m1 where m1: "mk_ialloc 1 mk_start = Inr (1, m1)" "mk_inv m1" "freeinode m1 = 2" "freeblock m1 = 29"
    "inode_of m1 1 = new_dinode 1" "fdata m1 1 = []" "m_secs m1 ! 1 = mk_superblock"
    using ialloc_spec [OF mk_start_inv, of 1] by (auto simp: mk_start_def numeral_2_eq_2)
  have s1: "fsz m1 1 = 0" using m1(5) by simp
  have nb: "nblk (nbs 16) = 1" "nblk (nbs 32) = 1" by (simp_all add: nbs_def nblk_def)
  have "\<exists>m'. iappend 1 (entry 1 [46]) m1 = Inr ((), m') \<and> grew 1 (entry 1 [46]) m1 m'"
    by (rule iappend_spec [OF m1(2)]) (use m1(3,4) s1 nb in simp_all)
  then obtain m2 where m2: "iappend 1 (entry 1 [46]) m1 = Inr ((), m2)" "grew 1 (entry 1 [46]) m1 m2" by blast
  note g2 = grewD [OF m2(2)]
  have f2: "freeblock m2 = 30" "fsz m2 1 = 16" using grew_freeblock [OF m1(2) _ m2(2)] grew_size [OF m2(2)] m1(3,4) s1 nb by simp_all
  have "\<exists>m'. iappend 1 (entry 1 [46, 46]) m2 = Inr ((), m') \<and> grew 1 (entry 1 [46, 46]) m2 m'"
    by (rule iappend_spec [OF g2(1)]) (use g2(2) m1(3) f2 nb in simp_all)
  then obtain m3 where m3: "iappend 1 (entry 1 [46, 46]) m2 = Inr ((), m3)" "grew 1 (entry 1 [46, 46]) m2 m3" by blast
  note g3 = grewD [OF m3(2)]
  have "stores m3 []" unfolding stores_def
    using g3(1-5) g3(7) [of 1] g2(2-5) g2(7) [of 1] m1(3,5,6,7) by (simp add: dir_bytes_def new_dinode_def)
  then show ?thesis using m1(1) m2(1) m3(1) by (simp add: add_entry_def entry_def)
qed

section \<open>Lemmas: the finished image\<close>

definition bitmap :: "nat \<Rightarrow> bytes" where
  "bitmap n = fold (\<lambda>i buf. mark_bit buf i) [0..<n] zeroes"

lemma bitmap: "n \<le> 4096 \<Longrightarrow> length (bitmap n) = 512 \<and> (\<forall>j < 4096. bit_of (bitmap n) j = (j < n))"
proof (induction n)
  case 0
  then show ?case by (simp add: bitmap_def bit_of_iff)
next
  case (Suc n)
  have e: "bitmap (Suc n) = mark_bit (bitmap n) n" by (simp add: bitmap_def)
  have IH: "length (bitmap n) = 512" "\<And>j. j < 4096 \<Longrightarrow> bit_of (bitmap n) j = (j < n)" using Suc by auto
  then have "length (bitmap (Suc n)) = 512" unfolding e by (simp add: mark_bit_def)
  moreover have "bit_of (bitmap (Suc n)) j = (j < Suc n)" if "j < 4096" for j
    unfolding e using bit_of_mark [OF IH(1) _ that, of n] IH(2) [OF that] Suc.prems by auto
  ultimately show ?case by blast
qed

definition root_size :: "nat \<Rightarrow> nat" where
  "root_size n = (16 * (n + 2) div 512 + 1) * 512"

definition finished :: "(bytes \<times> bytes) list \<Rightarrow> mkfs \<Rightarrow> mkfs" where
  "finished fs m =
     (let m1 = put_inode 1 ((inode_of m 1)\<lparr>d_size := of_nat (root_size (length fs))\<rparr>) m
      in m1\<lparr>m_secs := (m_secs m1)[28 := bitmap (29 + blocks_of fs)]\<rparr>)"

lemma mkfs_main_run:
  assumes "\<forall>f \<in> set files. readable_file f" "length files \<le> 206" "29 + blocks_of (map host_data files) \<le> 1024"
  shows "\<exists>m. stores m (map host_data files) \<and> mkfs_main files = Inr (finished (map host_data files) m)"
proof -
  let ?fs = "map host_data files"
  obtain m1 m2 m3 where r: "mk_ialloc 1 mk_start = Inr (1, m1)" "add_entry 1 [46] m1 = Inr ((), m2)" "add_entry 1 [46, 46] m2 = Inr ((), m3)" "stores m3 []"
    using root_spec by blast
  have "\<exists>m. forM files add_file m3 = Inr ((), m) \<and> stores m ([] @ ?fs)" by (rule forM_add_file [OF r(4) assms(1)]) (use assms in simp_all)
  then obtain m where m: "forM files add_file m3 = Inr ((), m)" "stores m ?fs" by auto
  note v = mk_invD [OF storesD(1) [OF m(2)]]
  have len: "length (m_secs m) = 1024" "freeinode m = length ?fs + 2" using v(6) storesD(2) [OF m(2)] by simp_all
  define m4 where "m4 = put_inode 1 ((inode_of m 1)\<lparr>d_size := of_nat (root_size (length ?fs))\<rparr>) m"
  have fix': "fix_root_size m = Inr ((), m4)"
    using len(1) stores_size(1) [OF m(2)] by (simp add: fix_root_size_def mk_simps rinode_run winode_run Let_def m4_def root_size_def)
  have m4: "length (m_secs m4) = 1024" "usedblocks m4 = 29 + blocks_of ?fs"
    using len(1) v(2) stores_freeblock [OF m(2)] by (simp_all add: m4_def put_inode_def)
  have bal: "mk_balloc (usedblocks m4) m4 = Inr ((), finished ?fs m)"
    using m4 assms(3) unfolding finished_def Let_def m4_def [symmetric] by (simp add: mk_balloc_def wsect_def bitmap_def)
  have z: "forM [0..<1024] (\<lambda>i. wsect i zeroes) \<lparr>m_secs = [], freeblock = 29, usedblocks = 29, freeinode = 1\<rparr> =
      Inr ((), \<lparr>m_secs = replicate 1024 zeroes, freeblock = 29, usedblocks = 29, freeinode = 1\<rparr>)"
    using forM_wsect [of "\<lparr>m_secs = [], freeblock = 29, usedblocks = 29, freeinode = 1\<rparr>" 1024] by simp
  have sb: "wsect 1 mk_superblock \<lparr>m_secs = replicate 1024 zeroes, freeblock = 29, usedblocks = 29, freeinode = 1\<rparr> = Inr ((), mk_start)"
    by (simp add: wsect_def mk_start_def)
  have "mkfs_main files = Inr (finished ?fs m)"
    using z sb r m(1) fix' bal by (simp add: mkfs_main_def mk_simps)
  then show ?thesis using m(2) by blast
qed

text \<open>What the finished image holds: the files with their inodes and blocks in order.\<close>

lemma finished_image:
  fixes m :: mkfs and fs :: "(bytes \<times> bytes) list"
  assumes h: "stores m fs" and n: "length fs \<le> 206" and room: "29 + blocks_of fs \<le> 1024"
  defines "m' \<equiv> finished fs m"
  shows "img_inv (m_secs m') (29 + blocks_of fs) (inode_of m') (\<lambda>i. nbs (file_len fs i)) {1..<length fs + 2}"
    "m_secs m' ! 1 = mk_superblock" "m_secs m' ! 28 = bitmap (29 + blocks_of fs)"
    "inode_of m' 1 = (inode_of m 1)\<lparr>d_size := of_nat (root_size (length fs))\<rparr>"
    "\<And>i. i \<in> {2..<length fs + 2} \<Longrightarrow> inode_of m' i = inode_of m i"
    "\<And>i. i \<in> {1..<length fs + 2} \<Longrightarrow> fbytes (m_secs m') (inode_of m' i) (file_len fs i) = fdata m i"
    "padded (m_secs m') (inode_of m' 1) (file_len fs 1)"
proof -
  note v = mk_invD [OF storesD(1) [OF h]] and hd = storesD [OF h]
  let ?I = "{1..<length fs + 2}" and ?d = "(inode_of m 1)\<lparr>d_size := of_nat (root_size (length fs))\<rparr>"
  define m1 where "m1 = put_inode 1 ?d m"
  have s512: "\<forall>x < 1024. length (m_secs m ! x) = 512" using v(7) by blast
  have "(1 :: nat) < 208" by simp
  note pi = put_inode [OF this v(6) s512, where d = ?d, folded m1_def]
  have m': "m' = m1\<lparr>m_secs := (m_secs m1)[28 := bitmap (29 + blocks_of fs)]\<rparr>" by (simp add: m'_def finished_def m1_def Let_def)
  have g1: "good (m_secs m) (inode_of m 1) (nbs (fsz m 1))" by (rule img_invD(6) [OF v(1)]) (use hd(2) in simp)
  then have "length (d_addrs ?d) = 13" by (simp add: good_def)
  then have in1: "inode_of m1 1 = ?d" "\<And>j. j \<noteq> 1 \<Longrightarrow> inode_of m1 j = inode_of m j" using pi(1,2) by simp_all
  have low: "inode_of m' i = inode_of m1 i" if "i \<in> ?I" for i
    using i2b_low [of i] that n by (simp add: inode_of_def m')
  show one: "inode_of m' 1 = ?d" using low [of 1] in1(1) by simp
  show "\<And>i. i \<in> {2..<length fs + 2} \<Longrightarrow> inode_of m' i = inode_of m i" using low in1(2) by simp
  have addrs: "d_addrs (inode_of m' i) = d_addrs (inode_of m i)" if "i \<in> ?I" for i
    using low [OF that] in1 by (cases "i = 1") simp_all
  note len = stores_len [OF h]
  have hi: "m_secs m' ! x = m_secs m ! x" if "29 \<le> x" for x using pi(5) [of x] that by (simp add: m' i2b_def)
  have l': "length (m_secs m') = 1024" "\<forall>x < 1024. length (m_secs m' ! x) = 512"
    using pi(3,4) bitmap [of "29 + blocks_of fs"] room by (simp_all add: m' nth_list_update)
  have "img_inv (m_secs m') (freeblock m) (inode_of m) (\<lambda>i. nbs (fsz m i)) ?I"
    using img_inv_low [OF v(1) l'] hi hd(2) by simp
  then show "img_inv (m_secs m') (29 + blocks_of fs) (inode_of m') (\<lambda>i. nbs (file_len fs i)) ?I"
    unfolding stores_freeblock [OF h] by (rule img_inv_cong) (use addrs len in simp)
  have fr: "\<forall>x \<in> fblocks (m_secs m) (inode_of m i) (nbs (fsz m i)). m_secs m' ! x = m_secs m ! x"
      "good (m_secs m) (inode_of m i) (nbs (fsz m i))" if "i \<in> ?I" for i
    using img_invD(6,7) [OF v(1), of i] hi that hd(2) by auto
  show "fbytes (m_secs m') (inode_of m' i) (file_len fs i) = fdata m i" if "i \<in> ?I" for i
    unfolding file_addrs(3) [OF addrs [OF that]] fdata_def len [OF that, symmetric]
    by (rule file_frame(3) [OF fr [OF that] nbs_div])
  have I1: "1 \<in> ?I" by simp
  show "padded (m_secs m') (inode_of m' 1) (file_len fs 1)"
    unfolding file_addrs(4) [OF addrs [OF I1]] len [OF I1, symmetric] padded_frame [OF fr [OF I1]]
    by (rule v(8)) (use hd(2) in simp)
  show "m_secs m' ! 1 = mk_superblock" using pi(5) [of 1] hd(3) by (simp add: m' i2b_def)
  show "m_secs m' ! 28 = bitmap (29 + blocks_of fs)" using pi(3) by (simp add: m')
qed

section \<open>The image as the kernel sees it\<close>

definition sees :: "'a bufsys_scheme \<Rightarrow> bytes list \<Rightarrow> bool" where
  "sees s img = (\<forall>x < 1024. blk s (of_nat x) = img ! x)"

text \<open>A file of the kernel with its type and contents, all of whose blocks are there.\<close>

definition file_at :: "'a bufsys_scheme \<Rightarrow> u32 \<Rightarrow> u16 \<Rightarrow> bytes \<Rightarrow> bool" where
  "file_at s inum ty bs =
     (let d = inode_at s inum in
      d_type d = ty \<and> d_nlink d = 1 \<and> unat (d_size d) = length bs \<and> file_ok s d (nbs (length bs)) \<and>
      map (fbyte s d) [0..<length bs] = bs)"

lemma sees_blk: "sees s img \<Longrightarrow> unat w < 1024 \<Longrightarrow> blk s w = img ! unat w"
  using sees_def [of s img] by (metis of_nat_unat ucast_id)

lemma sees_inode:
  assumes "sees s (m_secs m)" "i < 208"
  shows "inode_at s (of_nat i) = inode_of m i"
proof -
  have i: "unat (of_nat i :: u32) = i" using assms(2) by (simp add: unat_of_nat32)
  have "unat (IBLOCK (of_nat i)) = i2b i"
    using assms(2) i i2b_low [OF assms(2)] by (simp add: IBLOCK_def i2b_def unat_word_ariths(1) unat_div)
  then have "blk s (IBLOCK (of_nat i)) = m_secs m ! i2b i" using sees_blk [OF assms(1), of "IBLOCK (of_nat i)"] i2b_low [OF assms(2)] by simp
  then show ?thesis using i by (simp add: inode_at_def inode_of_def unat_mod)
qed

lemma sees_file:
  assumes s: "sees s img" and g: "good img d nb" and b: "fblocks img d nb \<subseteq> {29..<1024}"
  shows "j < nb \<Longrightarrow> baddr s d j = slot img d j" "file_ok s d nb" "unat ` file_blocks s d nb = fblocks img d nb"
    "n \<le> 512 * nb \<Longrightarrow> map (fbyte s d) [0..<n] = fbytes img d n"
proof -
  have a: "baddr s d j = slot img d j" if "j < nb" for j
  proof (cases "j < 12")
    case False
    then have "12 < nb" using that by simp
    then have "unat (d_addrs d ! 12) \<in> fblocks img d nb" "d_addrs d ! 12 \<noteq> 0" using g by (simp_all add: fblocks_def good_def)
    then show ?thesis using False sees_blk [OF s, of "d_addrs d ! 12"] b by (auto simp: baddr_def slot_def)
  qed (simp add: baddr_def slot_def)
  then show "j < nb \<Longrightarrow> baddr s d j = slot img d j" .
  show "file_ok s d nb" using g a by (simp add: file_ok_def good_def)
  have "unat ` baddr s d ` {..<nb} = faddr img d ` {..<nb}" using a by (auto simp: image_iff)
  then show "unat ` file_blocks s d nb = fblocks img d nb" by (simp add: file_blocks_def fblocks_def image_Un)
  have "fbyte s d i = img ! faddr img d (i div 512) ! (i mod 512)" if "i < 512 * nb" for i
  proof -
    have j: "i div 512 < nb" using that by (simp add: less_mult_imp_div_less)
    then have "faddr img d (i div 512) < 1024" using b by (auto simp: fblocks_def)
    then show ?thesis using sees_blk [OF s, of "slot img d (i div 512)"] a [OF j] by (simp add: fbyte_def)
  qed
  then show "n \<le> 512 * nb \<Longrightarrow> map (fbyte s d) [0..<n] = fbytes img d n" by (simp add: fbytes_def)
qed

lemma card_fblocks:
  assumes "good img d nb"
  shows "card (fblocks img d nb) = nblk nb" "finite (fblocks img d nb)"
proof -
  have "card (faddr img d ` {..<nb}) = nb" using assms by (simp add: good_def card_image)
  then show "card (fblocks img d nb) = nblk nb" using assms by (auto simp: fblocks_def nblk_def good_def)
  show "finite (fblocks img d nb)" by (simp add: fblocks_def)
qed

lemma fblocks_cover:
  assumes inv: "img_inv img (29 + blocks_of fs) D (\<lambda>i. nbs (file_len fs i)) {1..<length fs + 2}"
  shows "(\<Union>i \<in> {1..<length fs + 2}. fblocks img (D i) (nbs (file_len fs i))) = {29..<29 + blocks_of fs}"
proof (rule card_subset_eq)
  note v = img_invD [OF inv]
  show "(\<Union>i \<in> {1..<length fs + 2}. fblocks img (D i) (nbs (file_len fs i))) \<subseteq> {29..<29 + blocks_of fs}" using v(7) by blast
  have "card (\<Union>i \<in> {1..<length fs + 2}. fblocks img (D i) (nbs (file_len fs i))) = (\<Sum>i = 1..<length fs + 2. card (fblocks img (D i) (nbs (file_len fs i))))"
    by (rule card_UN_disjoint) (use card_fblocks(2) v(6) inv [unfolded img_inv_def] in auto)
  also have "\<dots> = (\<Sum>i = 1..<length fs + 2. nblk (nbs (file_len fs i)))"
    by (rule sum.cong) (use card_fblocks(1) v(6) in simp_all)
  finally show "card (\<Union>i \<in> {1..<length fs + 2}. fblocks img (D i) (nbs (file_len fs i))) = card {29..<29 + blocks_of fs}"
    using blocks_of_sum [of fs] by simp
qed simp

lemma root_size_cases:
  "(n + 2) mod 32 \<noteq> 0 \<Longrightarrow> root_size n = 512 * nbs (16 * (n + 2))"
  "(n + 2) mod 32 = 0 \<Longrightarrow> root_size n = 16 * (n + 2) + 512 \<and> nbs (16 * (n + 2)) = (n + 2) div 32"
proof -
  define q r where "q = (n + 2) div 32" and "r = (n + 2) mod 32"
  have e: "n + 2 = 32 * q + r" "r < 32" by (simp_all add: q_def r_def)
  have d: "16 * (n + 2) = 512 * q + 16 * r" unfolding e(1) by simp
  have nb: "nbs (16 * (n + 2)) = (if r = 0 then q else q + 1)" unfolding d using nbs_split [of "16 * r" q] e(2) by simp
  have "16 * (n + 2) div 512 = q" unfolding d using e(2) by simp
  then have "root_size n = (q + 1) * 512" by (simp only: root_size_def)
  then show "(n + 2) mod 32 \<noteq> 0 \<Longrightarrow> root_size n = 512 * nbs (16 * (n + 2))"
    "(n + 2) mod 32 = 0 \<Longrightarrow> root_size n = 16 * (n + 2) + 512 \<and> nbs (16 * (n + 2)) = (n + 2) div 32"
    using nb d by (simp_all add: q_def r_def)
qed

text \<open>The facts on one file of the finished image that the kernel sees.\<close>

lemma sees_finished:
  assumes h: "stores m fs" and n: "length fs \<le> 206" and room: "29 + blocks_of fs \<le> 1024" and s: "sees s (m_secs (finished fs m))"
    and i: "i \<in> {1..<length fs + 2}"
  defines "d \<equiv> inode_at s (of_nat i)"
  shows "d = inode_of (finished fs m) i" "file_ok s d (nbs (file_len fs i))"
    "unat ` file_blocks s d (nbs (file_len fs i)) = fblocks (m_secs (finished fs m)) d (nbs (file_len fs i))"
    "map (fbyte s d) [0..<file_len fs i] = fdata m i"
    "\<And>n. n \<le> 512 * nbs (file_len fs i) \<Longrightarrow> map (fbyte s d) [0..<n] = fbytes (m_secs (finished fs m)) d n"
proof -
  note f = finished_image [OF h n room]
  show d: "d = inode_of (finished fs m) i" unfolding d_def by (rule sees_inode [OF s]) (use i n in simp)
  note v = img_invD(6,7) [OF f(1) i, folded d]
  have b: "fblocks (m_secs (finished fs m)) d (nbs (file_len fs i)) \<subseteq> {29..<1024}" using v(2) room by auto
  note k = sees_file [OF s v(1) b]
  show "file_ok s d (nbs (file_len fs i))"
    "unat ` file_blocks s d (nbs (file_len fs i)) = fblocks (m_secs (finished fs m)) d (nbs (file_len fs i))"
    "\<And>n. n \<le> 512 * nbs (file_len fs i) \<Longrightarrow> map (fbyte s d) [0..<n] = fbytes (m_secs (finished fs m)) d n"
    using k by blast+
  show "map (fbyte s d) [0..<file_len fs i] = fdata m i" using k(4) [OF nbs_div] f(6) [OF i, folded d] by simp
qed

lemma sees_root:
  assumes h: "stores m fs" and n: "length fs \<le> 206" and room: "29 + blocks_of fs \<le> 1024" and s: "sees s (m_secs (finished fs m))"
  shows "map (fbyte s (inode_at s 1)) [0..<16 * (length fs + 2)] = dir_bytes fs" "unat (d_size (inode_at s 1)) = root_size (length fs)"
    "(length fs + 2) mod 32 = 0 \<Longrightarrow> baddr s (inode_at s 1) ((length fs + 2) div 32) = 0"
    "(length fs + 2) mod 32 \<noteq> 0 \<Longrightarrow> file_at s 1 1 (dir_bytes fs @ replicate (root_size (length fs) - 16 * (length fs + 2)) 0)"
proof -
  let ?N = "length fs" and ?m = "finished fs m" and ?d = "inode_at s 1"
  have I: "1 \<in> {1..<?N + 2}" by simp
  note f = finished_image [OF h n room] and k = sees_finished [OF h n room s I, unfolded of_nat_1] and v = storesD [OF h]
  have l: "file_len fs 1 = 16 * (?N + 2)" by (simp add: file_len_def)
  show dir: "map (fbyte s ?d) [0..<16 * (?N + 2)] = dir_bytes fs" using k(4) v(4) l by simp
  have "(?N + 2) div 32 \<le> 208 div 32" using n by (intro div_le_mono) simp
  then have q: "(?N + 2) div 32 < 12" by simp
  have "16 * (?N + 2) div 512 \<le> 16 * 208 div 512" using n by (intro div_le_mono) simp
  then have small: "root_size ?N < 2 ^ 32" by (simp add: root_size_def)
  show size: "unat (d_size ?d) = root_size ?N" unfolding k(1) f(4) using small by (simp add: unat_of_nat32)
  have g: "good (m_secs ?m) ?d (nbs (16 * (?N + 2)))" using img_invD(6) [OF f(1) I] k(1) l by simp
  show "baddr s ?d ((?N + 2) div 32) = 0" if "(?N + 2) mod 32 = 0"
  proof -
    have "slot (m_secs ?m) ?d ((?N + 2) div 32) = 0" using g q root_size_cases(2) [OF that] by (simp add: good_def)
    then show ?thesis using q by (simp add: slot_def baddr_def)
  qed
  have ty: "d_type ?d = 1" "d_nlink ?d = 1" unfolding k(1) f(4) using v(5,6) by simp_all
  assume r: "(?N + 2) mod 32 \<noteq> 0"
  note rs = root_size_cases(1) [OF r]
  have le: "16 * (?N + 2) \<le> root_size ?N" unfolding rs by (rule nbs_div)
  have lenb: "length (dir_bytes fs @ replicate (root_size ?N - 16 * (?N + 2)) 0) = root_size ?N" using le by simp
  have full: "map (fbyte s ?d) [0..<root_size ?N] = fbytes (m_secs ?m) ?d (root_size ?N)" using k(5) [of "root_size ?N"] rs l by simp
  have zero: "fbyte s ?d i = 0" if "16 * (?N + 2) \<le> i" "i < root_size ?N" for i
  proof -
    have "fbyte s ?d i = map (fbyte s ?d) [0..<root_size ?N] ! i" using that by simp
    also have "\<dots> = m_secs ?m ! faddr (m_secs ?m) ?d (i div 512) ! (i mod 512)" unfolding full fbytes_def using that by simp
    also have "\<dots> = 0" using f(7) that rs k(1) l by (simp add: padded_def)
    finally show ?thesis .
  qed
  have split: "[0..<root_size ?N] = [0..<16 * (?N + 2)] @ [16 * (?N + 2)..<root_size ?N]" using le upt_add_eq_append [of 0 "16 * (?N + 2)" "root_size ?N - 16 * (?N + 2)"] by simp
  have rest: "map (fbyte s ?d) [16 * (?N + 2)..<root_size ?N] = replicate (root_size ?N - 16 * (?N + 2)) 0"
    by (rule nth_equalityI) (simp_all add: zero)
  have bytes: "map (fbyte s ?d) [0..<root_size ?N] = dir_bytes fs @ replicate (root_size ?N - 16 * (?N + 2)) 0"
    unfolding split map_append dir rest ..
  have nb: "nbs (root_size ?N) = nbs (16 * (?N + 2))" unfolding rs using nbs_split [of 0] by simp
  show "file_at s 1 1 (dir_bytes fs @ replicate (root_size ?N - 16 * (?N + 2)) 0)"
    unfolding file_at_def Let_def lenb nb bytes using size k(2) l ty by simp
qed

lemma sees_bufsys0: "\<exists>s :: bufsys. sees s img"
proof -
  let ?s = "bufsys0\<lparr>disk := \<lambda>x. img ! unat x\<rparr>"
  have "\<not> b_valid (bcache ?s ! i)" if "cached ?s x = Some i" for i x
    using find_index_less [of _ "bcache bufsys0" i] that by (simp add: cached_def bufsys0_bcache)
  then have "blk ?s x = img ! unat x" for x by (auto simp: blk_def split: option.splits)
  then have "sees ?s img" by (simp add: sees_def unat_of_nat32)
  then show ?thesis by blast
qed

section \<open>Properties\<close>

text \<open>
  (C13) The files in the image. From readable files without a slash in their names, as long as
  they and the inodes fit, \<open>mkfs\<close> builds an image in which the kernel finds every file as a
  regular file with exactly its bytes, and the root directory with the entries for the files,
  without their leading underscore, followed by empty entries to the end of its last block.
  Only if the entries fill their last block exactly is the directory given a size with one
  block more than it has.
\<close>

theorem mkfs_files:
  assumes "\<forall>f \<in> set files. readable_file f" "length files \<le> 198" "blocks_of (map host_data files) \<le> 965"
  shows "\<exists>m. mkfs_main files = Inr m \<and> (\<forall>s :: 'a bufsys_scheme. sees s (m_secs m) \<longrightarrow>
    (\<forall>k < length files. file_at s (of_nat (k + 2)) 2 (snd (host_data (files ! k)))) \<and>
    (let n = length files; dir = dir_bytes (map host_data files) in
     if (n + 2) mod 32 \<noteq> 0 then file_at s 1 1 (dir @ replicate (root_size n - length dir) 0)
     else map (fbyte s (inode_at s 1)) [0..<length dir] = dir \<and> unat (d_size (inode_at s 1)) = length dir + 512 \<and>
       baddr s (inode_at s 1) ((n + 2) div 32) = 0))"
proof -
  let ?fs = "map host_data files"
  have n: "length ?fs \<le> 206" and room: "29 + blocks_of ?fs \<le> 1024" and n': "length files \<le> 206" using assms(2,3) by simp_all
  obtain m where m: "stores m ?fs" "mkfs_main files = Inr (finished ?fs m)" using mkfs_main_run [OF assms(1) n' room] by blast
  note f = finished_image [OF m(1) n room] and v = storesD [OF m(1)]
  show ?thesis
  proof (intro exI [of _ "finished ?fs m"] conjI allI impI)
    fix s :: "'a bufsys_scheme" and k assume s: "sees s (m_secs (finished ?fs m))" and "k < length files"
    then have k: "k < length ?fs" "k + 2 \<in> {1..<length ?fs + 2}" "k + 2 \<in> {2..<length ?fs + 2}" by auto
    note d = sees_finished [OF m(1) n room s k(2)] and o = f(5) [OF k(3)] and vk = v(7) [OF k(1)] and sz = stores_size(2) [OF m(1) k(1)]
    have "file_len ?fs (k + 2) = length (snd (host_data (files ! k)))" using k(1) by (simp add: file_len_def)
    then show "file_at s (of_nat (k + 2)) 2 (snd (host_data (files ! k)))"
      unfolding file_at_def Let_def using d(1,2,4) o vk sz k(1) by simp
  next
    fix s :: "'a bufsys_scheme" assume s: "sees s (m_secs (finished ?fs m))"
    show "let n = length files; dir = dir_bytes ?fs in
     if (n + 2) mod 32 \<noteq> 0 then file_at s 1 1 (dir @ replicate (root_size n - length dir) 0)
     else map (fbyte s (inode_at s 1)) [0..<length dir] = dir \<and> unat (d_size (inode_at s 1)) = length dir + 512 \<and>
       baddr s (inode_at s 1) ((n + 2) div 32) = 0"
      using sees_root [OF m(1) n room s] root_size_cases(2) [of "length files"] by (simp add: Let_def)
  qed (rule m(2))
qed

theorem mkfs_files_witness:
  "\<exists>m. mkfs_main [([95, 97], Some [[1, 2]])] = Inr m \<and>
     (\<exists>s :: bufsys. sees s (m_secs m) \<and> file_at s 2 2 [1, 2] \<and>
        file_at s 1 1 (dir_bytes [([97], [1, 2])] @ replicate 464 0))"
proof -
  let ?f = "[([95, 97], Some [[1, 2]])] :: host_file list"
  have h: "map host_data ?f = [([97], [1, 2])]" by (simp add: host_data_def skip_underscore_def)
  have "blocks_of (map host_data ?f) \<le> 965" unfolding h by (simp add: blocks_of_def nblk_def nbs_def)
  then obtain m where m: "mkfs_main ?f = Inr m" and k: "\<forall>s :: bufsys. sees s (m_secs m) \<longrightarrow>
    (\<forall>k < length ?f. file_at s (of_nat (k + 2)) 2 (snd (host_data (?f ! k)))) \<and>
    (let n = length ?f; dir = dir_bytes (map host_data ?f) in
     if (n + 2) mod 32 \<noteq> 0 then file_at s 1 1 (dir @ replicate (root_size n - length dir) 0)
     else map (fbyte s (inode_at s 1)) [0..<length dir] = dir \<and> unat (d_size (inode_at s 1)) = length dir + 512 \<and>
       baddr s (inode_at s 1) ((n + 2) div 32) = 0)"
    using mkfs_files [of ?f, where 'a = unit] by (auto simp: readable_file_def host_data_def)
  obtain s :: bufsys where s: "sees s (m_secs m)" using sees_bufsys0 by blast
  have "file_at s 2 2 [1, 2] \<and> file_at s 1 1 (dir_bytes [([97], [1, 2])] @ replicate 464 0)"
    using k [rule_format, OF s] unfolding h by (simp add: host_data_def Let_def root_size_def)
  then show ?thesis using m s by blast
qed

text \<open>
  (C14) The blocks of the image. The kernel finds the superblock, the blocks of different files
  are different, and together with the blocks in front of them they are exactly the ones that
  the bitmap marks as used: none is lost and none is shared. The program does not check that
  they end before the log: the files overlap it exactly if they need more than the 965 blocks
  that the superblock names.
\<close>

theorem mkfs_blocks:
  assumes "\<forall>f \<in> set files. readable_file f" "length files \<le> 198" "blocks_of (map host_data files) \<le> 995"
  shows "\<exists>m. mkfs_main files = Inr m \<and> (\<forall>s :: 'a bufsys_scheme. sees s (m_secs m) \<longrightarrow>
    (let fs = map host_data files; I = {1..<length files + 2}; sb = sb_of (blk s 1);
         B = (\<lambda>i. unat ` file_blocks s (inode_at s (of_nat i)) (nbs (file_len fs i))) in
     sb = \<lparr>sb_size = 1024, sb_nblocks = 965, sb_ninodes = 200, sb_nlog = 30\<rparr> \<and>
     (\<forall>i \<in> I. \<forall>j \<in> I. i \<noteq> j \<longrightarrow> B i \<inter> B j = {}) \<and>
     (\<forall>x < 1024. used s sb (of_nat x) \<longleftrightarrow> x < 29 \<or> (\<exists>i \<in> I. x \<in> B i)) \<and>
     ((\<exists>i \<in> I. \<exists>x \<in> B i. 1024 - 30 \<le> x) \<longleftrightarrow> 965 < blocks_of fs)))"
proof -
  let ?fs = "map host_data files" and ?I = "{1..<length files + 2}"
  have n: "length ?fs \<le> 206" and room: "29 + blocks_of ?fs \<le> 1024" and n': "length files \<le> 206" using assms(2,3) by simp_all
  obtain m where m: "stores m ?fs" "mkfs_main files = Inr (finished ?fs m)" using mkfs_main_run [OF assms(1) n' room] by blast
  note f = finished_image [OF m(1) n room]
  let ?img = "m_secs (finished ?fs m)"
  show ?thesis
  proof (intro exI [of _ "finished ?fs m"] conjI allI impI)
    fix s :: "'a bufsys_scheme" assume s: "sees s ?img"
    define B where "B i = unat ` file_blocks s (inode_at s (of_nat i)) (nbs (file_len ?fs i))" for i
    have B: "B i = fblocks ?img (inode_of (finished ?fs m) i) (nbs (file_len ?fs i))" if "i \<in> ?I" for i
      using sees_finished(1,3) [OF m(1) n room s, of i] that by (simp add: B_def)
    have U: "(\<Union>i \<in> ?I. B i) = {29..<29 + blocks_of ?fs}" using fblocks_cover [OF f(1)] B by simp
    have dis: "\<forall>i \<in> ?I. \<forall>j \<in> ?I. i \<noteq> j \<longrightarrow> B i \<inter> B j = {}" using f(1) B by (simp add: img_inv_def)
    have b1: "blk s 1 = mk_superblock" using sees_blk [OF s, of 1] f(2) by simp
    have sb: "sb_of (blk s 1) = \<lparr>sb_size = 1024, sb_nblocks = 965, sb_ninodes = 200, sb_nlog = 30\<rparr>"
      unfolding b1 by (simp add: sb_of_def mk_superblock_def get32_def)
    have bm: "blk s 28 = bitmap (29 + blocks_of ?fs)" using sees_blk [OF s, of 28] f(3) by simp
    have u: "used s (sb_of (blk s 1)) (of_nat x) \<longleftrightarrow> x < 29 \<or> (\<exists>i \<in> ?I. x \<in> B i)" if x: "x < 1024" for x
    proof -
      have w: "unat (of_nat x :: u32) = x" using x by (simp add: unat_of_nat32)
      have "BBLOCK (of_nat x) 200 = 28" by (rule word_unat_eq_iff [THEN iffD2]) (use w x in \<open>simp add: BBLOCK_def unat_word_ariths(1) unat_div\<close>)
      then have "used s (sb_of (blk s 1)) (of_nat x) \<longleftrightarrow> x < 29 + blocks_of ?fs"
        unfolding used_def sb using bm bitmap [of "29 + blocks_of ?fs"] room w x by (simp add: unat_mod)
      also have "\<dots> \<longleftrightarrow> x < 29 \<or> x \<in> (\<Union>i \<in> ?I. B i)" unfolding U by auto
      finally show ?thesis by simp
    qed
    have "(\<exists>i \<in> ?I. \<exists>x \<in> B i. 1024 - 30 \<le> x) \<longleftrightarrow> (\<exists>x \<in> (\<Union>i \<in> ?I. B i). 1024 - 30 \<le> x)" by blast
    also have "\<dots> \<longleftrightarrow> 965 < blocks_of ?fs" unfolding U by (auto intro: bexI [of _ "28 + blocks_of ?fs"])
    finally have "(\<exists>i \<in> ?I. \<exists>x \<in> B i. 1024 - 30 \<le> x) \<longleftrightarrow> 965 < blocks_of ?fs" .
    then show "let fs = ?fs; I = ?I; sb = sb_of (blk s 1);
         B = (\<lambda>i. unat ` file_blocks s (inode_at s (of_nat i)) (nbs (file_len fs i))) in
     sb = \<lparr>sb_size = 1024, sb_nblocks = 965, sb_ninodes = 200, sb_nlog = 30\<rparr> \<and>
     (\<forall>i \<in> I. \<forall>j \<in> I. i \<noteq> j \<longrightarrow> B i \<inter> B j = {}) \<and>
     (\<forall>x < 1024. used s sb (of_nat x) \<longleftrightarrow> x < 29 \<or> (\<exists>i \<in> I. x \<in> B i)) \<and>
     ((\<exists>i \<in> I. \<exists>x \<in> B i. 1024 - 30 \<le> x) \<longleftrightarrow> 965 < blocks_of fs)"
      unfolding Let_def B_def [symmetric] using sb dis u by blast
  qed (rule m(2))
qed

theorem mkfs_blocks_witness:
  "\<exists>m. mkfs_main [([95, 97], Some [[1, 2]])] = Inr m \<and>
     (\<exists>s :: bufsys. sees s (m_secs m) \<and> used s (sb_of (blk s 1)) 28 \<and>
        file_blocks s (inode_at s 1) 1 \<inter> file_blocks s (inode_at s 2) 1 = {} \<and>
        (\<forall>x \<in> file_blocks s (inode_at s 2) 1. unat x < 994))"
proof -
  let ?f = "[([95, 97], Some [[1, 2]])] :: host_file list"
  have h: "map host_data ?f = [([97], [1, 2])]" by (simp add: host_data_def skip_underscore_def)
  have b: "blocks_of [([97], [1, 2])] \<le> 965" by (simp add: blocks_of_def nblk_def nbs_def)
  have l: "nbs (file_len [([97], [1, 2])] 1) = 1" "nbs (file_len [([97], [1, 2])] 2) = 1" by (simp_all add: file_len_def nbs_def)
  have "\<forall>f \<in> set ?f. readable_file f" "length ?f \<le> 198" "blocks_of (map host_data ?f) \<le> 995"
    using b unfolding h by (simp_all add: readable_file_def host_data_def)
  from mkfs_blocks [OF this, where 'a = unit] obtain m where m: "mkfs_main ?f = Inr m" and
    k: "\<And>s :: bufsys. sees s (m_secs m) \<Longrightarrow>
      (let fs = map host_data ?f; I = {1..<length ?f + 2}; sb = sb_of (blk s 1);
         B = (\<lambda>i. unat ` file_blocks s (inode_at s (of_nat i)) (nbs (file_len fs i))) in
     sb = \<lparr>sb_size = 1024, sb_nblocks = 965, sb_ninodes = 200, sb_nlog = 30\<rparr> \<and>
     (\<forall>i \<in> I. \<forall>j \<in> I. i \<noteq> j \<longrightarrow> B i \<inter> B j = {}) \<and>
     (\<forall>x < 1024. used s sb (of_nat x) \<longleftrightarrow> x < 29 \<or> (\<exists>i \<in> I. x \<in> B i)) \<and>
     ((\<exists>i \<in> I. \<exists>x \<in> B i. 1024 - 30 \<le> x) \<longleftrightarrow> 965 < blocks_of fs))" by blast
  obtain s :: bufsys where s: "sees s (m_secs m)" using sees_bufsys0 by blast
  let ?B = "\<lambda>i. unat ` file_blocks s (inode_at s (of_nat i)) (nbs (file_len [([97], [1, 2])] i))"
  note ks = k [OF s, unfolded h Let_def]
  have I: "1 \<in> {1..<length ?f + 2}" "2 \<in> {1..<length ?f + 2}" by simp_all
  have "?B 1 \<inter> ?B 2 = {}" using ks I by (metis one_eq_numeral_iff semiring_norm(85))
  then have d: "file_blocks s (inode_at s 1) 1 \<inter> file_blocks s (inode_at s 2) 1 = {}" using l by auto
  have "used s (sb_of (blk s 1)) (of_nat 28)" using ks [THEN conjunct2, THEN conjunct2, THEN conjunct1, rule_format, of 28] by simp
  moreover have "\<forall>x \<in> ?B 2. \<not> 1024 - 30 \<le> x" using ks I(2) b by (metis leD)
  then have "\<forall>x \<in> file_blocks s (inode_at s 2) 1. unat x < 994" using l by auto
  ultimately show ?thesis using m s d by auto
qed

end
