(* ===== verification/User.thy ===== *)
theory User
  imports StringC
begin

text \<open>
  User processes. A program is a function on the state of its process as the kernel sees it:
  the system calls made so far (\<open>calls\<close>) and the results the kernel is going to give
  (\<open>answers\<close>); a claim for all answers is a claim for all behaviours of the kernel and of
  the other processes. After \<open>fork\<close> the answer says which of the two processes is followed.
  The calls are those of \<open>src/user.h\<close>, which \<open>src/usys.S\<close> turns into traps.
\<close>

datatype ucall =
    Fork | Exit int | Wait | Pipe | Read int nat | Write int bytes | Close int | Kill int
  | Exec bytes "bytes list" | Open bytes int | Mknod bytes int int | Unlink bytes | Fstat int
  | Link bytes bytes | Mkdir bytes | Chdir bytes | Dup int | Getpid | Sbrk int | Sleep int | Pstat int

text \<open>
  The structures of \<open>src/stat.h\<close> and \<open>src/procstat.h\<close> as a program gets them, and what a call
  gives: its result, the bytes it puts into the buffer of a \<open>read\<close>, the descriptors of a
  \<open>pipe\<close>, the structures of \<open>fstat\<close> and \<open>pstat\<close>.
\<close>

record ustat =
  st_type :: int
  st_ino :: u32
  st_size :: u32

record uprocstat =
  ps_name :: bytes
  ps_sz :: u32
  ps_nofile :: u32
  ps_state :: int

record uret =
  r_ret :: int
  r_data :: bytes
  r_pipe :: "int \<times> int"
  r_stat :: ustat
  r_pstat :: uprocstat

record ust =
  answers :: "uret list"
  calls :: "ucall list"

text \<open>A run ends normally, with \<open>exit\<close>, waiting for the kernel, or with a memory fault.\<close>

datatype 'a uout = UOk 'a ust | UExited int ust | UBlocked ust | UFault string ust

type_synonym 'a uprog = "ust \<Rightarrow> 'a uout"

definition retU :: "'a \<Rightarrow> 'a uprog" where
  "retU a s = UOk a s"

definition bindU :: "'a uprog \<Rightarrow> ('a \<Rightarrow> 'b uprog) \<Rightarrow> 'b uprog" where
  "bindU m f s = (case m s of UOk a t \<Rightarrow> f a t | UExited n t \<Rightarrow> UExited n t | UBlocked t \<Rightarrow> UBlocked t | UFault w t \<Rightarrow> UFault w t)"

definition seqU :: "'a uprog \<Rightarrow> 'b uprog \<Rightarrow> 'b uprog" where
  "seqU m n = bindU m (\<lambda>_. n)"

definition faultU :: "string \<Rightarrow> 'a uprog" where
  "faultU w s = UFault w s"

definition blockU :: "'a uprog" where
  "blockU s = UBlocked s"

definition syscallU :: "ucall \<Rightarrow> uret uprog" where
  "syscallU c s =
     (case answers s of
        [] \<Rightarrow> UBlocked (s\<lparr>calls := calls s @ [c]\<rparr>)
      | a # as \<Rightarrow> UOk a (s\<lparr>answers := as, calls := calls s @ [c]\<rparr>))"

definition callU :: "ucall \<Rightarrow> int uprog" where
  "callU c = bindU (syscallU c) (\<lambda>r. retU (r_ret r))"

definition exitU :: "int \<Rightarrow> 'a uprog" where
  "exitU n s = UExited n (s\<lparr>calls := calls s @ [Exit n]\<rparr>)"

fun forU :: "'b list \<Rightarrow> ('b \<Rightarrow> unit uprog) \<Rightarrow> unit uprog" where
  "forU [] f = retU ()"
| "forU (x # xs) f = seqU (f x) (forU xs f)"

definition whenU :: "bool \<Rightarrow> unit uprog \<Rightarrow> unit uprog" where
  "whenU b m = (if b then m else retU ())"

text \<open>
  A loop each round of which makes a call. As long as the kernel answers, the number of
  answers left bounds the rounds.
\<close>

definition loopU :: "(nat \<Rightarrow> 'a uprog) \<Rightarrow> 'a uprog" where
  "loopU f s = f (Suc (length (answers s))) s"

section \<open>Lemmas\<close>

lemma retU_run [simp]: "retU a s = UOk a s"
  by (simp add: retU_def)

lemma exitU_run [simp]: "exitU n s = UExited n (s\<lparr>calls := calls s @ [Exit n]\<rparr>)"
  by (simp add: exitU_def)

lemma faultU_run [simp]: "faultU w s = UFault w s"
  by (simp add: faultU_def)

lemma bindU_assoc: "bindU (bindU m f) g = bindU m (\<lambda>a. bindU (f a) g)"
  by (auto simp: bindU_def fun_eq_iff split: uout.split)

lemma bindU_ret [simp]: "bindU (retU a) f = f a" "bindU m retU = m"
  by (auto simp: bindU_def fun_eq_iff split: uout.split)

lemma bindU_run:
  "bindU m f s = (case m s of UOk a t \<Rightarrow> f a t | UExited n t \<Rightarrow> UExited n t | UBlocked t \<Rightarrow> UBlocked t | UFault w t \<Rightarrow> UFault w t)"
  by (simp add: bindU_def)

lemma seqU_run:
  "seqU m n s = (case m s of UOk a t \<Rightarrow> n t | UExited n t \<Rightarrow> UExited n t | UBlocked t \<Rightarrow> UBlocked t | UFault w t \<Rightarrow> UFault w t)"
  by (simp add: seqU_def bindU_def)

lemma syscallU_run: "answers s = a # as \<Longrightarrow> syscallU c s = UOk a (s\<lparr>answers := as, calls := calls s @ [c]\<rparr>)"
  by (simp add: syscallU_def)

lemma callU_run: "answers s = a # as \<Longrightarrow> callU c s = UOk (r_ret a) (s\<lparr>answers := as, calls := calls s @ [c]\<rparr>)"
  by (simp add: callU_def bindU_run syscallU_run)

lemma callU_blocked: "answers s = [] \<Longrightarrow> callU c s = UBlocked (s\<lparr>calls := calls s @ [c]\<rparr>)"
  by (simp add: callU_def syscallU_def bindU_def)

lemmas ustep = bindU_run seqU_run syscallU_run callU_run

lemma forU_append: "forU (xs @ ys) f = seqU (forU xs f) (forU ys f)"
proof (induction xs)
  case (Cons x xs)
  then show ?case by (simp add: seqU_def bindU_assoc)
qed (simp add: seqU_def del: retU_run)

text \<open>What the calls write to a descriptor, and the state with \<open>k\<close> answers used up.\<close>

fun written_to :: "int \<Rightarrow> ucall list \<Rightarrow> bytes" where
  "written_to fd [] = []"
| "written_to fd (Write f bs # cs) = (if f = fd then bs else []) @ written_to fd cs"
| "written_to fd (_ # cs) = written_to fd cs"

lemma written_to_append [simp]: "written_to fd (xs @ ys) = written_to fd xs @ written_to fd ys"
  by (induction fd xs rule: written_to.induct) auto

lemma written_to_map [simp]: "written_to fd (map (\<lambda>b. Write f [b]) bs) = (if f = fd then bs else [])"
  by (induction bs) auto

definition after :: "ucall list \<Rightarrow> ust \<Rightarrow> ust" where
  "after cs s = s\<lparr>answers := drop (length cs) (answers s), calls := calls s @ cs\<rparr>"

lemma after_simps [simp]:
  "after [] s = s" "after ys (after xs s) = after (xs @ ys) s" "answers (after xs s) = drop (length xs) (answers s)"
  "calls (after xs s) = calls s @ xs"
  by (simp_all add: after_def add.commute)

lemma callU_after: "answers s \<noteq> [] \<Longrightarrow> callU c s = UOk (r_ret (hd (answers s))) (after [c] s)"
  by (cases "answers s") (simp_all add: callU_run after_def)

lemma syscallU_after: "answers s \<noteq> [] \<Longrightarrow> syscallU c s = UOk (hd (answers s)) (after [c] s)"
  by (cases "answers s") (simp_all add: syscallU_run after_def)

end
