(* ===== verification/Ulib.thy ===== *)
theory Ulib
  imports User
begin

text \<open>
  The library of the user programs: the string routines and wrappers of \<open>src/ulib.c\<close> and the
  formatted output of \<open>src/printf.c\<close>. Routines that walk through memory until they find a
  zero are partial functions; \<open>None\<close> is a walk that does not end.
\<close>

unbundle bit_operations_syntax

section \<open>ulib.c\<close>

partial_function (option) strcpy :: "mem \<Rightarrow> u32 \<Rightarrow> u32 \<Rightarrow> mem option" where
  "strcpy m s t = (let c = m t; m = m(s := c) in if c \<noteq> 0 then strcpy m (s + 1) (t + 1) else Some m)"

partial_function (option) strcmp :: "mem \<Rightarrow> u32 \<Rightarrow> u32 \<Rightarrow> int option" where
  "strcmp m p q = (if m p \<noteq> 0 \<and> m p = m q then strcmp m (p + 1) (q + 1) else Some (uint (m p) - uint (m q)))"

partial_function (option) strlen_u_loop :: "mem \<Rightarrow> u32 \<Rightarrow> u32 \<Rightarrow> u32 option" where
  "strlen_u_loop m s n = (if m (s + n) \<noteq> 0 then strlen_u_loop m s (n + 1) else Some n)"

definition strlen_u :: "mem \<Rightarrow> u32 \<Rightarrow> u32 option" where
  "strlen_u m s = strlen_u_loop m s 0"

definition memset_u :: "mem \<Rightarrow> u32 \<Rightarrow> u32 \<Rightarrow> u32 \<Rightarrow> mem" where
  "memset_u m dst c n = stosb m dst (ucast c) (unat n)"

partial_function (option) strchr :: "mem \<Rightarrow> u32 \<Rightarrow> u8 \<Rightarrow> u32 option option" where
  "strchr m s c = (if m s = 0 then Some None else if m s = c then Some (Some s) else strchr m (s + 1) c)"

text \<open>\<open>while(n-- > 0) *dst++ = *src++\<close>, always upwards.\<close>

definition memmove_u :: "mem \<Rightarrow> u32 \<Rightarrow> u32 \<Rightarrow> int \<Rightarrow> mem" where
  "memmove_u m dst src n = copy_up m dst src (nat n)"

partial_function (option) atoi_loop :: "mem \<Rightarrow> u32 \<Rightarrow> u32 \<Rightarrow> u32 option" where
  "atoi_loop m s n = (if 48 \<le> m s \<and> m s \<le> 57 then atoi_loop m (s + 1) (n * 10 + ucast (m s) - 48) else Some n)"

definition atoi :: "mem \<Rightarrow> u32 \<Rightarrow> int option" where
  "atoi m s = map_option sint (atoi_loop m s 0)"

text \<open>
  The loop of \<open>gets\<close> with room for \<open>k\<close> more characters at the index \<open>i\<close> of the buffer; the
  terminating zero is written after it.
\<close>

fun gets_loop :: "nat \<Rightarrow> nat \<Rightarrow> bytes \<Rightarrow> bytes uprog" where
  "gets_loop 0 i buf = retU (buf[i := 0])"
| "gets_loop (Suc k) i buf =
     bindU (syscallU (Read 0 1)) (\<lambda>r.
     if r_ret r < 1 then retU (buf[i := 0])
     else
       let c = hd (r_data r); buf = buf[i := c] in
       if c = 10 \<or> c = 13 then retU (buf[Suc i := 0]) else gets_loop k (Suc i) buf)"

definition gets :: "bytes \<Rightarrow> int \<Rightarrow> bytes uprog" where
  "gets buf mx = gets_loop (nat (mx - 1)) 0 buf"

definition O_RDONLY :: int where "O_RDONLY = 0"
definition O_WRONLY :: int where "O_WRONLY = 1"
definition O_RDWR :: int where "O_RDWR = 2"
definition O_CREATE :: int where "O_CREATE = 0x200"

definition stat_u :: "bytes \<Rightarrow> (int \<times> ustat) uprog" where
  "stat_u n =
     bindU (callU (Open n O_RDONLY)) (\<lambda>fd.
     if fd < 0 then retU (- 1, \<lparr>st_type = 0, st_ino = 0, st_size = 0\<rparr>)
     else
       bindU (syscallU (Fstat fd)) (\<lambda>r.
       seqU (callU (Close fd))
       (retU (r_ret r, r_stat r))))"

section \<open>printf.c\<close>

definition putc :: "int \<Rightarrow> u8 \<Rightarrow> unit uprog" where
  "putc fd c = seqU (callU (Write fd [c])) (retU ())"

definition hexdigits :: bytes where
  "hexdigits = [48, 49, 50, 51, 52, 53, 54, 55, 56, 57, 65, 66, 67, 68, 69, 70]"

text \<open>
  The digits in the order in which they are put into \<open>buf\<close>, the lowest first. A base of at
  least 2 makes the number 0 after at most 32 rounds.
\<close>

fun printint_u_digits :: "nat \<Rightarrow> u32 \<Rightarrow> u32 \<Rightarrow> bytes" where
  "printint_u_digits 0 x base = []"
| "printint_u_digits (Suc k) x base =
     hexdigits ! unat (x mod base) # (let x = x div base in if x \<noteq> 0 then printint_u_digits k x base else [])"

definition printint_u_buf :: "u32 \<Rightarrow> u32 \<Rightarrow> bool \<Rightarrow> bytes" where
  "printint_u_buf xx base sg =
     (let neg = sg \<and> sint xx < 0; x = (if neg then - xx else xx); buf = printint_u_digits 32 x base
      in if neg then buf @ [45] else buf)"

definition printint_u :: "int \<Rightarrow> u32 \<Rightarrow> u32 \<Rightarrow> bool \<Rightarrow> unit uprog" where
  "printint_u fd xx base sg = forU (rev (printint_u_buf xx base sg)) (putc fd)"

text \<open>
  The words behind the format on the stack: numbers, and pointers to strings, of which
  \<open>None\<close> is the null pointer. A format that asks for more or for other arguments than
  there are has no meaning.
\<close>

datatype parg = PNum u32 | PStr "bytes option"

fun printf_loop :: "int \<Rightarrow> bytes \<Rightarrow> bool \<Rightarrow> parg list \<Rightarrow> unit uprog" where
  "printf_loop fd [] pct ap = retU ()"
| "printf_loop fd (c # fmt) pct ap =
     (if \<not> pct then
        if c = 37 then printf_loop fd fmt True ap
        else seqU (putc fd c) (printf_loop fd fmt False ap)
      else if c = 100 then
        (case ap of PNum x # ap \<Rightarrow> seqU (printint_u fd x 10 True) (printf_loop fd fmt False ap) | _ \<Rightarrow> faultU ''printf'')
      else if c = 120 \<or> c = 112 then
        (case ap of PNum x # ap \<Rightarrow> seqU (printint_u fd x 16 False) (printf_loop fd fmt False ap) | _ \<Rightarrow> faultU ''printf'')
      else if c = 115 then
        (case ap of
           PStr s # ap \<Rightarrow>
             seqU (forU (case s of None \<Rightarrow> [40, 110, 117, 108, 108, 41] | Some bs \<Rightarrow> bs) (putc fd))
             (printf_loop fd fmt False ap)
         | _ \<Rightarrow> faultU ''printf'')
      else if c = 99 then
        (case ap of PNum x # ap \<Rightarrow> seqU (putc fd (ucast x)) (printf_loop fd fmt False ap) | _ \<Rightarrow> faultU ''printf'')
      else if c = 37 then seqU (putc fd c) (printf_loop fd fmt False ap)
      else seqU (putc fd 37) (seqU (putc fd c) (printf_loop fd fmt False ap)))"

definition lit :: "string \<Rightarrow> bytes" where
  "lit cs = map of_char cs"

definition nl :: string where
  "nl = [CHR 0x0A]"

definition printf :: "int \<Rightarrow> string \<Rightarrow> parg list \<Rightarrow> unit uprog" where
  "printf fd fmt ap = printf_loop fd (lit fmt) False ap"

section \<open>Lemmas: strings in memory\<close>

fun cstr_at :: "mem \<Rightarrow> u32 \<Rightarrow> bytes \<Rightarrow> bool" where
  "cstr_at m a [] = (m a = 0)"
| "cstr_at m a (x # xs) = (m a = x \<and> x \<noteq> 0 \<and> cstr_at m (a + 1) xs)"

lemma cstr_nonzero: "cstr_at m a xs \<Longrightarrow> 0 \<notin> set xs"
  by (induction xs arbitrary: a) auto

lemma strlen_u_loop_cstr: "cstr_at m (s + n) xs \<Longrightarrow> strlen_u_loop m s n = Some (n + of_nat (length xs))"
proof (induction xs arbitrary: n)
  case (Cons x xs)
  then have "strlen_u_loop m s (n + 1) = Some (n + 1 + of_nat (length xs))" by (intro Cons.IH) (simp add: algebra_simps)
  with Cons.prems show ?case by (simp add: strlen_u_loop.simps [of m s n] algebra_simps)
qed (simp add: strlen_u_loop.simps)

lemma strlen_u_cstr: "cstr_at m a xs \<Longrightarrow> strlen_u m a = Some (of_nat (length xs))"
  using strlen_u_loop_cstr [of m a 0 xs] by (simp add: strlen_u_def)

fun strcmp_bytes :: "bytes \<Rightarrow> bytes \<Rightarrow> int" where
  "strcmp_bytes (x # xs) (y # ys) = (if x = y then strcmp_bytes xs ys else uint x - uint y)"
| "strcmp_bytes (x # xs) [] = uint x"
| "strcmp_bytes [] (y # ys) = - uint y"
| "strcmp_bytes [] [] = 0"

lemma strcmp_cstr: "cstr_at m p xs \<Longrightarrow> cstr_at m q ys \<Longrightarrow> strcmp m p q = Some (strcmp_bytes xs ys)"
  by (induction xs ys arbitrary: p q rule: strcmp_bytes.induct) (auto simp: strcmp.simps)

lemma strcmp_bytes_eq: "0 \<notin> set xs \<Longrightarrow> 0 \<notin> set ys \<Longrightarrow> strcmp_bytes xs ys = 0 \<longleftrightarrow> xs = ys"
  by (induction xs ys rule: strcmp_bytes.induct) (auto simp: uint_0_iff simp flip: word_uint_eq_iff)

lemma strchr_cstr:
  "cstr_at m s xs \<Longrightarrow> c \<noteq> 0 \<Longrightarrow>
   strchr m s c = Some (if c \<in> set xs then Some (s + of_nat (length (takeWhile (\<lambda>x. x \<noteq> c) xs))) else None)"
proof (induction xs arbitrary: s)
  case (Cons x xs)
  then show ?case by (auto simp: strchr.simps [of m s] algebra_simps)
qed (simp add: strchr.simps)

lemma atoi_loop_cstr:
  assumes "cstr_at m s (ds @ rest)" "\<forall>d \<in> set ds. 48 \<le> d \<and> d \<le> 57" "rest = [] \<or> \<not> (48 \<le> hd rest \<and> hd rest \<le> 57)"
  shows "atoi_loop m s n = Some (foldl (\<lambda>n d. n * 10 + ucast d - 48) n ds)"
  using assms
proof (induction ds arbitrary: s n)
  case Nil
  then show ?case by (cases rest) (auto simp: atoi_loop.simps [of m s n])
next
  case (Cons d ds)
  then show ?case by (simp add: atoi_loop.simps [of m s n])
qed

section \<open>Lemmas: output\<close>

definition puts_on :: "int \<Rightarrow> bytes \<Rightarrow> unit uprog \<Rightarrow> bool" where
  "puts_on fd bs p = (\<forall>s. length bs \<le> length (answers s) \<longrightarrow> p s = UOk () (after (map (\<lambda>b. Write fd [b]) bs) s))"

named_theorems puts_on_intros

lemma puts_onD: "puts_on fd bs p \<Longrightarrow> length bs \<le> length (answers s) \<Longrightarrow> p s = UOk () (after (map (\<lambda>b. Write fd [b]) bs) s)"
  by (simp add: puts_on_def)

lemma puts_on_ret [puts_on_intros]: "puts_on fd [] (retU ())"
  by (simp add: puts_on_def)

lemma puts_on_putc [puts_on_intros]: "puts_on fd [c] (putc fd c)"
  unfolding puts_on_def
proof (intro allI impI)
  fix s :: ust
  assume "length [c] \<le> length (answers s)"
  then have "answers s \<noteq> []" by auto
  from callU_after [OF this] show "putc fd c s = UOk () (after (map (\<lambda>b. Write fd [b]) [c]) s)" by (simp add: putc_def seqU_run)
qed

lemma puts_on_seq [puts_on_intros]:
  assumes "puts_on fd xs p" "puts_on fd ys q"
  shows "puts_on fd (xs @ ys) (seqU p q)"
  unfolding puts_on_def
proof (intro allI impI)
  fix s :: ust assume l: "length (xs @ ys) \<le> length (answers s)"
  let ?t = "after (map (\<lambda>b. Write fd [b]) xs) s"
  have p: "p s = UOk () ?t" by (rule puts_onD [OF assms(1)]) (use l in simp)
  have q: "q ?t = UOk () (after (map (\<lambda>b. Write fd [b]) ys) ?t)" by (rule puts_onD [OF assms(2)]) (use l in simp)
  show "seqU p q s = UOk () (after (map (\<lambda>b. Write fd [b]) (xs @ ys)) s)"
    unfolding seqU_run p q uout.case after_simps map_append ..
qed

lemma puts_on_for [puts_on_intros]: "puts_on fd bs (forU bs (putc fd))"
proof (induction bs)
  case (Cons b bs)
  from puts_on_seq [OF puts_on_putc Cons] show ?case by simp
qed (simp add: puts_on_ret del: retU_run)

lemma puts_on_printint: "puts_on fd (rev (printint_u_buf x base sg)) (printint_u fd x base sg)"
  unfolding printint_u_def by (rule puts_on_for)

section \<open>Lemmas: numbers\<close>

text \<open>The number that decimal digits, the lowest first, stand for.\<close>

fun dval :: "bytes \<Rightarrow> nat" where
  "dval [] = 0"
| "dval (c # cs) = (unat c - 48) + 10 * dval cs"

lemma hexdigits_dec: "k < 10 \<Longrightarrow> hexdigits ! k = of_nat (48 + k)" for k :: nat
  by (auto simp: hexdigits_def less_Suc_eq numeral_eq_Suc)

lemma hexdigits_range: "k < 10 \<Longrightarrow> 48 \<le> hexdigits ! k \<and> hexdigits ! k \<le> 57 \<and> unat (hexdigits ! k) = 48 + k" for k :: nat
proof -
  assume k: "k < 10"
  then have "unat (of_nat (48 + k) :: u8) = 48 + k" by (simp add: unat_of_nat del: of_nat_add)
  with k show ?thesis by (simp add: hexdigits_dec word_le_nat_alt del: of_nat_add)
qed

lemma printint_u_digits_dec:
  "unat x < 10 ^ k \<Longrightarrow> 0 < k \<Longrightarrow> dval (printint_u_digits k x 10) = unat x \<and>
     (\<forall>d \<in> set (printint_u_digits k x 10). 48 \<le> d \<and> d \<le> 57)"
proof (induction k arbitrary: x)
  case (Suc k)
  have m: "unat (x mod 10) = unat x mod 10" "unat (x div 10) = unat x div 10" by (simp_all add: unat_mod unat_div)
  note r = hexdigits_range [of "unat x mod 10"]
  show ?case
  proof (cases "x div 10 = 0")
    case True
    then have "unat x div 10 = 0" using m(2) by simp
    then show ?thesis using True r by (simp add: m Let_def)
  next
    case False
    then have nz: "unat x div 10 \<noteq> 0" using m(2) by (metis unat_0_iff)
    have "unat (x div 10) < 10 ^ k" using Suc.prems(1) by (simp add: m less_mult_imp_div_less)
    moreover have "0 < k" using nz Suc.prems(1) by (cases k) auto
    ultimately have "dval (printint_u_digits k (x div 10) 10) = unat x div 10"
      "\<forall>d \<in> set (printint_u_digits k (x div 10) 10). 48 \<le> d \<and> d \<le> 57" using Suc.IH [of "x div 10"] m by simp_all
    then show ?thesis using False r by (simp add: m Let_def)
  qed
qed simp

lemma printint_u_digits_length:
  "2 \<le> base \<Longrightarrow> unat x < unat base ^ n \<Longrightarrow> 0 < n \<Longrightarrow> length (printint_u_digits k x base) \<le> n"
proof (induction k arbitrary: x n)
  case (Suc k)
  show ?case
  proof (cases "x div base = 0 \<or> n = 1")
    case True
    then have "x div base = 0" using Suc.prems by (auto simp: word_unat_eq_iff unat_div)
    then show ?thesis using Suc.prems(3) by (simp add: Let_def)
  next
    case False
    then obtain n' where n: "n = Suc n'" "0 < n'" using Suc.prems(3) by (cases n) auto
    have "unat (x div base) < unat base ^ n'" using Suc.prems(2) n by (simp add: unat_div less_mult_imp_div_less mult.commute)
    from Suc.IH [OF Suc.prems(1) this n(2)] show ?thesis using n by (simp add: Let_def)
  qed
qed simp

lemma atoi_digits:
  assumes "\<forall>d \<in> set ds. 48 \<le> d \<and> d \<le> (57 :: u8)"
  shows "foldl (\<lambda>n d. n * 10 + ucast d - 48) 0 (rev ds) = (of_nat (dval ds) :: u32)"
  using assms
proof (induction ds)
  case (Cons d ds)
  then have "48 \<le> unat d" by (simp add: word_le_nat_alt)
  then have "(of_nat (unat d - 48) :: u32) = ucast d - 48" by (simp add: of_nat_diff)
  with Cons show ?case by (simp add: algebra_simps)
qed simp

lemma printint_u_dec:
  fixes x :: u32
  defines "ds \<equiv> printint_u_digits 32 x 10"
  shows "dval ds = unat x" "\<forall>d \<in> set ds. 48 \<le> d \<and> d \<le> 57" "length ds \<le> 10"
proof -
  have u: "unat x < 10 ^ 10" using unat32_lt [of x] by simp
  then have "unat x < 10 ^ 32" by simp
  from printint_u_digits_dec [OF this] show "dval ds = unat x" "\<forall>d \<in> set ds. 48 \<le> d \<and> d \<le> 57" by (simp_all add: ds_def)
  show "length ds \<le> 10" unfolding ds_def by (rule printint_u_digits_length) (use u in simp_all)
qed

lemma unat_sint: "0 \<le> sint x \<Longrightarrow> int (unat x) = sint x" "sint x < 0 \<Longrightarrow> int (unat (- x)) = - sint x" for x :: u32
proof -
  have b: "- (2 ^ 31) \<le> sint x" "sint x < 2 ^ 31" using sint_ge [of x] sint_lt [of x] by simp_all
  have u: "uint x = sint x mod 2 ^ 32" by (simp add: uint_sint take_bit_eq_mod)
  show "int (unat x) = sint x" if "0 \<le> sint x" using that b u by simp
  have "uint (- x) = (- sint x) mod 2 ^ 32" unfolding uint_word_ariths u by (simp add: mod_minus_eq)
  then show "int (unat (- x)) = - sint x" if "sint x < 0" using that b by simp
qed

section \<open>Properties\<close>

text \<open>
  (C24) Numbers through \<open>printf\<close> and \<open>atoi\<close>. For every argument, \<open>printf\<close> with \<open>%d\<close> needs at most 11 of
  the 16 characters of its buffer and writes them one by one: a minus sign when the
  argument is negative, and the decimal digits of its absolute value. \<open>atoi\<close> reads the text back
  to the same number, except that it knows no sign and makes a negative one 0.
\<close>

theorem printf_atoi_roundtrip:
  assumes "ds = rev (printint_u_buf x 10 True)"
  shows "length ds \<le> 11 \<and> puts_on fd ds (printf fd ''%d'' [PNum x]) \<and> (hd ds = 45 \<longleftrightarrow> sint x < 0) \<and>
    int (dval (rev (filter (\<lambda>d. d \<noteq> 45) ds))) = \<bar>sint x\<bar> \<and>
    (cstr_at m a ds \<longrightarrow> atoi m a = Some (if sint x < 0 then 0 else sint x))"
proof -
  define x' where "x' = (if sint x < 0 then - x else x)"
  let ?ds = "printint_u_digits 32 x' 10"
  note d = printint_u_dec [of x']
  have ne: "?ds \<noteq> []" by (simp add: numeral_eq_Suc)
  have ds: "ds = (if sint x < 0 then 45 # rev ?ds else rev ?ds)" using assms by (simp add: printint_u_buf_def x'_def Let_def)
  have no: "45 \<notin> set ?ds" using d(2) by fastforce
  have fil: "filter (\<lambda>d. d \<noteq> 45) ds = rev ?ds" using no ds by (auto simp: filter_id_conv)
  have val: "int (unat x') = \<bar>sint x\<bar>" using unat_sint [of x] by (simp add: x'_def)
  have hd: "hd ds = 45 \<longleftrightarrow> sint x < 0" 
  proof -
    have "last ?ds \<noteq> 45" using last_in_set [OF ne] no by metis
    then show ?thesis using ds ne by (simp add: hd_rev)
  qed
  have "printf fd ''%d'' [PNum x] = seqU (printint_u fd x 10 True) (retU ())"
    by (simp add: printf_def lit_def del: retU_run)
  then have put: "puts_on fd ds (printf fd ''%d'' [PNum x])"
    using puts_on_seq [OF puts_on_printint puts_on_ret, of fd x 10 True] assms by simp
  have "atoi m a = Some (if sint x < 0 then 0 else sint x)" if c: "cstr_at m a ds"
  proof (cases "sint x < 0")
    case True
    then show ?thesis using c ds by (simp add: atoi_def atoi_loop.simps)
  next
    case False
    then have "atoi_loop m a 0 = Some (of_nat (unat x'))"
      using atoi_loop_cstr [of m a "rev ?ds" "[]" 0] atoi_digits [OF d(2)] c ds d by simp
    then show ?thesis using False by (simp add: atoi_def x'_def)
  qed
  with put hd d(1,3) ds fil val show ?thesis by simp
qed

theorem printf_atoi_roundtrip_witness:
  "rev (printint_u_buf 42 10 True) = [52, 50] \<and> atoi ((\<lambda>_. 0)(8 := 52, 9 := 50)) 8 = Some 42"
proof -
  have b: "rev (printint_u_buf 42 10 True) = [52, 50]"
  proof -
    have e: "(32 :: nat) = Suc (Suc 30)" by simp
    have "printint_u_digits 32 42 10 = [50, 52]" unfolding e by (simp add: hexdigits_def Let_def del: Suc_numeral)
    then show ?thesis by (simp add: printint_u_buf_def Let_def)
  qed
  with printf_atoi_roundtrip [OF refl, of 42 1 "(\<lambda>_. 0)(8 := 52, 9 := 50)" 8] show ?thesis by simp
qed

end
