(* ===== verification/Grep.thy ===== *)
theory Grep
  imports Ulib
begin

text \<open>
  \<open>grep\<close> (\<open>src/grep.c\<close>): the matcher for the operators \<open>^ . * $\<close>, proved against the language
  of the pattern, and the loop over the input with its buffer of 1024 bytes. Strings are
  lists of bytes, whose end stands for the terminating zero.
\<close>

section \<open>The matcher\<close>

function (sequential) matchhere :: "bytes \<Rightarrow> bytes \<Rightarrow> bool"
  and matchstar :: "u8 \<Rightarrow> bytes \<Rightarrow> bytes \<Rightarrow> bool" where
  "matchhere [] text = True"
| "matchhere (c # re) text =
     (if re \<noteq> [] \<and> hd re = 42 then matchstar c (tl re) text
      else if c = 36 \<and> re = [] then text = []
      else if text \<noteq> [] \<and> (c = 46 \<or> c = hd text) then matchhere re (tl text)
      else False)"
| "matchstar c re text =
     (if matchhere re text then True
      else if text \<noteq> [] \<and> (hd text = c \<or> c = 46) then matchstar c re (tl text)
      else False)"
  by pat_completeness auto

termination
  by (relation "measures [\<lambda>x. case x of Inl (re, t) \<Rightarrow> length re + length t | Inr (c, re, t) \<Rightarrow> length re + length t,
      \<lambda>x. case x of Inl _ \<Rightarrow> 0 | Inr _ \<Rightarrow> 1]") (auto simp: neq_Nil_conv)

declare matchstar.simps [simp del]

fun match_loop :: "bytes \<Rightarrow> bytes \<Rightarrow> bool" where
  "match_loop re [] = matchhere re []"
| "match_loop re (x # text) = (if matchhere re (x # text) then True else match_loop re text)"

definition match :: "bytes \<Rightarrow> bytes \<Rightarrow> bool" where
  "match re text = (if re \<noteq> [] \<and> hd re = 94 then matchhere (tl re) text else match_loop re text)"

section \<open>The loop over the input\<close>

text \<open>
  \<open>strchr\<close> from the index \<open>p\<close> of the buffer: \<open>None\<close> when it finds neither the character nor a
  zero before the end of the buffer and reads on behind it.
\<close>

fun strchr_from :: "bytes \<Rightarrow> u8 \<Rightarrow> nat option option" where
  "strchr_from [] c = None"
| "strchr_from (x # xs) c =
     (if x = 0 then Some None else if x = c then Some (Some 0) else map_option (map_option Suc) (strchr_from xs c))"

definition strchr_buf :: "bytes \<Rightarrow> nat \<Rightarrow> u8 \<Rightarrow> nat option option" where
  "strchr_buf buf p c = map_option (map_option (\<lambda>i. p + i)) (strchr_from (drop p buf) c)"

lemma strchr_from_Some:
  "strchr_from xs c = Some (Some i) \<Longrightarrow> i < length xs \<and> xs ! i = c \<and> (\<forall>j < i. xs ! j \<noteq> 0 \<and> xs ! j \<noteq> c)"
proof (induction xs arbitrary: i)
  case (Cons x xs)
  then show ?case by (auto simp: nth_Cons split: if_splits nat.splits)
qed simp

lemma strchr_buf_Some: "strchr_buf buf p c = Some (Some q) \<Longrightarrow> p \<le> q \<and> q < length buf"
  using strchr_from_Some [of "drop p buf" c] by (auto simp: strchr_buf_def)

text \<open>The inner loop from \<open>p\<close> on; \<open>p\<close> grows in every round.\<close>

function grep_lines :: "bytes \<Rightarrow> bytes \<Rightarrow> nat \<Rightarrow> (nat \<times> bytes) uprog" where
  "grep_lines pattern buf p =
     (if p \<le> length buf then
        (case strchr_buf buf p 10 of
           None \<Rightarrow> faultU ''strchr''
         | Some None \<Rightarrow> retU (p, buf)
         | Some (Some q) \<Rightarrow>
             let buf = buf[q := 0]; line = take (q - p) (drop p buf) in
             if match pattern line then
               let buf = buf[q := 10] in
               seqU (callU (Write 1 (take (q + 1 - p) (drop p buf))))
               (grep_lines pattern buf (q + 1))
             else grep_lines pattern buf (q + 1))
      else faultU ''strchr'')"
  by pat_completeness auto

termination
  by (relation "measure (\<lambda>(pattern, buf, p). Suc (length buf) - p)") (auto dest!: strchr_buf_Some)

declare grep_lines.simps [simp del]

text \<open>
  The outer loop; \<open>m\<close> is an \<open>int\<close>. With a negative \<open>m\<close> the data of the next \<open>read\<close> would go in
  front of the buffer.
\<close>

fun grep_loop :: "nat \<Rightarrow> bytes \<Rightarrow> int \<Rightarrow> bytes \<Rightarrow> int \<Rightarrow> bytes uprog" where
  "grep_loop 0 pattern fd buf m = blockU"
| "grep_loop (Suc k) pattern fd buf m =
     bindU (syscallU (Read fd (nat (1024 - m)))) (\<lambda>r.
     let n = r_ret r in
     if n > 0 then
       if m < 0 then faultU ''read''
       else
         let buf = take (nat m) buf @ r_data r @ drop (nat m + length (r_data r)) buf; m = m + n in
         bindU (grep_lines pattern buf 0) (\<lambda>(p, buf).
         let m = (if p = 0 then 0 else m) in
         if m > 0 then
           let m = m - int p in grep_loop k pattern fd (take (nat m) (drop p buf) @ drop (nat m) buf) m
         else grep_loop k pattern fd buf m)
     else retU buf)"

definition grep :: "bytes \<Rightarrow> int \<Rightarrow> bytes \<Rightarrow> bytes uprog" where
  "grep pattern fd buf = loopU (\<lambda>k. grep_loop k pattern fd buf 0)"

fun grep_files :: "bytes \<Rightarrow> bytes list \<Rightarrow> bytes \<Rightarrow> bytes uprog" where
  "grep_files pattern [] buf = exitU 1"
| "grep_files pattern (f # fs) buf =
     bindU (callU (Open f 0)) (\<lambda>fd.
     if fd < 0 then seqU (printf 1 (''grep: cannot open %s'' @ nl) [PStr (Some f)]) (exitU 1)
     else
       bindU (grep pattern fd buf) (\<lambda>buf.
       seqU (callU (Close fd)) (grep_files pattern fs buf)))"

definition grep_main :: "bytes list \<Rightarrow> bytes uprog" where
  "grep_main argv =
     (if length argv \<le> 1 then seqU (printf 2 (''usage: grep pattern [file ...]'' @ nl) []) (exitU 1)
      else if length argv \<le> 2 then seqU (grep (argv ! 1) 0 (replicate 1024 0)) (exitU 1)
      else grep_files (argv ! 1) (drop 2 argv) (replicate 1024 0))"

section \<open>Lemmas: the matcher\<close>

text \<open>
  What a pattern means: single characters and repetitions, \<open>.\<close> for any character, with an
  anchor at the end when the pattern ends in \<open>$\<close>.
\<close>

datatype item = One u8 | Rep u8

fun items :: "bytes \<Rightarrow> item list \<times> bool" where
  "items [] = ([], False)"
| "items [c] = (if c = 36 then ([], True) else ([One c], False))"
| "items (c # d # re) =
     (if d = 42 then (Rep c # fst (items re), snd (items re)) else (One c # fst (items (d # re)), snd (items (d # re))))"

definition sym :: "u8 \<Rightarrow> u8 \<Rightarrow> bool" where
  "sym c x = (c = 46 \<or> x = c)"

fun lang :: "item list \<Rightarrow> bytes set" where
  "lang [] = {[]}"
| "lang (One c # is) = {x # w |x w. sym c x \<and> w \<in> lang is}"
| "lang (Rep c # is) = {u @ w |u w. (\<forall>x \<in> set u. sym c x) \<and> w \<in> lang is}"

definition here :: "bytes \<Rightarrow> bytes \<Rightarrow> bool" where
  "here re t = (\<exists>u q. t = u @ q \<and> u \<in> lang (fst (items re)) \<and> (snd (items re) \<longrightarrow> q = []))"

lemma here_Rep: "here (c # 42 # re) t \<longleftrightarrow> (\<exists>u v. t = u @ v \<and> (\<forall>x \<in> set u. sym c x) \<and> here re v)"
proof
  assume "here (c # 42 # re) t"
  then obtain z q where z: "t = z @ q" "z \<in> lang (fst (items (c # 42 # re)))" "snd (items (c # 42 # re)) \<longrightarrow> q = []"
    unfolding here_def by blast
  then obtain u w where "z = u @ w" "\<forall>x \<in> set u. sym c x" "w \<in> lang (fst (items re))" by auto
  with z show "\<exists>u v. t = u @ v \<and> (\<forall>x \<in> set u. sym c x) \<and> here re v" unfolding here_def
    by (intro exI [of _ u] exI [of _ "w @ q"]) auto
next
  assume "\<exists>u v. t = u @ v \<and> (\<forall>x \<in> set u. sym c x) \<and> here re v"
  then obtain u w q where "t = u @ w @ q" "\<forall>x \<in> set u. sym c x" "w \<in> lang (fst (items re))" "snd (items re) \<longrightarrow> q = []"
    by (auto simp: here_def)
  then show "here (c # 42 # re) t" unfolding here_def
    by (intro exI [of _ "u @ w"] exI [of _ q]) auto
qed

lemma here_Rep_step:
  assumes "\<not> here re t"
  shows "here (c # 42 # re) t \<longleftrightarrow> t \<noteq> [] \<and> sym c (hd t) \<and> here (c # 42 # re) (tl t)"
proof
  assume "here (c # 42 # re) t"
  then obtain u v where u: "t = u @ v" "\<forall>x \<in> set u. sym c x" "here re v" unfolding here_Rep by blast
  then obtain y u' where "u = y # u'" using assms by (cases u) auto
  then show "t \<noteq> [] \<and> sym c (hd t) \<and> here (c # 42 # re) (tl t)" unfolding here_Rep using u by auto
next
  assume r: "t \<noteq> [] \<and> sym c (hd t) \<and> here (c # 42 # re) (tl t)"
  then obtain u v where "tl t = u @ v" "\<forall>x \<in> set u. sym c x" "here re v" unfolding here_Rep by blast
  then show "here (c # 42 # re) t" unfolding here_Rep
    using r by (intro exI [of _ "hd t # u"] exI [of _ v]) (cases t; simp)
qed

lemma here_One:
  assumes "re = [] \<or> hd re \<noteq> 42" "\<not> (c = 36 \<and> re = [])"
  shows "here (c # re) t \<longleftrightarrow> t \<noteq> [] \<and> sym c (hd t) \<and> here re (tl t)"
proof -
  have i: "items (c # re) = (One c # fst (items re), snd (items re))" using assms by (cases re) auto
  show ?thesis
  proof (cases t)
    case (Cons x t')
    show ?thesis
    proof
      assume "here (c # re) t"
      then obtain u q where "t = u @ q" "u \<in> lang (One c # fst (items re))" "snd (items re) \<longrightarrow> q = []" unfolding here_def i by auto
      then obtain w where "u = x # w" "sym c x" "w \<in> lang (fst (items re))" "t' = w @ q" using Cons by auto
      moreover have "here re t'" unfolding here_def using calculation \<open>snd (items re) \<longrightarrow> q = []\<close> by blast
      ultimately show "t \<noteq> [] \<and> sym c (hd t) \<and> here re (tl t)" using Cons by simp
    next
      assume "t \<noteq> [] \<and> sym c (hd t) \<and> here re (tl t)"
      then obtain u q where "sym c x" "t' = u @ q" "u \<in> lang (fst (items re))" "snd (items re) \<longrightarrow> q = []"
        using Cons by (auto simp: here_def)
      then show "here (c # re) t" unfolding here_def i Cons
        by (intro exI [of _ "x # u"] exI [of _ q]) simp
    qed
  qed (auto simp: here_def i)
qed

lemma matchhere_correct: "matchhere re t \<longleftrightarrow> here re t" and matchstar_correct: "matchstar c re t \<longleftrightarrow> here (c # 42 # re) t"
proof (induction re t and c re t rule: matchhere_matchstar.induct)
  case (1 t)
  then show ?case by (simp add: here_def)
next
  case (2 c re t)
  show ?case
  proof (cases "re \<noteq> [] \<and> hd re = 42")
    case True
    then obtain re' where "re = 42 # re'" by (cases re) auto
    with 2(1) show ?thesis by simp
  next
    case False
    show ?thesis
    proof (cases "c = 36 \<and> re = []")
      case True
      then show ?thesis by (auto simp: here_def)
    next
      case nd: False
      with False 2(2) here_One [of re c t] show ?thesis by (auto simp: sym_def)
    qed
  qed
next
  case (3 c re t)
  show ?case
  proof (cases "matchhere re t")
    case True
    then have "here re t" using 3(1) by simp
    then have "here (c # 42 # re) t" unfolding here_Rep by (intro exI [of _ "[]"] exI [of _ t]) simp
    then show ?thesis using True by (simp add: matchstar.simps [of c re t])
  next
    case False
    then have nh: "\<not> here re t" using 3(1) by simp
    have "here (c # 42 # re) t \<longleftrightarrow> t \<noteq> [] \<and> sym c (hd t) \<and> here (c # 42 # re) (tl t)" by (rule here_Rep_step [OF nh])
    then show ?thesis using False 3(2) by (auto simp: sym_def matchstar.simps [of c re t])
  qed
qed

lemma match_loop_correct: "match_loop re t \<longleftrightarrow> (\<exists>p u. t = p @ u \<and> here re u)"
proof (induction t)
  case (Cons x t)
  then show ?case by (auto simp: matchhere_correct Cons_eq_append_conv)
qed (simp add: matchhere_correct)

section \<open>Lemmas: the lines of the buffer\<close>

text \<open>The complete lines of the input, with their newlines, that match.\<close>

fun out_lines :: "bytes \<Rightarrow> bytes \<Rightarrow> bytes \<Rightarrow> bytes list" where
  "out_lines pattern line [] = []"
| "out_lines pattern line (x # xs) =
     (if x = 10 then (if match pattern line then [line @ [10]] else []) @ out_lines pattern [] xs
      else out_lines pattern (line @ [x]) xs)"

lemma strchr_from_line:
  "10 \<notin> set l \<Longrightarrow> 0 \<notin> set l \<Longrightarrow> strchr_from (l @ 10 # xs) 10 = Some (Some (length l))"
  "10 \<notin> set l \<Longrightarrow> 0 \<notin> set l \<Longrightarrow> strchr_from (l @ 0 # xs) 10 = Some None"
  by (induction l) auto

lemma out_lines_line: "10 \<notin> set l \<Longrightarrow> out_lines pattern ys (l @ 10 # xs) = (if match pattern (ys @ l) then [ys @ l @ [10]] else []) @ out_lines pattern [] xs"
  "10 \<notin> set l \<Longrightarrow> out_lines pattern ys l = []"
  by (induction l arbitrary: ys) auto

text \<open>One round of the inner loop, and its end.\<close>

lemma grep_lines_step:
  assumes "10 \<notin> set l" "0 \<notin> set l"
  shows "grep_lines pattern (pre @ l @ 10 # post) (length pre) =
    (if match pattern l then
       seqU (callU (Write 1 (l @ [10]))) (grep_lines pattern (pre @ l @ 10 # post) (length pre + length l + 1))
     else grep_lines pattern (pre @ l @ 0 # post) (length pre + length l + 1))"
proof -
  let ?buf = "pre @ l @ 10 # post"
  have q: "strchr_buf ?buf (length pre) 10 = Some (Some (length pre + length l))"
    using strchr_from_line(1) [OF assms] by (simp add: strchr_buf_def)
  show ?thesis unfolding grep_lines.simps [of pattern ?buf "length pre"] q
    by (simp add: list_update_append Let_def)
qed

lemma grep_lines_stop:
  assumes "10 \<notin> set l" "0 \<notin> set l"
  shows "grep_lines pattern (pre @ l @ 0 # post) (length pre) = retU (length pre, pre @ l @ 0 # post)"
  using assms by (simp add: grep_lines.simps [of _ "pre @ l @ 0 # post"] strchr_buf_def strchr_from_line)

lemma grep_lines_run:
  assumes "0 \<notin> set xs" "length (out_lines pattern [] xs) \<le> length (answers s)"
  shows "\<exists>p buf. grep_lines pattern (pre @ xs @ 0 # post) (length pre) s = UOk (p, buf) (after (map (Write 1) (out_lines pattern [] xs)) s) \<and>
    length buf = length (pre @ xs @ 0 # post) \<and> length pre \<le> p \<and> p \<le> length pre + length xs"
  using assms
proof (induction "length xs" arbitrary: xs pre s rule: less_induct)
  case less
  let ?buf = "pre @ xs @ 0 # post"
  show ?case
  proof (cases "10 \<in> set xs")
    case False
    then show ?thesis using out_lines_line(2) [OF False] grep_lines_stop [OF False less.prems(1), of pattern pre post] by simp
  next
    case True
    then obtain l zs where xs: "xs = l @ 10 # zs" "10 \<notin> set l" by (meson split_list_first)
    have l0: "0 \<notin> set l" "0 \<notin> set zs" using less.prems(1) xs by auto
    let ?b = "if match pattern l then 10 else 0"
    let ?pre = "pre @ l @ [?b]"
    let ?s = "if match pattern l then after [Write 1 (l @ [10])] s else s"
    have o: "out_lines pattern [] xs = (if match pattern l then [l @ [10]] else []) @ out_lines pattern [] zs"
      using out_lines_line(1) [OF xs(2), of pattern "[]" zs] by (simp add: xs)
    have "length (out_lines pattern [] zs) \<le> length (answers ?s)" using less.prems(2) o by auto
    then obtain p buf where ih: "grep_lines pattern (?pre @ zs @ 0 # post) (length ?pre) ?s =
        UOk (p, buf) (after (map (Write 1) (out_lines pattern [] zs)) ?s)"
      "length buf = length (?pre @ zs @ 0 # post)" "length ?pre \<le> p" "p \<le> length ?pre + length zs"
      using less.hyps [of zs ?s ?pre] l0(2) by (auto simp: xs)
    have w: "callU (Write 1 (l @ [10])) s = UOk (r_ret (hd (answers s))) (after [Write 1 (l @ [10])] s)" if "match pattern l"
      using that o less.prems(2) by (intro callU_after) auto
    have "grep_lines pattern ?buf (length pre) s = grep_lines pattern (?pre @ zs @ 0 # post) (length ?pre) ?s"
      using grep_lines_step [OF xs(2) l0(1), of pattern pre "zs @ 0 # post"] w by (simp add: xs(1) seqU_run)
    with ih o show ?thesis by (intro exI [of _ p] exI [of _ buf]) (auto simp: xs)
  qed
qed

lemma out_lines_concat:
  "\<forall>l \<in> set ls. 10 \<notin> set l \<Longrightarrow> 10 \<notin> set rest \<Longrightarrow>
   out_lines pattern [] (concat (map (\<lambda>l. l @ [10]) ls) @ rest) = map (\<lambda>l. l @ [10]) (filter (match pattern) ls)"
  by (induction ls) (simp_all add: out_lines_line)

section \<open>Properties\<close>

text \<open>
  (C7) The matcher of \<open>grep\<close> decides the language of its pattern: a line matches exactly if some
  part of it is a word of the pattern, where \<open>c*\<close> stands for any number of \<open>c\<close>, \<open>.\<close> for
  any character, a leading \<open>^\<close> makes the part start with the line and a final \<open>$\<close> makes
  it end with the line.
\<close>

theorem match_correct:
  "match re line \<longleftrightarrow>
     (let anchored = (re \<noteq> [] \<and> hd re = 94); (is, at_end) = items (if anchored then tl re else re)
      in \<exists>p u q. line = p @ u @ q \<and> u \<in> lang is \<and> (anchored \<longrightarrow> p = []) \<and> (at_end \<longrightarrow> q = []))"
proof (cases "re \<noteq> [] \<and> hd re = 94")
  case True
  then show ?thesis by (auto simp: match_def matchhere_correct here_def Let_def split_beta)
next
  case False
  then have "match re line \<longleftrightarrow> (\<exists>p u. line = p @ u \<and> here re u)"
    unfolding match_def match_loop_correct by auto
  then show ?thesis unfolding here_def Let_def split_beta using False by (simp add: split_beta) blast
qed

theorem match_correct_witness:
  "match (lit ''^ab*$'') (lit ''abbb'') \<and> (\<exists>u. lit ''abbb'' = u \<and> u \<in> lang [One 97, Rep 98])"
proof -
  have i: "items (tl (lit ''^ab*$'')) = ([One 97, Rep 98], True)" by (simp add: lit_def)
  have "lit ''abbb'' = 97 # [98, 98, 98] @ []" by (simp add: lit_def)
  moreover have "97 # [98, 98, 98] @ [] \<in> lang [One 97, Rep 98]"
    by (simp add: sym_def)
  ultimately have l: "lit ''abbb'' \<in> lang [One 97, Rep 98]" by metis
  moreover have "match (lit ''^ab*$'') (lit ''abbb'')"
    unfolding match_correct using l i by (simp add: Let_def) (simp add: lit_def)
  ultimately show ?thesis by blast
qed

text \<open>
  (C28) \<open>grep\<close> on an input that one \<open>read\<close> delivers, shorter than its buffer and without zero
  bytes, writes exactly the complete lines that match, in order, each with its newline. The
  byte of the buffer behind the input has to be zero, as all are for the first file. (Text
  behind the last newline is not looked at.)
\<close>

theorem grep_single_read:
  assumes "bs = concat (map (\<lambda>l. l @ [10]) ls) @ rest" "\<forall>l \<in> set ls. 10 \<notin> set l" "10 \<notin> set rest" "0 \<notin> set bs"
    "bs \<noteq> []" "length bs < 1024" "length buf = 1024" "buf ! length bs = 0"
    "answers s = [a] @ ws @ [e]" "r_ret a = int (length bs)" "r_data a = bs" "length ws = length (filter (match pattern) ls)" "r_ret e \<le> 0"
  shows "\<exists>b t n. grep pattern fd buf s = UOk b t \<and>
    calls t = calls s @ [Read fd 1024] @ map (\<lambda>l. Write 1 (l @ [10])) (filter (match pattern) ls) @ [Read fd n]"
proof -
  let ?o = "map (\<lambda>l. l @ [10]) (filter (match pattern) ls)"
  have o: "out_lines pattern [] bs = ?o" unfolding assms(1) by (rule out_lines_concat [OF assms(2,3)])
  define s1 where "s1 = s\<lparr>answers := ws @ [e], calls := calls s @ [Read fd 1024]\<rparr>"
  define post where "post = drop (Suc (length bs)) buf"
  have buf: "bs @ drop (length bs) buf = [] @ bs @ 0 # post"
    using assms(6-8) Cons_nth_drop_Suc [of "length bs" buf] by (simp add: post_def)
  have len: "length (out_lines pattern [] bs) \<le> length (answers s1)" using assms(12) by (simp add: o s1_def)
  obtain p b where g: "grep_lines pattern ([] @ bs @ 0 # post) 0 s1 = UOk (p, b) (after (map (Write 1) ?o) s1)"
    using grep_lines_run [OF assms(4) len, of "[]" post] unfolding o by auto
  have ans: "answers (after (map (Write 1) ?o) s1) = [e]" using assms(12) by (simp add: s1_def)
  have e: "\<exists>buf t n. grep_loop (Suc k) pattern fd b' m (after (map (Write 1) ?o) s1) = UOk buf t \<and> calls t = calls s1 @ map (Write 1) ?o @ [Read fd n]"
    for k b' m using ans assms(13) by (simp add: bindU_run syscallU_run Let_def)
  have k: "length (answers s) = Suc (Suc (length ws))" using assms(9) by simp
  have r: "syscallU (Read fd 1024) s = UOk a s1" using assms(9) by (simp add: syscallU_run s1_def)
  let ?t = "after (map (Write 1) ?o) s1" and ?K = "Suc (Suc (length ws))"
  have "grep pattern fd buf s =
      (let m = (if p = 0 then 0 else int (length bs)) in
       if m > 0 then grep_loop ?K pattern fd (take (nat (m - int p)) (drop p b) @ drop (nat (m - int p)) b) (m - int p) ?t
       else grep_loop ?K pattern fd b m ?t)"
    unfolding grep_def loopU_def k grep_loop.simps(2) [of ?K]
    using assms(5,10,11) buf g by (simp add: bindU_run r Let_def del: grep_loop.simps)
  then obtain b' m where "grep pattern fd buf s = grep_loop ?K pattern fd b' m ?t"
    unfolding Let_def by metis
  with e [of "Suc (length ws)" b' m] show ?thesis by (simp add: s1_def comp_def)
qed

definition rd :: "bytes \<Rightarrow> uret" where
  "rd bs = \<lparr>r_ret = int (length bs), r_data = bs, r_pipe = (0, 0), r_stat = \<lparr>st_type = 0, st_ino = 0, st_size = 0\<rparr>,
     r_pstat = \<lparr>ps_name = [], ps_sz = 0, ps_nofile = 0, ps_state = 0\<rparr>\<rparr>"

lemma rd_simps [simp]: "r_ret (rd bs) = int (length bs)" "r_data (rd bs) = bs"
  by (simp_all add: rd_def)

theorem grep_single_read_witness:
  "\<exists>buf t n. grep (lit ''b'') 0 (replicate 1024 0) \<lparr>answers = [rd (lit (''ab'' @ nl @ ''c'' @ nl @ ''b'')), rd [], rd []], calls = []\<rparr> = UOk buf t \<and>
     calls t = [Read 0 1024, Write 1 (lit (''ab'' @ nl)), Read 0 n]"
proof -
  have m: "match (lit ''b'') [97, 98]" "\<not> match (lit ''b'') [99]" by (simp_all add: match_def lit_def)
  show ?thesis
    using grep_single_read [of "lit (''ab'' @ nl @ ''c'' @ nl @ ''b'')" "[[97, 98], [99]]" "[98]" "replicate 1024 0"
        "\<lparr>answers = [rd (lit (''ab'' @ nl @ ''c'' @ nl @ ''b'')), rd [], rd []], calls = []\<rparr>" "rd (lit (''ab'' @ nl @ ''c'' @ nl @ ''b''))"
        "[rd []]" "rd []" "lit ''b''" 0] m
    by (simp add: lit_def nl_def)
qed

text \<open>
  (C38) The buffer of \<open>grep\<close> is not terminated behind the bytes read, so that old contents are
  searched again. Let the first \<open>read\<close> deliver one line \<open>l\<close> that matches and the second one
  a shorter line \<open>k\<close>: the end of \<open>l\<close> that \<open>k\<close> did not overwrite is taken for a line and,
  if it matches, is written, although it is no line of the input. Then \<open>m\<close> is negative by
  the difference of the two lengths, so that the third \<open>read\<close> is asked for that many bytes
  more than the buffer has, to an address in front of the buffer; if it delivers anything,
  the memory in front of the buffer is overwritten (a fault of the model).
\<close>

theorem grep_finds_stale_lines:
  assumes l: "10 \<notin> set l" "0 \<notin> set l" "match pattern l" "length l < 1023"
    and k: "10 \<notin> set k" "0 \<notin> set k" "length k < length l"
    and ans: "answers s = [rd (l @ [10]), w, rd (k @ [10])] @ ws @ [e]"
      "length ws = length (filter (match pattern) [k, drop (Suc (length k)) l])"
  shows "\<exists>buf t. grep pattern fd (replicate 1024 0) s = (if r_ret e > 0 then UFault ''read'' t else UOk buf t) \<and>
      calls t = calls s @ [Read fd 1024, Write 1 (l @ [10]), Read fd 1024] @
        map (\<lambda>x. Write 1 (x @ [10])) (filter (match pattern) [k, drop (Suc (length k)) l]) @
        [Read fd (1024 + (length l - length k))]"
proof -
  define d where "d = drop (Suc (length k)) l"
  define post where "post = replicate (1022 - length l) (0 :: u8)"
  define buf where "buf = l @ 10 # 0 # post"
  define c1 where "c1 = calls s @ [Read fd 1024, Write 1 (l @ [10])]"
  define c2 where "c2 = c1 @ [Read fd 1024] @ map (\<lambda>x. Write 1 (x @ [10])) (filter (match pattern) [k, d])"
  define b2 where "b2 = k @ (if match pattern k then 10 else 0) # d @ (if match pattern d then 10 else 0) # 0 # post"
  have d: "10 \<notin> set d" "0 \<notin> set d" "length k + Suc (length d) = length l"
    using l k in_set_dropD [of _ "Suc (length k)" l] by (auto simp: d_def)
  have first: "grep_loop (Suc n) pattern fd (replicate 1024 0) 0 s =
      grep_loop n pattern fd buf 0 (s\<lparr>answers := rd (k @ [10]) # ws @ [e], calls := c1\<rparr>)" for n
  proof -
    have "(l @ [10]) @ drop (Suc (length l)) (replicate 1024 0) = [] @ l @ 10 # 0 # post"
      using l(4) by (simp add: post_def Suc_diff_le flip: replicate_Suc)
    moreover have "grep_lines pattern (l @ 10 # 0 # post) (Suc (length l)) = retU (Suc (length l), buf)"
      using grep_lines_stop [of "[]" pattern "l @ [10]" post] by (simp add: buf_def)
    ultimately show ?thesis using ans(1) l(3) grep_lines_step [OF l(1,2), of pattern "[]" "0 # post"]
      by (simp add: bindU_run seqU_run syscallU_run callU_run Let_def c1_def buf_def)
  qed
  have lines: "grep_lines pattern (k @ 10 # d @ 10 # 0 # post) 0 (s\<lparr>answers := ws @ [e], calls := c1 @ [Read fd 1024]\<rparr>) =
      UOk (Suc (length l), b2) (s\<lparr>answers := [e], calls := c2\<rparr>)"
  proof -
    let ?b = "if match pattern k then 10 else 0 :: u8"
    have s1: "grep_lines pattern (k @ 10 # d @ 10 # 0 # post) 0 = (if match pattern k then
        seqU (callU (Write 1 (k @ [10]))) (grep_lines pattern (k @ ?b # d @ 10 # 0 # post) (Suc (length k)))
        else grep_lines pattern (k @ ?b # d @ 10 # 0 # post) (Suc (length k)))"
      using grep_lines_step [OF k(1,2), of pattern "[]" "d @ 10 # 0 # post"] by simp
    have s2: "grep_lines pattern (k @ ?b # d @ 10 # 0 # post) (Suc (length k)) = (if match pattern d then
        seqU (callU (Write 1 (d @ [10]))) (grep_lines pattern b2 (Suc (length l)))
        else grep_lines pattern b2 (Suc (length l)))"
      using grep_lines_step [OF d(1,2), of pattern "k @ [?b]" "0 # post"] d(3) by (simp add: b2_def)
    have s3: "grep_lines pattern b2 (Suc (length l)) = retU (Suc (length l), b2)"
      using grep_lines_stop [of "[]" pattern "k @ ?b # d @ [if match pattern d then 10 else 0]" post] d(3) by (simp add: b2_def)
    have w: "length ws = (if match pattern k then 1 else 0) + (if match pattern d then 1 else 0)" using ans(2) by (simp add: d_def)
    show ?thesis unfolding s1 s2 s3 c2_def
      using w by (cases ws; cases "tl ws") (auto simp: seqU_run callU_run split: if_splits)
  qed
  have second: "grep_loop (Suc (Suc n)) pattern fd buf 0 (s\<lparr>answers := rd (k @ [10]) # ws @ [e], calls := c1\<rparr>) =
      grep_loop (Suc n) pattern fd b2 (int (length k) - int (length l)) (s\<lparr>answers := [e], calls := c2\<rparr>)" for n
  proof -
    have "(k @ [10]) @ drop (Suc (length k)) buf = k @ 10 # d @ 10 # 0 # post"
      using k(3) by (simp add: buf_def d_def)
    then show ?thesis using lines k(3)
      by (simp add: grep_loop.simps(2) [of "Suc n"] bindU_run syscallU_run Let_def del: grep_loop.simps)
  qed
  have "grep pattern fd (replicate 1024 0) s =
      grep_loop (Suc (Suc (Suc (length ws)))) pattern fd b2 (int (length k) - int (length l)) (s\<lparr>answers := [e], calls := c2\<rparr>)"
    unfolding grep_def loopU_def using ans(1) by (simp add: first second del: grep_loop.simps)
  then show ?thesis using k(3)
    by (simp add: bindU_run syscallU_run Let_def c1_def c2_def d_def nat_diff_distrib)
qed

theorem grep_finds_stale_lines_witness:
  "(\<exists>t. grep (lit ''a'') 0 (replicate 1024 0)
       \<lparr>answers = [rd (lit (''aaab'' @ nl)), rd [], rd (lit (''b'' @ nl)), rd [], rd (lit (''c'' @ nl))], calls = []\<rparr> = UFault ''read'' t) \<and>
   (\<exists>buf t. grep (lit ''a'') 0 (replicate 1024 0)
       \<lparr>answers = [rd (lit (''aaab'' @ nl)), rd [], rd (lit (''b'' @ nl)), rd [], rd []], calls = []\<rparr> = UOk buf t \<and>
     calls t = [Read 0 1024, Write 1 (lit (''aaab'' @ nl)), Read 0 1024, Write 1 (lit (''ab'' @ nl)), Read 0 1027])"
proof -
  have m: "match [97] [97, 97, 97, 98]" "match [97] [97, 98]" "\<not> match [97] [98]" by (simp_all add: match_def)
  note g = grep_finds_stale_lines [of "[97, 97, 97, 98]" "[97]" "[98]"]
  show ?thesis
    using g [of "\<lparr>answers = [rd [97, 97, 97, 98, 10], rd [], rd [98, 10], rd [], rd [99, 10]], calls = []\<rparr>" "rd []" "[rd []]" "rd [99, 10]" 0]
      g [of "\<lparr>answers = [rd [97, 97, 97, 98, 10], rd [], rd [98, 10], rd [], rd []], calls = []\<rparr>" "rd []" "[rd []]" "rd []" 0] m
    by (auto simp: lit_def nl_def)
qed

end
