(* ===== verification/Shparse.thy ===== *)
theory Shparse
  imports Ulib
begin

text \<open>
  The command parser of the shell (\<open>src/sh.c\<close>, from \<open>gettoken\<close> on). The line is a buffer of
  bytes and the pointers into it are indices, with \<open>es\<close> the index of the terminating zero. A
  \<open>panic\<close> of the parser is a value \<open>Inl\<close>. The nodes come from \<open>malloc\<close>, which is taken to
  succeed.
\<close>

section \<open>Commands\<close>

text \<open>An \<open>EXEC\<close> node has the pairs of \<open>argv\<close> and \<open>eargv\<close> before the final null pointer.\<close>

datatype cmd =
    EXEC "(nat \<times> nat) list"
  | REDIR cmd nat nat int int
  | PIPE cmd cmd
  | LIST cmd cmd
  | BACK cmd

definition MAXARGS :: nat where "MAXARGS = 10"

section \<open>Tokens\<close>

definition whitespace :: bytes where
  "whitespace = [32, 9, 13, 10, 11]"

definition symbols :: bytes where
  "symbols = [60, 124, 62, 38, 59, 40, 41]"

function skip_while :: "(u8 \<Rightarrow> bool) \<Rightarrow> bytes \<Rightarrow> nat \<Rightarrow> nat \<Rightarrow> nat" where
  "skip_while P buf es s = (if s < es \<and> P (buf ! s) then skip_while P buf es (s + 1) else s)"
  by pat_completeness auto

termination
  by (relation "measure (\<lambda>(P, buf, es, s). es - s)") auto

declare skip_while.simps [simp del]

definition skip_space :: "bytes \<Rightarrow> nat \<Rightarrow> nat \<Rightarrow> nat" where
  "skip_space buf es s = skip_while (\<lambda>c. c \<in> set whitespace) buf es s"

text \<open>The result: the token, its start \<open>q\<close> and end \<open>eq\<close>, and the new position.\<close>

definition gettoken :: "bytes \<Rightarrow> nat \<Rightarrow> nat \<Rightarrow> u8 \<times> nat \<times> nat \<times> nat" where
  "gettoken buf es s =
     (let s = skip_space buf es s; q = s; c = buf ! s;
          (tok, s) =
            (if c = 0 then (c, s)
             else if c = 124 \<or> c = 40 \<or> c = 41 \<or> c = 59 \<or> c = 38 \<or> c = 60 then (c, s + 1)
             else if c = 62 then (if buf ! (s + 1) = 62 then (43, s + 2) else (c, s + 1))
             else (97, skip_while (\<lambda>c. c \<notin> set whitespace \<and> c \<notin> set symbols) buf es s));
          eq = s
      in (tok, q, eq, skip_space buf es s))"

definition peek :: "bytes \<Rightarrow> nat \<Rightarrow> nat \<Rightarrow> bytes \<Rightarrow> bool \<times> nat" where
  "peek buf es s toks = (let s = skip_space buf es s in (buf ! s \<noteq> 0 \<and> buf ! s \<in> set toks, s))"

section \<open>The parser\<close>

text \<open>
  A parser returns what it has parsed and the new position, or the message of its \<open>panic\<close>.
  The first argument bounds the depth of the recursion; \<open>None\<close> means that it was too small.
\<close>

type_synonym 'a pres = "(string + 'a \<times> nat) option"

definition bindP :: "'a pres \<Rightarrow> ('a \<Rightarrow> nat \<Rightarrow> 'b pres) \<Rightarrow> 'b pres" where
  "bindP r f = (case r of None \<Rightarrow> None | Some (Inl e) \<Rightarrow> Some (Inl e) | Some (Inr (a, s)) \<Rightarrow> f a s)"

definition retP :: "'a \<Rightarrow> nat \<Rightarrow> 'a pres" where
  "retP a s = Some (Inr (a, s))"

definition panicP :: "string \<Rightarrow> 'a pres" where
  "panicP e = Some (Inl e)"

text \<open>
  The loop of \<open>parseredirs\<close> collects the redirections; each of them is put around the command
  parsed so far. For a simple command this is done before its arguments are complete,
  through the pointer to its node.
\<close>

type_synonym redir = "nat \<times> nat \<times> int \<times> int"

fun redirs :: "nat \<Rightarrow> bytes \<Rightarrow> nat \<Rightarrow> nat \<Rightarrow> redir list pres" where
  "redirs 0 buf es s = None"
| "redirs (Suc k) buf es s =
     (let (b, s) = peek buf es s [60, 62] in
      if b then
        let (tok, _, _, s) = gettoken buf es s; (t, q, eq, s) = gettoken buf es s in
        if t \<noteq> 97 then panicP ''missing file for redirection''
        else
          let r = (if tok = 60 then (q, eq, O_RDONLY, 0) else (q, eq, O_WRONLY + O_CREATE, 1)) in
          bindP (redirs k buf es s) (\<lambda>rs. retP (r # rs))
      else retP [] s)"

definition wrap :: "cmd \<Rightarrow> redir list \<Rightarrow> cmd" where
  "wrap cmd rs = foldl (\<lambda>c (q, eq, mode, fd). REDIR c q eq mode fd) cmd rs"

definition parseredirs :: "nat \<Rightarrow> cmd \<Rightarrow> bytes \<Rightarrow> nat \<Rightarrow> nat \<Rightarrow> cmd pres" where
  "parseredirs k cmd buf es s = bindP (redirs k buf es s) (\<lambda>rs. retP (wrap cmd rs))"

fun args_loop :: "nat \<Rightarrow> bytes \<Rightarrow> nat \<Rightarrow> (nat \<times> nat) list \<Rightarrow> redir list \<Rightarrow> nat \<Rightarrow> cmd pres" where
  "args_loop 0 buf es args rs s = None"
| "args_loop (Suc k) buf es args rs s =
     (let (b, s) = peek buf es s [124, 41, 38, 59] in
      if b then retP (wrap (EXEC args) rs) s
      else
        let (tok, q, eq, s) = gettoken buf es s in
        if tok = 0 then retP (wrap (EXEC args) rs) s
        else if tok \<noteq> 97 then panicP ''syntax''
        else
          let args = args @ [(q, eq)] in
          if length args \<ge> MAXARGS then panicP ''too many args''
          else bindP (redirs k buf es s) (\<lambda>rs'. args_loop k buf es args (rs @ rs')))"

fun back_loop :: "nat \<Rightarrow> bytes \<Rightarrow> nat \<Rightarrow> cmd \<Rightarrow> nat \<Rightarrow> cmd pres" where
  "back_loop 0 buf es cmd s = None"
| "back_loop (Suc k) buf es cmd s =
     (let (b, s) = peek buf es s [38] in
      if b then let (_, _, _, s) = gettoken buf es s in back_loop k buf es (BACK cmd) s
      else retP cmd s)"

function (sequential) parseline :: "nat \<Rightarrow> bytes \<Rightarrow> nat \<Rightarrow> nat \<Rightarrow> cmd pres"
  and parsepipe :: "nat \<Rightarrow> bytes \<Rightarrow> nat \<Rightarrow> nat \<Rightarrow> cmd pres"
  and parseexec :: "nat \<Rightarrow> bytes \<Rightarrow> nat \<Rightarrow> nat \<Rightarrow> cmd pres"
  and parseblock :: "nat \<Rightarrow> bytes \<Rightarrow> nat \<Rightarrow> nat \<Rightarrow> cmd pres" where
  "parseline 0 buf es s = None"
| "parseline (Suc k) buf es s =
     bindP (parsepipe k buf es s) (\<lambda>cmd s.
     bindP (back_loop k buf es cmd s) (\<lambda>cmd s.
     let (b, s) = peek buf es s [59] in
     if b then
       let (_, _, _, s) = gettoken buf es s in
       bindP (parseline k buf es s) (\<lambda>r. retP (LIST cmd r))
     else retP cmd s))"
| "parsepipe 0 buf es s = None"
| "parsepipe (Suc k) buf es s =
     bindP (parseexec k buf es s) (\<lambda>cmd s.
     let (b, s) = peek buf es s [124] in
     if b then
       let (_, _, _, s) = gettoken buf es s in
       bindP (parsepipe k buf es s) (\<lambda>r. retP (PIPE cmd r))
     else retP cmd s)"
| "parseexec 0 buf es s = None"
| "parseexec (Suc k) buf es s =
     (let (b, s) = peek buf es s [40] in
      if b then parseblock k buf es s
      else bindP (redirs k buf es s) (\<lambda>rs. args_loop k buf es [] rs))"
| "parseblock 0 buf es s = None"
| "parseblock (Suc k) buf es s =
     (let (b, s) = peek buf es s [40] in
      if \<not> b then panicP ''parseblock''
      else
        let (_, _, _, s) = gettoken buf es s in
        bindP (parseline k buf es s) (\<lambda>cmd s.
        let (b, s) = peek buf es s [41] in
        if \<not> b then panicP ''syntax - missing )''
        else
          let (_, _, _, s) = gettoken buf es s in
          parseredirs k cmd buf es s))"
  by pat_completeness auto

termination
  by (relation "measure (\<lambda>x. case x of Inl (Inl (k, _)) \<Rightarrow> k | Inl (Inr (k, _)) \<Rightarrow> k | Inr (Inl (k, _)) \<Rightarrow> k | Inr (Inr (k, _)) \<Rightarrow> k)") auto

fun nulterminate :: "cmd \<Rightarrow> bytes \<Rightarrow> bytes" where
  "nulterminate (EXEC args) buf = foldl (\<lambda>buf (q, eq). buf[eq := 0]) buf args"
| "nulterminate (REDIR c q eq mode fd) buf = (nulterminate c buf)[eq := 0]"
| "nulterminate (PIPE l r) buf = nulterminate r (nulterminate l buf)"
| "nulterminate (LIST l r) buf = nulterminate r (nulterminate l buf)"
| "nulterminate (BACK c) buf = nulterminate c buf"

text \<open>
  \<open>parsecmd\<close>: the command, and the buffer with the zeros behind the words; or the message of
  the \<open>panic\<close> with the text that is printed as left over before it. The bound 4 for every
  byte of the line and 8 more is enough for every line (lemma \<open>parse_good\<close>).
\<close>

definition parsecmd :: "bytes \<Rightarrow> (bytes option \<times> string + cmd \<times> bytes) option" where
  "parsecmd buf =
     (let es = length (takeWhile (\<lambda>c. c \<noteq> 0) buf) in
      case parseline (4 * es + 8) buf es 0 of
        None \<Rightarrow> None
      | Some (Inl e) \<Rightarrow> Some (Inl (None, e))
      | Some (Inr (cmd, s)) \<Rightarrow>
          (case peek buf es s [] of
             (_, s) \<Rightarrow>
               if s \<noteq> es then Some (Inl (Some (takeWhile (\<lambda>c. c \<noteq> 0) (drop s buf)), ''syntax''))
               else Some (Inr (cmd, nulterminate cmd buf))))"

section \<open>Lemmas: tokens\<close>

lemma skip_while_ge: "s \<le> skip_while P buf es s"
proof (induction P buf es s rule: skip_while.induct)
  case (1 P buf es s)
  then show ?case by (cases "s < es \<and> P (buf ! s)") (auto simp: skip_while.simps [of P buf es s])
qed

lemma skip_while_le: "s \<le> es \<Longrightarrow> skip_while P buf es s \<le> es"
proof (induction P buf es s rule: skip_while.induct)
  case (1 P buf es s)
  then show ?case by (auto simp: skip_while.simps [of P buf es s])
qed

text \<open>\<open>line_ok buf es\<close>: the first zero of the buffer is at \<open>es\<close>.\<close>

definition line_ok :: "bytes \<Rightarrow> nat \<Rightarrow> bool" where
  "line_ok buf es = (es < length buf \<and> buf ! es = 0 \<and> (\<forall>i < es. buf ! i \<noteq> 0))"

lemma gettoken_bounds:
  assumes ok: "line_ok buf es" and s: "s \<le> es" and g: "gettoken buf es s = (tok, q, eq, s')"
  shows "s \<le> q" "q \<le> eq" "eq \<le> s'" "s' \<le> es" "tok = 0 \<longleftrightarrow> q = es" "tok \<noteq> 0 \<Longrightarrow> s < s'"
proof -
  define p where "p = skip_space buf es s"
  have p: "s \<le> p" "p \<le> es" unfolding p_def skip_space_def using skip_while_ge skip_while_le s by blast+
  have nz: "buf ! p = 0 \<longleftrightarrow> p = es" using ok p(2) by (metis line_ok_def le_neq_implies_less)
  have q: "q = p" using g by (auto simp: gettoken_def Let_def p_def split: if_splits)
  have gt: "p < es \<Longrightarrow> buf ! p = 62 \<Longrightarrow> buf ! (p + 1) = 62 \<Longrightarrow> p + 2 \<le> es"
    using ok by (cases "p + 1 = es") (auto simp: line_ok_def)
  define P where "P = (\<lambda>c. c \<notin> set whitespace \<and> c \<notin> set symbols)"
  have w: "p < skip_while P buf es p" if "p < es" "P (buf ! p)"
    using that skip_while_ge [of "p + 1" P buf es] by (simp add: skip_while.simps [of P buf es p])
  have nws: "buf ! p \<notin> set whitespace" if "p < es"
  proof -
    have "\<not> (skip_while Q buf es x < es \<and> Q (buf ! skip_while Q buf es x))" for Q x
    proof (induction Q buf es x rule: skip_while.induct)
      case (1 P buf es s)
      then show ?case by (cases "s < es \<and> P (buf ! s)") (auto simp: skip_while.simps [of P buf es s])
    qed
    with that show ?thesis by (auto simp: p_def skip_space_def)
  qed
  have e: "(buf ! p = 0 \<and> tok = 0 \<and> eq = p) \<or> (p < es \<and> tok \<noteq> 0 \<and> p < eq \<and> eq \<le> es)"
    using g nz nws gt w skip_while_le [OF p(2), of P buf] p(2)
    by (auto simp: gettoken_def Let_def p_def [symmetric] P_def [symmetric] split: if_splits) (auto simp: P_def symbols_def)
  have s': "s' = skip_space buf es eq" using g by (auto simp: gettoken_def Let_def split: if_splits)
  have le: "eq \<le> es" using e p(2) by auto
  show "s \<le> q" "q \<le> eq" "tok = 0 \<longleftrightarrow> q = es" using e p q nz by auto
  show "eq \<le> s'" "s' \<le> es" unfolding s' skip_space_def using skip_while_ge skip_while_le [OF le] by blast+
  then show "s < s'" if "tok \<noteq> 0" using e that p(1) by auto
qed

lemma peek_bounds: "s \<le> es \<Longrightarrow> peek buf es s toks = (b, s') \<Longrightarrow> s \<le> s' \<and> s' \<le> es"
  using skip_while_ge skip_while_le unfolding peek_def skip_space_def Let_def by blast

lemma skip_stop: "\<not> (skip_while P buf es s < es \<and> P (buf ! skip_while P buf es s))"
proof (induction P buf es s rule: skip_while.induct)
  case (1 P buf es s)
  then show ?case by (cases "s < es \<and> P (buf ! s)") (auto simp: skip_while.simps [of P buf es s])
qed

lemma skip_space_idem: "skip_space buf es (skip_space buf es s) = skip_space buf es s"
  using skip_stop [of "\<lambda>c. c \<in> set whitespace" buf es s] by (auto simp: skip_space_def skip_while.simps [of _ buf es "skip_while _ buf es s"])

lemma peek_gettoken:
  assumes ok: "line_ok buf es" "s \<le> es" and p: "peek buf es s toks = (True, s1)" and g: "gettoken buf es s1 = (tok, q, eq, s2)"
  shows "s < s2" "s2 \<le> es"
proof -
  have s1: "s \<le> s1" "s1 \<le> es" "buf ! s1 \<noteq> 0" "skip_space buf es s1 = s1"
    using peek_bounds [OF ok(2) p] p skip_space_idem by (auto simp: peek_def Let_def)
  note b = gettoken_bounds [OF ok(1) s1(2) g]
  have "q = s1" using g s1(4) by (auto simp: gettoken_def Let_def split: if_splits)
  then have "tok \<noteq> 0" using b(5) s1(3) ok(1) by (auto simp: line_ok_def)
  then show "s < s2" "s2 \<le> es" using b(4,6) s1(1) by auto
qed

section \<open>Lemmas: every line is parsed\<close>

text \<open>
  \<open>good es s P r\<close>: the parser ended, and if it returned a value, this satisfies \<open>P\<close> and the new
  position lies between \<open>s\<close> and the end of the line.
\<close>

definition good :: "nat \<Rightarrow> nat \<Rightarrow> ('a \<Rightarrow> bool) \<Rightarrow> 'a pres \<Rightarrow> bool" where
  "good es s P r = (case r of None \<Rightarrow> False | Some (Inl e) \<Rightarrow> True | Some (Inr (a, s')) \<Rightarrow> P a \<and> s \<le> s' \<and> s' \<le> es)"

fun wf_cmd :: "nat \<Rightarrow> cmd \<Rightarrow> bool" where
  "wf_cmd es (EXEC args) = (length args < MAXARGS \<and> (\<forall>(q, eq) \<in> set args. q \<le> eq \<and> eq \<le> es))"
| "wf_cmd es (REDIR c q eq mode fd) = (wf_cmd es c \<and> q \<le> eq \<and> eq \<le> es \<and> (mode, fd) \<in> {(0, 0), (0x201, 1)})"
| "wf_cmd es (PIPE l r) = (wf_cmd es l \<and> wf_cmd es r)"
| "wf_cmd es (LIST l r) = (wf_cmd es l \<and> wf_cmd es r)"
| "wf_cmd es (BACK c) = wf_cmd es c"

definition wf_redirs :: "nat \<Rightarrow> redir list \<Rightarrow> bool" where
  "wf_redirs es rs = (\<forall>(q, eq, mode, fd) \<in> set rs. q \<le> eq \<and> eq \<le> es \<and> (mode, fd) \<in> {(0, 0), (0x201, 1)})"

lemma good_ret [simp]: "good es s P (retP a s') \<longleftrightarrow> P a \<and> s \<le> s' \<and> s' \<le> es" "good es s P (panicP e)"
  by (simp_all add: good_def retP_def panicP_def)

lemma good_bind:
  assumes "good es s P r" "\<And>a s'. P a \<Longrightarrow> s \<le> s' \<Longrightarrow> s' \<le> es \<Longrightarrow> good es s Q (f a s')"
  shows "good es s Q (bindP r f)"
proof -
  consider e where "r = Some (Inl e)" | a s' where "r = Some (Inr (a, s'))" "P a" "s \<le> s'" "s' \<le> es"
    using assms(1) by (auto simp: good_def split: option.splits sum.splits)
  then show ?thesis
  proof cases
    case 1
    then show ?thesis by (simp add: good_def bindP_def)
  next
    case 2
    with assms(2) [of a s'] show ?thesis by (simp add: bindP_def)
  qed
qed

lemma good_le: "good es s1 P r \<Longrightarrow> s \<le> s1 \<Longrightarrow> good es s P r"
  by (auto simp: good_def split: option.splits sum.splits)

lemma wf_wrap: "wf_cmd es c \<Longrightarrow> wf_redirs es rs \<Longrightarrow> wf_cmd es (wrap c rs)"
  by (induction rs arbitrary: c) (auto simp: wrap_def wf_redirs_def)

lemma redirs_good: "line_ok buf es \<Longrightarrow> s \<le> es \<Longrightarrow> es - s < k \<Longrightarrow> good es s (wf_redirs es) (redirs k buf es s)"
proof (induction k arbitrary: s)
  case (Suc k)
  obtain b s1 where p: "peek buf es s [60, 62] = (b, s1)" by (cases "peek buf es s [60, 62]")
  note p' = peek_bounds [OF Suc.prems(2) p]
  obtain tok q1 e1 s2 where g: "gettoken buf es s1 = (tok, q1, e1, s2)" by (cases "gettoken buf es s1")
  obtain t q eq s3 where h: "gettoken buf es s2 = (t, q, eq, s3)" by (cases "gettoken buf es s2")
  show ?case
  proof (cases b)
    case True
    have "peek buf es s [60, 62] = (True, s1)" using p True by simp
    note s2 = peek_gettoken [OF Suc.prems(1,2) this g]
    note s3 = gettoken_bounds [OF Suc.prems(1) s2(2) h]
    have "good es s (wf_redirs es) (redirs k buf es s3)"
      by (rule good_le [OF Suc.IH [OF Suc.prems(1)]]) (use s2 s3 Suc.prems in auto)
    then have "good es s (wf_redirs es) (bindP (redirs k buf es s3) (\<lambda>rs. retP ((q, eq, m, f) # rs)))" if "(m, f) \<in> {(0, 0), (0x201, 1)}" for m f
      by (rule good_bind) (use s3 that in \<open>auto simp: wf_redirs_def\<close>)
    then show ?thesis using True by (simp add: p g h O_RDONLY_def O_WRONLY_def O_CREATE_def)
  next
    case False
    then show ?thesis using p' by (simp add: p wf_redirs_def)
  qed
qed simp

lemma args_good:
  "line_ok buf es \<Longrightarrow> s \<le> es \<Longrightarrow> es - s < k \<Longrightarrow> length args < MAXARGS \<Longrightarrow> \<forall>(q, eq) \<in> set args. q \<le> eq \<and> eq \<le> es \<Longrightarrow> wf_redirs es rs \<Longrightarrow>
   good es s (wf_cmd es) (args_loop k buf es args rs s)"
proof (induction k arbitrary: s args rs)
  case (Suc k)
  obtain b s1 where p: "peek buf es s [124, 41, 38, 59] = (b, s1)" by (cases "peek buf es s [124, 41, 38, 59]")
  note p' = peek_bounds [OF Suc.prems(2) p]
  obtain tok q eq s2 where g: "gettoken buf es s1 = (tok, q, eq, s2)" by (cases "gettoken buf es s1")
  note s2 = gettoken_bounds [OF Suc.prems(1) _ g]
  have w: "wf_cmd es (wrap (EXEC args) rs)" by (rule wf_wrap) (use Suc.prems in auto)
  have "good es s (wf_cmd es) (bindP (redirs k buf es s2) (\<lambda>rs'. args_loop k buf es (args @ [(q, eq)]) (rs @ rs')))"
    if t: "tok \<noteq> 0" "length (args @ [(q, eq)]) < MAXARGS"
  proof (rule good_le)
    have b: "s2 \<le> es" "es - s2 < k" "s < s2" "q \<le> eq" "eq \<le> es" using s2 p' t Suc.prems(2,3) by auto
    show "s \<le> s2" using b by simp
    show "good es s2 (wf_cmd es) (bindP (redirs k buf es s2) (\<lambda>rs'. args_loop k buf es (args @ [(q, eq)]) (rs @ rs')))"
    proof (rule good_bind [OF redirs_good [OF Suc.prems(1) b(1,2)]])
      fix rs' s'
      assume r: "wf_redirs es rs'" "s2 \<le> s'" "s' \<le> es"
      show "good es s2 (wf_cmd es) (args_loop k buf es (args @ [(q, eq)]) (rs @ rs') s')"
        by (rule good_le [OF Suc.IH [OF Suc.prems(1)]]) (use r t b Suc.prems in \<open>auto simp: wf_redirs_def\<close>)
    qed
  qed
  then show ?case using p' s2 w by (auto simp: p g Let_def)
qed simp

lemma back_good:
  "line_ok buf es \<Longrightarrow> s \<le> es \<Longrightarrow> es - s < k \<Longrightarrow> wf_cmd es cmd \<Longrightarrow> good es s (wf_cmd es) (back_loop k buf es cmd s)"
proof (induction k arbitrary: s cmd)
  case (Suc k)
  obtain b s1 where p: "peek buf es s [38] = (b, s1)" by (cases "peek buf es s [38]")
  note p' = peek_bounds [OF Suc.prems(2) p]
  obtain tok q eq s2 where g: "gettoken buf es s1 = (tok, q, eq, s2)" by (cases "gettoken buf es s1")
  have "good es s (wf_cmd es) (back_loop k buf es (BACK cmd) s2)" if b
  proof -
    have "s < s2" "s2 \<le> es" using peek_gettoken [OF Suc.prems(1,2) _ g] p that by auto
    then show ?thesis by (intro good_le [OF Suc.IH [OF Suc.prems(1)]]) (use Suc.prems in auto)
  qed
  then show ?case using p' Suc.prems(4) by (auto simp: p g)
qed simp

lemma good_peek:
  assumes ok: "line_ok buf es" "s \<le> es"
    and f: "\<And>s2. s < s2 \<Longrightarrow> s2 \<le> es \<Longrightarrow> good es s0 Q (f s2)" and g: "\<And>s1. s \<le> s1 \<Longrightarrow> s1 \<le> es \<Longrightarrow> good es s0 Q (g s1)"
  shows "good es s0 Q (let (b, s) = peek buf es s toks in if b then let (_, _, _, s) = gettoken buf es s in f s else g s)"
    and "good es s0 Q (let (b, s) = peek buf es s toks in if \<not> b then g s else let (_, _, _, s) = gettoken buf es s in f s)"
proof -
  obtain b s1 where p: "peek buf es s toks = (b, s1)" by (cases "peek buf es s toks")
  obtain tok q eq s2 where t: "gettoken buf es s1 = (tok, q, eq, s2)" by (cases "gettoken buf es s1")
  have "good es s0 Q (f s2)" if b
  proof -
    have "peek buf es s toks = (True, s1)" using p that by simp
    from peek_gettoken [OF ok this t] show ?thesis by (rule f)
  qed
  moreover have "good es s0 Q (g s1)" by (rule g) (use peek_bounds [OF ok(2) p] in auto)
  ultimately show "good es s0 Q (let (b, s) = peek buf es s toks in if b then let (_, _, _, s) = gettoken buf es s in f s else g s)"
    "good es s0 Q (let (b, s) = peek buf es s toks in if \<not> b then g s else let (_, _, _, s) = gettoken buf es s in f s)"
    by (simp_all add: p t)
qed

lemma parse_good:
  assumes ok: "line_ok buf es"
  shows "(s \<le> es \<longrightarrow> 4 * (es - s) + 4 \<le> k \<longrightarrow> good es s (wf_cmd es) (parseline k buf es s)) \<and>
    (s \<le> es \<longrightarrow> 4 * (es - s) + 3 \<le> k \<longrightarrow> good es s (wf_cmd es) (parsepipe k buf es s)) \<and>
    (s \<le> es \<longrightarrow> 4 * (es - s) + 2 \<le> k \<longrightarrow> good es s (wf_cmd es) (parseexec k buf es s)) \<and>
    (s \<le> es \<longrightarrow> 4 * (es - s) + 1 \<le> k \<longrightarrow> good es s (wf_cmd es) (parseblock k buf es s))"
proof (induction k arbitrary: s)
  case (Suc k)
  have line: "good es s (wf_cmd es) (parseline k buf es s)" if "s \<le> es" "4 * (es - s) + 4 \<le> k" for s using Suc.IH [of s] that by blast
  have pipe: "good es s (wf_cmd es) (parsepipe k buf es s)" if "s \<le> es" "4 * (es - s) + 3 \<le> k" for s using Suc.IH [of s] that by blast
  have exec: "good es s (wf_cmd es) (parseexec k buf es s)" if "s \<le> es" "4 * (es - s) + 2 \<le> k" for s using Suc.IH [of s] that by blast
  have block: "good es s (wf_cmd es) (parseblock k buf es s)" if "s \<le> es" "4 * (es - s) + 1 \<le> k" for s using Suc.IH [of s] that by blast
  have "good es s (wf_cmd es) (parsepipe (Suc k) buf es s)" if s: "s \<le> es" "4 * (es - s) + 3 \<le> Suc k"
    unfolding parsepipe.simps
    by (rule good_bind [OF exec], (use s in auto)[2], rule good_peek(1) [OF ok], assumption,
        rule good_bind [OF good_le [OF pipe]]) (use s in auto)
  moreover have "good es s (wf_cmd es) (parseline (Suc k) buf es s)" if s: "s \<le> es" "4 * (es - s) + 4 \<le> Suc k"
    unfolding parseline.simps
    by (rule good_bind [OF pipe], (use s in auto)[2], rule good_bind [OF good_le [OF back_good [OF ok]]], (use s in auto)[4],
        rule good_peek(1) [OF ok], assumption, rule good_bind [OF good_le [OF line]]) (use s in auto)
  moreover have "good es s (wf_cmd es) (parseblock (Suc k) buf es s)" if s: "s \<le> es" "4 * (es - s) + 1 \<le> Suc k"
    unfolding parseblock.simps
  proof (rule good_peek(2) [OF ok s(1)])
    fix s2
    assume s2: "s < s2" "s2 \<le> es"
    show "good es s (wf_cmd es) (bindP (parseline k buf es s2) (\<lambda>cmd s. let (b, s) = peek buf es s [41] in
        if \<not> b then panicP ''syntax - missing )'' else let (_, _, _, s) = gettoken buf es s in parseredirs k cmd buf es s))"
      unfolding parseredirs_def
      by (rule good_bind [OF good_le [OF line]], (use s s2 in auto)[3], rule good_peek(2) [OF ok], assumption,
          rule good_bind [OF good_le [OF redirs_good [OF ok]]]) (use s s2 in \<open>auto intro: wf_wrap\<close>)
  qed simp
  moreover have "good es s (wf_cmd es) (parseexec (Suc k) buf es s)" if s: "s \<le> es" "4 * (es - s) + 2 \<le> Suc k"
  proof -
    obtain b s1 where p: "peek buf es s [40] = (b, s1)" by (cases "peek buf es s [40]")
    note b = peek_bounds [OF s(1) p]
    have "good es s (wf_cmd es) (parseblock k buf es s1)" by (rule good_le [OF block]) (use b s in auto)
    moreover have "good es s (wf_cmd es) (bindP (redirs k buf es s1) (\<lambda>rs. args_loop k buf es [] rs))"
      by (rule good_bind [OF good_le [OF redirs_good [OF ok]]], (use b s in auto)[3], rule good_le [OF args_good [OF ok]])
        (use b s in \<open>auto simp: MAXARGS_def\<close>)
    ultimately show ?thesis by (simp add: p)
  qed
  ultimately show ?case by blast
qed simp

section \<open>Lemmas: parsing what has been printed\<close>

text \<open>Commands with their words, and a way to write them down with all parentheses.\<close>

datatype tcmd =
    TExec "bytes list"
  | TRedir tcmd bytes bool
  | TPipe tcmd tcmd
  | TList tcmd tcmd
  | TBack tcmd

fun unparse :: "tcmd \<Rightarrow> bytes" where
  "unparse (TExec ws) = concat (map (\<lambda>w. w @ [32]) ws)"
| "unparse (TRedir c f inp) = [40] @ unparse c @ [41, if inp then 60 else 62] @ f"
| "unparse (TPipe l r) = [40] @ unparse l @ [41, 124, 40] @ unparse r @ [41]"
| "unparse (TList l r) = [40] @ unparse l @ [41, 59, 40] @ unparse r @ [41]"
| "unparse (TBack c) = [40] @ unparse c @ [41, 38]"

definition delim :: "u8 \<Rightarrow> bool" where
  "delim c = (c \<in> set whitespace \<or> c \<in> set symbols)"

definition word_ok :: "bytes \<Rightarrow> bool" where
  "word_ok w = (w \<noteq> [] \<and> (\<forall>c \<in> set w. c \<noteq> 0 \<and> \<not> delim c))"

fun printable :: "tcmd \<Rightarrow> bool" where
  "printable (TExec ws) = (length ws < MAXARGS \<and> (\<forall>w \<in> set ws. word_ok w))"
| "printable (TRedir c f inp) = (printable c \<and> word_ok f)"
| "printable (TPipe l r) = (printable l \<and> printable r)"
| "printable (TList l r) = (printable l \<and> printable r)"
| "printable (TBack c) = printable c"

lemma unparse_nonzero: "printable t \<Longrightarrow> 0 \<notin> set (unparse t)"
  by (induction t) (auto simp: word_ok_def)

lemma line_ok_at:
  assumes "line_ok (pre @ x # post) es" "0 \<notin> set pre"
  shows "length pre \<le> es" "x = 0 \<longleftrightarrow> length pre = es"
proof -
  show le: "length pre \<le> es"
  proof (rule ccontr)
    assume "\<not> length pre \<le> es"
    then have l: "es < length pre" by simp
    then have "pre ! es = 0" using assms(1) by (simp add: line_ok_def nth_append)
    with nth_mem [OF l] assms(2) show False by simp
  qed
  show "x = 0 \<longleftrightarrow> length pre = es"
  proof
    assume "x = 0"
    then have "(pre @ x # post) ! length pre = 0" by simp
    then have "\<not> length pre < es" using assms(1) unfolding line_ok_def by blast
    with le show "length pre = es" by simp
  next
    assume "length pre = es"
    then show "x = 0" using assms(1) by (auto simp: line_ok_def)
  qed
qed

lemma skip_none:
  assumes "line_ok (pre @ x # post) es" "0 \<notin> set pre" "x \<notin> set whitespace"
  shows "skip_space (pre @ x # post) es (length pre) = length pre"
  using assms by (simp add: skip_space_def skip_while.simps [of _ _ es "length pre"])

lemma skip_one:
  assumes "line_ok (pre @ x # post) es" "0 \<notin> set pre" "x \<in> set whitespace"
  shows "skip_space (pre @ x # post) es (length pre) = skip_space (pre @ x # post) es (length (pre @ [x]))"
proof -
  have "x \<noteq> 0" using assms(3) by (auto simp: whitespace_def)
  then have "length pre < es" using line_ok_at [OF assms(1,2)] by linarith
  with assms(3) show ?thesis by (simp add: skip_space_def skip_while.simps [of _ _ es "length pre"])
qed

lemma peek_at:
  assumes "line_ok (pre @ x # post) es" "0 \<notin> set pre" "x \<notin> set whitespace"
  shows "peek (pre @ x # post) es (length pre) toks = (x \<noteq> 0 \<and> x \<in> set toks, length pre)"
  using skip_none [OF assms] by (simp add: peek_def Let_def)

lemma get_sym:
  assumes "line_ok (pre @ x # post) es" "0 \<notin> set pre" "x \<in> {124, 40, 41, 59, 38, 60} \<or> x = 62 \<and> hd post \<noteq> 62 \<and> post \<noteq> []"
  shows "gettoken (pre @ x # post) es (length pre) = (x, length pre, length (pre @ [x]), skip_space (pre @ x # post) es (length (pre @ [x])))"
proof -
  have "x \<notin> set whitespace" using assms(3) by (elim disjE) (simp_all add: whitespace_def, auto)
  note s = skip_none [OF assms(1,2) this]
  have x: "(pre @ x # post) ! length pre = x" by simp
  show ?thesis
  proof (cases "x = 62")
    case True
    then have "(pre @ x # post) ! (length pre + 1) \<noteq> 62" using assms(3) by (cases post) (simp_all add: nth_append)
    then show ?thesis unfolding gettoken_def Let_def s x by (simp add: True)
  next
    case False
    then have "x \<noteq> 0" "x = 124 \<or> x = 40 \<or> x = 41 \<or> x = 59 \<or> x = 38 \<or> x = 60" using assms(3) by auto
    then show ?thesis unfolding gettoken_def Let_def s x by (simp only: if_True if_False prod.case) simp
  qed
qed

lemma skip_word:
  assumes "line_ok (pre @ w @ y # post) es" "0 \<notin> set pre" "\<forall>c \<in> set w. c \<noteq> 0 \<and> \<not> delim c" "y = 0 \<or> delim y"
  shows "skip_while (\<lambda>c. c \<notin> set whitespace \<and> c \<notin> set symbols) (pre @ w @ y # post) es (length pre) = length pre + length w"
  using assms
proof (induction w arbitrary: pre)
  case Nil
  have "length pre < es \<Longrightarrow> delim y" using line_ok_at [of pre y post es] Nil by auto
  then show ?case by (auto simp: skip_while.simps [of _ _ es "length pre"] delim_def)
next
  case (Cons c w)
  have "length pre < es" using line_ok_at [of pre c "w @ y # post" es] Cons.prems by auto
  moreover have "skip_while (\<lambda>c. c \<notin> set whitespace \<and> c \<notin> set symbols) ((pre @ [c]) @ w @ y # post) es (length (pre @ [c])) = length (pre @ [c]) + length w"
    by (rule Cons.IH) (use Cons.prems in auto)
  ultimately show ?case using Cons.prems(3) by (simp add: skip_while.simps [of _ _ es "length pre"] delim_def)
qed

lemma get_word:
  assumes "line_ok (pre @ w @ y # post) es" "0 \<notin> set pre" "word_ok w" "y = 0 \<or> delim y"
  shows "gettoken (pre @ w @ y # post) es (length pre) =
    (97, length pre, length (pre @ w), skip_space (pre @ w @ y # post) es (length (pre @ w)))"
proof -
  obtain c w' where w: "w = c # w'" "c \<noteq> 0" "\<not> delim c" using assms(3) by (cases w) (auto simp: word_ok_def)
  have "c \<notin> set whitespace" using w by (auto simp: delim_def)
  then have s: "skip_space (pre @ w @ y # post) es (length pre) = length pre"
    using skip_none [of pre c "w' @ y # post" es] assms(1,2) w by simp
  have "skip_while (\<lambda>c. c \<notin> set whitespace \<and> c \<notin> set symbols) (pre @ w @ y # post) es (length pre) = length pre + length w"
    by (rule skip_word) (use assms in \<open>auto simp: word_ok_def\<close>)
  moreover have "c \<notin> {124, 40, 41, 59, 38, 60, 62}" using w(3) by (auto simp: delim_def symbols_def)
  moreover have "(pre @ w @ y # post) ! length pre = c" by (simp add: w)
  ultimately show ?thesis using w(2) by (simp add: gettoken_def Let_def s)
qed

text \<open>The pointers \<open>q\<close> and \<open>e\<close> enclose the word \<open>w\<close>, and a node stands for a command.\<close>

definition tok_at :: "bytes \<Rightarrow> nat \<Rightarrow> nat \<Rightarrow> nat \<Rightarrow> bytes \<Rightarrow> bool" where
  "tok_at buf es q e w = (word_ok w \<and> (\<exists>pre y post. buf = pre @ w @ y # post \<and> q = length pre \<and> e = length (pre @ w) \<and> e \<le> es \<and> (e = es \<or> delim y)))"

fun rep :: "bytes \<Rightarrow> nat \<Rightarrow> cmd \<Rightarrow> tcmd \<Rightarrow> bool" where
  "rep buf es (EXEC args) (TExec ws) = list_all2 (\<lambda>(q, e) w. tok_at buf es q e w) args ws"
| "rep buf es (REDIR c q e m f) (TRedir t w inp) = (rep buf es c t \<and> tok_at buf es q e w \<and> (m, f) = (if inp then (0, 0) else (0x201, 1)))"
| "rep buf es (PIPE l r) (TPipe l' r') = (rep buf es l l' \<and> rep buf es r r')"
| "rep buf es (LIST l r) (TList l' r') = (rep buf es l l' \<and> rep buf es r r')"
| "rep buf es (BACK c) (TBack t) = rep buf es c t"
| "rep buf es _ _ = False"

lemma delim_simps [simp]: "delim 32" "delim 40" "delim 41" "delim 59" "delim 60" "delim 62" "delim 124" "delim 38" "\<not> delim 0"
  by (simp_all add: delim_def whitespace_def symbols_def)

lemma ws_simps [simp]: "40 \<notin> set whitespace" "41 \<notin> set whitespace" "59 \<notin> set whitespace" "60 \<notin> set whitespace" "62 \<notin> set whitespace"
  "124 \<notin> set whitespace" "38 \<notin> set whitespace" "0 \<notin> set whitespace" "32 \<in> set whitespace"
  by (simp_all add: whitespace_def)

lemma word_tok_at:
  "line_ok (pre @ w @ y # post) es \<Longrightarrow> 0 \<notin> set pre \<Longrightarrow> word_ok w \<Longrightarrow> y = 0 \<or> delim y \<Longrightarrow>
   tok_at (pre @ w @ y # post) es (length pre) (length (pre @ w)) w"
  using line_ok_at [of "pre @ w" y post es] unfolding tok_at_def by (fastforce simp: word_ok_def)

text \<open>A character after which a simple command or a block is complete.\<close>

definition stop :: "u8 \<Rightarrow> bool" where
  "stop c = (c \<in> {0, 41, 124, 38, 59})"

lemma stopD: "stop c \<Longrightarrow> c \<notin> set whitespace \<and> c \<noteq> 60 \<and> c \<noteq> 62 \<and> c \<noteq> 40"
  by (auto simp: stop_def)

lemma no_redirs:
  assumes "line_ok (pre @ c # post) es" "0 \<notin> set pre" "c \<notin> set whitespace" "c \<noteq> 60" "c \<noteq> 62"
  shows "redirs (Suc k) (pre @ c # post) es (length pre) = retP [] (length pre)"
  using assms by (simp add: peek_at)

lemma args_loop_words:
  assumes "line_ok (pre @ unparse (TExec ws) @ c # post) es" "0 \<notin> set pre" "\<forall>w \<in> set ws. word_ok w"
    "length args + length ws < MAXARGS" "stop c" "length ws < k"
  shows "\<exists>args'. args_loop k (pre @ unparse (TExec ws) @ c # post) es args rs (length pre) =
      retP (wrap (EXEC (args @ args')) rs) (length (pre @ unparse (TExec ws))) \<and>
    list_all2 (\<lambda>(q, e) w. tok_at (pre @ unparse (TExec ws) @ c # post) es q e w) args' ws"
  using assms
proof (induction ws arbitrary: pre args k)
  case Nil
  let ?buf = "pre @ c # post"
  obtain k' where k: "k = Suc k'" using Nil.prems(6) by (cases k) auto
  note p = peek_at [of pre c post es, OF _ Nil.prems(2)]
  have "gettoken ?buf es (length pre) = (0, length pre, length pre, length pre)" if "c = 0"
    using that skip_none [of pre c post es] Nil.prems by (simp add: gettoken_def Let_def)
  then show ?case using Nil.prems p stopD [OF Nil.prems(5)]
    by (intro exI [of _ "[]"]) (auto simp: k stop_def Let_def)
next
  case (Cons w ws)
  let ?rest = "unparse (TExec ws) @ c # post"
  let ?buf = "pre @ w @ 32 # ?rest"
  let ?pre = "pre @ w @ [32]"
  have ok: "line_ok ?buf es" using Cons.prems(1) by simp
  have w: "word_ok w" "0 \<notin> set (pre @ w)" using Cons.prems(2,3) by (auto simp: word_ok_def)
  obtain x w' where x: "w = x # w'" "x \<noteq> 0" "\<not> delim x" using w(1) by (cases w) (auto simp: word_ok_def)
  obtain k' where k: "k = Suc (Suc k')" "length ws < Suc k'" using Cons.prems(6) by (cases k; cases "k - 1") auto
  have pk: "peek ?buf es (length pre) [124, 41, 38, 59] = (False, length pre)"
    using peek_at [of pre x "w' @ 32 # ?rest" es "[124, 41, 38, 59]"] ok Cons.prems(2) x by (auto simp: delim_def symbols_def)
  obtain d ds where d: "?rest = d # ds" "d \<notin> set whitespace" "d \<noteq> 60" "d \<noteq> 62"
  proof (cases ws)
    case Nil
    then show ?thesis using that stopD [OF Cons.prems(5)] by auto
  next
    case (Cons v vs)
    then obtain d v' where "v = d # v'" "\<not> delim d" using Cons.prems(3) by (cases v) (auto simp: word_ok_def)
    then show ?thesis using that Cons by (auto simp: delim_def symbols_def)
  qed
  have n0: "0 \<notin> set ?pre" using w(2) by auto
  have ok': "line_ok (?pre @ d # ds) es" using ok d(1) by simp
  have sk: "skip_space ?buf es (length (pre @ w)) = length ?pre"
    using skip_one [of "pre @ w" 32 ?rest es] skip_none [OF ok' n0 d(2)] ok w(2) d(1) by simp
  have g: "gettoken ?buf es (length pre) = (97, length pre, length (pre @ w), length ?pre)"
    using get_word [OF ok Cons.prems(2) w(1)] sk by simp
  have r: "redirs (Suc k') ?buf es (length ?pre) = retP [] (length ?pre)"
    using no_redirs [OF ok' n0 d(2-4)] d(1) by simp
  have m: "length (args @ [(length pre, length (pre @ w))]) < MAXARGS" using Cons.prems(4) by simp
  have ih: "\<exists>args'. args_loop (Suc k') (?pre @ ?rest) es (args @ [(length pre, length (pre @ w))]) rs (length ?pre) =
      retP (wrap (EXEC ((args @ [(length pre, length (pre @ w))]) @ args')) rs) (length (?pre @ unparse (TExec ws))) \<and>
    list_all2 (\<lambda>(q, e) w. tok_at (?pre @ ?rest) es q e w) args' ws"
    by (rule Cons.IH) (use ok n0 Cons.prems m k in auto)
  then obtain args' where a: "args_loop (Suc k') ?buf es (args @ [(length pre, length (pre @ w))]) rs (length ?pre) =
      retP (wrap (EXEC (args @ (length pre, length (pre @ w)) # args')) rs) (length (?pre @ unparse (TExec ws)))"
    "list_all2 (\<lambda>(q, e) w. tok_at ?buf es q e w) args' ws" by auto
  have "args_loop k ?buf es args rs (length pre) =
      retP (wrap (EXEC (args @ (length pre, length (pre @ w)) # args')) rs) (length (?pre @ unparse (TExec ws)))"
    using m a(1) r unfolding k(1) args_loop.simps(2) [of "Suc k'"] pk g Let_def prod.case if_False
    by (simp add: bindP_def retP_def Let_def not_le del: args_loop.simps redirs.simps)
  moreover have "tok_at ?buf es (length pre) (length (pre @ w)) w" by (rule word_tok_at [OF ok Cons.prems(2) w(1)]) simp
  ultimately show ?case using a(2) by (intro exI [of _ "(length pre, length (pre @ w)) # args'"]) simp
qed

definition parses :: "tcmd \<Rightarrow> bool" where
  "parses t = (\<forall>pre c post es k. line_ok (pre @ unparse t @ c # post) es \<longrightarrow> 0 \<notin> set pre \<longrightarrow> c \<in> {0, 41} \<longrightarrow> 4 * (es - length pre) + 4 \<le> k \<longrightarrow>
     (\<exists>cmd. parseline k (pre @ unparse t @ c # post) es (length pre) = retP cmd (length (pre @ unparse t)) \<and>
        rep (pre @ unparse t @ c # post) es cmd t))"

lemma parsesD:
  "parses t \<Longrightarrow> line_ok (pre @ unparse t @ c # post) es \<Longrightarrow> 0 \<notin> set pre \<Longrightarrow> c \<in> {0, 41} \<Longrightarrow> 4 * (es - length pre) + 4 \<le> k \<Longrightarrow>
   \<exists>cmd. parseline k (pre @ unparse t @ c # post) es (length pre) = retP cmd (length (pre @ unparse t)) \<and>
     rep (pre @ unparse t @ c # post) es cmd t"
  unfolding parses_def by blast

lemma unparse_start:
  assumes "printable t" "c \<notin> set whitespace"
  obtains d ds where "unparse t @ c # post = d # ds" "d \<notin> set whitespace"
proof (cases t)
  case (TExec ws)
  then show ?thesis
  proof (cases ws)
    case Nil
    then show ?thesis using that [of c post] assms(2) TExec by simp
  next
    case (Cons w ws')
    then obtain d w' where "w = d # w'" "\<not> delim d" using assms(1) TExec by (cases w) (auto simp: word_ok_def)
    then show ?thesis using that [of d] TExec Cons by (simp add: delim_def)
  qed
qed (use that ws_simps in auto)

lemma exec_block:
  assumes "parses t" "printable t" "line_ok (pre @ 40 # unparse t @ 41 # d # ds) es" "0 \<notin> set pre" "d \<notin> set whitespace"
    "4 * (es - length pre) + 2 \<le> k"
  shows "\<exists>cmd k'. parseexec k (pre @ 40 # unparse t @ 41 # d # ds) es (length pre) =
      parseredirs k' cmd (pre @ 40 # unparse t @ 41 # d # ds) es (length (pre @ 40 # unparse t @ [41])) \<and>
    rep (pre @ 40 # unparse t @ 41 # d # ds) es cmd t \<and> es - length pre < k'"
proof -
  let ?buf = "pre @ 40 # unparse t @ 41 # d # ds"
  have u0: "0 \<notin> set (unparse t)" by (rule unparse_nonzero [OF assms(2)])
  have le: "length pre + 1 \<le> es" using line_ok_at [of "pre @ [40]" _ _ es] assms(3,4) unparse_start [OF assms(2), of 41 "d # ds"] by fastforce
  obtain k' where k: "k = Suc (Suc k')" "4 * (es - length (pre @ [40])) + 4 \<le> k'" using assms(6) le by (cases k; cases "k - 1") auto
  have p1: "peek ?buf es (length pre) [40] = (True, length pre)" using peek_at [of pre 40 _ es "[40]"] assms(3,4) by simp
  obtain e ees where e: "unparse t @ 41 # d # ds = e # ees" "e \<notin> set whitespace" using unparse_start [OF assms(2), of 41 "d # ds"] by auto
  have "skip_space ?buf es (length (pre @ [40])) = length (pre @ [40])"
    using skip_none [of "pre @ [40]" e ees es] assms(3,4) e by simp
  then have g1: "gettoken ?buf es (length pre) = (40, length pre, length (pre @ [40]), length (pre @ [40]))"
    using get_sym [of pre 40 _ es] assms(3,4) by simp
  have "\<exists>cmd. parseline k' ((pre @ [40]) @ unparse t @ 41 # d # ds) es (length (pre @ [40])) = retP cmd (length ((pre @ [40]) @ unparse t)) \<and>
      rep ((pre @ [40]) @ unparse t @ 41 # d # ds) es cmd t"
    by (rule parsesD [OF assms(1)]) (use assms(3,4) k in auto)
  then obtain cmd where c: "parseline k' ?buf es (length (pre @ [40])) = retP cmd (length (pre @ 40 # unparse t))" "rep ?buf es cmd t" by auto
  have p2: "peek ?buf es (length (pre @ 40 # unparse t)) [41] = (True, length (pre @ 40 # unparse t))"
    using peek_at [of "pre @ 40 # unparse t" 41 "d # ds" es "[41]"] assms(3,4) u0 by simp
  have "skip_space ?buf es (length (pre @ 40 # unparse t @ [41])) = length (pre @ 40 # unparse t @ [41])"
    using skip_none [of "pre @ 40 # unparse t @ [41]" d ds es] assms(3-5) u0 by simp
  then have g2: "gettoken ?buf es (length (pre @ 40 # unparse t)) = (41, length (pre @ 40 # unparse t), length (pre @ 40 # unparse t @ [41]), length (pre @ 40 # unparse t @ [41]))"
    using get_sym [of "pre @ 40 # unparse t" 41 "d # ds" es] assms(3,4) u0 by simp
  have "parseexec k ?buf es (length pre) = parseredirs k' cmd ?buf es (length (pre @ 40 # unparse t @ [41]))"
    unfolding k(1) parseexec.simps p1 parseblock.simps Let_def prod.case if_True g1 c(1) retP_def bindP_def option.case sum.case p2 g2 by simp
  with c(2) k(2) show ?thesis by (intro exI [of _ cmd] exI [of _ k']) auto
qed

lemma pipe_of_exec:
  assumes "line_ok (pre @ d # ds) es" "0 \<notin> set pre" "d \<notin> set whitespace" "d \<noteq> 124"
    "parseexec k (pre @ d # ds) es s = retP cmd (length pre)"
  shows "parsepipe (Suc k) (pre @ d # ds) es s = retP cmd (length pre)"
  using assms peek_at [OF assms(1-3), of "[124]"] by (simp add: bindP_def retP_def)

lemma line_of_pipe:
  assumes "line_ok (pre @ c # ds) es" "0 \<notin> set pre" "c \<in> {0, 41}" "0 < k" "parsepipe k (pre @ c # ds) es s = retP cmd (length pre)"
  shows "parseline (Suc k) (pre @ c # ds) es s = retP cmd (length pre)"
proof -
  have w: "c \<notin> set whitespace" using assms(3) by auto
  note p = peek_at [OF assms(1,2) w]
  obtain k' where "k = Suc k'" using assms(4) by (cases k) auto
  then have "back_loop k (pre @ c # ds) es cmd (length pre) = retP cmd (length pre)"
    using assms(3) by (auto simp: p)
  then show ?thesis using assms(3,5) by (auto simp: p bindP_def retP_def)
qed

lemma exec_block_plain:
  assumes "parses t" "printable t" "line_ok (pre @ 40 # unparse t @ 41 # d # ds) es" "0 \<notin> set pre" "stop d" "4 * (es - length pre) + 2 \<le> k"
  shows "\<exists>cmd. parseexec k (pre @ 40 # unparse t @ 41 # d # ds) es (length pre) = retP cmd (length (pre @ 40 # unparse t @ [41])) \<and>
    rep (pre @ 40 # unparse t @ 41 # d # ds) es cmd t"
proof -
  let ?buf = "pre @ 40 # unparse t @ 41 # d # ds" and ?pre = "pre @ 40 # unparse t @ [41]"
  note d = stopD [OF assms(5)]
  obtain cmd k' where c: "parseexec k ?buf es (length pre) = parseredirs k' cmd ?buf es (length ?pre)" "rep ?buf es cmd t" "0 < k'"
    using exec_block [OF assms(1-4) _ assms(6)] d by (metis gr_implies_not0 neq0_conv)
  obtain k'' where "k' = Suc k''" using c(3) by (cases k') auto
  moreover have "0 \<notin> set ?pre" using assms(4) unparse_nonzero [OF assms(2)] by auto
  ultimately have "redirs k' ?buf es (length ?pre) = retP [] (length ?pre)"
    using no_redirs [of ?pre d ds es k''] assms(3) d by simp
  then have "parseredirs k' cmd ?buf es (length ?pre) = retP cmd (length ?pre)"
    by (simp add: parseredirs_def bindP_def retP_def wrap_def)
  with c show ?thesis by auto
qed

lemma line_block:
  assumes "parses t" "printable t" "line_ok (pre @ 40 # unparse t @ 41 # c # post) es" "0 \<notin> set pre" "c \<in> {0, 41}" "4 * (es - length pre) + 4 \<le> k"
  shows "\<exists>cmd. parseline k (pre @ 40 # unparse t @ 41 # c # post) es (length pre) = retP cmd (length (pre @ 40 # unparse t @ [41])) \<and>
    rep (pre @ 40 # unparse t @ 41 # c # post) es cmd t"
    and "\<exists>cmd. parsepipe (k - 1) (pre @ 40 # unparse t @ 41 # c # post) es (length pre) = retP cmd (length (pre @ 40 # unparse t @ [41])) \<and>
    rep (pre @ 40 # unparse t @ 41 # c # post) es cmd t"
proof -
  let ?buf = "pre @ 40 # unparse t @ 41 # c # post" and ?pre = "pre @ 40 # unparse t @ [41]"
  obtain k' where k: "k = Suc (Suc k')" "4 * (es - length pre) + 2 \<le> k'" using assms(6) by (cases k; cases "k - 1") auto
  have "stop c" using assms(5) by (auto simp: stop_def)
  from exec_block_plain [OF assms(1-4) this k(2)] obtain cmd where c: "parseexec k' ?buf es (length pre) = retP cmd (length ?pre)" "rep ?buf es cmd t" by blast
  have ok: "line_ok (?pre @ c # post) es" "0 \<notin> set ?pre" using assms(3,4) unparse_nonzero [OF assms(2)] by auto
  have p: "parsepipe (Suc k') (?pre @ c # post) es (length pre) = retP cmd (length ?pre)"
    by (rule pipe_of_exec [OF ok]) (use assms(5) c(1) in auto)
  have "parseline (Suc (Suc k')) (?pre @ c # post) es (length pre) = retP cmd (length ?pre)"
    by (rule line_of_pipe [OF ok assms(5) _ p]) simp
  with p c(2) k(1) show "\<exists>cmd. parseline k ?buf es (length pre) = retP cmd (length ?pre) \<and> rep ?buf es cmd t"
    "\<exists>cmd. parsepipe (k - 1) ?buf es (length pre) = retP cmd (length ?pre) \<and> rep ?buf es cmd t" by auto
qed

lemma unparse_length: "line_ok (pre @ unparse t @ c # post) es \<Longrightarrow> 0 \<notin> set pre \<Longrightarrow> printable t \<Longrightarrow> length pre + length (unparse t) \<le> es"
  using line_ok_at(1) [of "pre @ unparse t" c post es] unparse_nonzero [of t] by simp

lemma words_length: "\<forall>w \<in> set ws. word_ok w \<Longrightarrow> length ws \<le> length (concat (map (\<lambda>w. w @ [32]) ws))"
  by (induction ws) auto

lemma parses_exec:
  assumes "printable (TExec ws)"
  shows "parses (TExec ws)"
  unfolding parses_def
proof (intro allI impI)
  fix pre c post es k
  let ?u = "unparse (TExec ws)"
  let ?buf = "pre @ ?u @ c # post"
  assume a: "line_ok ?buf es" "0 \<notin> set pre" "c \<in> {0, 41}" "4 * (es - length pre) + 4 \<le> k"
  have st: "stop c" "c \<notin> set whitespace" using a(3) by (auto simp: stop_def)
  obtain k' where k: "k = Suc (Suc (Suc (Suc k')))" "es - length pre \<le> k'" using a(4) by (cases k; cases "k - 1"; cases "k - 2"; cases "k - 3") auto
  have len: "length ws < Suc k'" using unparse_length [OF a(1,2) assms] words_length [of ws] assms k(2) by simp
  obtain d ds where d: "?u @ c # post = d # ds" "d \<notin> set whitespace" "d \<noteq> 40" "d \<noteq> 60" "d \<noteq> 62"
  proof (cases ws)
    case Nil
    then show ?thesis using that stopD [OF st(1)] by auto
  next
    case (Cons w ws')
    then obtain d w' where "w = d # w'" "\<not> delim d" using assms by (cases w) (auto simp: word_ok_def)
    then show ?thesis using that Cons by (auto simp: delim_def symbols_def)
  qed
  have ok: "line_ok (pre @ d # ds) es" using a(1) d(1) by simp
  have p: "peek ?buf es (length pre) [40] = (False, length pre)" using peek_at [OF ok a(2) d(2), of "[40]"] d(1,3) by simp
  have r: "redirs (Suc k') ?buf es (length pre) = retP [] (length pre)" using no_redirs [OF ok a(2) d(2,4,5)] d(1) by simp
  obtain args where args: "args_loop (Suc k') ?buf es [] [] (length pre) = retP (wrap (EXEC ([] @ args)) []) (length (pre @ ?u))"
    "list_all2 (\<lambda>(q, e) w. tok_at ?buf es q e w) args ws"
    using args_loop_words [OF a(1,2) _ _ st(1) len, of "[]" "[]"] assms by auto
  have e: "parseexec (Suc (Suc k')) ?buf es (length pre) = retP (EXEC args) (length (pre @ ?u))"
    unfolding parseexec.simps p Let_def prod.case if_False r bindP_def retP_def option.case sum.case
    using args(1) by (simp add: wrap_def retP_def)
  have ok2: "line_ok ((pre @ ?u) @ c # post) es" "0 \<notin> set (pre @ ?u)" using a(1,2) unparse_nonzero [OF assms] by auto
  have "parsepipe (Suc (Suc (Suc k'))) ((pre @ ?u) @ c # post) es (length pre) = retP (EXEC args) (length (pre @ ?u))"
    by (rule pipe_of_exec [OF ok2 st(2)]) (use a(3) e in auto)
  then have "parseline k ((pre @ ?u) @ c # post) es (length pre) = retP (EXEC args) (length (pre @ ?u))"
    unfolding k(1) by (intro line_of_pipe [OF ok2 a(3)]) simp_all
  with args(2) show "\<exists>cmd. parseline k ?buf es (length pre) = retP cmd (length (pre @ ?u)) \<and> rep ?buf es cmd (TExec ws)"
    by (intro exI [of _ "EXEC args"]) simp
qed

lemma parses_lift:
  assumes "printable t" "\<And>pre c post es k. line_ok (pre @ unparse t @ c # post) es \<Longrightarrow> 0 \<notin> set pre \<Longrightarrow> c \<in> {0, 41} \<Longrightarrow>
      4 * (es - length pre) + 2 \<le> k \<Longrightarrow> length pre + 1 < es \<Longrightarrow>
      \<exists>cmd. parseexec k (pre @ unparse t @ c # post) es (length pre) = retP cmd (length (pre @ unparse t)) \<and> rep (pre @ unparse t @ c # post) es cmd t"
    "2 \<le> length (unparse t)"
  shows "parses t"
  unfolding parses_def
proof (intro allI impI)
  fix pre c post es k
  let ?u = "unparse t"
  let ?buf = "pre @ ?u @ c # post"
  assume a: "line_ok ?buf es" "0 \<notin> set pre" "c \<in> {0, 41}" "4 * (es - length pre) + 4 \<le> k"
  obtain k' where k: "k = Suc (Suc k')" "4 * (es - length pre) + 2 \<le> k'" using a(4) by (cases k; cases "k - 1") auto
  have "length pre + 1 < es" using unparse_length [OF a(1,2) assms(1)] assms(3) by simp
  from assms(2) [OF a(1-3) k(2) this] obtain cmd where e: "parseexec k' ?buf es (length pre) = retP cmd (length (pre @ ?u))" "rep ?buf es cmd t" by blast
  have ok2: "line_ok ((pre @ ?u) @ c # post) es" "0 \<notin> set (pre @ ?u)" using a(1,2) unparse_nonzero [OF assms(1)] by auto
  have "parsepipe (Suc k') ((pre @ ?u) @ c # post) es (length pre) = retP cmd (length (pre @ ?u))"
    by (rule pipe_of_exec [OF ok2]) (use a(3) e in auto)
  then have "parseline k ((pre @ ?u) @ c # post) es (length pre) = retP cmd (length (pre @ ?u))"
    unfolding k(1) by (intro line_of_pipe [OF ok2 a(3)]) simp_all
  with e(2) show "\<exists>cmd. parseline k ?buf es (length pre) = retP cmd (length (pre @ ?u)) \<and> rep ?buf es cmd t" by auto
qed

lemma parses_redir:
  assumes t: "parses t" and pr: "printable (TRedir t f inp)"
  shows "parses (TRedir t f inp)"
proof (rule parses_lift [OF pr])
  fix pre c post es k
  let ?x = "if inp then 60 else 62 :: u8"
  let ?pre = "pre @ 40 # unparse t @ [41]"
  let ?buf = "?pre @ ?x # f @ c # post"
  assume a: "line_ok (pre @ unparse (TRedir t f inp) @ c # post) es" "0 \<notin> set pre" "c \<in> {0, 41}" "4 * (es - length pre) + 2 \<le> k" "length pre + 1 < es"
  have buf: "pre @ unparse (TRedir t f inp) @ c # post = ?buf" "pre @ 40 # unparse t @ 41 # ?x # f @ c # post = ?buf" by simp_all
  have ok: "line_ok ?buf es" using a(1) unfolding buf .
  have n0: "0 \<notin> set ?pre" "0 \<notin> set (?pre @ [?x])" "0 \<notin> set (?pre @ ?x # f)" using a(2) unparse_nonzero [of t] pr by (auto simp: word_ok_def)
  have w: "word_ok f" "printable t" using pr by simp_all
  obtain y f' where y: "f = y # f'" "y \<notin> set whitespace" "y \<noteq> 62" using w(1) by (cases f) (auto simp: word_ok_def delim_def symbols_def)
  have xw: "?x \<notin> set whitespace" by simp
  obtain cmd k' where c: "parseexec k ?buf es (length pre) = parseredirs k' cmd ?buf es (length ?pre)" "rep ?buf es cmd t" "es - length pre < k'"
    using exec_block [OF t w(2), of pre ?x "f @ c # post" es k] ok a(2,4) xw unfolding buf by auto
  obtain k'' where k': "k' = Suc (Suc k'')" using c(3) a(5) by (cases k'; cases "k' - 1") auto
  have p1: "peek ?buf es (length ?pre) [60, 62] = (True, length ?pre)" using peek_at [OF ok n0(1), of "[60, 62]"] by simp
  have s1: "skip_space ?buf es (length (?pre @ [?x])) = length (?pre @ [?x])"
    using skip_none [of "?pre @ [?x]" y "f' @ c # post" es] ok n0(2) y by simp
  have g1: "gettoken ?buf es (length ?pre) = (?x, length ?pre, length (?pre @ [?x]), length (?pre @ [?x]))"
    using get_sym [OF ok n0(1)] s1 y by auto
  have ok2: "line_ok ((?pre @ [?x]) @ f @ c # post) es" "line_ok ((?pre @ ?x # f) @ c # post) es" using ok by simp_all
  have cd: "c = 0 \<or> delim c" "c \<notin> set whitespace" and cn: "c \<noteq> 60" "c \<noteq> 62" using a(3) by auto
  have s2: "skip_space ?buf es (length (?pre @ ?x # f)) = length (?pre @ ?x # f)" using skip_none [OF ok2(2) n0(3) cd(2)] by simp
  have g2: "gettoken ?buf es (length (?pre @ [?x])) = (97, length (?pre @ [?x]), length (?pre @ ?x # f), length (?pre @ ?x # f))"
    using get_word [OF ok2(1) n0(2) w(1) cd(1)] s2 by simp
  have r2: "redirs (Suc k'') ?buf es (length (?pre @ ?x # f)) = retP [] (length (?pre @ ?x # f))"
    using no_redirs [OF ok2(2) n0(3) cd(2) cn] by (simp del: redirs.simps)
  have "redirs k' ?buf es (length ?pre) = retP [(length (?pre @ [?x]), length (?pre @ ?x # f), if inp then (0, 0) else (0x201, 1))] (length (?pre @ ?x # f))"
    unfolding k' redirs.simps(2) [of "Suc k''"] p1 Let_def prod.case if_True g1 g2 r2
    by (simp add: bindP_def retP_def O_RDONLY_def O_WRONLY_def O_CREATE_def)
  then have run: "parseredirs k' cmd ?buf es (length ?pre) =
      retP (REDIR cmd (length (?pre @ [?x])) (length (?pre @ ?x # f)) (if inp then 0 else 0x201) (if inp then 0 else 1)) (length (?pre @ ?x # f))"
    by (simp add: parseredirs_def bindP_def retP_def wrap_def)
  have "tok_at ?buf es (length (?pre @ [?x])) (length (?pre @ ?x # f)) f"
    using word_tok_at [OF ok2(1) n0(2) w(1) cd(1)] by simp
  with c(2) have "rep ?buf es (REDIR cmd (length (?pre @ [?x])) (length (?pre @ ?x # f)) (if inp then 0 else 0x201) (if inp then 0 else 1)) (TRedir t f inp)"
    by simp
  then show "\<exists>cmd. parseexec k (pre @ unparse (TRedir t f inp) @ c # post) es (length pre) = retP cmd (length (pre @ unparse (TRedir t f inp))) \<and>
      rep (pre @ unparse (TRedir t f inp) @ c # post) es cmd (TRedir t f inp)"
    unfolding buf using c(1) run by auto
qed simp

text \<open>A block, and the character and the position behind it.\<close>

lemma after_block:
  assumes "printable l" "line_ok (pre @ 40 # unparse l @ 41 # d # y # ys) es" "0 \<notin> set pre" "d \<in> {124, 38, 59}" "y \<notin> set whitespace"
  defines "p \<equiv> length (pre @ 40 # unparse l @ [41])" and "buf \<equiv> pre @ 40 # unparse l @ 41 # d # y # ys"
  shows "peek buf es p toks = (d \<in> set toks, p)" "gettoken buf es p = (d, p, p + 1, p + 1)"
proof -
  let ?pre = "pre @ 40 # unparse l @ [41]"
  have ok: "line_ok (?pre @ d # y # ys) es" "line_ok ((?pre @ [d]) @ y # ys) es" using assms(2) by simp_all
  have n0: "0 \<notin> set ?pre" "0 \<notin> set (?pre @ [d])" using assms(3,4) unparse_nonzero [OF assms(1)] by auto
  have w: "d \<notin> set whitespace" "d \<noteq> 0" "d \<in> {124, 40, 41, 59, 38, 60}" using assms(4) by auto
  show "peek buf es p toks = (d \<in> set toks, p)" using peek_at [OF ok(1) n0(1) w(1)] w(2) by (simp add: p_def buf_def)
  have "gettoken (?pre @ d # y # ys) es (length ?pre) = (d, length ?pre, length (?pre @ [d]), skip_space (?pre @ d # y # ys) es (length (?pre @ [d])))"
    by (rule get_sym [OF ok(1) n0(1)]) (use w(3) in blast)
  then show "gettoken buf es p = (d, p, p + 1, p + 1)" using skip_none [OF ok(2) n0(2) assms(5)] by (simp add: p_def buf_def)
qed

lemma parses_pipe:
  assumes l: "parses l" and r: "parses r" and pr: "printable (TPipe l r)"
  shows "parses (TPipe l r)"
  unfolding parses_def
proof (intro allI impI)
  fix pre c post es k
  let ?pre = "pre @ 40 # unparse l @ [41, 124]"
  let ?buf = "pre @ 40 # unparse l @ 41 # 124 # 40 # unparse r @ 41 # c # post"
  assume a: "line_ok (pre @ unparse (TPipe l r) @ c # post) es" "0 \<notin> set pre" "c \<in> {0, 41}" "4 * (es - length pre) + 4 \<le> k"
  have buf: "pre @ unparse (TPipe l r) @ c # post = ?buf" "?pre @ 40 # unparse r @ 41 # c # post = ?buf" by simp_all
  have ok: "line_ok ?buf es" "line_ok (?pre @ 40 # unparse r @ 41 # c # post) es" using a(1) unfolding buf by simp_all
  have p: "printable l" "printable r" using pr by simp_all
  have n0: "0 \<notin> set ?pre" using a(2) unparse_nonzero [OF p(1)] by auto
  have le: "length ?pre < es" using line_ok_at [OF ok(2) n0] by simp
  obtain k' where k: "k = Suc (Suc k')" "4 * (es - length pre) + 2 \<le> k'" using a(4) by (cases k; cases "k - 1") auto
  obtain cl where cl: "parseexec k' ?buf es (length pre) = retP cl (length (pre @ 40 # unparse l @ [41]))" "rep ?buf es cl l"
    using exec_block_plain [OF l p(1) ok(1) a(2) _ k(2)] by (auto simp: stop_def)
  have "4 * (es - length ?pre) + 4 \<le> Suc k'" using k(2) le by simp
  from line_block(2) [OF r p(2) ok(2) n0 a(3) this]
  obtain cr where cr: "parsepipe k' ?buf es (length ?pre) = retP cr (length (?pre @ 40 # unparse r @ [41]))" "rep ?buf es cr r"
    unfolding buf by auto
  have "40 \<notin> set whitespace" by simp
  note b = after_block [OF p(1) ok(1) a(2) _ this]
  have "parsepipe (Suc k') ?buf es (length pre) = retP (PIPE cl cr) (length (?pre @ 40 # unparse r @ [41]))"
    using cl(1) cr(1) b by (simp add: bindP_def retP_def)
  then have "parsepipe (Suc k') ((pre @ unparse (TPipe l r)) @ c # post) es (length pre) = retP (PIPE cl cr) (length (pre @ unparse (TPipe l r)))"
    by simp
  then have "parseline k ((pre @ unparse (TPipe l r)) @ c # post) es (length pre) = retP (PIPE cl cr) (length (pre @ unparse (TPipe l r)))"
    unfolding k(1) by (intro line_of_pipe) (use a pr unparse_nonzero [OF pr] in auto)
  with cl(2) cr(2) show "\<exists>cmd. parseline k (pre @ unparse (TPipe l r) @ c # post) es (length pre) = retP cmd (length (pre @ unparse (TPipe l r))) \<and>
      rep (pre @ unparse (TPipe l r) @ c # post) es cmd (TPipe l r)"
    by (intro exI [of _ "PIPE cl cr"]) simp
qed

lemma pipe_block:
  assumes "parses l" "printable l" "line_ok (pre @ 40 # unparse l @ 41 # d # ds) es" "0 \<notin> set pre" "stop d" "d \<noteq> 124" "4 * (es - length pre) + 3 \<le> k"
  shows "\<exists>cmd. parsepipe k (pre @ 40 # unparse l @ 41 # d # ds) es (length pre) = retP cmd (length (pre @ 40 # unparse l @ [41])) \<and>
    rep (pre @ 40 # unparse l @ 41 # d # ds) es cmd l"
proof -
  obtain k' where k: "k = Suc k'" "4 * (es - length pre) + 2 \<le> k'" using assms(7) by (cases k) auto
  let ?buf = "pre @ 40 # unparse l @ 41 # d # ds" and ?pre = "pre @ 40 # unparse l @ [41]"
  obtain cmd where c: "parseexec k' ?buf es (length pre) = retP cmd (length ?pre)" "rep ?buf es cmd l"
    using exec_block_plain [OF assms(1-5) k(2)] by blast
  have "parsepipe (Suc k') (?pre @ d # ds) es (length pre) = retP cmd (length ?pre)"
    by (rule pipe_of_exec) (use assms(3,4,6) c(1) stopD [OF assms(5)] unparse_nonzero [OF assms(2)] in auto)
  with c(2) k(1) show ?thesis by auto
qed

lemma parses_list:
  assumes l: "parses l" and r: "parses r" and pr: "printable (TList l r)"
  shows "parses (TList l r)"
  unfolding parses_def
proof (intro allI impI)
  fix pre c post es k
  let ?pre = "pre @ 40 # unparse l @ [41, 59]"
  let ?buf = "pre @ 40 # unparse l @ 41 # 59 # 40 # unparse r @ 41 # c # post"
  assume a: "line_ok (pre @ unparse (TList l r) @ c # post) es" "0 \<notin> set pre" "c \<in> {0, 41}" "4 * (es - length pre) + 4 \<le> k"
  have buf: "pre @ unparse (TList l r) @ c # post = ?buf" "?pre @ 40 # unparse r @ 41 # c # post = ?buf" by simp_all
  have ok: "line_ok ?buf es" "line_ok (?pre @ 40 # unparse r @ 41 # c # post) es" using a(1) unfolding buf by simp_all
  have p: "printable l" "printable r" using pr by simp_all
  have n0: "0 \<notin> set ?pre" using a(2) unparse_nonzero [OF p(1)] by auto
  have le: "length ?pre < es" using line_ok_at [OF ok(2) n0] by simp
  obtain k' where k: "k = Suc (Suc k')" "4 * (es - length pre) + 3 \<le> Suc k'" using a(4) by (cases k; cases "k - 1") auto
  obtain cl where cl: "parsepipe (Suc k') ?buf es (length pre) = retP cl (length (pre @ 40 # unparse l @ [41]))" "rep ?buf es cl l"
    using pipe_block [OF l p(1) ok(1) a(2) _ _ k(2)] by (auto simp: stop_def)
  have "4 * (es - length ?pre) + 4 \<le> Suc k'" using k(2) le by simp
  from line_block(1) [OF r p(2) ok(2) n0 a(3) this]
  obtain cr where cr: "parseline (Suc k') ?buf es (length ?pre) = retP cr (length (?pre @ 40 # unparse r @ [41]))" "rep ?buf es cr r"
    unfolding buf by auto
  have "40 \<notin> set whitespace" by simp
  note b = after_block [OF p(1) ok(1) a(2) _ this]
  have bl: "back_loop (Suc k') ?buf es cl (length (pre @ 40 # unparse l @ [41])) = retP cl (length (pre @ 40 # unparse l @ [41]))"
    using b(1) by simp
  have "parseline (Suc (Suc k')) ?buf es (length pre) = retP (LIST cl cr) (length (?pre @ 40 # unparse r @ [41]))"
    unfolding parseline.simps(2) [of "Suc k'"] cl(1) bindP_def retP_def option.case sum.case prod.case bl [unfolded retP_def]
    using cr(1) b by (simp add: retP_def del: parseline.simps)
  with cl(2) cr(2) k(1) show "\<exists>cmd. parseline k (pre @ unparse (TList l r) @ c # post) es (length pre) = retP cmd (length (pre @ unparse (TList l r))) \<and>
      rep (pre @ unparse (TList l r) @ c # post) es cmd (TList l r)"
    by (intro exI [of _ "LIST cl cr"]) (simp del: parseline.simps)
qed

lemma parses_back:
  assumes l: "parses l" and pr: "printable (TBack l)"
  shows "parses (TBack l)"
  unfolding parses_def
proof (intro allI impI)
  fix pre c post es k
  let ?p = "length (pre @ 40 # unparse l @ [41])" and ?pre = "pre @ unparse (TBack l)"
  let ?buf = "pre @ 40 # unparse l @ 41 # 38 # c # post"
  assume a: "line_ok (pre @ unparse (TBack l) @ c # post) es" "0 \<notin> set pre" "c \<in> {0, 41}" "4 * (es - length pre) + 4 \<le> k"
  have buf: "pre @ unparse (TBack l) @ c # post = ?buf" "?pre @ c # post = ?buf" by simp_all
  have ok: "line_ok ?buf es" "line_ok (?pre @ c # post) es" using a(1) unfolding buf by simp_all
  have p: "printable l" using pr by simp
  have n0: "0 \<notin> set ?pre" using a(2) unparse_nonzero [OF pr] by auto
  have le: "length pre + 2 \<le> es" using unparse_length [OF a(1,2) pr] by simp
  obtain k' where k: "k = Suc (Suc (Suc k'))" "4 * (es - length pre) + 3 \<le> Suc (Suc k')" using a(4) le by (cases k; cases "k - 1"; cases "k - 2") auto
  obtain cl where cl: "parsepipe (Suc (Suc k')) ?buf es (length pre) = retP cl ?p" "rep ?buf es cl l"
    using pipe_block [OF l p ok(1) a(2) _ _ k(2)] by (auto simp: stop_def)
  have w: "c \<notin> set whitespace" using a(3) by auto
  note b = after_block [OF p ok(1) a(2) _ w]
  have e: "?p + 1 = length ?pre" by simp
  have pk: "peek ?buf es (length ?pre) toks = (c \<noteq> 0 \<and> c \<in> set toks, length ?pre)" for toks using peek_at [OF ok(2) n0 w] unfolding buf .
  have "back_loop (Suc k') ?buf es (BACK cl) (length ?pre) = retP (BACK cl) (length ?pre)" using pk [of "[38]"] a(3) by auto
  then have bl: "back_loop (Suc (Suc k')) ?buf es cl ?p = retP (BACK cl) (length ?pre)"
    unfolding back_loop.simps(2) [of "Suc k'"] using b e by (simp del: back_loop.simps)
  have "parseline (Suc (Suc (Suc k'))) ?buf es (length pre) = retP (BACK cl) (length ?pre)"
    unfolding parseline.simps(2) [of "Suc (Suc k')"] cl(1) bindP_def retP_def option.case sum.case prod.case bl [unfolded retP_def]
    using pk [of "[59]"] a(3) by auto
  with cl(2) k(1) show "\<exists>cmd. parseline k (pre @ unparse (TBack l) @ c # post) es (length pre) = retP cmd (length (pre @ unparse (TBack l))) \<and>
      rep (pre @ unparse (TBack l) @ c # post) es cmd (TBack l)"
    by (intro exI [of _ "BACK cl"]) (simp del: parseline.simps)
qed

lemma parses_all: "printable t \<Longrightarrow> parses t"
  by (induction t) (auto intro: parses_exec parses_redir parses_pipe parses_list parses_back)

section \<open>Lemmas: the zeros behind the words\<close>

fun ends :: "cmd \<Rightarrow> nat set" where
  "ends (EXEC args) = snd ` set args"
| "ends (REDIR c q e m f) = insert e (ends c)"
| "ends (PIPE l r) = ends l \<union> ends r"
| "ends (LIST l r) = ends l \<union> ends r"
| "ends (BACK c) = ends c"

lemma nth_zero: "j < length xs \<Longrightarrow> xs[i := 0] ! j = (if i = j then 0 else xs ! j)"
  by (cases "i < length xs") auto

lemma nul_args:
  "length (foldl (\<lambda>buf (q, eq). buf[eq := 0]) buf args) = length buf"
  "j < length buf \<Longrightarrow> foldl (\<lambda>buf (q, eq). buf[eq := 0]) buf args ! j = (if j \<in> snd ` set args then 0 else buf ! j)"
proof (induction args arbitrary: buf)
  case (Cons a args)
  { case 1 then show ?case using Cons.IH(1) by (simp add: split_beta) }
  { case 2 then show ?case using Cons.IH(2) [of "buf[snd a := 0]"] by (auto simp: split_beta nth_zero) }
qed simp_all

lemma nulterminate_length [simp]: "length (nulterminate c buf) = length buf"
  by (induction c arbitrary: buf) (simp_all add: nul_args)

lemma nulterminate_nth: "j < length buf \<Longrightarrow> nulterminate c buf ! j = (if j \<in> ends c then 0 else buf ! j)"
  by (induction c arbitrary: buf) (auto simp: nul_args nth_zero)

definition cstring :: "bytes \<Rightarrow> nat \<Rightarrow> bytes" where
  "cstring buf q = takeWhile (\<lambda>c. c \<noteq> 0) (drop q buf)"

fun text_of :: "bytes \<Rightarrow> cmd \<Rightarrow> tcmd" where
  "text_of buf (EXEC args) = TExec (map (\<lambda>(q, e). cstring buf q) args)"
| "text_of buf (REDIR c q e m f) = TRedir (text_of buf c) (cstring buf q) (f = 0)"
| "text_of buf (PIPE l r) = TPipe (text_of buf l) (text_of buf r)"
| "text_of buf (LIST l r) = TList (text_of buf l) (text_of buf r)"
| "text_of buf (BACK c) = TBack (text_of buf c)"

definition cut_ok :: "bytes \<Rightarrow> nat \<Rightarrow> nat set \<Rightarrow> bytes \<Rightarrow> bool" where
  "cut_ok buf es E buf' = (length buf' = length buf \<and> (\<forall>j < length buf. buf' ! j = (if j \<in> E then 0 else buf ! j)) \<and> (\<forall>e \<in> E. es \<le> e \<or> delim (buf ! e)))"

lemma tok_cstring:
  assumes t: "tok_at buf es q e w" and c: "cut_ok buf es E buf'" and e: "e \<in> E"
  shows "cstring buf' q = w"
proof -
  obtain pre y post where b: "buf = pre @ w @ y # post" "q = length pre" "e = length (pre @ w)" "e \<le> es" and w: "word_ok w"
    using t by (auto simp: tok_at_def)
  have nth: "buf' ! (q + i) = w ! i" if "i < length w" for i
  proof -
    have j: "buf ! (q + i) = w ! i" "q + i < length buf" "q + i < es" using that b by (simp_all add: nth_append)
    have "\<not> delim (w ! i)" using w that by (simp add: word_ok_def)
    then have "q + i \<notin> E" using c j by (auto simp: cut_ok_def)
    with c j show ?thesis by (simp add: cut_ok_def)
  qed
  have z: "buf' ! e = 0" "e < length buf'" using c e b by (simp_all add: cut_ok_def)
  have "drop q buf' = take (length w) (drop q buf') @ drop e buf'" using b(2,3) append_take_drop_id [of "length w" "drop q buf'"] by (simp add: add.commute)
  moreover have "take (length w) (drop q buf') = w"
    by (rule nth_equalityI) (use nth z(2) b in auto)
  moreover have "drop e buf' = 0 # drop (Suc e) buf'" using z by (metis Cons_nth_drop_Suc)
  ultimately have "drop q buf' = w @ 0 # drop (Suc e) buf'" by simp
  then show ?thesis using w by (simp add: cstring_def word_ok_def takeWhile_append2)
qed

lemma rep_ends: "rep buf es c t \<Longrightarrow> e \<in> ends c \<Longrightarrow> es \<le> e \<or> delim (buf ! e)"
proof (induction buf es c t rule: rep.induct)
  case (1 buf es args ws)
  then obtain q where "(q, e) \<in> set args" by auto
  then obtain w where "tok_at buf es q e w" using 1(1) by (auto simp: list_all2_conv_all_nth in_set_conv_nth)
  then show ?case by (auto simp: tok_at_def nth_append)
next
  case (2 buf es c q e' m f t w inp)
  then show ?case by (auto simp: tok_at_def nth_append)
qed auto

lemma rep_text: "rep buf es c t \<Longrightarrow> cut_ok buf es E buf' \<Longrightarrow> ends c \<subseteq> E \<Longrightarrow> text_of buf' c = t"
proof (induction buf es c t rule: rep.induct)
  case (1 buf es args ws)
  have "cstring buf' (fst (args ! i)) = ws ! i" if "i < length args" for i
  proof -
    have "tok_at buf es (fst (args ! i)) (snd (args ! i)) (ws ! i)" using 1(1) that by (auto simp: list_all2_conv_all_nth split_beta)
    moreover have "snd (args ! i) \<in> E" using 1(3) that by auto
    ultimately show ?thesis by (rule tok_cstring [OF _ 1(2)])
  qed
  then show ?case using 1(1) by (auto simp: list_all2_conv_all_nth split_beta intro!: nth_equalityI)
next
  case (2 buf es c q e m f t w inp)
  then show ?case by (auto intro: tok_cstring split: if_splits)
qed auto

lemma line_ok_strlen:
  assumes "0 \<in> set buf"
  shows "line_ok buf (length (takeWhile (\<lambda>c. c \<noteq> 0) buf))"
proof -
  obtain us vs where b: "buf = us @ 0 # vs" "0 \<notin> set us" using split_list_first [OF assms] by blast
  have "takeWhile (\<lambda>c. c \<noteq> 0) buf = us" unfolding b(1) using b(2) by (subst takeWhile_append2) (auto simp: eq_commute [of 0])
  then show ?thesis using b by (auto simp: line_ok_def nth_append) (metis nth_mem)
qed

section \<open>Properties\<close>

text \<open>
  (C23) Every line is parsed. For any line, \<open>parsecmd\<close> ends with a command or with one of its
  error messages. A command it returns is well formed: a simple command has fewer than
  \<open>MAXARGS\<close> arguments, so that \<open>argv\<close> and \<open>eargv\<close> have room for the final null pointer; the
  pointers point into the line or to its end; a redirection is one of the two kinds that
  exist. Only the contents of the buffer change, and nothing behind the line's end.
\<close>

theorem parsecmd_total:
  assumes "0 \<in> set buf"
  shows "case parsecmd buf of
      None \<Rightarrow> False
    | Some (Inl e) \<Rightarrow> True
    | Some (Inr (cmd, buf')) \<Rightarrow>
        wf_cmd (length (takeWhile (\<lambda>c. c \<noteq> 0) buf)) cmd \<and> length buf' = length buf \<and>
        drop (length (takeWhile (\<lambda>c. c \<noteq> 0) buf)) buf' = drop (length (takeWhile (\<lambda>c. c \<noteq> 0) buf)) buf"
proof -
  define es where "es = length (takeWhile (\<lambda>c. c \<noteq> 0) buf)"
  have ok: "line_ok buf es" unfolding es_def by (rule line_ok_strlen [OF assms])
  then have es: "es < length buf" and z: "buf ! es = 0" by (simp_all add: line_ok_def)
  have g: "good es 0 (wf_cmd es) (parseline (4 * es + 8) buf es 0)" using parse_good [OF ok, of 0 "4 * es + 8"] by simp
  have fin: "drop es (nulterminate cmd buf) = drop es buf" if "wf_cmd es cmd" for cmd
  proof -
    have "e \<le> es" if "e \<in> ends cmd" for e using \<open>wf_cmd es cmd\<close> that by (induction cmd) auto
    then have i0: "i = 0" if "es + i \<in> ends cmd" for i using that by fastforce
    show ?thesis
    proof (rule nth_equalityI)
      fix i assume "i < length (drop es (nulterminate cmd buf))"
      then show "drop es (nulterminate cmd buf) ! i = drop es buf ! i" using i0 [of i] z by (auto simp: nulterminate_nth)
    qed simp
  qed
  show ?thesis using g fin unfolding parsecmd_def es_def [symmetric]
    by (auto simp: good_def Let_def split: option.splits sum.splits prod.splits)
qed

lemma demo_printable: "printable (TPipe (TExec [[97], [98]]) (TRedir (TExec [[99]]) [100] False))"
  by (simp add: word_ok_def delim_def whitespace_def symbols_def MAXARGS_def)

theorem parsecmd_total_witness:
  "(case parsecmd [97, 62, 0] of None \<Rightarrow> False | Some (Inl e) \<Rightarrow> True
    | Some (Inr (cmd, buf')) \<Rightarrow> wf_cmd 2 cmd \<and> length buf' = 3 \<and> drop 2 buf' = [0])"
proof -
  have e: "length (takeWhile (\<lambda>c. c \<noteq> 0) [97, 62, 0 :: u8]) = 2" "length [97, 62, 0 :: u8] = 3" "drop 2 [97, 62, 0 :: u8] = [0]" by simp_all
  have "0 \<in> set [97, 62, 0 :: u8]" by simp
  from parsecmd_total [OF this] show ?thesis unfolding e .
qed

text \<open>
  (C3) Parsing undoes printing. Any command, of words without blanks, operators and zeros and
  with fewer than ten arguments each, is written down with parentheses around its parts;
  \<open>parsecmd\<close> on that line returns a tree whose strings in the buffer, which \<open>nulterminate\<close> has
  cut apart, are that command again.
\<close>

theorem parsecmd_unparse:
  assumes "printable t"
  shows "\<exists>cmd buf. parsecmd (unparse t @ 0 # rest) = Some (Inr (cmd, buf)) \<and> text_of buf cmd = t"
proof -
  let ?b = "unparse t @ 0 # rest" and ?es = "length (unparse t)"
  have n0: "0 \<notin> set (unparse t)" by (rule unparse_nonzero [OF assms])
  have tw: "takeWhile (\<lambda>c. c \<noteq> 0) ?b = unparse t" using n0 by (subst takeWhile_append2) (auto simp: eq_commute [of 0])
  have ok: "line_ok ([] @ unparse t @ 0 # rest) ?es" using line_ok_strlen [of ?b] by (simp add: tw)
  obtain cmd where c: "parseline (4 * ?es + 8) ?b ?es 0 = retP cmd ?es" "rep ?b ?es cmd t"
    using parsesD [OF parses_all [OF assms] ok, of "4 * ?es + 8"] by auto
  have pk: "peek ?b ?es ?es [] = (False, ?es)" using peek_at [of "unparse t" 0 rest ?es "[]"] ok n0 by simp
  have "parsecmd ?b = Some (Inr (cmd, nulterminate cmd ?b))" unfolding parsecmd_def tw by (simp add: c(1) retP_def pk)
  moreover have "text_of (nulterminate cmd ?b) cmd = t"
    by (rule rep_text [OF c(2), of "ends cmd"]) (use rep_ends [OF c(2)] in \<open>auto simp: cut_ok_def nulterminate_nth\<close>)
  ultimately show ?thesis by blast
qed

theorem parsecmd_unparse_witness:
  "\<exists>cmd buf. parsecmd (lit ''(a b )|((c )>d)'' @ [0]) = Some (Inr (cmd, buf)) \<and>
     text_of buf cmd = TPipe (TExec [[97], [98]]) (TRedir (TExec [[99]]) [100] False)"
  using parsecmd_unparse [OF demo_printable, of "[]"] by (simp add: lit_def)

end
