(* ===== verification/Shell.thy ===== *)
theory Shell
  imports Shparse
begin

text \<open>
  The shell (\<open>src/sh.c\<close>) apart from its parser: running a command with its processes, pipes
  and redirections, the list of jobs, and the main loop. Linked lists of jobs and of their
  processes are lists; following a null pointer is the fault \<open>null\<close>. Releasing memory with
  \<open>free\<close> has no effect that the model shows.
\<close>

unbundle bit_operations_syntax

section \<open>Running a command\<close>

definition panicU :: "string \<Rightarrow> 'a uprog" where
  "panicU s = seqU (printf 2 (''%s'' @ nl) [PStr (Some (lit s))]) (exitU 1)"

definition fork1 :: "int uprog" where
  "fork1 = bindU (callU Fork) (\<lambda>pid. if pid = - 1 then panicU ''fork'' else retU pid)"

text \<open>
  What \<open>strcpy(buf, (char*)&pid)\<close> leaves in \<open>buf\<close>: the bytes of the number up to the first
  zero. If none of the four bytes is zero, \<open>strcpy\<close> reads on behind \<open>pid\<close> and writes behind
  \<open>buf\<close>.
\<close>

definition pid_bytes :: "int \<Rightarrow> bytes option" where
  "pid_bytes pid =
     (let w = (of_int pid :: u32); bs = [ucast w, ucast (drop_bit 8 w), ucast (drop_bit 16 w), ucast (drop_bit 24 w)] in
      if 0 \<in> set bs then Some (takeWhile (\<lambda>c. c \<noteq> 0) bs) else None)"

text \<open>A string of the command has to end within the buffer.\<close>

definition terminated :: "bytes \<Rightarrow> nat \<Rightarrow> bool" where
  "terminated buf q = (0 \<in> set (drop q buf))"

text \<open>\<open>run_cmd\<close> is \<open>runcmd\<close> after the test for the null pointer; a command has no null pointers
  inside.\<close>

fun run_cmd :: "bytes \<Rightarrow> cmd \<Rightarrow> int \<Rightarrow> unit uprog" where
  "run_cmd buf (EXEC args) fdToShell =
     bindU fork1 (\<lambda>r.
     seqU (whenU (r = 0)
       (if args = [] then exitU 1
        else
          bindU (callU Getpid) (\<lambda>pid.
          case pid_bytes pid of
            None \<Rightarrow> faultU ''strcpy''
          | Some bs \<Rightarrow>
              seqU (callU (Write fdToShell bs))
              (seqU (callU (Close fdToShell))
              (if \<not> (\<forall>(q, e) \<in> set args. terminated buf q) then faultU ''string''
               else
                 let argv = map (\<lambda>(q, e). cstring buf q) args in
                 seqU (callU (Exec (hd argv) argv))
                 (seqU (printf 2 (''exec %s failed'' @ nl) [PStr (Some (hd argv))])
                 (exitU 1)))))))
     (seqU (callU (Close fdToShell))
     (seqU (callU Wait)
     (seqU (printf 2 ''$ '' []) (exitU 1)))))"
| "run_cmd buf (REDIR c q e mode fd) fdToShell =
     seqU (callU (Close fd))
     (if \<not> terminated buf q then faultU ''string''
      else bindU (callU (Open (cstring buf q) mode)) (\<lambda>r.
      if r < 0 then seqU (printf 2 (''open %s failed'' @ nl) [PStr (Some (cstring buf q))]) (exitU 1)
      else
        seqU (run_cmd buf c fdToShell)
        (seqU (printf 2 ''$ '' []) (exitU 1))))"
| "run_cmd buf (LIST l r) fdToShell =
     bindU fork1 (\<lambda>p.
     seqU (whenU (p = 0) (run_cmd buf l fdToShell))
     (seqU (callU Wait)
     (seqU (run_cmd buf r fdToShell)
     (seqU (printf 2 ''$ '' []) (exitU 1)))))"
| "run_cmd buf (PIPE l r) fdToShell =
     bindU (syscallU Pipe) (\<lambda>a.
     if r_ret a < 0 then panicU ''pipe''
     else
       let (p0, p1) = r_pipe a in
       bindU fork1 (\<lambda>x.
       seqU (whenU (x = 0)
         (seqU (callU (Close 1)) (seqU (callU (Dup p1)) (seqU (callU (Close p0)) (seqU (callU (Close p1))
         (run_cmd buf l fdToShell))))))
       (bindU fork1 (\<lambda>y.
       seqU (whenU (y = 0)
         (seqU (callU (Close 0)) (seqU (callU (Dup p0)) (seqU (callU (Close p0)) (seqU (callU (Close p1))
         (run_cmd buf r fdToShell))))))
       (seqU (callU (Close p0)) (seqU (callU (Close p1)) (seqU (callU (Close fdToShell))
       (seqU (callU Wait) (seqU (callU Wait)
       (seqU (printf 2 ''$ '' []) (exitU 1)))))))))))"
| "run_cmd buf (BACK c) fdToShell =
     seqU (printf 2 ''$ '' [])
     (seqU (run_cmd buf c fdToShell)
     (seqU (printf 2 ''$ '' []) (exitU 1)))"

definition runcmd :: "bytes \<Rightarrow> cmd option \<Rightarrow> int \<Rightarrow> unit uprog" where
  "runcmd buf cmd fdToShell = (case cmd of None \<Rightarrow> exitU 1 | Some c \<Rightarrow> run_cmd buf c fdToShell)"

section \<open>Jobs\<close>

definition FOREGROUND :: int where "FOREGROUND = 1"
definition BACKGROUND :: int where "BACKGROUND = 2"

record job =
  j_id :: int
  j_procs :: "int list"
  j_infd :: int
  j_type :: int
  j_cmd :: bytes

definition getJob :: "int \<Rightarrow> int \<Rightarrow> bytes \<Rightarrow> job" where
  "getJob jobId inputFd buf =
     \<lparr>j_id = jobId, j_procs = [], j_infd = inputFd, j_type = FOREGROUND, j_cmd = takeWhile (\<lambda>c. c \<noteq> 0) buf\<rparr>"

definition addProcessToJob :: "job \<Rightarrow> int \<Rightarrow> job" where
  "addProcessToJob j pid = j\<lparr>j_procs := pid # j_procs j\<rparr>"

fun findJobById :: "job list \<Rightarrow> int \<Rightarrow> nat option" where
  "findJobById [] pid = None"
| "findJobById (j # js) pid = (if j_id j = pid then Some 0 else map_option Suc (findJobById js pid))"

fun findForegroundJob :: "job list \<Rightarrow> job option" where
  "findForegroundJob [] = None"
| "findForegroundJob (j # js) = (if j_type j = FOREGROUND then Some j else findForegroundJob js)"

text \<open>\<open>pstat(pid, &stat) < 0 || stat.state == ZOMBIE\<close>\<close>

definition is_gone :: "int \<Rightarrow> bool uprog" where
  "is_gone pid = bindU (syscallU (Pstat pid)) (\<lambda>r. retU (r_ret r < 0 \<or> ps_state (r_pstat r) = 5))"

text \<open>
  The first loop of \<open>clearZombieProcesses\<close> looks for the new head. In the second one, \<open>done\<close>
  are the processes up to \<open>prevProcess\<close>, \<open>mid\<close> those between it and \<open>currentProcess\<close>, with which
  the third argument begins.
\<close>

fun zombies_head :: "int list \<Rightarrow> (int list) uprog" where
  "zombies_head [] = retU []"
| "zombies_head (p # ps) = bindU (is_gone p) (\<lambda>g. if g then zombies_head ps else retU (p # ps))"

fun zombies_rest :: "int list \<Rightarrow> int list \<Rightarrow> int list \<Rightarrow> (int list) uprog" where
  "zombies_rest done mid [] = retU (done @ mid)"
| "zombies_rest done mid (p # ps) =
     bindU (is_gone p) (\<lambda>g.
     if g then (case ps of [] \<Rightarrow> faultU ''null'' | q # ps' \<Rightarrow> zombies_rest done [q] ps')
     else zombies_rest (done @ mid @ [p]) [] ps)"

definition clearZombieProcesses :: "int list \<Rightarrow> (int list) uprog" where
  "clearZombieProcesses head =
     bindU (zombies_head head) (\<lambda>ps. case ps of [] \<Rightarrow> retU [] | p # ps' \<Rightarrow> zombies_rest [p] [] ps')"

definition clear_job :: "job \<Rightarrow> job uprog" where
  "clear_job j = bindU (clearZombieProcesses (j_procs j)) (\<lambda>ps. retU (j\<lparr>j_procs := ps\<rparr>))"

fun jobs_head :: "job list \<Rightarrow> (job list) uprog" where
  "jobs_head [] = retU []"
| "jobs_head (j # js) = bindU (clear_job j) (\<lambda>j. if j_procs j = [] then jobs_head js else retU (j # js))"

fun jobs_rest :: "job list \<Rightarrow> job list \<Rightarrow> job list \<Rightarrow> (job list) uprog" where
  "jobs_rest done mid [] = retU (done @ mid)"
| "jobs_rest done mid (j # js) =
     bindU (clear_job j) (\<lambda>j.
     if j_procs j = [] then (case js of [] \<Rightarrow> retU done | q # js' \<Rightarrow> jobs_rest done [q] js')
     else jobs_rest (done @ mid @ [j]) [] js)"

definition clearJobList :: "job list \<Rightarrow> (job list) uprog" where
  "clearJobList head =
     bindU (jobs_head head) (\<lambda>js. case js of [] \<Rightarrow> retU [] | j # js' \<Rightarrow> jobs_rest [j] [] js')"

text \<open>The names of the states, indexed by \<open>enum procstate\<close>.\<close>

definition state_names :: "string list" where
  "state_names = [''UNUSED'', ''EMBRYO'', ''SLEEP'', ''RUNNABLE'', ''RUNNING'', ''ZOMBIE'']"

definition print_proc :: "int \<Rightarrow> unit uprog" where
  "print_proc pid =
     bindU (syscallU (Pstat pid)) (\<lambda>r.
     if r_ret r = 0 then
       let st = r_pstat r in
       if ps_state st < 0 \<or> 5 < ps_state st then faultU ''states''
       else
         printf 2 (''%d: %s %d %d %s'' @ nl)
           [PNum (of_int pid), PStr (Some (cstring (ps_name st) 0)), PNum (ps_sz st), PNum (ps_nofile st),
            PStr (Some (lit (state_names ! nat (ps_state st))))]
     else retU ())"

definition print_job :: "job \<Rightarrow> unit uprog" where
  "print_job j =
     seqU (printf 2 ''Job %d: %s'' [PNum (of_int (j_id j)), PStr (Some (j_cmd j))])
     (forU (j_procs j) print_proc)"

definition printAllJobs :: "job list \<Rightarrow> unit uprog" where
  "printAllJobs js = (if js = [] then printf 2 (''There are no jobs'' @ nl) [] else forU js print_job)"

section \<open>The main loop\<close>

definition strlen_buf :: "bytes \<Rightarrow> nat" where
  "strlen_buf buf = length (takeWhile (\<lambda>c. c \<noteq> 0) buf)"

definition atoi_buf :: "bytes \<Rightarrow> int" where
  "atoi_buf s = sint (foldl (\<lambda>n c. n * 10 + ucast c - 48) 0 (takeWhile (\<lambda>c. 48 \<le> c \<and> c \<le> 57) s) :: u32)"

definition starts_with :: "bytes \<Rightarrow> string \<Rightarrow> bool" where
  "starts_with buf s = (take (length s) buf = lit s)"

definition getcmd :: "bytes \<Rightarrow> (int \<times> bytes) uprog" where
  "getcmd buf =
     bindU (gets (replicate (length buf) 0) (int (length buf))) (\<lambda>buf.
     retU (if buf ! 0 = 0 then - 1 else 0, buf))"

text \<open>The descriptor loop before the first prompt, and the loop that collects the pids.\<close>

fun open_console :: "nat \<Rightarrow> unit uprog" where
  "open_console 0 = blockU"
| "open_console (Suc k) =
     bindU (callU (Open (lit ''console'') O_RDWR)) (\<lambda>fd.
     if fd < 0 then retU ()
     else if fd \<ge> 3 then seqU (callU (Close fd)) (retU ())
     else open_console k)"

fun read_pids :: "nat \<Rightarrow> int \<Rightarrow> job \<Rightarrow> job uprog" where
  "read_pids 0 fd j = blockU"
| "read_pids (Suc k) fd j =
     bindU (syscallU (Read fd 4)) (\<lambda>r.
     if r_ret r > 0 then read_pids k fd (addProcessToJob j (sint (hd (r_data r))))
     else retU j)"

definition start_job :: "bytes \<Rightarrow> job list \<Rightarrow> int \<Rightarrow> (job list \<times> int) uprog" where
  "start_job buf jobs jobCount =
     bindU (syscallU Pipe) (\<lambda>jobPids.
     if r_ret jobPids < 0 then panicU ''jobPids error''
     else
       bindU (syscallU Pipe) (\<lambda>jobInput.
       if r_ret jobInput < 0 then panicU ''jobInput error''
       else
         let jobCount = jobCount + 1; newJob = getJob jobCount (snd (r_pipe jobInput)) buf in
         case parsecmd buf of
           None \<Rightarrow> blockU
         | Some (Inl (left, e)) \<Rightarrow>
             (case left of
                None \<Rightarrow> panicU e
              | Some l \<Rightarrow> seqU (printf 2 (''leftovers: %s'' @ nl) [PStr (Some l)]) (panicU e))
         | Some (Inr (newcmd, buf)) \<Rightarrow>
             let newJob = (case newcmd of BACK _ \<Rightarrow> newJob\<lparr>j_type := BACKGROUND\<rparr> | _ \<Rightarrow> newJob) in
             bindU fork1 (\<lambda>r.
             if r = 0 then
               seqU (callU (Close 0))
               (seqU (callU (Dup (fst (r_pipe jobInput))))
               (seqU (callU (Close (fst (r_pipe jobInput))))
               (seqU (callU (Close (snd (r_pipe jobInput))))
               (seqU (callU (Close (fst (r_pipe jobPids))))
               (seqU (runcmd buf (Some newcmd) (snd (r_pipe jobPids)))
               (retU (newJob # jobs, jobCount)))))))
             else
               seqU (callU (Close (fst (r_pipe jobInput))))
               (seqU (callU (Close (snd (r_pipe jobPids))))
               (bindU (loopU (\<lambda>k. read_pids k (fst (r_pipe jobPids)) newJob)) (\<lambda>newJob.
                seqU (callU (Close (fst (r_pipe jobPids))))
                (retU (newJob # jobs, jobCount))))))))"

text \<open>One round of the loop with the line in \<open>buf\<close>: the jobs and their count afterwards.\<close>

definition sh_line :: "bytes \<Rightarrow> job list \<Rightarrow> int \<Rightarrow> (job list \<times> int) uprog" where
  "sh_line buf jobs jobCount =
     bindU (clearJobList jobs) (\<lambda>jobs.
     case findForegroundJob jobs of
       Some j \<Rightarrow> seqU (callU (Write (j_infd j) (cstring buf 0))) (retU (jobs, jobCount))
     | None \<Rightarrow>
         if starts_with buf ''cd '' then
           let buf = buf[strlen_buf buf - 1 := 0]; path = cstring buf 3 in
           bindU (callU (Chdir path)) (\<lambda>r.
           seqU (whenU (r < 0) (printf 2 (''cannot cd %s'' @ nl) [PStr (Some path)]))
           (seqU (printf 2 ''$ '' []) (retU (jobs, jobCount))))
         else if starts_with buf ''jobs'' then
           seqU (printAllJobs jobs) (seqU (printf 2 ''$ '' []) (retU (jobs, jobCount)))
         else if starts_with buf ''fg '' then
           let buf = buf[strlen_buf buf - 1 := 0] in
           (case findJobById jobs (atoi_buf (drop 3 buf)) of
              None \<Rightarrow> faultU ''null''
            | Some i \<Rightarrow> retU (jobs[i := (jobs ! i)\<lparr>j_type := FOREGROUND\<rparr>], jobCount))
         else if starts_with buf ''fg'' then
           (case jobs of [] \<Rightarrow> faultU ''null'' | j # js \<Rightarrow> retU (j\<lparr>j_type := FOREGROUND\<rparr> # js, jobCount))
         else start_job buf jobs jobCount)"

fun sh_loop :: "nat \<Rightarrow> bytes \<Rightarrow> job list \<Rightarrow> int \<Rightarrow> (job list) uprog" where
  "sh_loop 0 buf jobs jobCount = blockU"
| "sh_loop (Suc k) buf jobs jobCount =
     bindU (getcmd buf) (\<lambda>(r, buf).
     if r \<ge> 0 then bindU (sh_line buf jobs jobCount) (\<lambda>(jobs, jobCount). sh_loop k buf jobs jobCount)
     else retU jobs)"

text \<open>\<open>deleteJobList\<close>, which only releases memory before the shell ends, is left out.\<close>

definition sh_main :: "unit uprog" where
  "sh_main =
     seqU (loopU open_console)
     (seqU (printf 2 ''$ '' [])
     (bindU (loopU (\<lambda>k. sh_loop k (replicate 100 0) [] 0)) (\<lambda>jobs. exitU 1)))"

section \<open>Lemmas: programs that end\<close>

text \<open>
  \<open>quietU p\<close>: the program neither exits nor faults. \<open>noreturn p\<close>: it does not return, and ends
  with \<open>exit(1)\<close> if it ends, but for the fault of \<open>strcpy\<close> with a large pid.
\<close>

definition quietU :: "'a uprog \<Rightarrow> bool" where
  "quietU p = (\<forall>s. (\<exists>a t. p s = UOk a t \<and> set (answers t) \<subseteq> set (answers s)) \<or> (\<exists>t. p s = UBlocked t))"

definition big_pid :: "uret \<Rightarrow> bool" where
  "big_pid r = (r_ret r < 0 \<or> 2 ^ 24 \<le> r_ret r)"

definition noreturn :: "'a uprog \<Rightarrow> bool" where
  "noreturn p = (\<forall>s. case p s of
       UOk _ _ \<Rightarrow> False
     | UExited n t \<Rightarrow> n = 1 \<and> last (calls t) = Exit 1
     | UBlocked _ \<Rightarrow> True
     | UFault w t \<Rightarrow> w = ''strcpy'' \<and> last (calls t) = Getpid \<and> (\<exists>r \<in> set (answers s). big_pid r))"

named_theorems quietU_intros

lemma quietU_ret [quietU_intros]: "quietU (retU a)"
  by (simp add: quietU_def)

lemma quietU_syscall [quietU_intros]: "quietU (syscallU c)"
  by (auto simp: quietU_def syscallU_def split: list.split)

lemma quietU_D: "quietU p \<Longrightarrow> (\<exists>a t. p s = UOk a t \<and> set (answers t) \<subseteq> set (answers s)) \<or> (\<exists>t. p s = UBlocked t)"
  unfolding quietU_def by blast

lemma quietU_bind [quietU_intros]:
  assumes "quietU p" "\<And>a. quietU (f a)"
  shows "quietU (bindU p f)"
  unfolding quietU_def
proof
  fix s
  consider a u where "p s = UOk a u" "set (answers u) \<subseteq> set (answers s)" | u where "p s = UBlocked u"
    using quietU_D [OF assms(1), of s] by blast
  then show "(\<exists>a t. bindU p f s = UOk a t \<and> set (answers t) \<subseteq> set (answers s)) \<or> (\<exists>t. bindU p f s = UBlocked t)"
  proof cases
    case 1
    then show ?thesis using quietU_D [OF assms(2), of a u] by (auto simp: bindU_run)
  qed (simp add: bindU_run)
qed

lemma quietU_seq [quietU_intros]: "quietU p \<Longrightarrow> quietU q \<Longrightarrow> quietU (seqU p q)"
  unfolding seqU_def by (rule quietU_bind)

lemma quietU_call [quietU_intros]: "quietU (callU c)"
  unfolding callU_def by (intro quietU_intros)

lemma quietU_putc [quietU_intros]: "quietU (putc fd c)"
  unfolding putc_def by (intro quietU_intros)

lemma quietU_for [quietU_intros]: "(\<And>x. quietU (f x)) \<Longrightarrow> quietU (forU xs f)"
  by (induction xs) (auto intro: quietU_intros simp del: retU_run)

lemma quietU_printf_s:
  "quietU (printf 2 (''%s'' @ nl) [PStr a])" "quietU (printf 2 ''$ '' [])" "quietU (printf 2 (''exec %s failed'' @ nl) [PStr a])"
  "quietU (printf 2 (''open %s failed'' @ nl) [PStr a])"
  by (auto simp: printf_def lit_def nl_def intro!: quietU_intros simp del: retU_run)

lemma noreturn_exit: "noreturn (exitU 1)"
  by (simp add: noreturn_def)

lemma noreturn_bind:
  assumes "quietU p" "\<And>a. noreturn (f a)"
  shows "noreturn (bindU p f)"
  unfolding noreturn_def
proof
  fix s
  consider a u where "p s = UOk a u" "set (answers u) \<subseteq> set (answers s)" | u where "p s = UBlocked u"
    using quietU_D [OF assms(1), of s] by blast
  then show "case bindU p f s of UOk _ _ \<Rightarrow> False | UExited n t \<Rightarrow> n = 1 \<and> last (calls t) = Exit 1 | UBlocked _ \<Rightarrow> True
     | UFault w t \<Rightarrow> w = ''strcpy'' \<and> last (calls t) = Getpid \<and> (\<exists>r \<in> set (answers s). big_pid r)"
  proof cases
    case 1
    then show ?thesis using assms(2) [of a, unfolded noreturn_def, rule_format, of u]
      by (auto simp: bindU_run split: uout.splits)
  qed (simp add: bindU_run)
qed

text \<open>A pid below \<open>2\<^sup>2\<^sup>4\<close> has a zero byte.\<close>

lemma pid_bytes_small:
  assumes "0 \<le> pid" "pid < 2 ^ 24"
  shows "pid_bytes pid \<noteq> None"
proof -
  let ?w = "of_int pid :: u32"
  have "uint ?w = pid" using assms by (simp add: uint_word_of_int)
  then have "uint ?w div 2 ^ 24 = 0" using assms by simp
  then have "drop_bit 24 ?w = 0" by (simp only: word_uint_eq_iff drop_bit_eq_div uint_div_distrib) simp
  then show ?thesis by (simp add: pid_bytes_def Let_def)
qed

lemma noreturn_getpid:
  assumes "\<And>bs. noreturn (f bs)"
  shows "noreturn (bindU (callU Getpid) (\<lambda>pid. case pid_bytes pid of None \<Rightarrow> faultU ''strcpy'' | Some bs \<Rightarrow> f bs))"
    (is "noreturn ?p")
  unfolding noreturn_def
proof
  fix s
  show "case ?p s of UOk _ _ \<Rightarrow> False | UExited n t \<Rightarrow> n = 1 \<and> last (calls t) = Exit 1 | UBlocked _ \<Rightarrow> True
     | UFault w t \<Rightarrow> w = ''strcpy'' \<and> last (calls t) = Getpid \<and> (\<exists>r \<in> set (answers s). big_pid r)"
  proof (cases "answers s")
    case Nil
    then show ?thesis by (simp add: bindU_run callU_blocked)
  next
    case (Cons r rs)
    let ?u = "s\<lparr>answers := rs, calls := calls s @ [Getpid]\<rparr>"
    show ?thesis
    proof (cases "pid_bytes (r_ret r)")
      case None
      then have "big_pid r" using pid_bytes_small [of "r_ret r"] unfolding big_pid_def by force
      then show ?thesis using Cons None by (simp add: bindU_run callU_run)
    next
      case (Some bs)
      then show ?thesis using Cons assms [of bs, unfolded noreturn_def, rule_format, of ?u]
        by (auto simp: bindU_run callU_run split: uout.splits)
    qed
  qed
qed

lemma noreturn_seq: "quietU p \<Longrightarrow> noreturn q \<Longrightarrow> noreturn (seqU p q)"
  unfolding seqU_def by (rule noreturn_bind)

lemma noreturn_seq_left: "noreturn p \<Longrightarrow> noreturn (seqU p q)"
  unfolding noreturn_def by (auto simp: seqU_run split: uout.splits)

lemma noreturn_when: "noreturn q \<Longrightarrow> (b \<Longrightarrow> noreturn p) \<Longrightarrow> noreturn (seqU (whenU b p) q)"
  by (cases b) (auto simp: whenU_def intro: noreturn_seq_left noreturn_seq quietU_ret simp del: retU_run)

lemma noreturn_if: "(b \<Longrightarrow> noreturn p) \<Longrightarrow> (\<not> b \<Longrightarrow> noreturn q) \<Longrightarrow> noreturn (if b then p else q)"
  by simp

lemma noreturn_panic: "noreturn (panicU e)"
  unfolding panicU_def by (rule noreturn_seq [OF quietU_printf_s(1) noreturn_exit])

lemma noreturn_fork1:
  assumes "\<And>a. noreturn (f a)"
  shows "noreturn (bindU fork1 f)"
proof -
  have "noreturn (bindU (if pid = - 1 then panicU ''fork'' else retU pid) f)" for pid
  proof (cases "pid = - 1")
    case True
    then show ?thesis using noreturn_seq_left [OF noreturn_panic] noreturn_panic [of "''fork''"]
      unfolding noreturn_def by (auto simp: bindU_run split: uout.splits)
  next
    case False
    then show ?thesis using assms [of pid] by (simp del: retU_run)
  qed
  then show ?thesis unfolding fork1_def bindU_assoc by (rule noreturn_bind [OF quietU_call])
qed

lemma terminated_before: "q \<le> es \<Longrightarrow> es < length buf \<Longrightarrow> buf ! es = 0 \<Longrightarrow> terminated buf q"
  unfolding terminated_def in_set_conv_nth by (intro exI [of _ "es - q"]) auto

lemma run_cmd_noreturn: "wf_cmd es c \<Longrightarrow> es < length buf \<Longrightarrow> buf ! es = 0 \<Longrightarrow> noreturn (run_cmd buf c fd)"
proof (induction c arbitrary: fd)
  case (EXEC args)
  then have a: "\<forall>(q, e) \<in> set args. terminated buf q" using terminated_before [of _ es buf] by fastforce
  show ?case unfolding run_cmd.simps Let_def eqTrueI [OF a] not_True_eq_False if_False
    by (rule noreturn_fork1 noreturn_getpid noreturn_when noreturn_if noreturn_exit noreturn_seq noreturn_bind quietU_call quietU_printf_s)+
next
  case (REDIR c q e m f)
  then have a: "terminated buf q" "wf_cmd es c" using terminated_before [of q es buf] by auto
  show ?case unfolding run_cmd.simps eqTrueI [OF a(1)] not_True_eq_False if_False
    by ((rule noreturn_seq_left, rule REDIR.IH [OF a(2) REDIR.prems(2,3)]) | rule noreturn_if noreturn_exit noreturn_seq noreturn_bind quietU_call quietU_printf_s)+
next
  case (PIPE l r)
  then have a: "noreturn (run_cmd buf l f)" "noreturn (run_cmd buf r f)" for f by simp_all
  show ?case unfolding run_cmd.simps Let_def split_beta
    by (rule a noreturn_fork1 noreturn_when noreturn_if noreturn_exit noreturn_panic noreturn_seq noreturn_bind quietU_call quietU_syscall quietU_printf_s)+
next
  case (LIST l r)
  then have a: "noreturn (run_cmd buf l f)" "noreturn (run_cmd buf r f)" for f by simp_all
  show ?case unfolding run_cmd.simps
    by ((rule noreturn_seq_left, rule a) | rule a noreturn_fork1 noreturn_when noreturn_exit noreturn_seq quietU_call quietU_printf_s)+
next
  case (BACK c)
  then have a: "noreturn (run_cmd buf c f)" for f by simp
  show ?case unfolding run_cmd.simps
    by ((rule noreturn_seq_left, rule a) | rule noreturn_exit noreturn_seq quietU_printf_s)+
qed

lemma parsecmd_command:
  assumes "0 \<in> set line" "parsecmd line = Some (Inr (c, buf))"
  shows "\<exists>es. wf_cmd es c \<and> es < length buf \<and> buf ! es = 0"
proof -
  define es where "es = length (takeWhile (\<lambda>c. c \<noteq> 0) line)"
  have ok: "line_ok line es" unfolding es_def by (rule line_ok_strlen [OF assms(1)])
  obtain s where p: "parseline (4 * es + 8) line es 0 = Some (Inr (c, s))" "buf = nulterminate c line"
    using assms(2) unfolding parsecmd_def es_def [symmetric]
    by (auto simp: Let_def split: option.splits sum.splits prod.splits if_splits)
  have "wf_cmd es c" using parse_good [OF ok, of 0 "4 * es + 8"] p(1) by (simp add: good_def)
  moreover have "es < length buf" "buf ! es = 0" using ok by (simp_all add: p(2) line_ok_def nulterminate_nth)
  ultimately show ?thesis by blast
qed

section \<open>Lemmas: finished processes\<close>

definition gone :: "uret \<Rightarrow> bool" where
  "gone r = (r_ret r < 0 \<or> ps_state (r_pstat r) = 5)"

lemma is_gone_run: "answers s = r # rs \<Longrightarrow> is_gone p s = UOk (gone r) (after [Pstat p] s)"
  by (simp add: is_gone_def bindU_run syscallU_run gone_def after_def)

lemma zombies_head_run:
  "answers s = rs @ rest \<Longrightarrow> length rs = length ds \<Longrightarrow> \<forall>r \<in> set rs. gone r \<Longrightarrow> ps = [] \<or> (\<exists>r rest'. rest = r # rest' \<and> \<not> gone r) \<Longrightarrow>
   zombies_head (ds @ ps) s = UOk ps (after (map Pstat (ds @ take 1 ps)) s)"
proof (induction ds arbitrary: rs s)
  case Nil
  then show ?case by (cases ps) (auto simp: bindU_run is_gone_run)
next
  case (Cons d ds)
  then obtain r rs' where r: "rs = r # rs'" "gone r" by (cases rs) auto
  have "answers (after [Pstat d] s) = rs' @ rest" using Cons.prems(1) r by simp
  from Cons.IH [OF this] Cons.prems r show ?case by (simp add: bindU_run is_gone_run)
qed

lemma zombies_rest_live:
  "answers s = rs @ rest \<Longrightarrow> length rs = length ls \<Longrightarrow> \<forall>r \<in> set rs. \<not> gone r \<Longrightarrow>
   zombies_rest dn [] (ls @ ps) s = zombies_rest (dn @ ls) [] ps (after (map Pstat ls) s)"
proof (induction ls arbitrary: rs s dn)
  case (Cons p ls)
  then obtain r rs' where r: "rs = r # rs'" "\<not> gone r" by (cases rs) auto
  have "answers (after [Pstat p] s) = rs' @ rest" using Cons.prems(1) r by simp
  from Cons.IH [OF this] Cons.prems r show ?case by (simp add: bindU_run is_gone_run)
qed simp

lemma zombies_rest_all_live:
  assumes "answers s = rs @ rest" "length rs = length ps" "\<forall>r \<in> set rs. \<not> gone r"
  shows "zombies_rest dn mid ps s = UOk (dn @ mid @ ps) (after (map Pstat ps) s)"
proof (cases ps)
  case (Cons p ps')
  then obtain r rs' where r: "rs = r # rs'" "\<not> gone r" using assms by (cases rs) auto
  have "answers (after [Pstat p] s) = rs' @ rest" using assms(1) r by simp
  from zombies_rest_live [OF this, of ps' "dn @ mid @ [p]" "[]"] assms Cons r show ?thesis
    by (simp add: bindU_run is_gone_run)
qed (use assms in simp)

text \<open>Finished processes in front, then running ones: the second loop begins behind those.\<close>

lemma clearZombieProcesses_front:
  assumes "answers s = rs @ as @ rest" "length rs = length ds" "length as = length ls" "ls \<noteq> []"
    "\<forall>r \<in> set rs. gone r" "\<forall>r \<in> set as. \<not> gone r"
  shows "clearZombieProcesses (ds @ ls @ ps) s = zombies_rest ls [] ps (after (map Pstat (ds @ ls)) s)"
proof -
  obtain l ls' where l: "ls = l # ls'" using assms(4) by (cases ls) auto
  then obtain a as' where a: "as = a # as'" using assms(3) by (cases as) auto
  have h: "zombies_head (ds @ ls @ ps) s = UOk (ls @ ps) (after (map Pstat (ds @ [l])) s)"
    using zombies_head_run [OF assms(1,2,5), of "ls @ ps"] a l assms(6) by simp
  have "zombies_rest [l] [] (ls' @ ps) (after (map Pstat (ds @ [l])) s) =
      zombies_rest ([l] @ ls') [] ps (after (map Pstat ls') (after (map Pstat (ds @ [l])) s))"
    by (rule zombies_rest_live [of _ as' rest]) (use assms a l in auto)
  then show ?thesis using h l by (simp add: clearZombieProcesses_def bindU_run)
qed

section \<open>Properties\<close>

text \<open>
  (C16) \<open>runcmd\<close> never returns, as its comment says. For every command that \<open>parsecmd\<close> makes of a
  line, and for the null pointer, and whatever the kernel answers, each of the processes that
  execute it either waits in a system call (a successful \<open>exec\<close> does not come back) or ends
  with \<open>exit(1)\<close>. It faults only where it copies the answer of \<open>getpid\<close> as a string, and this
  only if the answer is negative or at least \<open>2\<^sup>2\<^sup>4\<close>.
\<close>

theorem runcmd_never_returns:
  assumes "0 \<in> set line" "parsecmd line = Some (Inr (c, buf))" "cmd = None \<or> cmd = Some c"
  shows "case runcmd buf cmd fd s of
     UOk _ _ \<Rightarrow> False
   | UExited n t \<Rightarrow> n = 1 \<and> last (calls t) = Exit 1
   | UBlocked _ \<Rightarrow> True
   | UFault w t \<Rightarrow> w = ''strcpy'' \<and> last (calls t) = Getpid \<and> (\<exists>r \<in> set (answers s). r_ret r < 0 \<or> 2 ^ 24 \<le> r_ret r)"
proof -
  obtain es where "wf_cmd es c" "es < length buf" "buf ! es = 0" using parsecmd_command [OF assms(1,2)] by blast
  then have "noreturn (runcmd buf cmd fd)"
    using assms(3) run_cmd_noreturn [of es c buf fd] noreturn_exit by (auto simp: runcmd_def simp del: exitU_run)
  then show ?thesis unfolding noreturn_def big_pid_def by blast
qed

definition num_answer :: "int \<Rightarrow> uret" where
  "num_answer n = \<lparr>r_ret = n, r_data = [], r_pipe = (0, 0), r_stat = \<lparr>st_type = 0, st_ino = 0, st_size = 0\<rparr>,
     r_pstat = \<lparr>ps_name = [], ps_sz = 0, ps_nofile = 0, ps_state = 0\<rparr>\<rparr>"

text \<open>The line \<open>a\<close>: one command with one argument.\<close>

lemma parse_demo: "parsecmd [97, 0] = Some (Inr (EXEC [(0, 1)], [97, 0]))"
  by code_simp

theorem runcmd_never_returns_witness:
  "case runcmd [97, 0] (Some (EXEC [(0, 1)])) 3 \<lparr>answers = [num_answer 0, num_answer 7, num_answer 1], calls = []\<rparr> of
     UOk _ _ \<Rightarrow> False | UExited n t \<Rightarrow> n = 1 | UBlocked _ \<Rightarrow> True | UFault w t \<Rightarrow> False"
proof -
  let ?s = "\<lparr>answers = [num_answer 0, num_answer 7, num_answer 1], calls = []\<rparr>"
  have "\<not> (\<exists>r \<in> set (answers ?s). r_ret r < 0 \<or> 2 ^ 24 \<le> r_ret r)" by (simp add: num_answer_def)
  with runcmd_never_returns [OF _ parse_demo, where cmd = "Some (EXEC [(0, 1)])" and fd = 3 and s = ?s] show ?thesis
    by (auto split: uout.splits)
qed

text \<open>
  (C39) \<open>clearZombieProcesses\<close>, on a list that begins with any number of finished processes
  \<open>ds\<close>. It is right if only running ones \<open>ps\<close> follow: it asks for the state of every process
  once and returns \<open>ps\<close>. But behind a running process it handles a finished one wrongly. If
  \<open>p\<close>, behind the running \<open>ls\<close>, has finished, then it follows a null pointer when \<open>p\<close> is the
  last of the list; it keeps the process \<open>q\<close> behind \<open>p\<close> without asking for its state; and
  when the process \<open>r\<close> behind \<open>q\<close> has finished, too, it takes \<open>q\<close> out of the list, although
  \<open>q\<close> may be running, and keeps the one behind \<open>r\<close> without asking.
\<close>

theorem clearZombieProcesses_behaviour:
  assumes ds: "length rs = length ds" "\<forall>r \<in> set rs. gone r"
    and ls: "length as = length ls" "ls \<noteq> []" "\<forall>r \<in> set as. \<not> gone r"
    and ms: "length bs = length ms" "\<forall>r \<in> set bs. \<not> gone r"
    and gone: "gone x" "gone y"
  shows "(answers s = rs \<longrightarrow> clearZombieProcesses ds s = UOk [] (after (map Pstat ds) s)) \<and>
    (answers s = rs @ as \<longrightarrow> clearZombieProcesses (ds @ ls) s = UOk ls (after (map Pstat (ds @ ls)) s)) \<and>
    (answers s = rs @ as @ [x] \<longrightarrow>
       clearZombieProcesses (ds @ ls @ [p]) s = UFault ''null'' (after (map Pstat (ds @ ls @ [p])) s)) \<and>
    (answers s = rs @ as @ [x] @ bs \<longrightarrow>
       clearZombieProcesses (ds @ ls @ [p, q] @ ms) s = UOk (ls @ [q] @ ms) (after (map Pstat (ds @ ls @ [p] @ ms)) s)) \<and>
    (answers s = rs @ as @ [x, y] @ bs \<longrightarrow>
       clearZombieProcesses (ds @ ls @ [p, q, r, u] @ ms) s = UOk (ls @ [u] @ ms) (after (map Pstat (ds @ ls @ [p, r] @ ms)) s))"
proof (intro conjI impI)
  note front = clearZombieProcesses_front [OF _ ds(1) ls(1,2) ds(2) ls(3)]
  show "clearZombieProcesses ds s = UOk [] (after (map Pstat ds) s)" if "answers s = rs"
    using zombies_head_run [of s rs "[]" ds "[]"] that ds by (simp add: clearZombieProcesses_def bindU_run)
  show "clearZombieProcesses (ds @ ls) s = UOk ls (after (map Pstat (ds @ ls)) s)" if "answers s = rs @ as"
    using front [of s "[]" "[]"] that by simp
  show "clearZombieProcesses (ds @ ls @ [p]) s = UFault ''null'' (after (map Pstat (ds @ ls @ [p])) s)"
    if a: "answers s = rs @ as @ [x]"
    using front [OF a, of "[p]"] a gone ds(1) ls(1) by (simp add: bindU_run is_gone_run)
  show "clearZombieProcesses (ds @ ls @ [p, q] @ ms) s = UOk (ls @ [q] @ ms) (after (map Pstat (ds @ ls @ [p] @ ms)) s)"
    if a: "answers s = rs @ as @ [x] @ bs"
  proof -
    let ?t = "after (map Pstat (ds @ ls @ [p])) s"
    have "answers ?t = bs @ []" using a ds(1) ls(1) by simp
    from zombies_rest_all_live [OF this ms(1,2), of ls "[q]"] front [OF a, of "[p, q] @ ms"] a gone ds(1) ls(1)
    show ?thesis by (simp add: bindU_run is_gone_run)
  qed
  show "clearZombieProcesses (ds @ ls @ [p, q, r, u] @ ms) s = UOk (ls @ [u] @ ms) (after (map Pstat (ds @ ls @ [p, r] @ ms)) s)"
    if a: "answers s = rs @ as @ [x, y] @ bs"
  proof -
    let ?t = "after (map Pstat (ds @ ls @ [p, r])) s"
    have "answers ?t = bs @ []" using a ds(1) ls(1) by simp
    from zombies_rest_all_live [OF this ms(1,2), of ls "[u]"] front [OF a, of "[p, q, r, u] @ ms"] a gone ds(1) ls(1)
    show ?thesis by (simp add: bindU_run is_gone_run)
  qed
qed

definition ps_answer :: "int \<Rightarrow> uret" where
  "ps_answer st = (num_answer 0)\<lparr>r_pstat := \<lparr>ps_name = [], ps_sz = 0, ps_nofile = 0, ps_state = st\<rparr>\<rparr>"

lemma gone_answer [simp]: "gone (ps_answer st) \<longleftrightarrow> st = 5"
  by (simp add: gone_def ps_answer_def num_answer_def)

theorem clearZombieProcesses_behaviour_witness:
  "(\<exists>t. clearZombieProcesses [4, 5] \<lparr>answers = [ps_answer 5, ps_answer 2], calls = []\<rparr> = UOk [5] t) \<and>
   (\<exists>t. clearZombieProcesses [4, 5, 6] \<lparr>answers = [ps_answer 5, ps_answer 2, ps_answer 5], calls = []\<rparr> = UFault ''null'' t) \<and>
   (\<exists>t. clearZombieProcesses [4, 5, 6, 7, 8, 9] \<lparr>answers = [ps_answer 5, ps_answer 2, ps_answer 5, ps_answer 5], calls = []\<rparr> = UOk [5, 9] t)"
proof -
  note c = clearZombieProcesses_behaviour [of "[ps_answer 5]" "[4]" "[ps_answer 2]" "[5]" "[]" "[]" "ps_answer 5" "ps_answer 5"]
  show ?thesis
    using c [of "\<lparr>answers = [ps_answer 5, ps_answer 2], calls = []\<rparr>"]
      c [of "\<lparr>answers = [ps_answer 5, ps_answer 2, ps_answer 5], calls = []\<rparr>" 6]
      c [of "\<lparr>answers = [ps_answer 5, ps_answer 2, ps_answer 5, ps_answer 5], calls = []\<rparr>" 6 7 8 9] by simp
qed




end
