(* ===== verification/Spec2Isabelle.thy ===== *)
theory Spec2Isabelle
  imports Trap Tty Mkimage Grep Shell
begin

text \<open>
  Verification of an xv6 kernel for the x86, its user library, its shell with job control, its
  \<open>grep\<close> and the program that builds its disk image. The sources are the C files under \<open>src\<close>.

  \<^bold>\<open>The program.\<close> Spin locks (\<open>spinlock.c\<close>) protect every shared structure. The page allocator
  (\<open>kalloc.c\<close>) serves the page tables (\<open>vm.c\<close>), the kernel stacks of processes (\<open>proc.c\<close>) and the
  pipes (\<open>pipe.c\<close>). The file system is a stack: the disk (\<open>memide.c\<close>), the buffer cache (\<open>bio.c\<close>),
  the redo log (\<open>log.c\<close>), blocks, inodes, directories and paths (\<open>fs.c\<close>), open files (\<open>file.c\<close>) and
  the system calls (\<open>sysfile.c\<close>, \<open>sysproc.c\<close>), which \<open>trap.c\<close> and \<open>syscall.c\<close> dispatch. The console
  (\<open>console.c\<close>, \<open>uart.c\<close>, \<open>kbd.c\<close>) is reached as a file. User programs run on top of the system
  calls of \<open>user.h\<close>.

  \<^bold>\<open>Kernel models.\<close> A kernel operation is a function from the state to an outcome: a result and a
  new state, a panic, a switch to the scheduler, or spinning for ever (\<open>Prelude\<close>). The state is
  a record to which each component adds its fields, so an operation runs on the state of every
  later component. Definitions keep the names of the C functions; a loop is a function of its
  own, named after the function it is in, and what a process does after it has slept is the
  definition with the suffix \<open>resume\<close>.

  \<^item> \<open>Spinlock\<close>: locks and interrupt nesting (\<open>spinlock.c\<close>), interleaved by any number of CPUs.
    Lemmas: mutual exclusion, no panic; a call of \<open>acquire\<close> or \<open>release\<close> is a sequence of the
    interleaved steps (\<open>acquire_steps\<close>, \<open>release_steps\<close>); the locale \<open>critical_section\<close> is the
    contract of the two that the later theories use.
  \<^item> \<open>StringC\<close>: the memory and string routines (\<open>string.c\<close>) with their closed forms.
  \<^item> \<open>Kalloc\<close>: the page allocator with its list in the free pages. The locale \<open>page_allocator\<close>
    says that pages in use are never handed out again, whatever their owners write to them.
  \<^item> \<open>Vm\<close>: page tables in memory, refined to the map from virtual pages to frames and flags.
  \<^item> \<open>Proc\<close>, \<open>Life\<close>: the process table, scheduling, sleeping and waking, \<open>wait\<close> and \<open>kill\<close>; \<open>fork\<close>,
    \<open>exit\<close> and the first process. The CPUs and processes interleave as a step relation with an
    invariant; \<open>sleep\<close> is a list of statements (\<open>sleep_steps\<close>), so that what another CPU can do
    between two of them is stated, too.
  \<^item> \<open>Pipe\<close>: pipes, refined to a byte queue (locale \<open>byte_queue\<close>).
  \<^item> \<open>Bio\<close>, \<open>Log\<close>: the cache on the memory disk, and the log. The history of disk writes is part
    of the state; a crash keeps a prefix of it.
  \<^item> \<open>Inode\<close>, \<open>Fs\<close>, \<open>Fsdata\<close>: bitmap, inodes and their cache; reading, writing, directories and
    paths; and the contents of a file as a byte sequence that \<open>readi\<close> and \<open>writei\<close> act on.
  \<^item> \<open>Console\<close>, \<open>Tty\<close>: the console with its devices, and the ring buffer of the input refined to
    a line editor.
  \<^item> \<open>File\<close>, \<open>Exec\<close>, \<open>Sysproc\<close>, \<open>Sysfile\<close>, \<open>Trap\<close>: open files, program loading, the arguments and
    bodies of the system calls with their error paths, and the trap handler.

  \<^bold>\<open>User models.\<close> A user program is a function of the answers that the kernel gives to its system
  calls; it ends with a result, an exit status, blocked, or a fault, which is an access to
  memory outside of the object that a pointer points into (\<open>User\<close>). A claim for all
  answers holds for every kernel and all other processes.

  \<^item> \<open>Ulib\<close>: \<open>ulib.c\<close> and \<open>printf.c\<close>; printing a number and reading it back.
  \<^item> \<open>Grep\<close>: the matcher of \<open>grep.c\<close> against the language of a pattern, and its buffer handling.
  \<^item> \<open>Shparse\<close>, \<open>Shell\<close>: the tokenizer and parser of \<open>sh.c\<close>, with a printer that it inverts; running
    commands, the list of jobs, the built-in commands and the main loop.
  \<^item> \<open>Mkfs\<close>, \<open>Mkinode\<close>, \<open>Mkimage\<close>: the image builder \<open>mkfs.c\<close>, the invariant of the image, and the
    composition with the kernel: what the kernel's functions read from the image is what was
    put into it.

  \<^bold>\<open>Bounds.\<close> Recursion that is not structural has a fuel argument with a bound that is shown to be
  enough: the bytes left to copy for \<open>readi\<close>, \<open>writei\<close> and \<open>iappend\<close>, the number of pages of the address
  space for loops over pages (\<open>PGADDR_STEPS\<close>), \<open>2 ^ 20\<close> bitmap blocks for \<open>balloc\<close>, the bytes
  waiting at a device for \<open>consoleintr\<close>, four for every byte of a line and eight more for the parser
  (\<open>parse_good\<close>). Loops of user programs that end only when the kernel says so are bounded by
  the number of answers. Waiting for a lock or sleeping is an outcome, not a loop. Addresses,
  sizes, block and inode numbers, flags and characters are words of their width. A C \<open>int\<close>
  whose wrap-around can be reached is kept in its range by \<open>wrap32\<close> (\<open>nextpid\<close>) or read off a
  word with \<open>sint\<close>. Other counters are plain numbers: reference counts, nesting depths,
  indices into tables, the cursor position and descriptors, which the sizes of the tables
  bound, and the numbers of blocks and inodes of \<open>mkfs\<close>, which stay below 1024.

  \<^bold>\<open>What does not hold.\<close> Some theorems state where the code fails: \<open>allocuvm\<close> ignores a failed
  \<open>mappages\<close>, \<open>kill(0)\<close> marks an unused slot, \<open>begin_op\<close> admits more blocks than the log has,
  \<open>balloc\<close> hands out log blocks on a full disk, \<open>grep\<close> prints stale lines, the shell's removal of
  finished processes and its transfer of pids, and the two sizes that \<open>mkfs\<close> does not check.

  \<^bold>\<open>Not modelled.\<close> Code whose effect is on registers of the hardware: segment descriptors
  (\<open>seginit\<close>), the gates of the interrupt table, \<open>ide.c\<close> (the memory disk has its interface),
  \<open>lapic.c\<close>, \<open>ioapic.c\<close>, \<open>picirq.c\<close>, \<open>timer.c\<close>, the boot loader, and the assembly files. The tables of
  the firmware that \<open>mp.c\<close> reads. The user allocator \<open>umalloc.c\<close>: the shell's nodes and jobs are
  values, and allocating them is taken to succeed. The small user programs and the tests.
\<close>

end
